(* ===== verification/Prelude.thy ===== *)
theory Prelude
  imports Main "HOL-Library.Word" "HOL-Library.Code_Target_Nat"
begin

text \<open>
  Shared vocabulary of the development: machine-integer and byte types, results with
  errors as values, little-endian byte strings, and the generic lemmas on lists, options
  and words that the component theories use.
\<close>

unbundle bit_operations_syntax

section \<open>Types\<close>

type_synonym byte = "8 word"
type_synonym bytes = "8 word list"
type_synonym u16 = "16 word"
type_synonym u32 = "32 word"
type_synonym u64 = "64 word"
type_synonym uint256 = "256 word"

text \<open>Fallible code returns \<open>Inl\<close> of the message of the exception or \<open>Inr\<close> of its result.\<close>

type_synonym 'a res = "string + 'a"

named_theorems res_simps \<open>evaluation and inversion of results\<close>
named_theorems le_simps \<open>little-endian byte strings\<close>
named_theorems wire_intros \<open>round trips of the wire format\<close>

definition res_bind :: "('e + 'a) \<Rightarrow> ('a \<Rightarrow> 'e + 'b) \<Rightarrow> 'e + 'b" where
  "res_bind m f = (case m of Inl e \<Rightarrow> Inl e | Inr x \<Rightarrow> f x)"

definition res_assert :: "bool \<Rightarrow> 'e \<Rightarrow> 'e + unit" where
  "res_assert b e = (if b then Inr () else Inl e)"

lemma res_bind_simps [simp, res_simps]:
  "res_bind (Inl e) f = Inl e"
  "res_bind (Inr x) f = f x"
  by (simp_all add: res_bind_def)

lemma res_bind_Inr_iff [res_simps]:
  "res_bind m f = Inr y \<longleftrightarrow> (\<exists>x. m = Inr x \<and> f x = Inr y)"
  by (cases m) simp_all

lemma res_bind_Inl_iff:
  "res_bind m f = Inl e \<longleftrightarrow> m = Inl e \<or> (\<exists>x. m = Inr x \<and> f x = Inl e)"
  by (cases m) auto

lemma res_bind_assoc: "res_bind (res_bind m f) g = res_bind m (\<lambda>x. res_bind (f x) g)"
  by (cases m) simp_all

lemma res_bind_cong [fundef_cong]:
  "m = m' \<Longrightarrow> (\<And>x. m' = Inr x \<Longrightarrow> f x = f' x) \<Longrightarrow> res_bind m f = res_bind m' f'"
  by (cases m') auto

lemma res_assert_Inr_iff [simp, res_simps]: "res_assert b e = Inr u \<longleftrightarrow> b"
  by (simp add: res_assert_def)

lemma res_assert_simps [simp]:
  "res_assert True e = Inr ()"
  "res_assert False e = Inl e"
  by (simp_all add: res_assert_def)

text \<open>Evaluation of a chain of results without any other simplification.\<close>

lemmas res_eval = res_bind_simps split_conv if_True if_False simp_thms append_assoc

section \<open>Little-endian byte strings\<close>

fun le_nat :: "bytes \<Rightarrow> nat" where
  "le_nat [] = 0"
| "le_nat (b # bs) = unat b + 256 * le_nat bs"

fun le_bytes :: "nat \<Rightarrow> nat \<Rightarrow> bytes" where
  "le_bytes 0 x = []"
| "le_bytes (Suc n) x = of_nat (x mod 256) # le_bytes n (x div 256)"

lemma length_le_bytes [simp]: "length (le_bytes n x) = n"
  by (induction n arbitrary: x) simp_all

lemma unat_byte_of_nat [simp]: "unat (of_nat x :: byte) = x mod 256"
  by (simp add: unat_of_nat)

lemma unat_byte_bound [simp]: "unat (b :: byte) < 256"
proof -
  have "unat b < 2 ^ LENGTH(8)" by (rule unsigned_less)
  then show ?thesis by simp
qed

lemma le_nat_le_bytes [le_simps]: "le_nat (le_bytes n x) = x mod 256 ^ n"
  by (induction n arbitrary: x) (simp_all add: mod_mult2_eq)

lemma le_nat_bound: "le_nat bs < 256 ^ length bs"
proof (induction bs)
  case (Cons b bs)
  have "unat b + 256 * le_nat bs < 256 * Suc (le_nat bs)"
    using unat_byte_bound [of b] by simp
  also have "\<dots> \<le> 256 * 256 ^ length bs"
    using Cons by (intro mult_le_mono2) simp
  finally show ?case by simp
qed simp

lemma le_bytes_le_nat [le_simps]: "le_bytes (length bs) (le_nat bs) = bs"
  by (induction bs) (simp_all add: word_unat_eq_iff)

lemma le_nat_append: "le_nat (xs @ ys) = le_nat xs + 256 ^ length xs * le_nat ys"
  by (induction xs) (simp_all add: algebra_simps)

lemma le_bytes_inj: "x < 256 ^ n \<Longrightarrow> y < 256 ^ n \<Longrightarrow> le_bytes n x = le_bytes n y \<Longrightarrow> x = y"
  by (metis le_nat_le_bytes mod_less)

text \<open>The \<open>n\<close> low bytes of a word, least significant first, and the word they denote.\<close>

definition word_to_le :: "nat \<Rightarrow> 'a::len word \<Rightarrow> bytes" where
  "word_to_le n x = le_bytes n (unat x)"

definition word_of_le :: "bytes \<Rightarrow> 'a::len word" where
  "word_of_le bs = of_nat (le_nat bs)"

lemma length_word_to_le [simp]: "length (word_to_le n x) = n"
  by (simp add: word_to_le_def)

lemma word_of_le_word_to_le [le_simps]:
  "LENGTH('a::len) \<le> 8 * n \<Longrightarrow> word_of_le (word_to_le n (x :: 'a word)) = x"
proof -
  assume len: "LENGTH('a) \<le> 8 * n"
  have "unat x < 2 ^ LENGTH('a)" by (rule unsigned_less)
  also have "(2::nat) ^ LENGTH('a) \<le> 2 ^ (8 * n)" using len by (intro power_increasing) simp_all
  also have "(2::nat) ^ (8 * n) = 256 ^ n" by (simp add: power_mult)
  finally have "unat x < 256 ^ n" .
  then show ?thesis by (simp add: word_of_le_def word_to_le_def le_simps)
qed

lemma word_to_le_word_of_le [le_simps]:
  "length bs = n \<Longrightarrow> 8 * n \<le> LENGTH('a::len) \<Longrightarrow> word_to_le n (word_of_le bs :: 'a word) = bs"
proof -
  assume len: "length bs = n" and n: "8 * n \<le> LENGTH('a)"
  have "le_nat bs < 256 ^ n" using le_nat_bound [of bs] len by simp
  also have "(256::nat) ^ n = 2 ^ (8 * n)" by (simp add: power_mult)
  also have "\<dots> \<le> 2 ^ LENGTH('a)" using n by (intro power_increasing) simp_all
  finally have "unat (of_nat (le_nat bs) :: 'a word) = le_nat bs" by (simp add: unat_of_nat)
  then show ?thesis using len by (auto simp: word_of_le_def word_to_le_def le_simps)
qed

lemma unat_word_of_le:
  "256 ^ length bs \<le> (2::nat) ^ LENGTH('a::len) \<Longrightarrow> unat (word_of_le bs :: 'a word) = le_nat bs"
  using le_nat_bound [of bs] by (simp add: word_of_le_def unat_of_nat)

section \<open>Words\<close>

lemma and_push_bit_small: "r < 2 ^ k \<Longrightarrow> r AND push_bit k x = 0" for r x :: nat
proof (rule bit_eqI)
  fix i
  assume "r < 2 ^ k"
  then have "take_bit k r = r" by (simp add: take_bit_eq_mod)
  then have "i < k" if "bit r i" using that by (metis bit_take_bit_iff)
  then show "bit (r AND push_bit k x) i = bit 0 i"
    by (auto simp: bit_and_iff bit_push_bit_iff)
qed

lemma unat_or_push_bit:
  fixes r :: "'a::len word" and x :: "'b::len word"
  assumes "unat r < 2 ^ k" "2 ^ k * unat x < 2 ^ LENGTH('a)"
  shows "unat (r OR push_bit k (ucast x)) = unat r + 2 ^ k * unat x"
proof -
  have "unat x \<le> 2 ^ k * unat x" by simp
  then have "unat x < 2 ^ LENGTH('a)" using assms(2) by (rule le_less_trans)
  then have x: "unat (ucast x :: 'a word) = unat x"
    by (simp add: unsigned_ucast_eq take_bit_eq_mod)
  have "unat (push_bit k (ucast x :: 'a word)) = push_bit k (unat x)"
    using assms(2) by (simp only: unsigned_push_bit_eq x) (simp add: push_bit_eq_mult take_bit_eq_mod mult.commute)
  then have "unat (r OR push_bit k (ucast x)) = unat r OR push_bit k (unat x)"
    by (simp add: unsigned_or_eq)
  also have "\<dots> = unat r + push_bit k (unat x)"
    using and_push_bit_small [OF assms(1)] by (rule disjunctive_add_eq_or [symmetric])
  finally show ?thesis by (simp add: push_bit_eq_mult mult.commute)
qed

lemma and_not_eq_minus: "r AND NOT m = r - (r AND m)" for r m :: "'a::len word"
proof -
  have "(r AND NOT m) AND (r AND m) = 0" by (rule bit_word_eqI) (auto simp: bit_simps)
  then have "(r AND NOT m) + (r AND m) = (r AND NOT m) OR (r AND m)" by (rule disjunctive_add_eq_or)
  also have "\<dots> = r" by (rule bit_word_eqI) (auto simp: bit_simps)
  finally show ?thesis by (simp add: eq_diff_eq)
qed

lemma unat_clear_bit:
  fixes r :: "'a::len word"
  assumes "k < LENGTH('a)" "bit r k"
  shows "unat (r AND NOT (push_bit k 1)) = unat r - 2 ^ k"
proof -
  have p: "unat (push_bit k 1 :: 'a word) = 2 ^ k"
    using assms(1) power_strict_increasing [of k "LENGTH('a)" "2::nat"]
    by (simp only: unsigned_push_bit_eq unsigned_1) (simp add: push_bit_eq_mult take_bit_eq_mod)
  have "r AND push_bit k 1 = push_bit k 1"
    by (rule bit_word_eqI) (use assms in \<open>auto simp: bit_simps\<close>)
  then have *: "r AND NOT (push_bit k 1) = r - push_bit k 1" by (simp add: and_not_eq_minus)
  have "2 ^ k \<le> unat r"
  proof (rule ccontr)
    assume "\<not> 2 ^ k \<le> unat r"
    then have "take_bit k (unat r) = unat r" by (simp add: take_bit_eq_mod)
    moreover have "bit (unat r) k" using assms by (simp add: bit_unsigned_iff)
    ultimately show False by (metis bit_take_bit_iff less_irrefl)
  qed
  then have "push_bit k 1 \<le> r" by (simp only: word_le_nat_alt p)
  then show ?thesis unfolding * by (simp only: unat_sub p)
qed

end
