(* ===== verification/Streams.thy ===== *)
theory Streams
  imports Prelude
begin

text \<open>
  The byte streams of \<open>src/streams.h\<close>: \<open>DataStream\<close>, \<open>SpanReader\<close> and
  \<open>CVectorWriter\<close>, as explicit state passing. The deserialisers of \<open>src/serialize.h\<close>
  are templates over the stream; here they take the stream's \<open>read\<close> operation as their
  first argument, and the locale \<open>byte_source\<close> is the contract they rely on.
\<close>

section \<open>Checked addition (util/overflow.h)\<close>

definition AdditionOverflow :: "'a::len word \<Rightarrow> 'a word \<Rightarrow> bool" where
  "AdditionOverflow i j \<longleftrightarrow> (- 1) - i < j"

definition CheckedAdd :: "'a::len word \<Rightarrow> 'a word \<Rightarrow> 'a word option" where
  "CheckedAdd i j = (if AdditionOverflow i j then None else Some (i + j))"

lemma AdditionOverflow_iff:
  "AdditionOverflow i j \<longleftrightarrow> 2 ^ LENGTH('a) \<le> unat i + unat (j :: 'a::len word)"
proof -
  have i: "unat i < 2 ^ LENGTH('a)" by (rule unsigned_less)
  have "unat ((- 1) - i) = 2 ^ LENGTH('a) - 1 - unat i"
    by (simp add: unat_sub unsigned_minus_1_eq_mask mask_eq_exp_minus_1)
  then have "AdditionOverflow i j \<longleftrightarrow> 2 ^ LENGTH('a) - 1 - unat i < unat j"
    by (simp add: AdditionOverflow_def word_less_nat_alt)
  with i show ?thesis by linarith
qed

lemma CheckedAdd_Some_iff:
  "CheckedAdd i j = Some k \<longleftrightarrow> unat i + unat j = unat (k :: 'a::len word)"
proof -
  have k: "unat k < 2 ^ LENGTH('a)" by (rule unsigned_less)
  have "unat (i + j) = (unat i + unat j) mod 2 ^ LENGTH('a)" by (rule unat_word_ariths)
  then have "CheckedAdd i j = Some k \<longleftrightarrow>
      unat i + unat j < 2 ^ LENGTH('a) \<and> unat i + unat j = unat k"
    by (auto simp: CheckedAdd_def AdditionOverflow_iff word_unat_eq_iff not_le)
  with k show ?thesis by metis
qed

section \<open>DataStream\<close>

record data_stream =
  vch :: bytes
  m_read_pos :: u64

definition ds_size :: "data_stream \<Rightarrow> nat" where
  "ds_size s = length (vch s) - unat (m_read_pos s)"

definition ds_empty :: "data_stream \<Rightarrow> bool" where
  "ds_empty s \<longleftrightarrow> length (vch s) = unat (m_read_pos s)"

definition ds_clear :: "data_stream \<Rightarrow> data_stream" where
  "ds_clear s = s\<lparr>vch := [], m_read_pos := 0\<rparr>"

definition ds_Compact :: "data_stream \<Rightarrow> data_stream" where
  "ds_Compact s = s\<lparr>vch := drop (unat (m_read_pos s)) (vch s), m_read_pos := 0\<rparr>"

definition ds_Rewind :: "u64 option \<Rightarrow> data_stream \<Rightarrow> bool \<times> data_stream" where
  "ds_Rewind n s = (case n of
      None \<Rightarrow> (True, s\<lparr>m_read_pos := 0\<rparr>)
    | Some k \<Rightarrow> if k > m_read_pos s then (False, s)
                else (True, s\<lparr>m_read_pos := m_read_pos s - k\<rparr>))"

text \<open>The position after \<open>read\<close> and \<open>ignore\<close>: a stream read to its end is cleared.\<close>

definition ds_advance :: "u64 \<Rightarrow> data_stream \<Rightarrow> data_stream" where
  "ds_advance next_read_pos s =
     (if unat next_read_pos = length (vch s) then s\<lparr>m_read_pos := 0, vch := []\<rparr>
      else s\<lparr>m_read_pos := next_read_pos\<rparr>)"

definition ds_read :: "nat \<Rightarrow> data_stream \<Rightarrow> (bytes \<times> data_stream) res" where
  "ds_read n s =
     (if n = 0 then Inr ([], s)
      else case CheckedAdd (m_read_pos s) (of_nat n) of
        None \<Rightarrow> Inl ''DataStream::read(): end of data''
      | Some next_read_pos \<Rightarrow>
          if unat next_read_pos > length (vch s) then Inl ''DataStream::read(): end of data''
          else Inr (take n (drop (unat (m_read_pos s)) (vch s)), ds_advance next_read_pos s))"

definition ds_ignore :: "nat \<Rightarrow> data_stream \<Rightarrow> (unit \<times> data_stream) res" where
  "ds_ignore n s =
     (case CheckedAdd (m_read_pos s) (of_nat n) of
        None \<Rightarrow> Inl ''DataStream::ignore(): end of data''
      | Some next_read_pos \<Rightarrow>
          if unat next_read_pos > length (vch s) then Inl ''DataStream::ignore(): end of data''
          else Inr ((), ds_advance next_read_pos s))"

definition ds_write :: "bytes \<Rightarrow> data_stream \<Rightarrow> data_stream" where
  "ds_write src s = s\<lparr>vch := vch s @ src\<rparr>"

text \<open>
  \<open>Xor\<close>: the loop runs \<open>i\<close> from 0 to \<open>size()\<close> and indexes \<open>vch\<close>, with a rolling key index \<open>j\<close>; the
  fourth argument counts the iterations left.
\<close>

fun ds_Xor_loop :: "bytes \<Rightarrow> nat \<Rightarrow> nat \<Rightarrow> nat \<Rightarrow> bytes \<Rightarrow> bytes" where
  "ds_Xor_loop key i j 0 v = v"
| "ds_Xor_loop key i j (Suc k) v =
     ds_Xor_loop key (Suc i) (if Suc j = length key then 0 else Suc j) k (v[i := v ! i XOR key ! j])"

definition ds_Xor :: "bytes \<Rightarrow> data_stream \<Rightarrow> data_stream" where
  "ds_Xor key s = (if length key = 0 then s
                   else s\<lparr>vch := ds_Xor_loop key 0 0 (ds_size s) (vch s)\<rparr>)"

definition ds_of :: "bytes \<Rightarrow> data_stream" where
  "ds_of bs = \<lparr>vch = bs, m_read_pos = 0\<rparr>"

text \<open>What is left to read, and the invariant of the class.\<close>

definition ds_contents :: "data_stream \<Rightarrow> bytes" where
  "ds_contents s = drop (unat (m_read_pos s)) (vch s)"

definition ds_inv :: "data_stream \<Rightarrow> bool" where
  "ds_inv s \<longleftrightarrow> unat (m_read_pos s) \<le> length (vch s) \<and> length (vch s) < 2 ^ 64"

section \<open>SpanReader\<close>

record span_reader =
  m_data :: bytes

text \<open>
  The constructor checks \<open>pos\<close> against \<open>m_data\<close> and then assigns
  \<open>data = data.subspan(pos)\<close>: the parameter, not the member, so the member is unchanged.
\<close>

definition SpanReader :: "bytes \<Rightarrow> nat \<Rightarrow> span_reader res" where
  "SpanReader data pos =
     (if pos > length data then Inl ''SpanReader(...): end of data (pos > m_data.size())''
      else Inr \<lparr>m_data = data\<rparr>)"

definition sr_size :: "span_reader \<Rightarrow> nat" where
  "sr_size s = length (m_data s)"

definition sr_read :: "nat \<Rightarrow> span_reader \<Rightarrow> (bytes \<times> span_reader) res" where
  "sr_read n s =
     (if n = 0 then Inr ([], s)
      else if n > length (m_data s) then Inl ''SpanReader::read(): end of data''
      else Inr (take n (m_data s), s\<lparr>m_data := drop n (m_data s)\<rparr>))"

section \<open>CVectorWriter\<close>

record vector_writer =
  vchData :: bytes
  nPos :: nat

text \<open>\<open>resize\<close> value-initialises the bytes it adds.\<close>

definition vw_construct :: "bytes \<Rightarrow> nat \<Rightarrow> vector_writer" where
  "vw_construct v p =
     \<lparr>vchData = (if p > length v then v @ replicate (p - length v) 0 else v), nPos = p\<rparr>"

definition vw_write :: "bytes \<Rightarrow> vector_writer \<Rightarrow> vector_writer res" where
  "vw_write src w =
     (if \<not> nPos w \<le> length (vchData w) then Inl ''assert(nPos <= vchData.size())''
      else
        let nOverwrite = min (length src) (length (vchData w) - nPos w);
            v1 = (if nOverwrite \<noteq> 0
                  then take (nPos w) (vchData w) @ take nOverwrite src
                       @ drop (nPos w + nOverwrite) (vchData w)
                  else vchData w);
            v2 = (if nOverwrite < length src then v1 @ drop nOverwrite src else v1)
        in Inr (w\<lparr>vchData := v2, nPos := nPos w + length src\<rparr>))"

section \<open>The contract of a readable stream\<close>

text \<open>
  \<open>rd n s\<close> returns the next \<open>n\<close> bytes and the stream after them, or an error when fewer
  are left. \<open>reads p bs v\<close> says that \<open>p\<close> consumes exactly \<open>bs\<close> and returns \<open>v\<close>;
  \<open>consumes p enc\<close> says that whatever \<open>p\<close> accepts is an encoding \<open>enc v\<close> of its result.
\<close>

locale byte_source =
  fixes rd :: "nat \<Rightarrow> 's \<Rightarrow> string + bytes \<times> 's"
    and contents :: "'s \<Rightarrow> bytes"
    and inv :: "'s \<Rightarrow> bool"
  assumes read_ok: "inv s \<Longrightarrow> n \<le> length (contents s) \<Longrightarrow>
      \<exists>s'. rd n s = Inr (take n (contents s), s') \<and> inv s' \<and> contents s' = drop n (contents s)"
    and read_eof: "inv s \<Longrightarrow> length (contents s) < n \<Longrightarrow> n < 2 ^ 64 \<Longrightarrow> \<exists>e. rd n s = Inl e"
begin

definition reads :: "('s \<Rightarrow> string + 'a \<times> 's) \<Rightarrow> bytes \<Rightarrow> 'a \<Rightarrow> bool" where
  "reads p bs v \<longleftrightarrow> (\<forall>s rest. inv s \<longrightarrow> contents s = bs @ rest \<longrightarrow>
      (\<exists>s'. p s = Inr (v, s') \<and> inv s' \<and> contents s' = rest))"

definition consumes :: "('s \<Rightarrow> string + 'a \<times> 's) \<Rightarrow> ('a \<Rightarrow> bytes \<Rightarrow> bool) \<Rightarrow> bool" where
  "consumes p enc \<longleftrightarrow> (\<forall>s v s'. inv s \<longrightarrow> p s = Inr (v, s') \<longrightarrow>
      inv s' \<and> (\<exists>bs. enc v bs \<and> contents s = bs @ contents s'))"

lemma readsI [intro]:
  "(\<And>s rest. inv s \<Longrightarrow> contents s = bs @ rest \<Longrightarrow>
      \<exists>s'. p s = Inr (v, s') \<and> inv s' \<and> contents s' = rest) \<Longrightarrow> reads p bs v"
  by (auto simp: reads_def)

lemma readsD:
  "reads p bs v \<Longrightarrow> inv s \<Longrightarrow> contents s = bs @ rest \<Longrightarrow>
     \<exists>s'. p s = Inr (v, s') \<and> inv s' \<and> contents s' = rest"
  by (auto simp: reads_def)

lemma consumesD:
  "consumes p enc \<Longrightarrow> inv s \<Longrightarrow> p s = Inr (v, s') \<Longrightarrow>
     inv s' \<and> (\<exists>bs. enc v bs \<and> contents s = bs @ contents s')"
  by (auto simp: consumes_def)

lemma reads_rd [wire_intros]: "length bs = n \<Longrightarrow> reads (rd n) bs bs"
proof (rule readsI)
  fix s rest
  assume "length bs = n" "inv s" "contents s = bs @ rest"
  then show "\<exists>s'. rd n s = Inr (bs, s') \<and> inv s' \<and> contents s' = rest"
    using read_ok [of s n] by simp
qed

lemma rd_Inr:
  assumes "inv s" "n < 2 ^ 64" "rd n s = Inr (bs, s')"
  shows "inv s' \<and> length bs = n \<and> contents s = bs @ contents s'"
proof (cases "n \<le> length (contents s)")
  case True
  with assms show ?thesis using read_ok [of s n] by auto
next
  case False
  with assms show ?thesis using read_eof [of s n] by auto
qed

lemma consumes_rd: "n < 2 ^ 64 \<Longrightarrow> consumes (rd n) (\<lambda>v bs. bs = v \<and> length v = n)"
  by (auto simp: consumes_def dest: rd_Inr)

lemma reads_return: "reads (\<lambda>s. Inr (v, s)) [] v"
  by (auto simp: reads_def)

lemma reads_bind:
  assumes "reads p bs x" "reads (q x) cs y"
  shows "reads (\<lambda>s. res_bind (p s) (\<lambda>(x, s'). q x s')) (bs @ cs) y"
proof (rule readsI)
  fix s rest
  assume "inv s" "contents s = (bs @ cs) @ rest"
  then obtain s1 where "p s = Inr (x, s1)" "inv s1" "contents s1 = cs @ rest"
    using readsD [OF assms(1), of s "cs @ rest"] by auto
  moreover from this obtain s2 where "q x s1 = Inr (y, s2)" "inv s2" "contents s2 = rest"
    using readsD [OF assms(2), of s1 rest] by auto
  ultimately show "\<exists>s'. res_bind (p s) (\<lambda>(x, s'). q x s') = Inr (y, s') \<and> inv s' \<and> contents s' = rest"
    by simp
qed

lemma reads_map:
  "reads p bs x \<Longrightarrow> f x = y \<Longrightarrow> reads (\<lambda>s. res_bind (p s) (\<lambda>(x, s'). Inr (f x, s'))) bs y"
  using reads_bind [of p bs x "\<lambda>x s'. Inr (f x, s')" "[]" y] reads_return [of "f x"] by simp

lemma consumes_bind:
  assumes "consumes p enc1" "\<And>x. consumes (q x) (enc2 x)"
  shows "consumes (\<lambda>s. res_bind (p s) (\<lambda>(x, s'). q x s'))
           (\<lambda>y bs. \<exists>x as cs. bs = as @ cs \<and> enc1 x as \<and> enc2 x y cs)"
  unfolding consumes_def
proof (intro allI impI)
  fix s y s'
  assume s: "inv s" "res_bind (p s) (\<lambda>(x, s'). q x s') = Inr (y, s')"
  then obtain x s1 where x: "p s = Inr (x, s1)" "q x s1 = Inr (y, s')"
    by (auto simp: res_bind_Inr_iff)
  from consumesD [OF assms(1) s(1) x(1)] obtain as where
    as: "inv s1" "enc1 x as" "contents s = as @ contents s1" by auto
  from consumesD [OF assms(2) as(1) x(2)] obtain cs where
    "inv s'" "enc2 x y cs" "contents s1 = cs @ contents s'" by auto
  with as show "inv s' \<and> (\<exists>bs. (\<exists>x as cs. bs = as @ cs \<and> enc1 x as \<and> enc2 x y cs)
      \<and> contents s = bs @ contents s')"
    by (intro conjI exI [of _ "as @ cs"] exI [of _ x] exI [of _ as] exI [of _ cs]) simp_all
qed

end

section \<open>DataStream and SpanReader meet the contract\<close>

lemma ds_advance_contents:
  "unat p \<le> length (vch s) \<Longrightarrow> ds_contents (ds_advance p s) = drop (unat p) (vch s)"
  by (simp add: ds_contents_def ds_advance_def)

lemma ds_advance_inv:
  "ds_inv s \<Longrightarrow> unat p \<le> length (vch s) \<Longrightarrow> ds_inv (ds_advance p s)"
  by (simp add: ds_inv_def ds_advance_def)

lemma ds_read_ok:
  assumes "ds_inv s" "n \<le> length (ds_contents s)"
  shows "\<exists>s'. ds_read n s = Inr (take n (ds_contents s), s') \<and> ds_inv s'
            \<and> ds_contents s' = drop n (ds_contents s)"
proof (cases "n = 0")
  case True
  with assms show ?thesis by (simp add: ds_read_def)
next
  case False
  let ?p = "m_read_pos s + of_nat n :: u64"
  from assms have le: "unat (m_read_pos s) + n \<le> length (vch s)" and "length (vch s) < 2 ^ 64"
    by (auto simp: ds_inv_def ds_contents_def)
  then have n: "unat (of_nat n :: u64) = n" by (simp add: unat_of_nat)
  with le \<open>length (vch s) < 2 ^ 64\<close> have p: "unat ?p = unat (m_read_pos s) + n"
    by (simp add: unat_word_ariths)
  with n have "CheckedAdd (m_read_pos s) (of_nat n) = Some ?p"
    by (simp add: CheckedAdd_Some_iff)
  with False p le have "ds_read n s = Inr (take n (ds_contents s), ds_advance ?p s)"
    by (simp add: ds_read_def ds_contents_def)
  moreover have "ds_inv (ds_advance ?p s)" using assms(1) p le by (simp add: ds_advance_inv)
  moreover have "ds_contents (ds_advance ?p s) = drop n (ds_contents s)"
    using p le by (simp add: ds_advance_contents) (simp add: ds_contents_def add.commute)
  ultimately show ?thesis by blast
qed

lemma ds_read_eof:
  assumes "ds_inv s" "length (ds_contents s) < n" "n < 2 ^ 64"
  shows "ds_read n s = Inl ''DataStream::read(): end of data''"
proof (cases "CheckedAdd (m_read_pos s) (of_nat n)")
  case None
  with assms show ?thesis by (simp add: ds_read_def)
next
  case (Some p)
  have "unat (of_nat n :: u64) = n" using assms(3) by (simp add: unat_of_nat)
  with Some have "unat p = unat (m_read_pos s) + n" by (simp add: CheckedAdd_Some_iff)
  with assms Some show ?thesis by (simp add: ds_read_def ds_contents_def)
qed

interpretation ds: byte_source ds_read ds_contents ds_inv
  using ds_read_ok ds_read_eof by unfold_locales auto

definition sr_inv :: "span_reader \<Rightarrow> bool" where
  "sr_inv s \<longleftrightarrow> True"

interpretation sr: byte_source sr_read m_data sr_inv
  by unfold_locales (auto simp: sr_read_def sr_inv_def)

section \<open>What the writer and the readers do\<close>

text \<open>
  \<open>CVectorWriter::write\<close> overwrites the bytes from its position on, appends what does not fit
  and advances the position by the length written.
\<close>

lemma vector_writer_overwrites:
  assumes "nPos w \<le> length (vchData w)"
  shows "vw_write src w = Inr (w\<lparr>vchData := take (nPos w) (vchData w) @ src @ drop (nPos w + length src) (vchData w),
      nPos := nPos w + length src\<rparr>)"
proof -
  have "vchData w = take (nPos w) (vchData w) @ drop (nPos w) (vchData w)" by simp
  then show ?thesis using assms by (cases "length (vchData w) = nPos w") (auto simp: vw_write_def Let_def min_def)
qed

text \<open>The position passed to the constructor of \<open>SpanReader\<close> has no effect on what is read.\<close>

lemma SpanReader_ignores_pos:
  "pos \<le> length data \<Longrightarrow> SpanReader data pos = SpanReader data 0"
  by (simp add: SpanReader_def)

text \<open>\<open>DataStream::Xor\<close> works on the first bytes of the buffer even when they have been read already.\<close>

lemma ds_Xor_ignores_read_pos:
  "ds_contents (ds_Xor [0xFF] \<lparr>vch = [0, 0], m_read_pos = 1\<rparr>) = [0]"
  by code_simp

end
