(* ===== verification/Serialize.thy ===== *)
theory Serialize
  imports Streams
begin

text \<open>
  The wire format of \<open>src/serialize.h\<close>: fixed-width integers, CompactSize, VarInt, byte
  vectors and vectors of objects, fixed bit sets. A writer returns the bytes it appends; a
  reader takes the stream's \<open>read\<close> operation. The round trips are proved once, in the
  locale \<open>byte_source\<close>, for every stream that meets its contract.
\<close>

section \<open>Fixed-width integers\<close>

definition ser_writedata8 :: "byte \<Rightarrow> bytes" where
  "ser_writedata8 obj = [obj]"

definition ser_writedata16 :: "u16 \<Rightarrow> bytes" where
  "ser_writedata16 obj = word_to_le 2 obj"

definition ser_writedata32 :: "u32 \<Rightarrow> bytes" where
  "ser_writedata32 obj = word_to_le 4 obj"

definition ser_writedata64 :: "u64 \<Rightarrow> bytes" where
  "ser_writedata64 obj = word_to_le 8 obj"

definition ser_readdata8 :: "(nat \<Rightarrow> 's \<Rightarrow> string + bytes \<times> 's) \<Rightarrow> 's \<Rightarrow> string + byte \<times> 's" where
  "ser_readdata8 rd s = res_bind (rd 1 s) (\<lambda>(bs, s'). Inr (word_of_le bs, s'))"

definition ser_readdata16 :: "(nat \<Rightarrow> 's \<Rightarrow> string + bytes \<times> 's) \<Rightarrow> 's \<Rightarrow> string + u16 \<times> 's" where
  "ser_readdata16 rd s = res_bind (rd 2 s) (\<lambda>(bs, s'). Inr (word_of_le bs, s'))"

definition ser_readdata32 :: "(nat \<Rightarrow> 's \<Rightarrow> string + bytes \<times> 's) \<Rightarrow> 's \<Rightarrow> string + u32 \<times> 's" where
  "ser_readdata32 rd s = res_bind (rd 4 s) (\<lambda>(bs, s'). Inr (word_of_le bs, s'))"

definition ser_readdata64 :: "(nat \<Rightarrow> 's \<Rightarrow> string + bytes \<times> 's) \<Rightarrow> 's \<Rightarrow> string + u64 \<times> 's" where
  "ser_readdata64 rd s = res_bind (rd 8 s) (\<lambda>(bs, s'). Inr (word_of_le bs, s'))"

lemmas ser_readdata_defs =
  ser_readdata8_def ser_readdata16_def ser_readdata32_def ser_readdata64_def
lemmas ser_writedata_defs =
  ser_writedata8_def ser_writedata16_def ser_writedata32_def ser_writedata64_def

section \<open>CompactSize\<close>

definition MAX_SIZE :: u64 where
  "MAX_SIZE = 0x02000000"

definition GetSizeOfCompactSize :: "u64 \<Rightarrow> nat" where
  "GetSizeOfCompactSize nSize =
     (if nSize < 253 then 1
      else if nSize \<le> 0xFFFF then 1 + 2
      else if nSize \<le> 0xFFFFFFFF then 1 + 4
      else 1 + 8)"

definition WriteCompactSize :: "u64 \<Rightarrow> bytes" where
  "WriteCompactSize nSize =
     (if nSize < 253 then ser_writedata8 (ucast nSize)
      else if nSize \<le> 0xFFFF then ser_writedata8 253 @ ser_writedata16 (ucast nSize)
      else if nSize \<le> 0xFFFFFFFF then ser_writedata8 254 @ ser_writedata32 (ucast nSize)
      else ser_writedata8 255 @ ser_writedata64 nSize)"

definition ReadCompactSize ::
    "(nat \<Rightarrow> 's \<Rightarrow> string + bytes \<times> 's) \<Rightarrow> bool \<Rightarrow> 's \<Rightarrow> string + u64 \<times> 's" where
  "ReadCompactSize rd range_check s =
     res_bind (ser_readdata8 rd s) (\<lambda>(chSize, s1).
     res_bind
       (if chSize < 253 then Inr (ucast chSize, s1)
        else if chSize = 253 then
          res_bind (ser_readdata16 rd s1) (\<lambda>(n, s2).
            if (ucast n :: u64) < 253 then Inl ''non-canonical ReadCompactSize()''
            else Inr (ucast n, s2))
        else if chSize = 254 then
          res_bind (ser_readdata32 rd s1) (\<lambda>(n, s2).
            if (ucast n :: u64) < 0x10000 then Inl ''non-canonical ReadCompactSize()''
            else Inr (ucast n, s2))
        else
          res_bind (ser_readdata64 rd s1) (\<lambda>(n, s2).
            if n < 0x100000000 then Inl ''non-canonical ReadCompactSize()''
            else Inr (n, s2)))
       (\<lambda>(nSizeRet, s2).
          if range_check \<and> nSizeRet > MAX_SIZE then Inl ''ReadCompactSize(): size too large''
          else Inr (nSizeRet, s2)))"

section \<open>VarInt\<close>

text \<open>
  \<open>WriteVarInt\<close> fills \<open>tmp\<close> from its lowest digit and then writes it back to front;
  \<open>len\<close> is the index of the digit being produced.
\<close>

function WriteVarInt_tmp :: "'a::len word \<Rightarrow> nat \<Rightarrow> bytes" where
  "WriteVarInt_tmp n len =
     (ucast (n AND 0x7F) OR (if len \<noteq> 0 then 0x80 else 0x00))
     # (if n \<le> 0x7F then [] else WriteVarInt_tmp (drop_bit 7 n - 1) (Suc len))"
  by pat_completeness auto

definition WriteVarInt :: "'a::len word \<Rightarrow> bytes" where
  "WriteVarInt n = rev (WriteVarInt_tmp n 0)"

function GetSizeOfVarInt_loop :: "'a::len word \<Rightarrow> nat \<Rightarrow> nat" where
  "GetSizeOfVarInt_loop n nRet =
     (if n \<le> 0x7F then Suc nRet else GetSizeOfVarInt_loop (drop_bit 7 n - 1) (Suc nRet))"
  by pat_completeness auto

definition GetSizeOfVarInt :: "'a::len word \<Rightarrow> nat" where
  "GetSizeOfVarInt n = GetSizeOfVarInt_loop n 0"

function ReadVarInt_loop ::
    "(nat \<Rightarrow> 's \<Rightarrow> string + bytes \<times> 's) \<Rightarrow> 'a::len word \<Rightarrow> 's \<Rightarrow> string + 'a word \<times> 's" where
  "ReadVarInt_loop rd n s =
     res_bind (ser_readdata8 rd s) (\<lambda>(chData, s1).
       if n > drop_bit 7 (- 1) then Inl ''ReadVarInt(): size too large''
       else if chData AND 0x80 \<noteq> 0 then
         if push_bit 7 n OR ucast (chData AND 0x7F) = - 1 then Inl ''ReadVarInt(): size too large''
         else ReadVarInt_loop rd ((push_bit 7 n OR ucast (chData AND 0x7F)) + 1) s1
       else Inr (push_bit 7 n OR ucast (chData AND 0x7F), s1))"
  by pat_completeness auto

definition ReadVarInt :: "(nat \<Rightarrow> 's \<Rightarrow> string + bytes \<times> 's) \<Rightarrow> 's \<Rightarrow> string + 'a::len word \<times> 's" where
  "ReadVarInt rd s = ReadVarInt_loop rd 0 s"

subsection \<open>The digits of a VarInt\<close>

lemma unat_drop_bit_7: "unat (drop_bit 7 n) = unat (n :: 'a::len word) div 128"
  by (simp only: unat_drop_bit_eq) (simp add: drop_bit_eq_div)

lemma unat_le_127: "n \<le> 0x7F \<longleftrightarrow> unat (n :: 'a::len word) \<le> 127"
proof -
  have "unat (of_nat 127 :: 'a word) = 127 mod 2 ^ LENGTH('a)" by (rule unat_of_nat)
  then have u: "unat (127 :: 'a word) = 127 mod 2 ^ LENGTH('a)" by simp
  show ?thesis
  proof (cases "8 \<le> LENGTH('a)")
    case True
    then have "(2::nat) ^ 8 \<le> 2 ^ LENGTH('a)" by (intro power_increasing) simp_all
    then have "unat (127 :: 'a word) = 127" using u by simp
    then show ?thesis by (simp add: word_le_nat_alt)
  next
    case False
    then have "LENGTH('a) = 1 \<or> LENGTH('a) = 2 \<or> LENGTH('a) = 3 \<or> LENGTH('a) = 4
        \<or> LENGTH('a) = 5 \<or> LENGTH('a) = 6 \<or> LENGTH('a) = 7"
      using len_gt_0 [where 'a = 'a] by linarith
    then have "2 ^ LENGTH('a) = Suc (127 mod 2 ^ LENGTH('a))" and "2 ^ LENGTH('a) \<le> (128::nat)"
      by auto
    moreover have "unat n < 2 ^ LENGTH('a)" by (rule unsigned_less)
    ultimately have "unat n \<le> 127 mod 2 ^ LENGTH('a)" and "unat n \<le> 127" by linarith+
    then show ?thesis by (simp only: word_le_nat_alt u)
  qed
qed

lemma mask_7: "0x7F = (mask 7 :: 'a::len word)"
  by (simp add: mask_eq_exp_minus_1)

lemma and_0x7F: "n AND 0x7F = take_bit 7 n" for n :: "'a::len word"
  by (simp add: mask_7 take_bit_eq_mask)

lemma byte_0x80: "(0x80 :: byte) = 2 ^ 7"
  by simp

lemma and_0x80: "c AND 0x80 = 0 \<longleftrightarrow> \<not> bit c 7" for c :: byte
  by (simp only: byte_0x80 and_exp_eq_0_iff_not_bit)

lemma bit_or_0x80: "bit (c OR 0x80) n \<longleftrightarrow> bit c n \<or> n = 7" for c :: byte
  by (simp only: byte_0x80) (auto simp: bit_or_iff bit_exp_iff simp del: power_numeral)

lemma unat_take_bit_7: "unat (take_bit 7 n) = unat n mod 128"
  by (simp only: unsigned_take_bit_eq) (simp add: take_bit_eq_mod)

lemma take_bit_7_byte: "unat c < 128 \<Longrightarrow> take_bit 7 c = c" for c :: byte
  by (simp only: word_unat_eq_iff unat_take_bit_7 mod_less)

lemma byte_high_bit:
  fixes c :: byte
  shows "c AND 0x80 = 0 \<Longrightarrow> c AND 0x7F = c"
    and "c AND 0x80 \<noteq> 0 \<Longrightarrow> (c AND 0x7F) OR 0x80 = c"
    and "unat (c AND 0x7F) = unat c mod 128"
proof -
  have 7: "n < 7 \<or> n = 7" if "n < LENGTH(8)" for n using that by auto
  show "c AND 0x80 = 0 \<Longrightarrow> c AND 0x7F = c"
    unfolding and_0x80 and_0x7F by (rule bit_word_eqI) (use 7 in \<open>auto simp: bit_take_bit_iff\<close>)
  show "c AND 0x80 \<noteq> 0 \<Longrightarrow> (c AND 0x7F) OR 0x80 = c"
    unfolding and_0x80 and_0x7F
    by (rule bit_word_eqI) (use 7 in \<open>auto simp: bit_take_bit_iff bit_or_0x80\<close>)
  show "unat (c AND 0x7F) = unat c mod 128"
    by (simp add: and_0x7F unat_take_bit_7)
qed

lemma byte_set_high_bit:
  fixes c :: byte
  assumes "unat c < 128"
  shows "(c OR 0x80) AND 0x80 \<noteq> 0" and "(c OR 0x80) AND 0x7F = c" and "c AND 0x80 = 0"
    and "c AND 0x7F = c"
proof -
  from assms have c: "take_bit 7 c = c" by (simp add: take_bit_7_byte)
  then have "\<not> bit c 7" by (metis bit_take_bit_iff less_irrefl)
  then show "c AND 0x80 = 0" by (simp add: and_0x80)
  show "c AND 0x7F = c" using c by (simp add: and_0x7F)
  show "(c OR 0x80) AND 0x80 \<noteq> 0" by (simp add: and_0x80 bit_or_0x80)
  show "(c OR 0x80) AND 0x7F = c"
    unfolding and_0x7F
    by (rule bit_word_eqI) (metis bit_or_0x80 bit_take_bit_iff c nat_neq_iff)
qed

text \<open>The low digit of \<open>n\<close>, as the byte \<open>WriteVarInt\<close> computes it.\<close>

definition low_digit :: "'a::len word \<Rightarrow> byte" where
  "low_digit n = ucast (n AND 0x7F)"

lemma unat_low_digit [simp]: "unat (low_digit n) = unat n mod 128"
proof -
  have "unat (low_digit n) = take_bit 8 (take_bit 7 (unat n))"
    by (simp add: low_digit_def mask_7 unsigned_ucast_eq unsigned_take_bit_eq
        flip: take_bit_eq_mask)
  then show ?thesis by (simp add: take_bit_eq_mod)
qed

lemma unat_next_digits:
  assumes "\<not> n \<le> 0x7F"
  shows "unat (drop_bit 7 n - 1) = unat n div 128 - 1" and "1 \<le> unat n div 128"
    and "unat (drop_bit 7 n - 1) < unat n"
proof -
  from assms have n: "127 < unat n" by (simp add: unat_le_127)
  then show 1: "1 \<le> unat n div 128" by linarith
  then have "1 \<le> drop_bit 7 n" by (simp add: word_le_nat_alt unat_drop_bit_7)
  then show 2: "unat (drop_bit 7 n - 1) = unat n div 128 - 1"
    by (simp add: unat_sub unat_drop_bit_7)
  show "unat (drop_bit 7 n - 1) < unat n"
    using n 1 unfolding 2 by linarith
qed

termination WriteVarInt_tmp
  by (relation "measure (\<lambda>(n, len). unat n)") (simp_all add: unat_next_digits(3))

termination GetSizeOfVarInt_loop
  by (relation "measure (\<lambda>(n, nRet). unat n)") (simp_all add: unat_next_digits(3))

lemma push_bit_7_and_small: "e < 128 \<Longrightarrow> push_bit 7 m AND e = 0" for m e :: nat
proof (rule bit_eqI)
  fix k
  assume "e < 128"
  then have "take_bit 7 e = e" by (simp add: take_bit_eq_mod)
  then have "k < 7" if "bit e k" using that by (metis bit_take_bit_iff)
  then show "bit (push_bit 7 m AND e) k = bit 0 k"
    by (auto simp: bit_and_iff bit_push_bit_iff)
qed

lemma unat_shift_in:
  fixes n :: "'a::len word" and d :: byte
  assumes "n \<le> drop_bit 7 (- 1)" "unat d < 128"
  shows "unat (push_bit 7 n OR ucast d) = unat n * 128 + unat d mod 2 ^ LENGTH('a)"
    and "unat n * 128 + unat d mod 2 ^ LENGTH('a) < 2 ^ LENGTH('a)"
proof -
  have "unat n \<le> unat (- 1 :: 'a word) div 128"
    using assms(1) by (simp only: word_le_nat_alt unat_drop_bit_7)
  then have "unat n \<le> (2 ^ LENGTH('a) - 1) div 128"
    by (simp add: unsigned_minus_1_eq_mask mask_eq_exp_minus_1)
  then have "unat n * 128 \<le> 2 ^ LENGTH('a) - 1" by (simp add: less_eq_div_iff_mult_less_eq)
  moreover have "(0::nat) < 2 ^ LENGTH('a)" by simp
  ultimately have n: "unat n * 128 < 2 ^ LENGTH('a)" by linarith
  let ?e = "unat d mod 2 ^ LENGTH('a)"
  have e: "unat (ucast d :: 'a word) = ?e" by (simp add: unsigned_ucast_eq take_bit_eq_mod)
  have p: "unat (push_bit 7 n) = unat n * 128"
    using n by (simp only: unsigned_push_bit_eq) (simp add: push_bit_eq_mult take_bit_eq_mod)
  have e128: "?e < 128" by (rule le_less_trans [OF mod_less_eq_dividend assms(2)])
  have disj: "push_bit 7 (unat n) AND ?e = 0"
    by (rule push_bit_7_and_small [OF e128])
  have "unat (push_bit 7 n OR ucast d) = push_bit 7 (unat n) OR ?e"
    using p e by (simp add: unsigned_or_eq push_bit_eq_mult)
  also have "\<dots> = push_bit 7 (unat n) + ?e"
    using disj by (rule disjunctive_add_eq_or [symmetric])
  finally show *: "unat (push_bit 7 n OR ucast d) = unat n * 128 + ?e"
    by (simp add: push_bit_eq_mult)
  show "unat n * 128 + ?e < 2 ^ LENGTH('a)"
    unfolding * [symmetric] by (rule unsigned_less)
qed

lemma word_plus_1_eq_0: "x + 1 = 0 \<longleftrightarrow> x = - 1" for x :: "'a::len word"
  by (rule eq_neg_iff_add_eq_0 [symmetric])

lemma ReadVarInt_progress:
  fixes n :: "'a::len word" and chData :: byte
  defines "x \<equiv> push_bit 7 n OR ucast (chData AND 0x7F)"
  assumes "\<not> n > drop_bit 7 (- 1)" "x \<noteq> - 1"
  shows "unat (- 1 - (x + 1)) < unat (- 1 - n)" and "unat (x + 1) = Suc (unat x)"
proof -
  have "unat n \<le> unat x"
    using assms unat_shift_in [of n "chData AND 0x7F"] byte_high_bit [of chData]
    by (simp add: not_less)
  moreover show suc: "unat (x + 1) = Suc (unat x)"
    using assms(3) unatSuc [of x] word_plus_1_eq_0 [of x] by (simp add: add.commute)
  ultimately have "unat n < unat (x + 1)" by simp
  moreover have compl: "unat (- 1 - k) = unat (- 1 :: 'a word) - unat k" for k :: "'a word"
    by (simp add: unat_sub)
  moreover have "unat (x + 1) \<le> unat (- 1 :: 'a word)"
    by (simp add: word_le_nat_alt [symmetric])
  ultimately show "unat (- 1 - (x + 1)) < unat (- 1 - n)"
    unfolding compl by linarith
qed

termination ReadVarInt_loop
  by (relation "measure (\<lambda>(rd, n, s). unat (- 1 - n))", rule wf_measure)
    (simp only: in_measure split_conv, rule ReadVarInt_progress(1))

declare WriteVarInt_tmp.simps [simp del] GetSizeOfVarInt_loop.simps [simp del]
  ReadVarInt_loop.simps [simp del]

text \<open>
  The bytes that bring the reader's accumulator from 0 to \<open>a\<close>. Both encodings of \<open>x\<close>,
  as a last digit and as a digit that others follow, extend the prefix of \<open>x\<close>'s high part.
\<close>

definition varint_prefix :: "'a::len word \<Rightarrow> bytes" where
  "varint_prefix a = (if a = 0 then [] else rev (WriteVarInt_tmp (a - 1) 1))"

lemma WriteVarInt_tmp_len: "WriteVarInt_tmp n (Suc k) = WriteVarInt_tmp n (Suc j)"
proof (induction n "Suc k" arbitrary: k j rule: WriteVarInt_tmp.induct)
  case (1 n k)
  from "1.hyps" [of "Suc j"] show ?case
    by (simp add: WriteVarInt_tmp.simps [of n "Suc k"] WriteVarInt_tmp.simps [of n "Suc j"])
qed

lemma drop_bit_7_eq_0: "drop_bit 7 x = 0 \<longleftrightarrow> x \<le> 0x7F" for x :: "'a::len word"
proof -
  have "drop_bit 7 x = 0 \<longleftrightarrow> unat x div 128 = 0"
    by (simp only: word_unat_eq_iff unat_drop_bit_7 unsigned_0)
  then show ?thesis by (simp add: unat_le_127) linarith
qed

lemma WriteVarInt_digits: "WriteVarInt x = varint_prefix (drop_bit 7 x) @ [low_digit x]"
  by (simp add: WriteVarInt_def varint_prefix_def drop_bit_7_eq_0 low_digit_def
      WriteVarInt_tmp.simps [of x 0])

lemma varint_prefix_digits:
  "x \<noteq> - 1 \<Longrightarrow> varint_prefix (x + 1) = varint_prefix (drop_bit 7 x) @ [low_digit x OR 0x80]"
  by (simp add: varint_prefix_def drop_bit_7_eq_0 low_digit_def word_plus_1_eq_0
      WriteVarInt_tmp.simps [of x "Suc 0"] WriteVarInt_tmp_len [of _ "Suc 0" 0])

lemma shift_in_digits:
  fixes a :: "'a::len word" and d :: byte
  assumes "8 \<le> LENGTH('a)" "a \<le> drop_bit 7 (- 1)" "unat d < 128"
  shows "drop_bit 7 (push_bit 7 a OR ucast d) = a" and "low_digit (push_bit 7 a OR ucast d) = d"
proof -
  have "(2::nat) ^ 8 \<le> 2 ^ LENGTH('a)" using assms(1) by (intro power_increasing) simp_all
  with assms(3) have "unat d mod 2 ^ LENGTH('a) = unat d" by simp
  with unat_shift_in(1) [OF assms(2,3)] have x: "unat (push_bit 7 a OR ucast d) = unat a * 128 + unat d"
    by simp
  have "(unat a * 128 + unat d) div 128 = unat a" "(unat a * 128 + unat d) mod 128 = unat d"
    using assms(3) by simp_all
  then show "drop_bit 7 (push_bit 7 a OR ucast d) = a" "low_digit (push_bit 7 a OR ucast d) = d"
    by (simp_all only: word_unat_eq_iff unat_drop_bit_7 unat_low_digit x)
qed

lemma digits_shift_in:
  fixes x :: "'a::len word"
  assumes "8 \<le> LENGTH('a)"
  shows "push_bit 7 (drop_bit 7 x) OR ucast (low_digit x) = x" and "drop_bit 7 x \<le> drop_bit 7 (- 1)"
proof -
  show le: "drop_bit 7 x \<le> drop_bit 7 (- 1)"
    by (simp only: word_le_nat_alt unat_drop_bit_7)
      (rule div_le_mono, simp add: word_le_nat_alt [symmetric])
  have "(2::nat) ^ 8 \<le> 2 ^ LENGTH('a)" using assms(1) by (intro power_increasing) simp_all
  moreover have small: "unat x mod 128 < 128" by simp
  moreover have "(128::nat) < 2 ^ 8" by simp
  ultimately have "unat x mod 128 < 2 ^ LENGTH('a)" by (metis less_le_trans less_trans)
  then have mod: "unat x mod 128 mod 2 ^ LENGTH('a) = unat x mod 128"
    by (rule mod_less)
  have "unat (low_digit x) < 128" using small by (simp only: unat_low_digit)
  from unat_shift_in(1) [OF le this]
  have "unat (push_bit 7 (drop_bit 7 x) OR ucast (low_digit x)) = unat x div 128 * 128 + unat x mod 128"
    by (simp only: unat_drop_bit_7 unat_low_digit mod)
  also have "\<dots> = unat x" by (rule div_mult_mod_eq)
  finally show "push_bit 7 (drop_bit 7 x) OR ucast (low_digit x) = x"
    by (simp only: word_unat_eq_iff)
qed

subsection \<open>Length of the encoding\<close>

text \<open>The loop of \<open>WriteVarInt\<close> never indexes past \<open>tmp\<close>, which has \<open>(bits + 6) / 7\<close> bytes.\<close>

lemma length_WriteVarInt_tmp:
  "unat n < 128 ^ k \<Longrightarrow> 0 < k \<Longrightarrow> length (WriteVarInt_tmp n len) \<le> k"
proof (induction n len arbitrary: k rule: WriteVarInt_tmp.induct)
  case (1 n len)
  show ?case
  proof (cases "n \<le> 0x7F")
    case True
    with "1.prems"(2) show ?thesis by (simp add: WriteVarInt_tmp.simps [of n len])
  next
    case False
    note next_digits = unat_next_digits [OF False]
    obtain j where k: "k = Suc j" using "1.prems"(2) by (cases k) auto
    with "1.prems"(1) have div: "unat n div 128 < 128 ^ j"
      by (simp add: div_less_iff_less_mult mult.commute)
    with next_digits have "unat (drop_bit 7 n - 1) < 128 ^ j" by linarith
    moreover have "0 < j" using div next_digits(2) by (cases j) simp_all
    ultimately have "length (WriteVarInt_tmp (drop_bit 7 n - 1) (Suc len)) \<le> j"
      using False "1.IH" by blast
    with False k show ?thesis by (simp add: WriteVarInt_tmp.simps [of n len])
  qed
qed

lemma length_WriteVarInt_le: "length (WriteVarInt (n :: 'a::len word)) \<le> (LENGTH('a) + 6) div 7"
proof -
  let ?k = "(LENGTH('a) + 6) div 7"
  have "LENGTH('a) \<le> 7 * ?k" and k: "0 < ?k" using len_gt_0 [where 'a = 'a] by linarith+
  have "unat n < 2 ^ LENGTH('a)" by (rule unsigned_less)
  also have "(2::nat) ^ LENGTH('a) \<le> 2 ^ (7 * ?k)"
    using \<open>LENGTH('a) \<le> 7 * ?k\<close> by (intro power_increasing) simp_all
  also have "(2::nat) ^ (7 * ?k) = 128 ^ ?k" by (simp add: power_mult)
  finally show ?thesis using k by (simp add: WriteVarInt_def length_WriteVarInt_tmp)
qed

lemma GetSizeOfVarInt_loop_length:
  "GetSizeOfVarInt_loop n nRet = nRet + length (WriteVarInt_tmp n len)"
proof (induction n nRet arbitrary: len rule: GetSizeOfVarInt_loop.induct)
  case (1 n nRet)
  from "1.IH" [of "Suc len"] show ?case
    by (simp add: GetSizeOfVarInt_loop.simps [of n nRet] WriteVarInt_tmp.simps [of n len])
qed

lemma GetSizeOfVarInt_length: "GetSizeOfVarInt n = length (WriteVarInt n)"
  by (simp add: GetSizeOfVarInt_def WriteVarInt_def GetSizeOfVarInt_loop_length [of n 0 0])

section \<open>Round trips over any stream\<close>

lemma ucast_ucast_small:
  fixes n :: "'a::len word"
  assumes "unat n < 2 ^ LENGTH('b::len)"
  shows "ucast (ucast n :: 'b word) = n" and "unat (ucast n :: 'b word) = unat n"
proof -
  show u: "unat (ucast n :: 'b word) = unat n"
    using assms by (simp only: unsigned_ucast_eq take_bit_eq_mod mod_less)
  show "ucast (ucast n :: 'b word) = n"
    by (simp only: word_unat_eq_iff unsigned_ucast_eq [of "ucast n :: 'b word"] u take_bit_eq_mod)
      (simp only: mod_less unsigned_less)
qed

lemma compact_size_words:
  fixes n :: u64
  shows "n < 253 \<Longrightarrow> ucast (ucast n :: byte) = n" and "n < 253 \<Longrightarrow> (ucast n :: byte) < 253"
    and "n \<le> 0xFFFF \<Longrightarrow> ucast (ucast n :: u16) = n" and "n \<le> 0xFFFFFFFF \<Longrightarrow> ucast (ucast n :: u32) = n"
    and "\<not> n \<le> 0xFFFF \<Longrightarrow> \<not> n < 253 \<and> \<not> n < 0x10000"
    and "\<not> n \<le> 0xFFFFFFFF \<Longrightarrow> \<not> n < 253 \<and> \<not> n \<le> 0xFFFF \<and> \<not> n < 0x100000000"
  using ucast_ucast_small [of n, where 'b = 8] ucast_ucast_small [of n, where 'b = 16]
    ucast_ucast_small [of n, where 'b = 32]
  by (simp_all add: word_less_nat_alt word_le_nat_alt)

lemma compact_size_tag_words:
  fixes ch :: byte and a :: u16 and b :: u32 and n :: u64
  shows "ucast (ucast ch :: u64) = ch" and "ch < 253 \<Longrightarrow> (ucast ch :: u64) < 253"
    and "ucast (ucast a :: u64) = a" and "(ucast a :: u64) \<le> 0xFFFF"
    and "ucast (ucast b :: u64) = b" and "(ucast b :: u64) \<le> 0xFFFFFFFF"
    and "\<not> n < 0x10000 \<Longrightarrow> \<not> n < 253 \<and> \<not> n \<le> 0xFFFF"
    and "\<not> n < 0x100000000 \<Longrightarrow> \<not> n < 253 \<and> \<not> n \<le> 0xFFFF \<and> \<not> n \<le> 0xFFFFFFFF"
proof -
  have wide: "unat ch < 2 ^ LENGTH(64)" "unat a < 2 ^ LENGTH(64)" "unat b < 2 ^ LENGTH(64)"
    by (rule less_le_trans [OF unsigned_less], simp)+
  note u = ucast_ucast_small [OF wide(1)] ucast_ucast_small [OF wide(2)] ucast_ucast_small [OF wide(3)]
  show "ucast (ucast ch :: u64) = ch" "ucast (ucast a :: u64) = a" "ucast (ucast b :: u64) = b"
    by (fact u)+
  show "ch < 253 \<Longrightarrow> (ucast ch :: u64) < 253" "(ucast a :: u64) \<le> 0xFFFF" "(ucast b :: u64) \<le> 0xFFFFFFFF"
    using u unsigned_less [of a, where 'a = nat] unsigned_less [of b, where 'a = nat]
    by (simp_all add: word_less_nat_alt word_le_nat_alt)
  show "\<not> n < 0x10000 \<Longrightarrow> \<not> n < 253 \<and> \<not> n \<le> 0xFFFF"
    "\<not> n < 0x100000000 \<Longrightarrow> \<not> n < 253 \<and> \<not> n \<le> 0xFFFF \<and> \<not> n \<le> 0xFFFFFFFF"
    by (simp_all add: word_less_nat_alt word_le_nat_alt)
qed

lemma compact_size_tags:
  "\<not> (253 :: byte) < 253" "\<not> (254 :: byte) < 253" "(254 :: byte) \<noteq> 253" "\<not> (255 :: byte) < 253"
  "(255 :: byte) \<noteq> 253" "(255 :: byte) \<noteq> 254"
  by simp_all

lemma word_of_le_single [simp]: "word_of_le [b] = (b :: byte)"
  by (simp add: word_of_le_def)

context byte_source
begin

lemma reads_ser_readdata8 [wire_intros]: "reads (ser_readdata8 rd) (ser_writedata8 x) x"
  unfolding ser_readdata8_def [abs_def] ser_writedata8_def
  by (rule reads_map [OF reads_rd]) simp_all

lemma reads_ser_readdata16 [wire_intros]: "reads (ser_readdata16 rd) (ser_writedata16 x) x"
  unfolding ser_readdata16_def [abs_def] ser_writedata16_def
  by (rule reads_map [OF reads_rd]) (simp_all add: le_simps)

lemma reads_ser_readdata32 [wire_intros]: "reads (ser_readdata32 rd) (ser_writedata32 x) x"
  unfolding ser_readdata32_def [abs_def] ser_writedata32_def
  by (rule reads_map [OF reads_rd]) (simp_all add: le_simps)

lemma reads_ser_readdata64 [wire_intros]: "reads (ser_readdata64 rd) (ser_writedata64 x) x"
  unfolding ser_readdata64_def [abs_def] ser_writedata64_def
  by (rule reads_map [OF reads_rd]) (simp_all add: le_simps)

lemma ser_readdata_Inr:
  assumes "inv s" "8 * n \<le> LENGTH('a::len)" "n < 2 ^ 64"
    "res_bind (rd n s) (\<lambda>(bs, s'). Inr (word_of_le bs :: 'a word, s')) = Inr (x, s')"
  shows "inv s' \<and> contents s = word_to_le n x @ contents s'"
proof -
  from assms(4) obtain bs where "rd n s = Inr (bs, s')" "x = word_of_le bs"
    by (auto simp: res_bind_Inr_iff)
  with rd_Inr [OF assms(1,3)] assms(2) show ?thesis by (auto simp: le_simps)
qed

lemma ser_readdata8_Inr:
  "inv s \<Longrightarrow> ser_readdata8 rd s = Inr (x, s') \<Longrightarrow> inv s' \<and> contents s = ser_writedata8 x @ contents s'"
  using ser_readdata_Inr [of s 1 x s'] by (simp add: ser_readdata8_def ser_writedata8_def word_to_le_def)

lemma ser_readdata16_Inr:
  "inv s \<Longrightarrow> ser_readdata16 rd s = Inr (x, s') \<Longrightarrow> inv s' \<and> contents s = ser_writedata16 x @ contents s'"
  using ser_readdata_Inr [of s 2 x s'] by (simp add: ser_readdata16_def ser_writedata16_def)

lemma ser_readdata32_Inr:
  "inv s \<Longrightarrow> ser_readdata32 rd s = Inr (x, s') \<Longrightarrow> inv s' \<and> contents s = ser_writedata32 x @ contents s'"
  using ser_readdata_Inr [of s 4 x s'] by (simp add: ser_readdata32_def ser_writedata32_def)

lemma ser_readdata64_Inr:
  "inv s \<Longrightarrow> ser_readdata64 rd s = Inr (x, s') \<Longrightarrow> inv s' \<and> contents s = ser_writedata64 x @ contents s'"
  using ser_readdata_Inr [of s 8 x s'] by (simp add: ser_readdata64_def ser_writedata64_def)

lemma ReadVarInt_more:
  assumes "inv s" "contents s = b # rest" "\<not> n > drop_bit 7 (- 1)" "b AND 0x80 \<noteq> 0"
    "push_bit 7 n OR ucast (b AND 0x7F) = x" "x \<noteq> - 1"
  shows "\<exists>s'. inv s' \<and> contents s' = rest \<and> ReadVarInt_loop rd n s = ReadVarInt_loop rd (x + 1) s'"
proof -
  from assms(1,2) readsD [OF reads_ser_readdata8 [of b], of s rest]
  obtain s' where s': "ser_readdata8 rd s = Inr (b, s')" "inv s'" "contents s' = rest"
    by (auto simp: ser_writedata8_def)
  with assms(3-6) have "ReadVarInt_loop rd n s = ReadVarInt_loop rd (x + 1) s'"
    by (subst ReadVarInt_loop.simps) (simp only: res_bind_simps split_conv if_False if_True not_False_eq_True)
  with s' show ?thesis by blast
qed

lemma ReadVarInt_last:
  assumes "inv s" "contents s = b # rest" "\<not> n > drop_bit 7 (- 1)" "b AND 0x80 = 0"
    "push_bit 7 n OR ucast (b AND 0x7F) = x"
  shows "\<exists>s'. inv s' \<and> contents s' = rest \<and> ReadVarInt_loop rd n s = Inr (x, s')"
proof -
  from assms(1,2) readsD [OF reads_ser_readdata8 [of b], of s rest]
  obtain s' where s': "ser_readdata8 rd s = Inr (b, s')" "inv s'" "contents s' = rest"
    by (auto simp: ser_writedata8_def)
  with assms(3-5) have "ReadVarInt_loop rd n s = Inr (x, s')"
    by (subst ReadVarInt_loop.simps) (simp only: res_bind_simps split_conv if_False if_True simp_thms)
  with s' show ?thesis by blast
qed

lemma ReadVarInt_prefix:
  assumes len: "8 \<le> LENGTH('a::len)"
  shows "inv s \<Longrightarrow> contents s = varint_prefix (a :: 'a word) @ rest \<Longrightarrow>
    \<exists>s'. inv s' \<and> contents s' = rest \<and> ReadVarInt_loop rd 0 s = ReadVarInt_loop rd a s'"
proof (induction "unat a" arbitrary: a rest rule: less_induct)
  case less
  show ?case
  proof (cases "a = 0")
    case True
    with less.prems show ?thesis by (auto simp: varint_prefix_def)
  next
    case False
    define x where "x = a - 1"
    then have a: "a = x + 1" and x: "x \<noteq> - 1" using False word_plus_1_eq_0 [of x] by auto
    have "unat a = Suc (unat x)"
      using False unatSuc [of x] by (simp add: a add.commute)
    then have "unat (drop_bit 7 x) < unat a" by (simp only: unat_drop_bit_7)
    moreover have c: "contents s = varint_prefix (drop_bit 7 x) @ [low_digit x OR 0x80] @ rest"
      using less.prems(2) varint_prefix_digits [OF x] a by simp
    ultimately obtain s1 where s1: "inv s1" "contents s1 = [low_digit x OR 0x80] @ rest"
      "ReadVarInt_loop rd 0 s = ReadVarInt_loop rd (drop_bit 7 x) s1"
      using less.hyps less.prems(1) by blast
    have d: "unat (low_digit x) < 128" by simp
    have "\<exists>s2. inv s2 \<and> contents s2 = rest
        \<and> ReadVarInt_loop rd (drop_bit 7 x) s1 = ReadVarInt_loop rd (x + 1) s2"
      by (rule ReadVarInt_more [where b = "low_digit x OR 0x80"])
        (use s1(1,2) x byte_set_high_bit [OF d] digits_shift_in [OF len, of x]
         in \<open>simp_all only: not_less append.simps not_False_eq_True\<close>)
    with s1(3) a show ?thesis by metis
  qed
qed

lemma reads_ReadVarInt [wire_intros]:
  assumes len: "8 \<le> LENGTH('a::len)"
  shows "reads (ReadVarInt rd) (WriteVarInt (x :: 'a word)) x"
proof (rule readsI)
  fix s rest
  assume "inv s" "contents s = WriteVarInt x @ rest"
  then obtain s1 where s1: "inv s1" "contents s1 = low_digit x # rest"
    "ReadVarInt_loop rd 0 s = ReadVarInt_loop rd (drop_bit 7 x) s1"
    using ReadVarInt_prefix [OF len, of s "drop_bit 7 x" "low_digit x # rest"]
    by (auto simp: WriteVarInt_digits)
  have d: "unat (low_digit x) < 128" by simp
  have "\<exists>s2. inv s2 \<and> contents s2 = rest \<and> ReadVarInt_loop rd (drop_bit 7 x) s1 = Inr (x, s2)"
    by (rule ReadVarInt_last [where b = "low_digit x"])
      (use s1(1,2) byte_set_high_bit [OF d] digits_shift_in [OF len, of x]
       in \<open>simp_all only: not_less\<close>)
  with s1(3) show "\<exists>s'. ReadVarInt rd s = Inr (x, s') \<and> inv s' \<and> contents s' = rest"
    by (auto simp: ReadVarInt_def)
qed

lemma ReadVarInt_loop_Inr:
  assumes "ReadVarInt_loop rd n s = Inr (x, s')"
  obtains b s1 where "ser_readdata8 rd s = Inr (b, s1)" "n \<le> drop_bit 7 (- 1)" "b AND 0x80 \<noteq> 0"
      "push_bit 7 n OR ucast (b AND 0x7F) \<noteq> - 1"
      "ReadVarInt_loop rd ((push_bit 7 n OR ucast (b AND 0x7F)) + 1) s1 = Inr (x, s')"
  | b where "ser_readdata8 rd s = Inr (b, s')" "n \<le> drop_bit 7 (- 1)" "b AND 0x80 = 0"
      "push_bit 7 n OR ucast (b AND 0x7F) = x"
proof -
  from assms [unfolded ReadVarInt_loop.simps [of rd n s] res_bind_Inr_iff]
  obtain b s1 where b: "ser_readdata8 rd s = Inr (b, s1)"
    and body: "(if n > drop_bit 7 (- 1) then Inl ''ReadVarInt(): size too large''
       else if b AND 0x80 \<noteq> 0 then
         if push_bit 7 n OR ucast (b AND 0x7F) = - 1 then Inl ''ReadVarInt(): size too large''
         else ReadVarInt_loop rd ((push_bit 7 n OR ucast (b AND 0x7F)) + 1) s1
       else Inr (push_bit 7 n OR ucast (b AND 0x7F), s1)) = Inr (x, s')"
    by (auto simp only: split_paired_all split_conv)
  show ?thesis
  proof (cases "b AND 0x80 = 0")
    case True
    with body b show ?thesis by (intro that(2) [of b]) (auto simp only: not_less split: if_split_asm)
  next
    case False
    with body b show ?thesis
      by (intro that(1) [of b s1]) (auto simp only: not_less split: if_split_asm)
  qed
qed

lemma ReadVarInt_loop_canonical:
  assumes len: "8 \<le> LENGTH('a::len)"
  shows "inv s \<Longrightarrow> ReadVarInt_loop rd (n :: 'a word) s = Inr (x, s') \<Longrightarrow>
    inv s' \<and> (\<exists>cs. contents s = cs @ contents s' \<and> varint_prefix n @ cs = WriteVarInt x)"
proof (induction "unat (- 1 - n)" arbitrary: n s rule: less_induct)
  case less
  from less.prems(2) show ?case
  proof (cases rule: ReadVarInt_loop_Inr)
    case (1 b s1)
    let ?y = "push_bit 7 n OR ucast (b AND 0x7F)"
    from ser_readdata8_Inr [OF less.prems(1) 1(1)]
    have s1: "inv s1" "contents s = b # contents s1" by (simp_all add: ser_writedata8_def)
    have "unat (b AND 0x7F) < 128" by (simp only: byte_high_bit)
    from shift_in_digits [OF len 1(2) this] have y: "drop_bit 7 ?y = n" "low_digit ?y = b AND 0x7F" .
    have "varint_prefix (?y + 1) = varint_prefix n @ [b]"
      using varint_prefix_digits [OF 1(4)] byte_high_bit(2) [OF 1(3)] by (simp only: y)
    moreover have "unat (- 1 - (?y + 1)) < unat (- 1 - n)"
      using 1(2,4) by (intro ReadVarInt_progress(1)) (simp_all only: not_less not_False_eq_True)
    with less.hyps s1(1) 1(5) have "inv s' \<and> (\<exists>cs. contents s1 = cs @ contents s'
        \<and> varint_prefix (?y + 1) @ cs = WriteVarInt x)"
      by blast
    ultimately show ?thesis using s1(2) by auto
  next
    case (2 b)
    let ?y = "push_bit 7 n OR ucast (b AND 0x7F)"
    from ser_readdata8_Inr [OF less.prems(1) 2(1)]
    have s1: "inv s'" "contents s = [b] @ contents s'" by (simp_all add: ser_writedata8_def)
    have "unat (b AND 0x7F) < 128" by (simp only: byte_high_bit)
    from shift_in_digits [OF len 2(2) this] have y: "drop_bit 7 ?y = n" "low_digit ?y = b AND 0x7F" .
    have "WriteVarInt x = varint_prefix n @ [b]"
      unfolding 2(4) [symmetric] WriteVarInt_digits [of ?y] y
      using byte_high_bit(1) [OF 2(3)] by (simp only:)
    with s1 show ?thesis by auto
  qed
qed

lemma ReadVarInt_canonical:
  assumes "8 \<le> LENGTH('a::len)" "inv s" "ReadVarInt rd s = Inr (x :: 'a word, s')"
  shows "inv s' \<and> contents s = WriteVarInt x @ contents s'"
  using ReadVarInt_loop_canonical [OF assms(1,2), of 0 x s'] assms(3)
  by (auto simp: ReadVarInt_def varint_prefix_def)

lemma reads_ReadCompactSize [wire_intros]:
  assumes "range_check \<longrightarrow> n \<le> MAX_SIZE"
  shows "reads (ReadCompactSize rd range_check) (WriteCompactSize n) n"
proof (rule readsI)
  fix s rest
  assume s: "inv s" "contents s = WriteCompactSize n @ rest"
  note rc = assms [unfolded not_less [symmetric]]
  note tag = readsD [OF reads_ser_readdata8 s(1)]
  consider "n < 253" | "\<not> n < 253" "n \<le> 0xFFFF" | "\<not> n \<le> 0xFFFF" "n \<le> 0xFFFFFFFF" | "\<not> n \<le> 0xFFFFFFFF"
    by blast
  then show "\<exists>s'. ReadCompactSize rd range_check s = Inr (n, s') \<and> inv s' \<and> contents s' = rest"
  proof cases
    case 1
    with s(2) obtain s1 where "ser_readdata8 rd s = Inr (ucast n, s1)" "inv s1" "contents s1 = rest"
      using tag by (auto simp only: WriteCompactSize_def if_True)
    with 1 rc show ?thesis
      using compact_size_words(1,2) [OF 1] by (auto simp only: ReadCompactSize_def res_eval)
  next
    case 2
    with s(2) obtain s1 s2 where "ser_readdata8 rd s = Inr (253, s1)"
      "ser_readdata16 rd s1 = Inr (ucast n, s2)" "inv s2" "contents s2 = rest"
      using tag readsD [OF reads_ser_readdata16]
      by (simp only: WriteCompactSize_def res_eval) metis
    with 2 rc show ?thesis
      using compact_size_words(3) [OF 2(2)] by (auto simp only: ReadCompactSize_def compact_size_tags res_eval)
  next
    case 3
    with s(2) obtain s1 s2 where "ser_readdata8 rd s = Inr (254, s1)"
      "ser_readdata32 rd s1 = Inr (ucast n, s2)" "inv s2" "contents s2 = rest"
      using tag readsD [OF reads_ser_readdata32] compact_size_words(5) [OF 3(1)]
      by (simp only: WriteCompactSize_def res_eval) metis
    with 3 rc show ?thesis
      using compact_size_words(4) [OF 3(2)] compact_size_words(5) [OF 3(1)]
      by (auto simp only: ReadCompactSize_def compact_size_tags res_eval)
  next
    case 4
    with s(2) obtain s1 s2 where "ser_readdata8 rd s = Inr (255, s1)"
      "ser_readdata64 rd s1 = Inr (n, s2)" "inv s2" "contents s2 = rest"
      using tag readsD [OF reads_ser_readdata64] compact_size_words(6) [OF 4]
      by (simp only: WriteCompactSize_def res_eval) metis
    with 4 rc show ?thesis
      using compact_size_words(6) [OF 4]
      by (auto simp only: ReadCompactSize_def compact_size_tags res_eval)
  qed
qed

lemma ReadCompactSize_canonical:
  assumes s: "inv s" and ok: "ReadCompactSize rd range_check s = Inr (n, s')"
  shows "inv s' \<and> contents s = WriteCompactSize n @ contents s' \<and> (range_check \<longrightarrow> n \<le> MAX_SIZE)"
proof -
  from ok obtain ch s1 where ch: "ser_readdata8 rd s = Inr (ch, s1)"
    by (auto simp: ReadCompactSize_def res_bind_Inr_iff)
  from ok have range: "range_check \<longrightarrow> n \<le> MAX_SIZE"
    by (auto simp: ReadCompactSize_def res_bind_Inr_iff not_less split: if_split_asm)
  from ser_readdata8_Inr [OF s ch]
  have s1: "inv s1" "contents s = ser_writedata8 ch @ contents s1" by simp_all
  have "unat ch < 253 \<or> unat ch = 253 \<or> unat ch = 254 \<or> unat ch = 255"
    using unat_byte_bound [of ch] by linarith
  then consider "ch < 253" | "ch = 253" | "ch = 254" | "ch = 255"
    by (auto simp: word_less_nat_alt word_unat_eq_iff)
  then have "inv s' \<and> contents s = WriteCompactSize n @ contents s'"
  proof cases
    case 1
    with ok ch have "n = ucast ch" "s' = s1"
      by (auto simp: ReadCompactSize_def split: if_split_asm)
    with 1 s1 show ?thesis using compact_size_tag_words(1,2) [of ch]
      by (simp only: WriteCompactSize_def res_eval)
  next
    case 2
    with ok ch obtain k where k: "ser_readdata16 rd s1 = Inr (k, s')" "n = ucast k" "\<not> n < 253"
      by (auto simp: ReadCompactSize_def res_bind_Inr_iff split: if_split_asm)
    from ser_readdata16_Inr [OF s1(1) k(1)] s1(2) 2 k compact_size_tag_words(3,4) [of k]
    show ?thesis by (simp only: WriteCompactSize_def res_eval)
  next
    case 3
    with ok ch obtain k where k: "ser_readdata32 rd s1 = Inr (k, s')" "n = ucast k" "\<not> n < 0x10000"
      by (auto simp: ReadCompactSize_def res_bind_Inr_iff split: if_split_asm)
    from ser_readdata32_Inr [OF s1(1) k(1)] s1(2) 3 k compact_size_tag_words(5,6) [of k]
      compact_size_tag_words(7) [OF k(3)]
    show ?thesis by (simp only: WriteCompactSize_def res_eval)
  next
    case 4
    with ok ch obtain k where k: "ser_readdata64 rd s1 = Inr (n, s')" "\<not> n < 0x100000000"
      by (auto simp: ReadCompactSize_def res_bind_Inr_iff split: if_split_asm)
    from ser_readdata64_Inr [OF s1(1) k(1)] s1(2) 4 compact_size_tag_words(8) [OF k(2)]
    show ?thesis by (simp only: WriteCompactSize_def res_eval)
  qed
  with range show ?thesis by simp
qed

end

section \<open>Byte vectors and vectors of objects\<close>

text \<open>
  \<open>std::vector<unsigned char>\<close> and \<open>prevector<N, unsigned char>\<close>: the size, then the bytes;
  the reader takes them in blocks of at most 5000000 bytes.
\<close>

definition WriteBytes :: "bytes \<Rightarrow> bytes" where
  "WriteBytes v = WriteCompactSize (of_nat (length v)) @ v"

function ReadBytes_loop ::
    "(nat \<Rightarrow> 's \<Rightarrow> string + bytes \<times> 's) \<Rightarrow> nat \<Rightarrow> nat \<Rightarrow> bytes \<Rightarrow> 's \<Rightarrow> string + bytes \<times> 's" where
  "ReadBytes_loop rd nSize i v s =
     (if i < nSize then
        let blk = min (nSize - i) (1 + 4999999 div 1) in
        res_bind (rd blk s) (\<lambda>(bs, s'). ReadBytes_loop rd nSize (i + blk) (v @ bs) s')
      else Inr (v, s))"
  by pat_completeness auto
termination
  by (relation "measure (\<lambda>(rd, nSize, i, v, s). nSize - i)") auto

declare ReadBytes_loop.simps [simp del]

definition ReadBytes :: "(nat \<Rightarrow> 's \<Rightarrow> string + bytes \<times> 's) \<Rightarrow> 's \<Rightarrow> string + bytes \<times> 's" where
  "ReadBytes rd s = res_bind (ReadCompactSize rd True s) (\<lambda>(nSize, s').
     ReadBytes_loop rd (unat nSize) 0 [] s')"

text \<open>
  \<open>VectorFormatter\<close>: the elements are read in batches of \<open>MAX_VECTOR_ALLOCATE / sizeof(T)\<close>;
  \<open>sizeof(T)\<close> is an argument, bounded by the \<open>static_assert\<close>.
\<close>

definition MAX_VECTOR_ALLOCATE :: nat where
  "MAX_VECTOR_ALLOCATE = 5000000"

definition VectorFormatter_Ser :: "('a \<Rightarrow> bytes) \<Rightarrow> 'a list \<Rightarrow> bytes" where
  "VectorFormatter_Ser ser v = WriteCompactSize (of_nat (length v)) @ concat (map ser v)"

fun VectorFormatter_batch ::
    "('s \<Rightarrow> string + 'a \<times> 's) \<Rightarrow> nat \<Rightarrow> 'a list \<Rightarrow> 's \<Rightarrow> string + 'a list \<times> 's" where
  "VectorFormatter_batch unser 0 v s = Inr (v, s)"
| "VectorFormatter_batch unser (Suc k) v s =
     res_bind (unser s) (\<lambda>(x, s'). VectorFormatter_batch unser k (v @ [x]) s')"

lemma VectorFormatter_progress:
  "\<not> (sizeofT = 0 \<or> MAX_VECTOR_ALLOCATE < sizeofT) \<Longrightarrow> allocated < sz \<Longrightarrow>
     sz - min sz (allocated + MAX_VECTOR_ALLOCATE div sizeofT) < sz - allocated"
  using div_greater_zero_iff [of MAX_VECTOR_ALLOCATE sizeofT] by auto

function VectorFormatter_loop ::
    "('s \<Rightarrow> string + 'a \<times> 's) \<Rightarrow> nat \<Rightarrow> nat \<Rightarrow> nat \<Rightarrow> 'a list \<Rightarrow> 's \<Rightarrow> string + 'a list \<times> 's" where
  "VectorFormatter_loop unser sizeofT sz allocated v s =
     (if sizeofT = 0 \<or> sizeofT > MAX_VECTOR_ALLOCATE then Inl ''Vector element size too large''
      else if allocated < sz then
        let allocated' = min sz (allocated + MAX_VECTOR_ALLOCATE div sizeofT) in
        res_bind (VectorFormatter_batch unser (allocated' - length v) v s) (\<lambda>(v', s').
          VectorFormatter_loop unser sizeofT sz allocated' v' s')
      else Inr (v, s))"
  by pat_completeness auto
termination
  by (relation "measure (\<lambda>(unser, sizeofT, sz, allocated, v, s). sz - allocated)")
    (simp_all add: VectorFormatter_progress)

declare VectorFormatter_loop.simps [simp del]

definition VectorFormatter_Unser ::
    "(nat \<Rightarrow> 's \<Rightarrow> string + bytes \<times> 's) \<Rightarrow> nat \<Rightarrow> ('s \<Rightarrow> string + 'a \<times> 's) \<Rightarrow> 's \<Rightarrow> string + 'a list \<times> 's" where
  "VectorFormatter_Unser rd sizeofT unser s =
     res_bind (ReadCompactSize rd True s) (\<lambda>(sz, s').
       VectorFormatter_loop unser sizeofT (unat sz) 0 [] s')"

lemma unat_size_word: "length v \<le> unat MAX_SIZE \<Longrightarrow> unat (of_nat (length v) :: u64) = length v"
  by (simp add: MAX_SIZE_def unat_of_nat)

context byte_source
begin

lemma reads_ReadBytes_loop:
  "nSize - i = length bs \<Longrightarrow> reads (ReadBytes_loop rd nSize i v) bs (v @ bs)"
proof (induction "length bs" arbitrary: bs i v rule: less_induct)
  case less
  show ?case
  proof (cases "i < nSize")
    case False
    with less.prems show ?thesis
      by (simp add: ReadBytes_loop.simps [abs_def] reads_return)
  next
    case True
    let ?blk = "min (nSize - i) 5000000"
    have "reads (\<lambda>s. res_bind (rd ?blk s) (\<lambda>(cs, s'). ReadBytes_loop rd nSize (i + ?blk) (v @ cs) s'))
        (take ?blk bs @ drop ?blk bs) ((v @ take ?blk bs) @ drop ?blk bs)"
    proof (rule reads_bind)
      show "reads (rd ?blk) (take ?blk bs) (take ?blk bs)"
        using less.prems by (intro reads_rd) simp
      show "reads (ReadBytes_loop rd nSize (i + ?blk) (v @ take ?blk bs)) (drop ?blk bs)
          ((v @ take ?blk bs) @ drop ?blk bs)"
        using less.prems True by (intro less.hyps) auto
    qed
    with True show ?thesis
      by (simp add: ReadBytes_loop.simps [of rd nSize i v, abs_def] Let_def)
  qed
qed

lemma reads_ReadBytes [wire_intros]:
  assumes "length v \<le> unat MAX_SIZE"
  shows "reads (ReadBytes rd) (WriteBytes v) v"
  unfolding ReadBytes_def [abs_def] WriteBytes_def
proof (rule reads_bind)
  show "reads (ReadCompactSize rd True) (WriteCompactSize (of_nat (length v))) (of_nat (length v))"
    by (rule reads_ReadCompactSize) (use assms in \<open>simp add: word_le_nat_alt unat_size_word\<close>)
  show "reads (ReadBytes_loop rd (unat (of_nat (length v) :: u64)) 0 []) v v"
    using reads_ReadBytes_loop [of "length v" 0 v "[]"] assms by (simp add: unat_size_word)
qed

lemma reads_VectorFormatter_batch:
  "\<forall>x\<in>set xs. reads unser (ser x) x \<Longrightarrow>
     reads (VectorFormatter_batch unser (length xs) v) (concat (map ser xs)) (v @ xs)"
proof (induction xs arbitrary: v)
  case Nil
  then show ?case by (simp add: reads_return)
next
  case (Cons x xs)
  have "reads (\<lambda>s. res_bind (unser s) (\<lambda>(x, s'). VectorFormatter_batch unser (length xs) (v @ [x]) s'))
      (ser x @ concat (map ser xs)) ((v @ [x]) @ xs)"
    by (rule reads_bind) (use Cons.prems Cons.IH [of "v @ [x]"] in simp_all)
  then show ?case by simp
qed

lemma reads_VectorFormatter_loop:
  assumes "0 < sizeofT" "sizeofT \<le> MAX_VECTOR_ALLOCATE"
  shows "length v = allocated \<Longrightarrow> sz - allocated = length xs \<Longrightarrow> \<forall>x\<in>set xs. reads unser (ser x) x \<Longrightarrow>
    reads (VectorFormatter_loop unser sizeofT sz allocated v) (concat (map ser xs)) (v @ xs)"
proof (induction "length xs" arbitrary: xs allocated v rule: less_induct)
  case less
  show ?case
  proof (cases "allocated < sz")
    case False
    with less.prems assms show ?thesis
      by (simp add: VectorFormatter_loop.simps [abs_def] reads_return)
  next
    case True
    define k where "k = min sz (allocated + MAX_VECTOR_ALLOCATE div sizeofT) - allocated"
    have "0 < MAX_VECTOR_ALLOCATE div sizeofT" using assms by (simp add: div_greater_zero_iff)
    with True have k: "0 < k" "k \<le> length xs" "allocated + k = min sz (allocated + MAX_VECTOR_ALLOCATE div sizeofT)"
      using less.prems(2) by (auto simp: k_def)
    let ?batch = "\<lambda>s. VectorFormatter_batch unser (allocated + k - length v) v s"
    have "reads (\<lambda>s. res_bind (?batch s) (\<lambda>(v', s'). VectorFormatter_loop unser sizeofT sz (allocated + k) v' s'))
        (concat (map ser (take k xs)) @ concat (map ser (drop k xs))) ((v @ take k xs) @ drop k xs)"
    proof (rule reads_bind)
      have "reads (VectorFormatter_batch unser (length (take k xs)) v) (concat (map ser (take k xs))) (v @ take k xs)"
        by (rule reads_VectorFormatter_batch) (use less.prems(3) in \<open>auto dest: in_set_takeD\<close>)
      then show "reads ?batch (concat (map ser (take k xs))) (v @ take k xs)"
        using less.prems(1) k(2) by (simp add: min_absorb2)
      show "reads (VectorFormatter_loop unser sizeofT sz (allocated + k) (v @ take k xs))
          (concat (map ser (drop k xs))) ((v @ take k xs) @ drop k xs)"
        using less.prems k by (intro less.hyps) (auto dest: in_set_dropD)
    qed
    also have "concat (map ser (take k xs)) @ concat (map ser (drop k xs)) = concat (map ser xs)"
      by (metis append_take_drop_id concat_append map_append)
    finally show ?thesis
      using True assms k(3)
      by (simp add: VectorFormatter_loop.simps [of unser sizeofT sz allocated v, abs_def] Let_def)
  qed
qed

lemma reads_VectorFormatter [wire_intros]:
  assumes "0 < sizeofT" "sizeofT \<le> MAX_VECTOR_ALLOCATE" "length v \<le> unat MAX_SIZE"
    "\<forall>x\<in>set v. reads unser (ser x) x"
  shows "reads (VectorFormatter_Unser rd sizeofT unser) (VectorFormatter_Ser ser v) v"
  unfolding VectorFormatter_Unser_def [abs_def] VectorFormatter_Ser_def
proof (rule reads_bind)
  show "reads (ReadCompactSize rd True) (WriteCompactSize (of_nat (length v))) (of_nat (length v))"
    by (rule reads_ReadCompactSize) (use assms(3) in \<open>simp add: word_le_nat_alt unat_size_word\<close>)
  show "reads (VectorFormatter_loop unser sizeofT (unat (of_nat (length v) :: u64)) 0 []) (concat (map ser v)) v"
    using reads_VectorFormatter_loop [OF assms(1,2), of "[]" 0 "length v" v unser ser] assms(3,4)
    by (simp add: unat_size_word)
qed

end

subsection \<open>What the readers accept\<close>

context byte_source
begin

lemma ReadBytes_loop_Inr:
  "inv s \<Longrightarrow> i \<le> nSize \<Longrightarrow> ReadBytes_loop rd nSize i v s = Inr (w, s') \<Longrightarrow>
     inv s' \<and> (\<exists>bs. w = v @ bs \<and> length bs = nSize - i \<and> contents s = bs @ contents s')"
proof (induction "nSize - i" arbitrary: i v s rule: less_induct)
  case less
  show ?case
  proof (cases "i < nSize")
    case False
    then have "ReadBytes_loop rd nSize i v s = Inr (v, s)" by (simp add: ReadBytes_loop.simps [of rd nSize i])
    with less.prems False show ?thesis by simp
  next
    case True
    define blk where "blk = min (nSize - i) 5000000"
    have blk: "0 < blk" "blk < 2 ^ 64" "i + blk \<le> nSize" using True by (simp_all add: blk_def)
    from less.prems(3) True obtain bs s1 where bs: "rd blk s = Inr (bs, s1)" "ReadBytes_loop rd nSize (i + blk) (v @ bs) s1 = Inr (w, s')"
      by (auto simp: ReadBytes_loop.simps [of rd nSize i] Let_def blk_def res_bind_Inr_iff)
    have s1: "inv s1" "length bs = blk" "contents s = bs @ contents s1" using rd_Inr [OF less.prems(1) blk(2) bs(1)] by simp_all
    have "nSize - (i + blk) < nSize - i" using blk True by simp
    then obtain cs where "inv s'" "w = (v @ bs) @ cs" "length cs = nSize - (i + blk)" "contents s1 = cs @ contents s'"
      using less.hyps [OF _ s1(1) blk(3) bs(2)] by blast
    with s1 blk(3) show ?thesis by simp
  qed
qed

lemma of_nat_length: "length v = unat (n :: u64) \<Longrightarrow> of_nat (length v) = n"
  by simp

lemma ReadBytes_Inr:
  assumes "inv s" "ReadBytes rd s = Inr (v, s')"
  shows "inv s' \<and> contents s = WriteBytes v @ contents s' \<and> length v \<le> unat MAX_SIZE"
proof -
  obtain n s1 where n: "ReadCompactSize rd True s = Inr (n, s1)" "ReadBytes_loop rd (unat n) 0 [] s1 = Inr (v, s')"
    using assms(2) by (auto simp: ReadBytes_def res_bind_Inr_iff)
  have s1: "inv s1" "contents s = WriteCompactSize n @ contents s1" "n \<le> MAX_SIZE" using ReadCompactSize_canonical [OF assms(1) n(1)] by simp_all
  have "inv s' \<and> length v = unat n \<and> contents s1 = v @ contents s'" using ReadBytes_loop_Inr [OF s1(1) _ n(2)] by auto
  with s1 show ?thesis by (simp add: WriteBytes_def of_nat_length word_le_nat_alt)
qed

lemma VectorFormatter_batch_Inr:
  assumes "consumes unser (\<lambda>x bs. bs = ser x \<and> P x)"
  shows "inv s \<Longrightarrow> VectorFormatter_batch unser k v s = Inr (w, s') \<Longrightarrow>
    inv s' \<and> (\<exists>xs. w = v @ xs \<and> length xs = k \<and> (\<forall>x\<in>set xs. P x) \<and> contents s = concat (map ser xs) @ contents s')"
proof (induction k arbitrary: v s)
  case (Suc k)
  obtain x s1 where x: "unser s = Inr (x, s1)" "VectorFormatter_batch unser k (v @ [x]) s1 = Inr (w, s')"
    using Suc.prems(2) by (auto simp: res_bind_Inr_iff)
  have s1: "inv s1" "P x" "contents s = ser x @ contents s1" using consumesD [OF assms Suc.prems(1) x(1)] by auto
  obtain xs where "inv s'" "w = (v @ [x]) @ xs" "length xs = k" "\<forall>x\<in>set xs. P x" "contents s1 = concat (map ser xs) @ contents s'"
    using Suc.IH [OF s1(1) x(2)] by blast
  with s1 show ?case by (intro conjI exI [of _ "x # xs"]) simp_all
qed simp

lemma VectorFormatter_loop_Inr:
  assumes "consumes unser (\<lambda>x bs. bs = ser x \<and> P x)"
  shows "inv s \<Longrightarrow> allocated \<le> sz \<Longrightarrow> length v = allocated \<Longrightarrow> VectorFormatter_loop unser sizeofT sz allocated v s = Inr (w, s') \<Longrightarrow>
    inv s' \<and> (\<exists>xs. w = v @ xs \<and> length xs = sz - allocated \<and> (\<forall>x\<in>set xs. P x) \<and> contents s = concat (map ser xs) @ contents s')"
proof (induction "sz - allocated" arbitrary: allocated v s rule: less_induct)
  case less
  have size: "\<not> (sizeofT = 0 \<or> sizeofT > MAX_VECTOR_ALLOCATE)"
    using less.prems(4) by (auto simp: VectorFormatter_loop.simps [of unser sizeofT sz allocated] split: if_splits)
  show ?case
  proof (cases "allocated < sz")
    case False
    then have "VectorFormatter_loop unser sizeofT sz allocated v s = Inr (v, s)"
      using size by (simp add: VectorFormatter_loop.simps [of unser sizeofT sz allocated])
    with less.prems False show ?thesis by simp
  next
    case True
    define b where "b = min sz (allocated + MAX_VECTOR_ALLOCATE div sizeofT)"
    have dec: "sz - b < sz - allocated" unfolding b_def using size True by (intro VectorFormatter_progress) auto
    have b: "b \<le> sz" "allocated \<le> b" using less.prems(2) by (simp_all add: b_def)
    obtain v1 s1 where v1: "VectorFormatter_batch unser (b - length v) v s = Inr (v1, s1)"
        "VectorFormatter_loop unser sizeofT sz b v1 s1 = Inr (w, s')"
      using less.prems(4) True size by (auto simp: VectorFormatter_loop.simps [of unser sizeofT sz allocated] Let_def b_def res_bind_Inr_iff)
    obtain xs where xs: "inv s1" "v1 = v @ xs" "length xs = b - length v" "\<forall>x\<in>set xs. P x" "contents s = concat (map ser xs) @ contents s1"
      using VectorFormatter_batch_Inr [OF assms less.prems(1) v1(1)] by blast
    have "length v1 = b" using xs(2,3) less.prems(3) b(2) by simp
    then obtain ys where "inv s'" "w = v1 @ ys" "length ys = sz - b" "\<forall>x\<in>set ys. P x" "contents s1 = concat (map ser ys) @ contents s'"
      using less.hyps [OF dec xs(1) b(1) _ v1(2)] by blast
    with xs b less.prems(3) show ?thesis by (intro conjI exI [of _ "xs @ ys"]) auto
  qed
qed

lemma VectorFormatter_Inr:
  assumes "consumes unser (\<lambda>x bs. bs = ser x \<and> P x)" "inv s" "VectorFormatter_Unser rd sizeofT unser s = Inr (v, s')"
  shows "inv s' \<and> contents s = VectorFormatter_Ser ser v @ contents s' \<and> length v \<le> unat MAX_SIZE \<and> (\<forall>x\<in>set v. P x)"
proof -
  obtain n s1 where n: "ReadCompactSize rd True s = Inr (n, s1)" "VectorFormatter_loop unser sizeofT (unat n) 0 [] s1 = Inr (v, s')"
    using assms(3) by (auto simp: VectorFormatter_Unser_def res_bind_Inr_iff)
  have s1: "inv s1" "contents s = WriteCompactSize n @ contents s1" "n \<le> MAX_SIZE" using ReadCompactSize_canonical [OF assms(2) n(1)] by simp_all
  have "inv s' \<and> length v = unat n \<and> (\<forall>x\<in>set v. P x) \<and> contents s1 = concat (map ser v) @ contents s'"
    using VectorFormatter_loop_Inr [OF assms(1) s1(1) _ _ n(2)] by auto
  with s1 show ?thesis by (auto simp: VectorFormatter_Ser_def of_nat_length word_le_nat_alt)
qed

end

section \<open>Prefix codes of the wire format\<close>

lemma ds_inv_ds_of [simp]: "length bs < 2 ^ 64 \<Longrightarrow> ds_inv (ds_of bs)"
  by (simp add: ds_inv_def ds_of_def)

lemma ds_contents_ds_of [simp]: "ds_contents (ds_of bs) = bs"
  by (simp add: ds_contents_def ds_of_def)

text \<open>
  \<open>ReadCompactSize\<close> accepts exactly the output of \<open>WriteCompactSize\<close>: reading returns \<open>n\<close> and
  leaves \<open>rest\<close> if and only if the stream holds the encoding of \<open>n\<close> followed by \<open>rest\<close> (and \<open>n\<close> is
  at most \<open>MAX_SIZE\<close> under the range check). So every size has one encoding, and no other is accepted.
\<close>

lemma compact_size_bijection:
  assumes "ds_inv s"
  shows "(\<exists>s'. ReadCompactSize ds_read range_check s = Inr (n, s') \<and> ds_contents s' = rest)
    \<longleftrightarrow> ds_contents s = WriteCompactSize n @ rest \<and> (range_check \<longrightarrow> n \<le> MAX_SIZE)"
  using ds.readsD [OF ds.reads_ReadCompactSize assms] ds.ReadCompactSize_canonical [OF assms] by blast

text \<open>
  \<open>ReadVarInt\<close> accepts exactly the output of \<open>WriteVarInt\<close>, for every integer type of at least
  eight bits: reading returns \<open>x\<close> and leaves \<open>rest\<close> if and only if the stream holds the encoding of
  \<open>x\<close> followed by \<open>rest\<close>; the overflow checks reject everything else. The encoding has the length
  that \<open>GetSizeOfVarInt\<close> computes, at most one byte per seven bits.
\<close>

lemma varint_bijection:
  fixes x :: "'a::len word"
  assumes "8 \<le> LENGTH('a)" "ds_inv s"
  shows "((\<exists>s'. ReadVarInt ds_read s = Inr (x, s') \<and> ds_contents s' = rest)
      \<longleftrightarrow> ds_contents s = WriteVarInt x @ rest)
    \<and> length (WriteVarInt x) = GetSizeOfVarInt x \<and> GetSizeOfVarInt x \<le> (LENGTH('a) + 6) div 7"
  using ds.readsD [OF ds.reads_ReadVarInt [OF assms(1)] assms(2)] ds.ReadVarInt_canonical [OF assms]
    GetSizeOfVarInt_length [of x] length_WriteVarInt_le [of x] by auto

end
