(* ===== verification/BitSets.thy ===== *)
theory BitSets
  imports Serialize
begin

text \<open>
  The bit-set formats of \<open>src/serialize.h\<close> that the masternode quorum messages use:
  packed bits (\<open>WriteFixedBitSet\<close>), offsets as VarInts (\<open>WriteFixedVarIntsBitSet\<close>) and
  the choice of the shorter one (\<open>WriteAutoBitSet\<close>).
\<close>

section \<open>Packed bits\<close>

definition GetSizeOfFixedBitSet :: "nat \<Rightarrow> nat" where
  "GetSizeOfFixedBitSet sz = (sz + 7) div 8"

definition set_packed_bit :: "bool list \<Rightarrow> nat \<Rightarrow> bytes \<Rightarrow> bytes" where
  "set_packed_bit vec p vBytes =
     vBytes[p div 8 := vBytes ! (p div 8) OR push_bit (p mod 8) (if vec ! p then 1 else 0)]"

definition WriteFixedBitSet :: "bool list \<Rightarrow> nat \<Rightarrow> bytes" where
  "WriteFixedBitSet vec sz =
     fold (set_packed_bit vec) [0..<min sz (length vec)] (replicate ((sz + 7) div 8) 0)"

definition ReadFixedBitSet ::
    "(nat \<Rightarrow> 's \<Rightarrow> string + bytes \<times> 's) \<Rightarrow> nat \<Rightarrow> 's \<Rightarrow> string + bool list \<times> 's" where
  "ReadFixedBitSet rd sz s =
     res_bind (rd ((sz + 7) div 8) s) (\<lambda>(vBytes, s').
       let vec = map (\<lambda>p. (vBytes ! (p div 8)) AND push_bit (p mod 8) 1 \<noteq> 0) [0..<sz] in
       if length vBytes * 8 \<noteq> sz then
         let rem = length vBytes * 8 - sz;
             m = NOT (drop_bit rem 0xFF) in
         if (vBytes ! (length vBytes - 1)) AND m \<noteq> 0 then Inl ''Out-of-range bits set''
         else Inr (vec, s')
       else Inr (vec, s'))"

section \<open>Offsets as VarInts\<close>

fun WriteFixedVarIntsBitSet_loop :: "int \<Rightarrow> int \<Rightarrow> bool list \<Rightarrow> bytes" where
  "WriteFixedVarIntsBitSet_loop i lst [] = WriteVarInt (0 :: u32)"
| "WriteFixedVarIntsBitSet_loop i lst (b # bs) =
     (if b then WriteVarInt (of_int (i - lst) :: u32) @ WriteFixedVarIntsBitSet_loop (i + 1) i bs
      else WriteFixedVarIntsBitSet_loop (i + 1) lst bs)"

definition WriteFixedVarIntsBitSet :: "bool list \<Rightarrow> bytes" where
  "WriteFixedVarIntsBitSet vec = WriteFixedVarIntsBitSet_loop 0 (- 1) vec"

text \<open>
  \<open>idx = lst + offset\<close> is an unsigned 32-bit sum converted to \<open>int32_t\<close>. The first branch
  after the source's two checks is the write \<open>vec[idx] = true\<close> with an index outside the
  vector, which the source does not guard and whose behaviour is undefined.
\<close>

function ReadFixedVarIntsBitSet_loop ::
    "(nat \<Rightarrow> 's \<Rightarrow> string + bytes \<times> 's) \<Rightarrow> int \<Rightarrow> bool list \<Rightarrow> 's \<Rightarrow> string + bool list \<times> 's" where
  "ReadFixedVarIntsBitSet_loop rd lst vec s =
     res_bind (ReadVarInt rd s) (\<lambda>(offset :: u32, s').
       if offset = 0 then Inr (vec, s')
       else
         let idx = sint (of_int lst + offset) in
         if idx \<ge> sint (of_nat (length vec) :: u32) then Inl ''out of bounds index''
         else if lst \<noteq> - 1 \<and> idx \<le> lst then Inl ''offset overflow''
         else if idx < 0 \<or> idx \<ge> int (length vec) then Inl ''undefined behaviour: vec[idx]''
         else ReadFixedVarIntsBitSet_loop rd idx (vec[nat idx := True]) s')"
  by pat_completeness auto
termination
  by (relation "measure (\<lambda>(rd, lst, vec, s). if lst < 0 then Suc (length vec) else length vec - nat lst)")
    auto

declare ReadFixedVarIntsBitSet_loop.simps [simp del]

definition ReadFixedVarIntsBitSet ::
    "(nat \<Rightarrow> 's \<Rightarrow> string + bytes \<times> 's) \<Rightarrow> nat \<Rightarrow> 's \<Rightarrow> string + bool list \<times> 's" where
  "ReadFixedVarIntsBitSet rd sz s = ReadFixedVarIntsBitSet_loop rd (- 1) (replicate sz False) s"

section \<open>The shorter of the two\<close>

definition WriteAutoBitSet :: "bool list \<Rightarrow> nat \<Rightarrow> bytes res" where
  "WriteAutoBitSet vec sz =
     (if length vec \<noteq> sz then Inl ''assert(vec.size() == size)''
      else
        let size1 = length (WriteFixedBitSet vec sz);
            size2 = length (WriteFixedVarIntsBitSet vec) in
        if size1 \<noteq> GetSizeOfFixedBitSet sz then Inl ''assert(size1 == GetSizeOfFixedBitSet(size))''
        else if size1 < size2 then Inr (ser_writedata8 0 @ WriteFixedBitSet vec (length vec))
        else Inr (ser_writedata8 1 @ WriteFixedVarIntsBitSet vec))"

definition ReadAutoBitSet ::
    "(nat \<Rightarrow> 's \<Rightarrow> string + bytes \<times> 's) \<Rightarrow> nat \<Rightarrow> 's \<Rightarrow> string + bool list \<times> 's" where
  "ReadAutoBitSet rd sz s =
     res_bind (ser_readdata8 rd s) (\<lambda>(isVarInts, s').
       if isVarInts \<noteq> 0 \<and> isVarInts \<noteq> 1 then Inl ''invalid value for isVarInts byte''
       else if isVarInts = 0 then ReadFixedBitSet rd sz s'
       else ReadFixedVarIntsBitSet rd sz s')"

section \<open>Contents of the packed bytes\<close>

lemma length_set_packed_bit [simp]: "length (set_packed_bit vec p v) = length v"
  by (simp add: set_packed_bit_def)

lemma length_fold_packed [simp]: "length (fold (set_packed_bit vec) ps v) = length v"
  by (induction ps arbitrary: v) simp_all

lemma bit_set_packed_bit:
  assumes "p div 8 < length v" "j < length v" "k < 8"
  shows "bit (set_packed_bit vec p v ! j) k \<longleftrightarrow> bit (v ! j) k \<or> (p = 8 * j + k \<and> vec ! p)"
proof -
  have "p div 8 = j \<and> p mod 8 = k \<longleftrightarrow> p = 8 * j + k" using assms(3) by auto
  with assms show ?thesis
    by (auto simp: set_packed_bit_def nth_list_update bit_or_iff bit_push_bit_iff bit_1_iff)
qed

lemma bit_fold_packed:
  assumes "n \<le> 8 * length v" "j < length v" "k < 8"
  shows "bit (fold (set_packed_bit vec) [0..<n] v ! j) k \<longleftrightarrow> bit (v ! j) k \<or> (8 * j + k < n \<and> vec ! (8 * j + k))"
  using assms(1)
proof (induction n)
  case (Suc n)
  then have "n div 8 < length v" by linarith
  with Suc assms(2,3) show ?case
    by (auto simp: bit_set_packed_bit less_Suc_eq)
qed simp

lemma bit_WriteFixedBitSet:
  "length vec = sz \<Longrightarrow> j < (sz + 7) div 8 \<Longrightarrow> k < 8 \<Longrightarrow>
     bit (WriteFixedBitSet vec sz ! j) k \<longleftrightarrow> 8 * j + k < sz \<and> vec ! (8 * j + k)"
  by (simp add: WriteFixedBitSet_def bit_fold_packed)

lemma length_WriteFixedBitSet [simp]: "length (WriteFixedBitSet vec sz) = GetSizeOfFixedBitSet sz"
  by (simp add: WriteFixedBitSet_def GetSizeOfFixedBitSet_def)

lemma and_push_bit_1: "b AND push_bit k 1 \<noteq> 0 \<longleftrightarrow> bit b k" for b :: byte
  by (simp add: push_bit_eq_mult and_exp_eq_0_iff_not_bit)

lemma WriteFixedBitSet_bits:
  assumes "length vec = sz"
  shows "map (\<lambda>p. (WriteFixedBitSet vec sz ! (p div 8)) AND push_bit (p mod 8) 1 \<noteq> 0) [0..<sz] = vec"
proof (rule nth_equalityI)
  fix p assume "p < length (map (\<lambda>p. (WriteFixedBitSet vec sz ! (p div 8)) AND push_bit (p mod 8) 1 \<noteq> 0) [0..<sz])"
  then have "p < sz" by simp
  then have "p div 8 < (sz + 7) div 8" by linarith
  with \<open>p < sz\<close> assms have "bit (WriteFixedBitSet vec sz ! (p div 8)) (p mod 8) \<longleftrightarrow> vec ! p"
    using bit_WriteFixedBitSet [of vec sz "p div 8" "p mod 8"] by simp
  with \<open>p < sz\<close> show "map (\<lambda>p. (WriteFixedBitSet vec sz ! (p div 8)) AND push_bit (p mod 8) 1 \<noteq> 0) [0..<sz] ! p = vec ! p"
    unfolding and_push_bit_1 by simp
qed (use assms in simp)

lemma WriteFixedBitSet_padding:
  assumes "length vec = sz" "(sz + 7) div 8 * 8 \<noteq> sz"
  shows "(WriteFixedBitSet vec sz ! ((sz + 7) div 8 - 1)) AND NOT (drop_bit ((sz + 7) div 8 * 8 - sz) 0xFF) = 0"
proof (rule bit_word_eqI)
  fix k assume "k < LENGTH(8)"
  let ?j = "(sz + 7) div 8 - 1" and ?rem = "(sz + 7) div 8 * 8 - sz"
  have j: "?j < (sz + 7) div 8" and lst: "8 * ?j + k < sz \<longleftrightarrow> k + ?rem < 8"
    using assms(2) by linarith+
  have FF: "bit (drop_bit ?rem (0xFF :: byte)) k \<longleftrightarrow> k + ?rem < 8"
  proof -
    have "(0xFF :: byte) = mask 8" by (simp add: mask_eq_exp_minus_1)
    then have "bit (drop_bit ?rem (0xFF :: byte)) k \<longleftrightarrow> bit (mask 8 :: byte) (?rem + k)"
      by (simp only: bit_drop_bit_eq o_def)
    then show ?thesis by (simp only: bit_mask_iff add.commute) simp
  qed
  have "bit (WriteFixedBitSet vec sz ! ?j) k \<longleftrightarrow> 8 * ?j + k < sz \<and> vec ! (8 * ?j + k)"
    using \<open>k < LENGTH(8)\<close> assms(1) j by (intro bit_WriteFixedBitSet) simp_all
  then show "bit (WriteFixedBitSet vec sz ! ?j AND NOT (drop_bit ?rem 0xFF)) k = bit 0 k"
    unfolding bit_and_iff bit_not_iff FF lst by simp
qed

section \<open>Round trips\<close>

text \<open>What the offset writer emits from index \<open>i\<close> on, the offset reader adds to the bits it has.\<close>

lemma sint_of_int_small: "- (2 ^ 31) \<le> i \<Longrightarrow> i < 2 ^ 31 \<Longrightarrow> sint (of_int i :: u32) = i"
  by (simp add: signed_of_int signed_take_bit_int_eq_self)

lemma offset_words:
  assumes "- 1 \<le> lst" "lst < i" "i < 2 ^ 31"
  shows "(of_int (i - lst) :: u32) \<noteq> 0" and "sint (of_int lst + (of_int (i - lst) :: u32)) = i"
proof -
  have "uint (of_int (i - lst) :: u32) = (i - lst) mod 2 ^ LENGTH(32)" by (rule uint_word_of_int)
  also have "\<dots> = i - lst" using assms by (intro mod_pos_pos_trivial) simp_all
  finally show "(of_int (i - lst) :: u32) \<noteq> 0" using assms(2) by (metis diff_gt_0_iff_gt less_irrefl unsigned_0)
  have "of_int lst + (of_int (i - lst) :: u32) = of_int i" by simp
  with assms show "sint (of_int lst + (of_int (i - lst) :: u32)) = i"
    by (simp only: sint_of_int_small)
qed

context byte_source
begin

lemma reads_ReadFixedBitSet [wire_intros]:
  assumes "length vec = sz"
  shows "reads (ReadFixedBitSet rd sz) (WriteFixedBitSet vec sz) vec"
proof -
  let ?w = "WriteFixedBitSet vec sz"
  have "reads (ReadFixedBitSet rd sz) (?w @ []) vec"
    unfolding ReadFixedBitSet_def [abs_def]
  proof (rule reads_bind)
    show "reads (rd ((sz + 7) div 8)) ?w ?w"
      by (rule reads_rd) (simp add: GetSizeOfFixedBitSet_def)
    show "reads (\<lambda>s'. let v = map (\<lambda>p. (?w ! (p div 8)) AND push_bit (p mod 8) 1 \<noteq> 0) [0..<sz] in
       if length ?w * 8 \<noteq> sz then
         let rem = length ?w * 8 - sz;
             m = NOT (drop_bit rem 0xFF) in
         if (?w ! (length ?w - 1)) AND m \<noteq> 0 then Inl ''Out-of-range bits set''
         else Inr (v, s')
       else Inr (v, s')) [] vec"
      using WriteFixedBitSet_bits [OF assms] WriteFixedBitSet_padding [OF assms] reads_return [of vec]
      by (simp only: Let_def length_WriteFixedBitSet GetSizeOfFixedBitSet_def) (simp cong: if_cong)
  qed
  then show ?thesis by simp
qed

lemma reads_offsets_step:
  assumes "reads (ReadFixedVarIntsBitSet_loop rd i (v[nat i := True])) bs w"
    and "- 1 \<le> lst" "lst < i" "0 \<le> i" "i < int (length v)" "length v < 2 ^ 31"
  shows "reads (ReadFixedVarIntsBitSet_loop rd lst v) (WriteVarInt (of_int (i - lst) :: u32) @ bs) w"
proof -
  have sz: "sint (of_nat (length v) :: u32) = int (length v)"
    using assms(6) sint_of_int_small [of "int (length v)"] by simp
  note off = offset_words [of lst i]
  show ?thesis
    unfolding ReadFixedVarIntsBitSet_loop.simps [of rd lst v, abs_def]
    by (rule reads_bind [OF reads_ReadVarInt]) (use assms sz off in \<open>simp_all add: Let_def\<close>)
qed

lemma reads_offsets_stop:
  "reads (ReadFixedVarIntsBitSet_loop rd lst v) (WriteVarInt (0 :: u32)) v"
proof -
  have "reads (ReadFixedVarIntsBitSet_loop rd lst v) (WriteVarInt (0 :: u32) @ []) v"
    unfolding ReadFixedVarIntsBitSet_loop.simps [of rd lst v, abs_def]
    by (rule reads_bind [OF reads_ReadVarInt]) (simp_all add: reads_return)
  then show ?thesis by simp
qed

lemma reads_offsets:
  "length (pre @ bits) < 2 ^ 31 \<Longrightarrow> - 1 \<le> lst \<Longrightarrow> lst < int (length pre) \<Longrightarrow>
   reads (ReadFixedVarIntsBitSet_loop rd lst (pre @ replicate (length bits) False))
     (WriteFixedVarIntsBitSet_loop (int (length pre)) lst bits) (pre @ bits)"
proof (induction bits arbitrary: pre lst)
  case Nil
  then show ?case by (simp add: reads_offsets_stop)
next
  case (Cons b bits)
  let ?v = "pre @ replicate (length (b # bits)) False"
  have upd: "?v[nat (int (length pre)) := True] = (pre @ [True]) @ replicate (length bits) False"
    by (simp add: list_update_append)
  show ?case
  proof (cases b)
    case True
    have "reads (ReadFixedVarIntsBitSet_loop rd (int (length pre)) (?v[nat (int (length pre)) := True]))
        (WriteFixedVarIntsBitSet_loop (int (length pre) + 1) (int (length pre)) bits) (pre @ b # bits)"
      using Cons.IH [of "pre @ [True]" "int (length pre)"] Cons.prems True unfolding upd
      by (simp add: add.commute)
    from reads_offsets_step [OF this] Cons.prems True show ?thesis by simp
  next
    case False
    with Cons.IH [of "pre @ [False]" lst] Cons.prems show ?thesis by (simp add: add.commute)
  qed
qed

lemma reads_ReadFixedVarIntsBitSet [wire_intros]:
  "length vec = sz \<Longrightarrow> sz < 2 ^ 31 \<Longrightarrow>
     reads (ReadFixedVarIntsBitSet rd sz) (WriteFixedVarIntsBitSet vec) vec"
  using reads_offsets [of "[]" vec "- 1"]
  by (simp add: ReadFixedVarIntsBitSet_def [abs_def] WriteFixedVarIntsBitSet_def)

lemma reads_ReadAutoBitSet [wire_intros]:
  assumes "length vec = sz" "sz < 2 ^ 31"
  obtains bs where "WriteAutoBitSet vec sz = Inr bs" and "reads (ReadAutoBitSet rd sz) bs vec"
proof -
  have 0: "reads (ReadAutoBitSet rd sz) (ser_writedata8 0 @ WriteFixedBitSet vec sz) vec"
    unfolding ReadAutoBitSet_def [abs_def]
    by (rule reads_bind [OF reads_ser_readdata8]) (use assms in \<open>simp add: reads_ReadFixedBitSet\<close>)
  have 1: "reads (ReadAutoBitSet rd sz) (ser_writedata8 1 @ WriteFixedVarIntsBitSet vec) vec"
    unfolding ReadAutoBitSet_def [abs_def]
    by (rule reads_bind [OF reads_ser_readdata8]) (use assms in \<open>simp add: reads_ReadFixedVarIntsBitSet\<close>)
  show ?thesis
    using that 0 1 assms(1) by (cases "GetSizeOfFixedBitSet sz < length (WriteFixedVarIntsBitSet vec)")
      (auto simp: WriteAutoBitSet_def Let_def)
qed

end

text \<open>
  \<open>WriteAutoBitSet\<close> writes any bit set of the declared size in the shorter of its two formats, and
  \<open>ReadAutoBitSet\<close> with that size gives it back and leaves the rest of the stream.
\<close>

lemma auto_bitset_roundtrip:
  assumes "length vec < 2 ^ 31"
  shows "\<exists>bs. WriteAutoBitSet vec (length vec) = Inr bs
    \<and> length bs = 1 + min (GetSizeOfFixedBitSet (length vec)) (length (WriteFixedVarIntsBitSet vec))
    \<and> (\<forall>s rest. ds_inv s \<and> ds_contents s = bs @ rest \<longrightarrow>
         (\<exists>s'. ReadAutoBitSet ds_read (length vec) s = Inr (vec, s') \<and> ds_contents s' = rest))"
proof -
  obtain bs where bs: "WriteAutoBitSet vec (length vec) = Inr bs" "ds.reads (ReadAutoBitSet ds_read (length vec)) bs vec"
    using ds.reads_ReadAutoBitSet [OF refl assms] by blast
  have "length bs = 1 + min (GetSizeOfFixedBitSet (length vec)) (length (WriteFixedVarIntsBitSet vec))"
    using bs(1) by (auto simp: WriteAutoBitSet_def Let_def ser_writedata8_def split: if_splits)
  with bs ds.readsD [OF bs(2)] show ?thesis by blast
qed

text \<open>
  Neither check of \<open>ReadFixedVarIntsBitSet\<close> rejects a negative index: the eight bits below and the
  offset \<open>0xFFFFFFFE\<close> reach \<open>vec[-3] = true\<close>.
\<close>

lemma negative_bitset_index:
  "ReadFixedVarIntsBitSet ds_read 8 (ds_of (WriteVarInt (0xFFFFFFFE :: u32))) = Inl ''undefined behaviour: vec[idx]''"
  by code_simp

end
