(* ===== verification/Transaction.thy ===== *)
theory Transaction
  imports Serialize
begin

text \<open>
  Amounts (\<open>src/consensus/amount.h\<close>), the transaction data types of
  \<open>src/primitives/transaction.h\<close> with their wire format, and the context-free checks of
  \<open>src/consensus/tx_check.cpp\<close>.
\<close>

section \<open>Amounts\<close>

text \<open>\<open>CAmount\<close> is a signed 64-bit integer; \<open>is_i64\<close> is its range.\<close>

type_synonym CAmount = int

definition is_i64 :: "int \<Rightarrow> bool" where
  "is_i64 x \<longleftrightarrow> - (2 ^ 63) \<le> x \<and> x < 2 ^ 63"

definition COIN :: CAmount where
  "COIN = 100000000"

definition MAX_MONEY :: CAmount where
  "MAX_MONEY = 21000000 * COIN"

definition MoneyRange :: "CAmount \<Rightarrow> bool" where
  "MoneyRange nValue \<longleftrightarrow> nValue \<ge> 0 \<and> nValue \<le> MAX_MONEY"

lemma MAX_MONEY_value: "MAX_MONEY = 2100000000000000"
  by (simp add: MAX_MONEY_def COIN_def)

lemma MoneyRange_is_i64: "MoneyRange x \<Longrightarrow> MoneyRange y \<Longrightarrow> is_i64 (x + y) \<and> is_i64 (x - y)"
  by (auto simp: MoneyRange_def is_i64_def MAX_MONEY_value)

section \<open>Data\<close>

type_synonym CScript = bytes

record coutpoint =
  op_hash :: uint256
  op_n :: u32

definition NULL_INDEX :: u32 where
  "NULL_INDEX = - 1"

definition COutPoint_IsNull :: "coutpoint \<Rightarrow> bool" where
  "COutPoint_IsNull p \<longleftrightarrow> op_hash p = 0 \<and> op_n p = NULL_INDEX"

record ctxin =
  prevout :: coutpoint
  scriptSig :: CScript
  nSequence :: u32

definition SEQUENCE_FINAL :: u32 where
  "SEQUENCE_FINAL = 0xffffffff"

definition SEQUENCE_LOCKTIME_DISABLE_FLAG :: u32 where
  "SEQUENCE_LOCKTIME_DISABLE_FLAG = push_bit 31 1"

definition SEQUENCE_LOCKTIME_TYPE_FLAG :: u32 where
  "SEQUENCE_LOCKTIME_TYPE_FLAG = push_bit 22 1"

definition SEQUENCE_LOCKTIME_MASK :: u32 where
  "SEQUENCE_LOCKTIME_MASK = 0x0000ffff"

definition SEQUENCE_LOCKTIME_GRANULARITY :: nat where
  "SEQUENCE_LOCKTIME_GRANULARITY = 9"

record ctxout =
  nValue :: CAmount
  scriptPubKey :: CScript

definition CTxOut_SetNull :: "ctxout" where
  "CTxOut_SetNull = \<lparr>nValue = - 1, scriptPubKey = []\<rparr>"

definition CTxOut_IsNull :: "ctxout \<Rightarrow> bool" where
  "CTxOut_IsNull out \<longleftrightarrow> nValue out = - 1"

text \<open>Transaction types.\<close>

definition TRANSACTION_NORMAL :: u16 where "TRANSACTION_NORMAL = 0"
definition TRANSACTION_PROVIDER_REGISTER :: u16 where "TRANSACTION_PROVIDER_REGISTER = 1"
definition TRANSACTION_PROVIDER_UPDATE_SERVICE :: u16 where "TRANSACTION_PROVIDER_UPDATE_SERVICE = 2"
definition TRANSACTION_PROVIDER_UPDATE_REGISTRAR :: u16 where "TRANSACTION_PROVIDER_UPDATE_REGISTRAR = 3"
definition TRANSACTION_PROVIDER_UPDATE_REVOKE :: u16 where "TRANSACTION_PROVIDER_UPDATE_REVOKE = 4"
definition TRANSACTION_COINBASE :: u16 where "TRANSACTION_COINBASE = 5"
definition TRANSACTION_QUORUM_COMMITMENT :: u16 where "TRANSACTION_QUORUM_COMMITMENT = 6"
definition TRANSACTION_MNHF_SIGNAL :: u16 where "TRANSACTION_MNHF_SIGNAL = 7"
definition TRANSACTION_ASSET_LOCK :: u16 where "TRANSACTION_ASSET_LOCK = 8"
definition TRANSACTION_ASSET_UNLOCK :: u16 where "TRANSACTION_ASSET_UNLOCK = 9"

lemmas transaction_type_defs =
  TRANSACTION_NORMAL_def TRANSACTION_PROVIDER_REGISTER_def TRANSACTION_PROVIDER_UPDATE_SERVICE_def
  TRANSACTION_PROVIDER_UPDATE_REGISTRAR_def TRANSACTION_PROVIDER_UPDATE_REVOKE_def
  TRANSACTION_COINBASE_def TRANSACTION_QUORUM_COMMITMENT_def TRANSACTION_MNHF_SIGNAL_def
  TRANSACTION_ASSET_LOCK_def TRANSACTION_ASSET_UNLOCK_def

text \<open>
  \<open>CTransaction\<close> and \<open>CMutableTransaction\<close> have the same fields; \<open>CTransaction\<close> also
  caches its hash (\<open>tx_hash\<close>, memory only). \<open>nVersion\<close> is an \<open>int16_t\<close>, read with \<open>sint\<close>.
\<close>

record mutable_transaction =
  vin :: "ctxin list"
  vout :: "ctxout list"
  nVersion :: u16
  nType :: u16
  nLockTime :: u32
  vExtraPayload :: bytes

record transaction = mutable_transaction +
  tx_hash :: uint256

definition SPECIAL_VERSION :: int where
  "SPECIAL_VERSION = 3"

definition IsSpecialTxVersion :: "'a mutable_transaction_scheme \<Rightarrow> bool" where
  "IsSpecialTxVersion tx \<longleftrightarrow> sint (nVersion tx) \<ge> SPECIAL_VERSION"

definition IsPlatformTransfer :: "'a mutable_transaction_scheme \<Rightarrow> bool" where
  "IsPlatformTransfer tx \<longleftrightarrow> IsSpecialTxVersion tx \<and> nType tx = TRANSACTION_ASSET_UNLOCK"

definition HasExtraPayloadField :: "'a mutable_transaction_scheme \<Rightarrow> bool" where
  "HasExtraPayloadField tx \<longleftrightarrow> IsSpecialTxVersion tx \<and> nType tx \<noteq> TRANSACTION_NORMAL"

definition IsCoinBase :: "'a mutable_transaction_scheme \<Rightarrow> bool" where
  "IsCoinBase tx \<longleftrightarrow> length (vin tx) = 1 \<and> COutPoint_IsNull (prevout (vin tx ! 0))"

definition CTransaction_IsNull :: "'a mutable_transaction_scheme \<Rightarrow> bool" where
  "CTransaction_IsNull tx \<longleftrightarrow> vin tx = [] \<and> vout tx = []"

text \<open>The sum of the outputs; the source throws when a value or a partial sum leaves the range.\<close>

fun GetValueOut_loop :: "CAmount \<Rightarrow> ctxout list \<Rightarrow> CAmount res" where
  "GetValueOut_loop nValueOut [] = Inr nValueOut"
| "GetValueOut_loop nValueOut (tx_out # outs) =
     (if \<not> MoneyRange (nValue tx_out) \<or> \<not> MoneyRange (nValueOut + nValue tx_out)
      then Inl ''GetValueOut: value out of range''
      else GetValueOut_loop (nValueOut + nValue tx_out) outs)"

definition GetValueOut :: "'a mutable_transaction_scheme \<Rightarrow> CAmount res" where
  "GetValueOut tx =
     res_bind (GetValueOut_loop 0 (vout tx)) (\<lambda>nValueOut.
       if MoneyRange nValueOut then Inr nValueOut else Inl ''assert(MoneyRange(nValueOut))'')"

section \<open>Wire format\<close>

definition COutPoint_Ser :: "coutpoint \<Rightarrow> bytes" where
  "COutPoint_Ser p = word_to_le 32 (op_hash p) @ ser_writedata32 (op_n p)"

definition CTxIn_Ser :: "ctxin \<Rightarrow> bytes" where
  "CTxIn_Ser i = COutPoint_Ser (prevout i) @ WriteBytes (scriptSig i) @ ser_writedata32 (nSequence i)"

definition CTxOut_Ser :: "ctxout \<Rightarrow> bytes" where
  "CTxOut_Ser out = ser_writedata64 (of_int (nValue out)) @ WriteBytes (scriptPubKey out)"

text \<open>\<open>n32bitVersion = nVersion | (nType << 16)\<close>, an \<open>int32_t\<close>: \<open>nVersion\<close> is sign-extended first.\<close>

definition n32bitVersion :: "u16 \<Rightarrow> u16 \<Rightarrow> u32" where
  "n32bitVersion ver ty = scast ver OR push_bit 16 (ucast ty)"

definition CTransaction_Serialize :: "'a mutable_transaction_scheme \<Rightarrow> bytes" where
  "CTransaction_Serialize tx =
     ser_writedata32 (n32bitVersion (nVersion tx) (nType tx))
     @ VectorFormatter_Ser CTxIn_Ser (vin tx)
     @ VectorFormatter_Ser CTxOut_Ser (vout tx)
     @ ser_writedata32 (nLockTime tx)
     @ (if HasExtraPayloadField tx then WriteBytes (vExtraPayload tx) else [])"

definition COutPoint_Unser ::
    "(nat \<Rightarrow> 's \<Rightarrow> string + bytes \<times> 's) \<Rightarrow> 's \<Rightarrow> string + coutpoint \<times> 's" where
  "COutPoint_Unser rd s =
     res_bind (rd 32 s) (\<lambda>(h, s1).
     res_bind (ser_readdata32 rd s1) (\<lambda>(k, s2).
       Inr (\<lparr>op_hash = word_of_le h, op_n = k\<rparr>, s2)))"

definition CTxIn_Unser :: "(nat \<Rightarrow> 's \<Rightarrow> string + bytes \<times> 's) \<Rightarrow> 's \<Rightarrow> string + ctxin \<times> 's" where
  "CTxIn_Unser rd s =
     res_bind (COutPoint_Unser rd s) (\<lambda>(p, s1).
     res_bind (ReadBytes rd s1) (\<lambda>(sc, s2).
     res_bind (ser_readdata32 rd s2) (\<lambda>(q, s3).
       Inr (\<lparr>prevout = p, scriptSig = sc, nSequence = q\<rparr>, s3))))"

definition CTxOut_Unser :: "(nat \<Rightarrow> 's \<Rightarrow> string + bytes \<times> 's) \<Rightarrow> 's \<Rightarrow> string + ctxout \<times> 's" where
  "CTxOut_Unser rd s =
     res_bind (ser_readdata64 rd s) (\<lambda>(v, s1).
     res_bind (ReadBytes rd s1) (\<lambda>(sc, s2).
       Inr (\<lparr>nValue = sint v, scriptPubKey = sc\<rparr>, s2)))"

text \<open>\<open>sizeof(CTxIn)\<close> and \<open>sizeof(CTxOut)\<close>, which only set the batch size of the vector reader.\<close>

definition sizeof_CTxIn :: nat where
  "sizeof_CTxIn = 80"

definition sizeof_CTxOut :: nat where
  "sizeof_CTxOut = 40"

definition CMutableTransaction_Unser ::
    "(nat \<Rightarrow> 's \<Rightarrow> string + bytes \<times> 's) \<Rightarrow> 's \<Rightarrow> string + mutable_transaction \<times> 's" where
  "CMutableTransaction_Unser rd s =
     res_bind (ser_readdata32 rd s) (\<lambda>(n32, s1).
     let ver = ucast (n32 AND 0xffff);
         ty = ucast ((signed_drop_bit 16 n32) AND 0xffff) in
     res_bind (VectorFormatter_Unser rd sizeof_CTxIn (CTxIn_Unser rd) s1) (\<lambda>(ins, s2).
     res_bind (VectorFormatter_Unser rd sizeof_CTxOut (CTxOut_Unser rd) s2) (\<lambda>(outs, s3).
     res_bind (ser_readdata32 rd s3) (\<lambda>(lock, s4).
     res_bind (if sint ver \<ge> SPECIAL_VERSION \<and> ty \<noteq> TRANSACTION_NORMAL then ReadBytes rd s4
               else Inr ([], s4)) (\<lambda>(payload, s5).
       Inr (\<lparr>vin = ins, vout = outs, nVersion = ver, nType = ty, nLockTime = lock,
             vExtraPayload = payload\<rparr>, s5))))))"

definition GetTotalSize :: "'a mutable_transaction_scheme \<Rightarrow> u32" where
  "GetTotalSize tx = of_nat (length (CTransaction_Serialize tx))"

subsection \<open>Round trips\<close>

text \<open>
  The limits within which an encoding is read again, and that there is a payload only where version and type call for
  one. (The encoding of a transaction determines it only if its version is not negative, which is stated where it is
  needed.)
\<close>

definition script_fits :: "CScript \<Rightarrow> bool" where
  "script_fits sc \<longleftrightarrow> length sc \<le> unat MAX_SIZE"

definition wf_txout :: "ctxout \<Rightarrow> bool" where
  "wf_txout out \<longleftrightarrow> is_i64 (nValue out) \<and> script_fits (scriptPubKey out)"

definition wf_tx :: "'a mutable_transaction_scheme \<Rightarrow> bool" where
  "wf_tx tx \<longleftrightarrow> length (vin tx) \<le> unat MAX_SIZE \<and> length (vout tx) \<le> unat MAX_SIZE
     \<and> (\<forall>i\<in>set (vin tx). script_fits (scriptSig i)) \<and> (\<forall>out\<in>set (vout tx). wf_txout out)
     \<and> (if HasExtraPayloadField tx then length (vExtraPayload tx) \<le> unat MAX_SIZE
        else vExtraPayload tx = [])"

lemma sint_of_i64: "is_i64 x \<Longrightarrow> sint (of_int x :: u64) = x"
  by (simp add: is_i64_def signed_of_int signed_take_bit_int_eq_self)

lemma low_half:
  fixes ver ty :: u16
  shows "ucast (n32bitVersion ver ty AND 0xffff) = ver"
proof -
  have m: "(0xffff :: u32) = mask 16" by (simp add: mask_eq_exp_minus_1)
  show ?thesis
    unfolding n32bitVersion_def m take_bit_eq_mask [symmetric]
    by (rule bit_word_eqI) (auto simp: bit_simps)
qed

lemma high_half:
  fixes ver ty :: u16
  assumes "sint ver \<ge> 0"
  shows "ucast (signed_drop_bit 16 (n32bitVersion ver ty) AND 0xffff) = ty"
proof -
  have m: "(0xffff :: u32) = mask 16" by (simp add: mask_eq_exp_minus_1)
  from assms have "\<not> bit ver 15" by (simp add: not_less bit_last_iff [of ver, simplified])
  then show ?thesis
    unfolding n32bitVersion_def m take_bit_eq_mask [symmetric]
    by (intro bit_word_eqI) (auto simp: bit_simps bit_signed_drop_bit_iff)
qed

context byte_source
begin

lemma reads_COutPoint [wire_intros]: "reads (COutPoint_Unser rd) (COutPoint_Ser p) p"
  unfolding COutPoint_Unser_def [abs_def] COutPoint_Ser_def
  by (rule reads_bind [OF reads_rd], simp, rule reads_map [OF reads_ser_readdata32])
    (simp add: word_of_le_word_to_le)

lemma reads_CTxIn [wire_intros]:
  "script_fits (scriptSig i) \<Longrightarrow> reads (CTxIn_Unser rd) (CTxIn_Ser i) i"
  unfolding CTxIn_Unser_def [abs_def] CTxIn_Ser_def script_fits_def
  by (rule reads_bind [OF reads_COutPoint], rule reads_bind [OF reads_ReadBytes], assumption,
      rule reads_map [OF reads_ser_readdata32]) simp

lemma reads_CTxOut [wire_intros]:
  "wf_txout out \<Longrightarrow> reads (CTxOut_Unser rd) (CTxOut_Ser out) out"
  unfolding CTxOut_Unser_def [abs_def] CTxOut_Ser_def wf_txout_def script_fits_def
  by (rule reads_bind [OF reads_ser_readdata64], rule reads_map [OF reads_ReadBytes])
    (simp_all add: sint_of_i64)

lemma reads_CMutableTransaction:
  fixes tx :: mutable_transaction
  assumes "wf_tx tx" "sint (nVersion tx) \<ge> 0"
  shows "reads (CMutableTransaction_Unser rd) (CTransaction_Serialize tx) tx"
proof -
  note wf = assms(1) [unfolded wf_tx_def]
  have ver: "ucast (n32bitVersion (nVersion tx) (nType tx) AND 0xffff) = nVersion tx"
    and ty: "ucast (signed_drop_bit 16 (n32bitVersion (nVersion tx) (nType tx)) AND 0xffff) = nType tx"
    using assms(2) by (simp_all only: low_half high_half)
  have payload: "reads (\<lambda>s4. if sint (nVersion tx) \<ge> SPECIAL_VERSION \<and> nType tx \<noteq> TRANSACTION_NORMAL
        then ReadBytes rd s4 else Inr ([], s4))
      (if HasExtraPayloadField tx then WriteBytes (vExtraPayload tx) else []) (vExtraPayload tx)"
    using wf by (auto simp: HasExtraPayloadField_def IsSpecialTxVersion_def reads_return
        intro: reads_ReadBytes split: if_splits)
  have sizes: "0 < sizeof_CTxIn" "sizeof_CTxIn \<le> MAX_VECTOR_ALLOCATE"
    "0 < sizeof_CTxOut" "sizeof_CTxOut \<le> MAX_VECTOR_ALLOCATE"
    by (simp_all add: sizeof_CTxIn_def sizeof_CTxOut_def MAX_VECTOR_ALLOCATE_def)
  show ?thesis
    unfolding CMutableTransaction_Unser_def [abs_def] CTransaction_Serialize_def
    apply (rule reads_bind [OF reads_ser_readdata32])
    apply (simp only: Let_def ver ty)
    apply (rule reads_bind [OF reads_VectorFormatter [OF sizes(1,2)]])
      apply (use wf reads_CTxIn in blast, use wf reads_CTxIn in blast)
    apply (rule reads_bind [OF reads_VectorFormatter [OF sizes(3,4)]])
      apply (use wf reads_CTxOut in blast, use wf reads_CTxOut in blast)
    apply (rule reads_bind [OF reads_ser_readdata32])
    apply (rule reads_map [OF payload])
    apply simp
    done
qed

end

text \<open>Whatever unserializes has the encoding that was read.\<close>

lemma join_halves:
  fixes n32 :: u32
  defines "ver \<equiv> ucast (n32 AND 0xffff) :: u16" and "ty \<equiv> ucast (signed_drop_bit 16 n32 AND 0xffff) :: u16"
  assumes "sint ver \<ge> 0"
  shows "n32bitVersion ver ty = n32"
proof -
  have m: "(0xffff :: u32) = mask 16" by (simp add: mask_eq_exp_minus_1)
  have ver: "bit ver k \<longleftrightarrow> k < 16 \<and> bit n32 k" for k
    unfolding ver_def m take_bit_eq_mask [symmetric] by (auto simp: bit_simps)
  have ty: "bit ty k \<longleftrightarrow> k < 16 \<and> bit n32 (k + 16)" for k
    unfolding ty_def m take_bit_eq_mask [symmetric] by (auto simp: bit_simps bit_signed_drop_bit_iff add.commute)
  have sign: "\<not> bit ver 15" using assms(3) by (simp add: not_less bit_last_iff [of ver, simplified])
  show ?thesis
    unfolding n32bitVersion_def
  proof (rule bit_word_eqI)
    fix k assume "k < LENGTH(32)"
    then show "bit (scast ver OR push_bit 16 (ucast ty) :: u32) k \<longleftrightarrow> bit n32 k"
      using sign by (cases k "15 :: nat" rule: linorder_cases) (auto simp: bit_simps ver ty min_def)
  qed
qed

context byte_source
begin

lemma COutPoint_Inr:
  "inv s \<Longrightarrow> COutPoint_Unser rd s = Inr (p, s') \<Longrightarrow> inv s' \<and> contents s = COutPoint_Ser p @ contents s'"
proof -
  assume s: "inv s" "COutPoint_Unser rd s = Inr (p, s')"
  then obtain h s1 k where h: "rd 32 s = Inr (h, s1)" "ser_readdata32 rd s1 = Inr (k, s')" "p = \<lparr>op_hash = word_of_le h, op_n = k\<rparr>"
    by (auto simp: COutPoint_Unser_def res_bind_Inr_iff)
  have s1: "inv s1" "length h = 32" "contents s = h @ contents s1" using rd_Inr [OF s(1) _ h(1)] by simp_all
  show ?thesis using ser_readdata32_Inr [OF s1(1) h(2)] s1(2,3) h(3) by (simp add: COutPoint_Ser_def le_simps)
qed

lemma consumes_CTxIn: "consumes (CTxIn_Unser rd) (\<lambda>i bs. bs = CTxIn_Ser i \<and> script_fits (scriptSig i))"
  unfolding consumes_def
proof (intro allI impI)
  fix s i s'
  assume s: "inv s" "CTxIn_Unser rd s = Inr (i, s')"
  then obtain p s1 sc s2 q where i: "COutPoint_Unser rd s = Inr (p, s1)" "ReadBytes rd s1 = Inr (sc, s2)"
      "ser_readdata32 rd s2 = Inr (q, s')" "i = \<lparr>prevout = p, scriptSig = sc, nSequence = q\<rparr>"
    by (auto simp: CTxIn_Unser_def res_bind_Inr_iff)
  have s1: "inv s1" "contents s = COutPoint_Ser p @ contents s1" using COutPoint_Inr [OF s(1) i(1)] by simp_all
  have s2: "inv s2" "contents s1 = WriteBytes sc @ contents s2" "length sc \<le> unat MAX_SIZE" using ReadBytes_Inr [OF s1(1) i(2)] by simp_all
  show "inv s' \<and> (\<exists>bs. (bs = CTxIn_Ser i \<and> script_fits (scriptSig i)) \<and> contents s = bs @ contents s')"
    using ser_readdata32_Inr [OF s2(1) i(3)] s1 s2 i(4) by (simp add: CTxIn_Ser_def script_fits_def)
qed

lemma consumes_CTxOut: "consumes (CTxOut_Unser rd) (\<lambda>out bs. bs = CTxOut_Ser out \<and> wf_txout out)"
  unfolding consumes_def
proof (intro allI impI)
  fix s out s'
  assume s: "inv s" "CTxOut_Unser rd s = Inr (out, s')"
  then obtain v s1 sc where i: "ser_readdata64 rd s = Inr (v, s1)" "ReadBytes rd s1 = Inr (sc, s')" "out = \<lparr>nValue = sint v, scriptPubKey = sc\<rparr>"
    by (auto simp: CTxOut_Unser_def res_bind_Inr_iff)
  have s1: "inv s1" "contents s = ser_writedata64 v @ contents s1" using ser_readdata64_Inr [OF s(1) i(1)] by simp_all
  have "is_i64 (sint v)" using sint_greater_eq [of v] sint_less [of v] by (simp add: is_i64_def)
  then show "inv s' \<and> (\<exists>bs. (bs = CTxOut_Ser out \<and> wf_txout out) \<and> contents s = bs @ contents s')"
    using ReadBytes_Inr [OF s1(1) i(2)] s1 i(3) by (simp add: CTxOut_Ser_def wf_txout_def script_fits_def)
qed

lemma CMutableTransaction_Inr:
  assumes "inv s" "CMutableTransaction_Unser rd s = Inr (tx, s')"
  shows "inv s' \<and> wf_tx tx \<and> (sint (nVersion tx) \<ge> 0 \<longrightarrow> contents s = CTransaction_Serialize tx @ contents s')"
proof -
  obtain n32 s1 ins s2 outs s3 lock s4 payload where u: "ser_readdata32 rd s = Inr (n32, s1)"
      "VectorFormatter_Unser rd sizeof_CTxIn (CTxIn_Unser rd) s1 = Inr (ins, s2)"
      "VectorFormatter_Unser rd sizeof_CTxOut (CTxOut_Unser rd) s2 = Inr (outs, s3)" "ser_readdata32 rd s3 = Inr (lock, s4)"
      "(if sint (nVersion tx) \<ge> SPECIAL_VERSION \<and> nType tx \<noteq> TRANSACTION_NORMAL then ReadBytes rd s4 else Inr ([], s4)) = Inr (payload, s')"
      "tx = \<lparr>vin = ins, vout = outs, nVersion = ucast (n32 AND 0xffff), nType = ucast ((signed_drop_bit 16 n32) AND 0xffff), nLockTime = lock,
             vExtraPayload = payload\<rparr>"
    using assms(2) by (auto simp: CMutableTransaction_Unser_def Let_def res_bind_Inr_iff)
  have s1: "inv s1" "contents s = ser_writedata32 n32 @ contents s1" using ser_readdata32_Inr [OF assms(1) u(1)] by simp_all
  note s2 = VectorFormatter_Inr [OF consumes_CTxIn s1(1) u(2)]
  then have i2: "inv s2" by blast
  note s3 = VectorFormatter_Inr [OF consumes_CTxOut i2 u(3)]
  then have i3: "inv s3" by blast
  note s4 = ser_readdata32_Inr [OF i3 u(4)]
  then have i4: "inv s4" by blast
  have has: "HasExtraPayloadField tx \<longleftrightarrow> sint (nVersion tx) \<ge> SPECIAL_VERSION \<and> nType tx \<noteq> TRANSACTION_NORMAL"
    by (auto simp: HasExtraPayloadField_def IsSpecialTxVersion_def)
  have s5: "inv s'" "contents s4 = (if HasExtraPayloadField tx then WriteBytes payload else []) @ contents s'"
      "if HasExtraPayloadField tx then length payload \<le> unat MAX_SIZE else payload = []"
    using u(5) ReadBytes_Inr [OF i4] i4 unfolding has [symmetric] by (auto split: if_splits)
  have fields: "vin tx = ins" "vout tx = outs" "nLockTime tx = lock" "vExtraPayload tx = payload" using u(6) by simp_all
  have "wf_tx tx" using s2 s3 s5(3) unfolding wf_tx_def fields by blast
  moreover have "contents s = CTransaction_Serialize tx @ contents s'" if "sint (nVersion tx) \<ge> 0"
  proof -
    have "n32bitVersion (nVersion tx) (nType tx) = n32" using that join_halves [of n32] u(6) by simp
    then show ?thesis using s1(2) s2 s3 s4 s5(2) by (simp add: CTransaction_Serialize_def fields)
  qed
  ultimately show ?thesis using s5(1) by blast
qed

end

text \<open>
  C29: a transaction whose version is not negative, that satisfies the size limits and that has a payload only where
  version and type call for one survives serialization: whatever the stream holds after the encoding, unserializing
  returns the transaction and leaves exactly the rest of the stream. (With a negative version the type is lost:
  \<open>negative_version_loses_type\<close>.)
\<close>

theorem transaction_roundtrip:
  fixes tx :: mutable_transaction
  assumes "wf_tx tx" "sint (nVersion tx) \<ge> 0" "ds_inv s" "ds_contents s = CTransaction_Serialize tx @ rest"
  shows "\<exists>s'. CMutableTransaction_Unser ds_read s = Inr (tx, s') \<and> ds_inv s' \<and> ds_contents s' = rest"
  using ds.readsD [OF ds.reads_CMutableTransaction] assms by blast

definition sample_tx :: mutable_transaction where
  "sample_tx = \<lparr>vin = [\<lparr>prevout = \<lparr>op_hash = 7, op_n = 1\<rparr>, scriptSig = [0x51], nSequence = 0xffffffff\<rparr>],
     vout = [\<lparr>nValue = 5000000000, scriptPubKey = [0x51, 0x52]\<rparr>],
     nVersion = 3, nType = 1, nLockTime = 0, vExtraPayload = [1, 2, 3]\<rparr>"

theorem transaction_roundtrip_witness:
  "wf_tx sample_tx \<and> (\<exists>s'. CMutableTransaction_Unser ds_read (ds_of (CTransaction_Serialize sample_tx @ [9])) = Inr (sample_tx, s')
     \<and> ds_inv s' \<and> ds_contents s' = [9])"
proof -
  have "wf_tx sample_tx" "sint (nVersion sample_tx) \<ge> 0" by code_simp+
  moreover have "length (CTransaction_Serialize sample_tx @ [9]) < 2 ^ 64" by code_simp
  ultimately show ?thesis
    using transaction_roundtrip [of sample_tx "ds_of (CTransaction_Serialize sample_tx @ [9])" "[9]"] by simp
qed

text \<open>
  C17: whatever a transaction is unserialized from, the result has the type of a transaction: every amount is a 64-bit
  number, every script and vector is within the size limits, and there is a payload only where the version and the type call
  for one. Unless the version is negative, the bytes consumed are exactly its serialization, so that no two byte strings are read
  as the same transaction.
\<close>

theorem unserialize_typed:
  assumes "ds_inv s" "CMutableTransaction_Unser ds_read s = Inr (tx, s')"
  shows "ds_inv s' \<and> wf_tx tx
    \<and> (sint (nVersion tx) \<ge> 0 \<longrightarrow> ds_contents s = CTransaction_Serialize tx @ ds_contents s')"
  by (rule ds.CMutableTransaction_Inr [OF assms])

theorem unserialize_typed_witness:
  "\<exists>tx s'. CMutableTransaction_Unser ds_read (ds_of [3, 0, 0, 0, 0, 0, 7, 0, 0, 0, 42]) = Inr (tx, s') \<and> wf_tx tx
     \<and> [3, 0, 0, 0, 0, 0, 7, 0, 0, 0, 42] = CTransaction_Serialize tx @ [42]"
proof -
  define tx :: mutable_transaction where "tx = \<lparr>vin = [], vout = [], nVersion = 3, nType = 0, nLockTime = 7, vExtraPayload = []\<rparr>"
  define s where "s = ds_of [3, 0, 0, 0, 0, 0, 7, 0, 0, 0, 42]"
  have bytes: "CTransaction_Serialize tx @ [42] = [3, 0, 0, 0, 0, 0, 7, 0, 0, 0, 42]" unfolding tx_def by code_simp
  have wf: "wf_tx tx" "sint (nVersion tx) \<ge> 0" unfolding tx_def by code_simp+
  have inv: "ds_inv s" by (simp add: s_def)
  obtain s' where s': "CMutableTransaction_Unser ds_read s = Inr (tx, s')" "ds_contents s' = [42]"
    using ds.readsD [OF ds.reads_CMutableTransaction [OF wf] inv, of "[42]"] bytes by (auto simp: s_def)
  have "wf_tx tx" "ds_contents s = CTransaction_Serialize tx @ ds_contents s'" using unserialize_typed [OF inv s'(1)] wf(2) by simp_all
  then show ?thesis using s' by (auto simp: s_def)
qed

text \<open>
  A negative version is sign-extended before it is combined with the type: the type is lost, and
  unserializing what was serialized gives another transaction.
\<close>

lemma negative_version_loses_type: "sint v < 0 \<Longrightarrow> n32bitVersion v t = n32bitVersion v 0"
proof -
  assume "sint v < 0"
  then have "bit v 15" by (simp add: bit_last_iff [of v, simplified])
  then show ?thesis unfolding n32bitVersion_def by (intro bit_word_eqI) (auto simp: bit_simps min_def split: if_splits)
qed

end
