(* ===== verification/TxCheck.thy ===== *)
theory TxCheck
  imports Transaction
begin

text \<open>
  The validation state of \<open>src/consensus/validation.h\<close> and the context-free transaction checks
  of \<open>src/consensus/tx_check.cpp\<close>, with the set of transactions they accept.
\<close>

section \<open>Validation state\<close>

datatype TxValidationResult =
    TX_RESULT_UNSET | TX_CONSENSUS | TX_RECENT_CONSENSUS_CHANGE | TX_INPUTS_NOT_STANDARD
  | TX_NOT_STANDARD | TX_MISSING_INPUTS | TX_PREMATURE_SPEND | TX_BAD_SPECIAL | TX_CONFLICT
  | TX_CONFLICT_LOCK | TX_MEMPOOL_POLICY | TX_NO_MEMPOOL

datatype BlockValidationResult =
    BLOCK_RESULT_UNSET | BLOCK_CONSENSUS | BLOCK_RECENT_CONSENSUS_CHANGE | BLOCK_CACHED_INVALID
  | BLOCK_INVALID_HEADER | BLOCK_MUTATED | BLOCK_MISSING_PREV | BLOCK_INVALID_PREV
  | BLOCK_TIME_FUTURE | BLOCK_CHECKPOINT | BLOCK_CHAINLOCK

datatype ModeState = M_VALID | M_INVALID | M_ERROR

record 'r validation_state =
  m_mode :: ModeState
  m_result :: 'r
  m_reject_reason :: string
  m_debug_message :: string

text \<open>\<open>Invalid\<close> and \<open>Error\<close> return \<open>false\<close> and update the state.\<close>

definition Invalid :: "'r \<Rightarrow> string \<Rightarrow> string \<Rightarrow> 'r validation_state \<Rightarrow> bool \<times> 'r validation_state" where
  "Invalid result reject_reason debug_message st =
     (False, st\<lparr>m_result := result, m_reject_reason := reject_reason, m_debug_message := debug_message,
                m_mode := (if m_mode st \<noteq> M_ERROR then M_INVALID else m_mode st)\<rparr>)"

definition SetError :: "string \<Rightarrow> 'r validation_state \<Rightarrow> bool \<times> 'r validation_state" where
  "SetError reject_reason st =
     (False, (if m_mode st = M_VALID then st\<lparr>m_reject_reason := reject_reason\<rparr> else st)\<lparr>m_mode := M_ERROR\<rparr>)"

definition IsValid :: "'r validation_state \<Rightarrow> bool" where
  "IsValid st \<longleftrightarrow> m_mode st = M_VALID"

definition IsInvalid :: "'r validation_state \<Rightarrow> bool" where
  "IsInvalid st \<longleftrightarrow> m_mode st = M_INVALID"

definition IsError :: "'r validation_state \<Rightarrow> bool" where
  "IsError st \<longleftrightarrow> m_mode st = M_ERROR"

definition ValidationState_ToString :: "'r validation_state \<Rightarrow> string" where
  "ValidationState_ToString st =
     (if IsValid st then ''Valid''
      else if m_debug_message st \<noteq> [] then m_reject_reason st @ '', '' @ m_debug_message st
      else m_reject_reason st)"

type_synonym TxValidationState = "TxValidationResult validation_state"

definition TxValidationState_init :: TxValidationState where
  "TxValidationState_init =
     \<lparr>m_mode = M_VALID, m_result = TX_RESULT_UNSET, m_reject_reason = [], m_debug_message = []\<rparr>"

section \<open>Limits\<close>

definition MAX_LEGACY_BLOCK_SIZE :: nat where
  "MAX_LEGACY_BLOCK_SIZE = 1000000"

definition MAX_DIP0001_BLOCK_SIZE :: nat where
  "MAX_DIP0001_BLOCK_SIZE = 2000000"

definition MaxBlockSize :: "bool \<Rightarrow> nat" where
  "MaxBlockSize fDIP0001Active =
     (if fDIP0001Active then MAX_DIP0001_BLOCK_SIZE else MAX_LEGACY_BLOCK_SIZE)"

definition MaxBlockSigOps :: "bool \<Rightarrow> nat" where
  "MaxBlockSigOps fDIP0001Active = MaxBlockSize fDIP0001Active div 50"

definition MAX_TX_EXTRA_PAYLOAD :: nat where
  "MAX_TX_EXTRA_PAYLOAD = 10000"

definition COINBASE_MATURITY :: int where
  "COINBASE_MATURITY = 100"

section \<open>CheckTransaction\<close>

text \<open>
  The loops return the reject reason of the first offending element; \<open>vInOutPoints\<close> is the
  \<open>std::set\<close> of the outpoints seen so far.
\<close>

fun check_outputs :: "CAmount \<Rightarrow> ctxout list \<Rightarrow> string option" where
  "check_outputs nValueOut [] = None"
| "check_outputs nValueOut (txout # outs) =
     (if nValue txout < 0 then Some ''bad-txns-vout-negative''
      else if nValue txout > MAX_MONEY then Some ''bad-txns-vout-toolarge''
      else if \<not> MoneyRange (nValueOut + nValue txout) then Some ''bad-txns-txouttotal-toolarge''
      else check_outputs (nValueOut + nValue txout) outs)"

fun check_duplicate_inputs :: "coutpoint set \<Rightarrow> ctxin list \<Rightarrow> string option" where
  "check_duplicate_inputs vInOutPoints [] = None"
| "check_duplicate_inputs vInOutPoints (txin # ins) =
     (if prevout txin \<in> vInOutPoints then Some ''bad-txns-inputs-duplicate''
      else check_duplicate_inputs (insert (prevout txin) vInOutPoints) ins)"

definition check_coinbase_or_prevouts :: "'a mutable_transaction_scheme \<Rightarrow> string option" where
  "check_coinbase_or_prevouts tx =
     (if IsCoinBase tx then
        let minCbSize = (if nType tx = TRANSACTION_COINBASE then 1 else 2) in
        if length (scriptSig (vin tx ! 0)) < minCbSize \<or> length (scriptSig (vin tx ! 0)) > 100
        then Some ''bad-cb-length'' else None
      else if list_ex (\<lambda>txin. COutPoint_IsNull (prevout txin)) (vin tx)
        then Some ''bad-txns-prevout-null'' else None)"

definition reject :: "string option \<Rightarrow> TxValidationState \<Rightarrow> (TxValidationState \<Rightarrow> bool \<times> TxValidationState)
    \<Rightarrow> bool \<times> TxValidationState" where
  "reject r st k = (case r of Some reason \<Rightarrow> Invalid TX_CONSENSUS reason [] st | None \<Rightarrow> k st)"

definition CheckTransaction ::
    "'a mutable_transaction_scheme \<Rightarrow> TxValidationState \<Rightarrow> bool \<times> TxValidationState" where
  "CheckTransaction tx st =
     (let allowEmptyTxIn = (nType tx = TRANSACTION_QUORUM_COMMITMENT \<or> nType tx = TRANSACTION_MNHF_SIGNAL
            \<or> nType tx = TRANSACTION_ASSET_UNLOCK);
          allowEmptyTxOut = (nType tx = TRANSACTION_QUORUM_COMMITMENT \<or> nType tx = TRANSACTION_MNHF_SIGNAL) in
      if \<not> allowEmptyTxIn \<and> vin tx = [] then Invalid TX_CONSENSUS ''bad-txns-vin-empty'' [] st
      else if \<not> allowEmptyTxOut \<and> vout tx = [] then Invalid TX_CONSENSUS ''bad-txns-vout-empty'' [] st
      else if length (CTransaction_Serialize tx) > MAX_LEGACY_BLOCK_SIZE
        then Invalid TX_CONSENSUS ''bad-txns-oversize'' [] st
      else if length (vExtraPayload tx) > MAX_TX_EXTRA_PAYLOAD
        then Invalid TX_CONSENSUS ''bad-txns-payload-oversize'' [] st
      else reject (check_outputs 0 (vout tx)) st
        (\<lambda>st. reject (check_duplicate_inputs {} (vin tx)) st
        (\<lambda>st. reject (check_coinbase_or_prevouts tx) st
        (\<lambda>st. (True, st)))))"

section \<open>What CheckTransaction accepts\<close>

lemma check_outputs_None:
  "0 \<le> a \<Longrightarrow> check_outputs a outs = None \<longleftrightarrow>
     (\<forall>out\<in>set outs. 0 \<le> nValue out) \<and> (outs = [] \<or> a + sum_list (map nValue outs) \<le> MAX_MONEY)"
proof (induction outs arbitrary: a)
  case (Cons out outs)
  let ?S = "sum_list (map nValue outs)"
  show ?case
  proof (cases "0 \<le> nValue out \<and> a + nValue out \<le> MAX_MONEY")
    case True
    then have "check_outputs a (out # outs) = check_outputs (a + nValue out) outs"
      using Cons.prems by (simp add: MoneyRange_def)
    with True show ?thesis using Cons.IH [of "a + nValue out"] Cons.prems by (auto simp: add.assoc)
  next
    case False
    then have "check_outputs a (out # outs) \<noteq> None" by (simp add: MoneyRange_def)
    moreover have "0 \<le> ?S" if "\<forall>out\<in>set outs. 0 \<le> nValue out"
      using that by (intro sum_list_nonneg) auto
    ultimately show ?thesis using False by (auto simp del: check_outputs.simps)
  qed
qed simp

lemma GetValueOut_loop_check_outputs:
  "0 \<le> a \<Longrightarrow> GetValueOut_loop a outs =
     (if check_outputs a outs = None then Inr (a + sum_list (map nValue outs))
      else Inl ''GetValueOut: value out of range'')"
  by (induction outs arbitrary: a) (auto simp: MoneyRange_def)

lemma check_duplicate_inputs_None:
  "check_duplicate_inputs S ins = None \<longleftrightarrow> distinct (map prevout ins) \<and> S \<inter> prevout ` set ins = {}"
  by (induction ins arbitrary: S) auto

text \<open>The abstract specification: a transaction that is well formed on its own.\<close>

definition empty_inputs_allowed :: "u16 \<Rightarrow> bool" where
  "empty_inputs_allowed t \<longleftrightarrow> t \<in> {TRANSACTION_QUORUM_COMMITMENT, TRANSACTION_MNHF_SIGNAL, TRANSACTION_ASSET_UNLOCK}"

definition empty_outputs_allowed :: "u16 \<Rightarrow> bool" where
  "empty_outputs_allowed t \<longleftrightarrow> t \<in> {TRANSACTION_QUORUM_COMMITMENT, TRANSACTION_MNHF_SIGNAL}"

definition standalone_valid :: "'a mutable_transaction_scheme \<Rightarrow> bool" where
  "standalone_valid tx \<longleftrightarrow>
     (vin tx \<noteq> [] \<or> empty_inputs_allowed (nType tx)) \<and> (vout tx \<noteq> [] \<or> empty_outputs_allowed (nType tx))
     \<and> length (CTransaction_Serialize tx) \<le> 1000000 \<and> length (vExtraPayload tx) \<le> 10000
     \<and> (\<forall>out\<in>set (vout tx). 0 \<le> nValue out) \<and> sum_list (map nValue (vout tx)) \<le> MAX_MONEY
     \<and> distinct (map prevout (vin tx))
     \<and> (if IsCoinBase tx
        then length (scriptSig (hd (vin tx))) \<in> {(if nType tx = TRANSACTION_COINBASE then 1 else 2)..100}
        else \<forall>i\<in>set (vin tx). \<not> COutPoint_IsNull (prevout i))"

lemma check_coinbase_None:
  "check_coinbase_or_prevouts tx = None \<longleftrightarrow>
     (if IsCoinBase tx
      then length (scriptSig (hd (vin tx))) \<in> {(if nType tx = TRANSACTION_COINBASE then 1 else 2)..100}
      else \<forall>i\<in>set (vin tx). \<not> COutPoint_IsNull (prevout i))"
  by (cases "vin tx") (auto simp: check_coinbase_or_prevouts_def IsCoinBase_def Let_def list_ex_iff not_less)

lemma check_outputs_0:
  "check_outputs 0 outs = None \<longleftrightarrow>
     (\<forall>out\<in>set outs. 0 \<le> nValue out) \<and> sum_list (map nValue outs) \<le> MAX_MONEY"
proof (cases "outs = []")
  case True
  then show ?thesis by (simp add: MAX_MONEY_value)
next
  case False
  then show ?thesis using check_outputs_None [of 0 outs] by simp
qed

lemma check_reasons:
  "check_outputs a outs \<noteq> Some []" "check_duplicate_inputs S ins \<noteq> Some []"
  "check_coinbase_or_prevouts tx \<noteq> Some []"
proof -
  show "check_outputs a outs \<noteq> Some []" by (induction outs arbitrary: a) simp_all
  show "check_duplicate_inputs S ins \<noteq> Some []" by (induction ins arbitrary: S) simp_all
  show "check_coinbase_or_prevouts tx \<noteq> Some []" by (simp add: check_coinbase_or_prevouts_def Let_def)
qed

lemma fst_Invalid [simp]: "fst (Invalid r reason msg st) = False"
  by (simp add: Invalid_def)

lemma fst_reject: "fst (reject r st k) \<longleftrightarrow> r = None \<and> fst (k st)"
  by (simp add: reject_def split: option.splits)

lemma CheckTransaction_accepts: "fst (CheckTransaction tx st) = standalone_valid tx"
proof -
  have guard: "(if b then False else x) \<longleftrightarrow> \<not> b \<and> x" for b x by simp
  show ?thesis
    unfolding CheckTransaction_def standalone_valid_def Let_def if_distrib [of fst] fst_reject
      fst_Invalid fst_conv guard check_coinbase_None check_outputs_0 check_duplicate_inputs_None
      empty_inputs_allowed_def empty_outputs_allowed_def MAX_LEGACY_BLOCK_SIZE_def
      MAX_TX_EXTRA_PAYLOAD_def not_less
    by blast
qed

text \<open>Every outcome is acceptance with the state unchanged or a consensus rejection.\<close>

definition consensus_outcome :: "TxValidationState \<Rightarrow> bool \<times> TxValidationState \<Rightarrow> bool" where
  "consensus_outcome st r \<longleftrightarrow>
     r = (True, st) \<or> (\<exists>reason. reason \<noteq> [] \<and> r = Invalid TX_CONSENSUS reason [] st)"

lemma consensus_outcome_intros:
  "consensus_outcome st (True, st)"
  "reason \<noteq> [] \<Longrightarrow> consensus_outcome st (Invalid TX_CONSENSUS reason [] st)"
  "consensus_outcome st x \<Longrightarrow> consensus_outcome st y \<Longrightarrow> consensus_outcome st (if b then x else y)"
  "r \<noteq> Some [] \<Longrightarrow> consensus_outcome st (k st) \<Longrightarrow> consensus_outcome st (reject r st k)"
  by (auto simp: consensus_outcome_def reject_def split: option.splits)

lemma CheckTransaction_outcome: "consensus_outcome st (CheckTransaction tx st)"
  unfolding CheckTransaction_def Let_def
  by (intro consensus_outcome_intros check_reasons) simp_all

text \<open>For an accepted transaction \<open>GetValueOut\<close> does not throw and returns the sum, in the money range.\<close>

lemma accepted_GetValueOut:
  assumes "fst (CheckTransaction tx st)"
  shows "GetValueOut tx = Inr (sum_list (map nValue (vout tx)))
    \<and> MoneyRange (sum_list (map nValue (vout tx)))"
proof -
  let ?S = "sum_list (map nValue (vout tx))"
  from assms have *: "\<forall>out\<in>set (vout tx). 0 \<le> nValue out" "?S \<le> MAX_MONEY"
    by (simp_all add: CheckTransaction_accepts standalone_valid_def)
  then have "0 \<le> ?S" by (intro sum_list_nonneg) auto
  with * have "MoneyRange ?S" by (simp add: MoneyRange_def)
  with * show ?thesis by (simp add: GetValueOut_def GetValueOut_loop_check_outputs check_outputs_0)
qed

text \<open>
  C9: \<open>CheckTransaction\<close> accepts exactly the transactions that are well formed on their own
  (non-empty unless the type allows it, within the size limits, outputs non-negative with a
  total of at most \<open>MAX_MONEY\<close>, no outpoint spent twice, coinbase script length in range and no
  null outpoint elsewhere); it leaves the state untouched then, and otherwise marks it invalid.
\<close>

theorem CheckTransaction_correct:
  "fst (CheckTransaction tx st) = standalone_valid tx \<and> consensus_outcome st (CheckTransaction tx st)"
  using CheckTransaction_accepts CheckTransaction_outcome by blast

end
