(* ===== verification/Script.thy ===== *)
theory Script
  imports Transaction
begin

text \<open>
  Scripts of \<open>src/script/script.h\<close> and \<open>src/script/script.cpp\<close>: opcodes, numbers, the
  instruction decoder, pushes, signature-operation counts and the script templates. An iterator
  into a script is the list of bytes from it to the end of the script.
\<close>

section \<open>Opcodes\<close>

text \<open>An opcode is the byte of the script; every byte is an \<open>opcodetype\<close> after \<open>static_cast\<close>.\<close>

type_synonym opcodetype = byte

abbreviation OP_0 :: opcodetype where "OP_0 \<equiv> 0x00"
abbreviation OP_PUSHDATA1 :: opcodetype where "OP_PUSHDATA1 \<equiv> 0x4c"
abbreviation OP_PUSHDATA2 :: opcodetype where "OP_PUSHDATA2 \<equiv> 0x4d"
abbreviation OP_PUSHDATA4 :: opcodetype where "OP_PUSHDATA4 \<equiv> 0x4e"
abbreviation OP_1NEGATE :: opcodetype where "OP_1NEGATE \<equiv> 0x4f"
abbreviation OP_RESERVED :: opcodetype where "OP_RESERVED \<equiv> 0x50"
abbreviation OP_1 :: opcodetype where "OP_1 \<equiv> 0x51"
abbreviation OP_2 :: opcodetype where "OP_2 \<equiv> 0x52"
abbreviation OP_3 :: opcodetype where "OP_3 \<equiv> 0x53"
abbreviation OP_4 :: opcodetype where "OP_4 \<equiv> 0x54"
abbreviation OP_5 :: opcodetype where "OP_5 \<equiv> 0x55"
abbreviation OP_6 :: opcodetype where "OP_6 \<equiv> 0x56"
abbreviation OP_7 :: opcodetype where "OP_7 \<equiv> 0x57"
abbreviation OP_8 :: opcodetype where "OP_8 \<equiv> 0x58"
abbreviation OP_9 :: opcodetype where "OP_9 \<equiv> 0x59"
abbreviation OP_10 :: opcodetype where "OP_10 \<equiv> 0x5a"
abbreviation OP_11 :: opcodetype where "OP_11 \<equiv> 0x5b"
abbreviation OP_12 :: opcodetype where "OP_12 \<equiv> 0x5c"
abbreviation OP_13 :: opcodetype where "OP_13 \<equiv> 0x5d"
abbreviation OP_14 :: opcodetype where "OP_14 \<equiv> 0x5e"
abbreviation OP_15 :: opcodetype where "OP_15 \<equiv> 0x5f"
abbreviation OP_16 :: opcodetype where "OP_16 \<equiv> 0x60"
abbreviation OP_NOP :: opcodetype where "OP_NOP \<equiv> 0x61"
abbreviation OP_VER :: opcodetype where "OP_VER \<equiv> 0x62"
abbreviation OP_IF :: opcodetype where "OP_IF \<equiv> 0x63"
abbreviation OP_NOTIF :: opcodetype where "OP_NOTIF \<equiv> 0x64"
abbreviation OP_VERIF :: opcodetype where "OP_VERIF \<equiv> 0x65"
abbreviation OP_VERNOTIF :: opcodetype where "OP_VERNOTIF \<equiv> 0x66"
abbreviation OP_ELSE :: opcodetype where "OP_ELSE \<equiv> 0x67"
abbreviation OP_ENDIF :: opcodetype where "OP_ENDIF \<equiv> 0x68"
abbreviation OP_VERIFY :: opcodetype where "OP_VERIFY \<equiv> 0x69"
abbreviation OP_RETURN :: opcodetype where "OP_RETURN \<equiv> 0x6a"
abbreviation OP_TOALTSTACK :: opcodetype where "OP_TOALTSTACK \<equiv> 0x6b"
abbreviation OP_FROMALTSTACK :: opcodetype where "OP_FROMALTSTACK \<equiv> 0x6c"
abbreviation OP_2DROP :: opcodetype where "OP_2DROP \<equiv> 0x6d"
abbreviation OP_2DUP :: opcodetype where "OP_2DUP \<equiv> 0x6e"
abbreviation OP_3DUP :: opcodetype where "OP_3DUP \<equiv> 0x6f"
abbreviation OP_2OVER :: opcodetype where "OP_2OVER \<equiv> 0x70"
abbreviation OP_2ROT :: opcodetype where "OP_2ROT \<equiv> 0x71"
abbreviation OP_2SWAP :: opcodetype where "OP_2SWAP \<equiv> 0x72"
abbreviation OP_IFDUP :: opcodetype where "OP_IFDUP \<equiv> 0x73"
abbreviation OP_DEPTH :: opcodetype where "OP_DEPTH \<equiv> 0x74"
abbreviation OP_DROP :: opcodetype where "OP_DROP \<equiv> 0x75"
abbreviation OP_DUP :: opcodetype where "OP_DUP \<equiv> 0x76"
abbreviation OP_NIP :: opcodetype where "OP_NIP \<equiv> 0x77"
abbreviation OP_OVER :: opcodetype where "OP_OVER \<equiv> 0x78"
abbreviation OP_PICK :: opcodetype where "OP_PICK \<equiv> 0x79"
abbreviation OP_ROLL :: opcodetype where "OP_ROLL \<equiv> 0x7a"
abbreviation OP_ROT :: opcodetype where "OP_ROT \<equiv> 0x7b"
abbreviation OP_SWAP :: opcodetype where "OP_SWAP \<equiv> 0x7c"
abbreviation OP_TUCK :: opcodetype where "OP_TUCK \<equiv> 0x7d"
abbreviation OP_CAT :: opcodetype where "OP_CAT \<equiv> 0x7e"
abbreviation OP_SPLIT :: opcodetype where "OP_SPLIT \<equiv> 0x7f"
abbreviation OP_SIZE :: opcodetype where "OP_SIZE \<equiv> 0x82"
abbreviation OP_NUM2BIN :: opcodetype where "OP_NUM2BIN \<equiv> 0x80"
abbreviation OP_BIN2NUM :: opcodetype where "OP_BIN2NUM \<equiv> 0x81"
abbreviation OP_INVERT :: opcodetype where "OP_INVERT \<equiv> 0x83"
abbreviation OP_AND :: opcodetype where "OP_AND \<equiv> 0x84"
abbreviation OP_OR :: opcodetype where "OP_OR \<equiv> 0x85"
abbreviation OP_XOR :: opcodetype where "OP_XOR \<equiv> 0x86"
abbreviation OP_EQUAL :: opcodetype where "OP_EQUAL \<equiv> 0x87"
abbreviation OP_EQUALVERIFY :: opcodetype where "OP_EQUALVERIFY \<equiv> 0x88"
abbreviation OP_RESERVED1 :: opcodetype where "OP_RESERVED1 \<equiv> 0x89"
abbreviation OP_RESERVED2 :: opcodetype where "OP_RESERVED2 \<equiv> 0x8a"
abbreviation OP_1ADD :: opcodetype where "OP_1ADD \<equiv> 0x8b"
abbreviation OP_1SUB :: opcodetype where "OP_1SUB \<equiv> 0x8c"
abbreviation OP_2MUL :: opcodetype where "OP_2MUL \<equiv> 0x8d"
abbreviation OP_2DIV :: opcodetype where "OP_2DIV \<equiv> 0x8e"
abbreviation OP_NEGATE :: opcodetype where "OP_NEGATE \<equiv> 0x8f"
abbreviation OP_ABS :: opcodetype where "OP_ABS \<equiv> 0x90"
abbreviation OP_NOT :: opcodetype where "OP_NOT \<equiv> 0x91"
abbreviation OP_0NOTEQUAL :: opcodetype where "OP_0NOTEQUAL \<equiv> 0x92"
abbreviation OP_ADD :: opcodetype where "OP_ADD \<equiv> 0x93"
abbreviation OP_SUB :: opcodetype where "OP_SUB \<equiv> 0x94"
abbreviation OP_MUL :: opcodetype where "OP_MUL \<equiv> 0x95"
abbreviation OP_DIV :: opcodetype where "OP_DIV \<equiv> 0x96"
abbreviation OP_MOD :: opcodetype where "OP_MOD \<equiv> 0x97"
abbreviation OP_LSHIFT :: opcodetype where "OP_LSHIFT \<equiv> 0x98"
abbreviation OP_RSHIFT :: opcodetype where "OP_RSHIFT \<equiv> 0x99"
abbreviation OP_BOOLAND :: opcodetype where "OP_BOOLAND \<equiv> 0x9a"
abbreviation OP_BOOLOR :: opcodetype where "OP_BOOLOR \<equiv> 0x9b"
abbreviation OP_NUMEQUAL :: opcodetype where "OP_NUMEQUAL \<equiv> 0x9c"
abbreviation OP_NUMEQUALVERIFY :: opcodetype where "OP_NUMEQUALVERIFY \<equiv> 0x9d"
abbreviation OP_NUMNOTEQUAL :: opcodetype where "OP_NUMNOTEQUAL \<equiv> 0x9e"
abbreviation OP_LESSTHAN :: opcodetype where "OP_LESSTHAN \<equiv> 0x9f"
abbreviation OP_GREATERTHAN :: opcodetype where "OP_GREATERTHAN \<equiv> 0xa0"
abbreviation OP_LESSTHANOREQUAL :: opcodetype where "OP_LESSTHANOREQUAL \<equiv> 0xa1"
abbreviation OP_GREATERTHANOREQUAL :: opcodetype where "OP_GREATERTHANOREQUAL \<equiv> 0xa2"
abbreviation OP_MIN :: opcodetype where "OP_MIN \<equiv> 0xa3"
abbreviation OP_MAX :: opcodetype where "OP_MAX \<equiv> 0xa4"
abbreviation OP_WITHIN :: opcodetype where "OP_WITHIN \<equiv> 0xa5"
abbreviation OP_RIPEMD160 :: opcodetype where "OP_RIPEMD160 \<equiv> 0xa6"
abbreviation OP_SHA1 :: opcodetype where "OP_SHA1 \<equiv> 0xa7"
abbreviation OP_SHA256 :: opcodetype where "OP_SHA256 \<equiv> 0xa8"
abbreviation OP_HASH160 :: opcodetype where "OP_HASH160 \<equiv> 0xa9"
abbreviation OP_HASH256 :: opcodetype where "OP_HASH256 \<equiv> 0xaa"
abbreviation OP_CODESEPARATOR :: opcodetype where "OP_CODESEPARATOR \<equiv> 0xab"
abbreviation OP_CHECKSIG :: opcodetype where "OP_CHECKSIG \<equiv> 0xac"
abbreviation OP_CHECKSIGVERIFY :: opcodetype where "OP_CHECKSIGVERIFY \<equiv> 0xad"
abbreviation OP_CHECKMULTISIG :: opcodetype where "OP_CHECKMULTISIG \<equiv> 0xae"
abbreviation OP_CHECKMULTISIGVERIFY :: opcodetype where "OP_CHECKMULTISIGVERIFY \<equiv> 0xaf"
abbreviation OP_NOP1 :: opcodetype where "OP_NOP1 \<equiv> 0xb0"
abbreviation OP_CHECKLOCKTIMEVERIFY :: opcodetype where "OP_CHECKLOCKTIMEVERIFY \<equiv> 0xb1"
abbreviation OP_CHECKSEQUENCEVERIFY :: opcodetype where "OP_CHECKSEQUENCEVERIFY \<equiv> 0xb2"
abbreviation OP_NOP4 :: opcodetype where "OP_NOP4 \<equiv> 0xb3"
abbreviation OP_NOP5 :: opcodetype where "OP_NOP5 \<equiv> 0xb4"
abbreviation OP_NOP6 :: opcodetype where "OP_NOP6 \<equiv> 0xb5"
abbreviation OP_NOP7 :: opcodetype where "OP_NOP7 \<equiv> 0xb6"
abbreviation OP_NOP8 :: opcodetype where "OP_NOP8 \<equiv> 0xb7"
abbreviation OP_NOP9 :: opcodetype where "OP_NOP9 \<equiv> 0xb8"
abbreviation OP_NOP10 :: opcodetype where "OP_NOP10 \<equiv> 0xb9"
abbreviation OP_CHECKDATASIG :: opcodetype where "OP_CHECKDATASIG \<equiv> 0xba"
abbreviation OP_CHECKDATASIGVERIFY :: opcodetype where "OP_CHECKDATASIGVERIFY \<equiv> 0xbb"
abbreviation OP_INVALIDOPCODE :: opcodetype where "OP_INVALIDOPCODE \<equiv> 0xff"

definition MAX_SCRIPT_ELEMENT_SIZE :: nat where "MAX_SCRIPT_ELEMENT_SIZE = 520"
definition MAX_OPS_PER_SCRIPT :: int where "MAX_OPS_PER_SCRIPT = 201"
definition MAX_PUBKEYS_PER_MULTISIG :: int where "MAX_PUBKEYS_PER_MULTISIG = 20"
definition MAX_SCRIPT_SIZE :: nat where "MAX_SCRIPT_SIZE = 10000"
definition MAX_STACK_SIZE :: nat where "MAX_STACK_SIZE = 1000"
definition LOCKTIME_THRESHOLD :: int where "LOCKTIME_THRESHOLD = 500000000"

section \<open>Numbers\<close>

text \<open>
  \<open>CScriptNum\<close> holds an \<open>int64_t\<close>, modelled by its integer value. The constructor from bytes
  throws \<open>scriptnum_error\<close>.
\<close>

definition nDefaultMaxNumSize :: nat where
  "nDefaultMaxNumSize = 4"

function serialize_abs :: "u64 \<Rightarrow> bytes" where
  "serialize_abs absvalue =
     (if absvalue \<noteq> 0 then ucast (absvalue AND 0xff) # serialize_abs (drop_bit 8 absvalue) else [])"
  by pat_completeness auto

lemma unat_drop_bit_8: "unat (drop_bit 8 n) = unat (n :: 'a::len word) div 256"
  by (simp only: unat_drop_bit_eq) (simp add: drop_bit_eq_div)

termination serialize_abs
  by (relation "measure unat") (auto simp: unat_drop_bit_8 word_neq_0_conv [symmetric] unat_gt_0)

declare serialize_abs.simps [simp del]

definition ScriptNum_serialize :: "int \<Rightarrow> bytes" where
  "ScriptNum_serialize val =
     (if val = 0 then []
      else
        let neg = val < 0;
            absvalue = (if neg then NOT (of_int val) + 1 else of_int val :: u64);
            result = serialize_abs absvalue in
        if last result AND 0x80 \<noteq> 0 then result @ [if neg then 0x80 else 0]
        else if neg then butlast result @ [last result OR 0x80]
        else result)"

fun set_vch_loop :: "nat \<Rightarrow> bytes \<Rightarrow> u64 \<Rightarrow> u64" where
  "set_vch_loop i [] result = result"
| "set_vch_loop i (b # v) result = set_vch_loop (Suc i) v (result OR push_bit (8 * i) (ucast b))"

definition set_vch :: "bytes \<Rightarrow> int" where
  "set_vch v =
     (if v = [] then 0
      else
        let result = set_vch_loop 0 v 0 in
        if last v AND 0x80 \<noteq> 0
        then - sint (result AND NOT (push_bit (8 * (length v - 1)) 0x80))
        else sint result)"

definition IsMinimallyEncoded :: "bytes \<Rightarrow> nat \<Rightarrow> bool" where
  "IsMinimallyEncoded v nMaxNumSize =
     (if length v > nMaxNumSize then False
      else if length v > 0 then
        if last v AND 0x7f = 0 then
          \<not> (length v \<le> 1 \<or> v ! (length v - 2) AND 0x80 = 0)
        else True
      else True)"

definition CScriptNum :: "bytes \<Rightarrow> bool \<Rightarrow> nat \<Rightarrow> int res" where
  "CScriptNum v fRequireMinimal nMaxNumSize =
     (if length v > nMaxNumSize then Inl ''script number overflow''
      else if fRequireMinimal \<and> \<not> IsMinimallyEncoded v nMaxNumSize
        then Inl ''non-minimally encoded script number''
      else Inr (set_vch v))"

text \<open>\<open>MinimallyEncode\<close> updates its argument and says whether it changed it.\<close>

fun MinimallyEncode_loop :: "byte \<Rightarrow> bytes \<Rightarrow> nat \<Rightarrow> bytes \<times> bool" where
  "MinimallyEncode_loop b data 0 = ([], True)"
| "MinimallyEncode_loop b data (Suc j) =
     (if data ! j \<noteq> 0 then
        if data ! j AND 0x80 \<noteq> 0 then (take (Suc (Suc j)) (data[Suc j := b]), True)
        else (take (Suc j) (data[j := data ! j OR b]), True)
      else MinimallyEncode_loop b data j)"

definition MinimallyEncode :: "bytes \<Rightarrow> bytes \<times> bool" where
  "MinimallyEncode data =
     (if length data = 0 then (data, False)
      else if last data AND 0x7f \<noteq> 0 then (data, False)
      else if length data = 1 then ([], True)
      else if data ! (length data - 2) AND 0x80 \<noteq> 0 then (data, False)
      else MinimallyEncode_loop (last data) data (length data - 1))"

text \<open>The arithmetic of \<open>CScriptNum\<close>; \<open>assert\<close> guards the in-place operations and negation.\<close>

definition ScriptNum_add_assign :: "int \<Rightarrow> int \<Rightarrow> int res" where
  "ScriptNum_add_assign a rhs =
     (if rhs = 0 \<or> (rhs > 0 \<and> a \<le> 2 ^ 63 - 1 - rhs) \<or> (rhs < 0 \<and> a \<ge> - (2 ^ 63) - rhs)
      then Inr (a + rhs) else Inl ''assert: operator+='')"

definition ScriptNum_sub_assign :: "int \<Rightarrow> int \<Rightarrow> int res" where
  "ScriptNum_sub_assign a rhs =
     (if rhs = 0 \<or> (rhs > 0 \<and> a \<ge> - (2 ^ 63) + rhs) \<or> (rhs < 0 \<and> a \<le> 2 ^ 63 - 1 + rhs)
      then Inr (a - rhs) else Inl ''assert: operator-='')"

definition ScriptNum_neg :: "int \<Rightarrow> int res" where
  "ScriptNum_neg a = (if a \<noteq> - (2 ^ 63) then Inr (- a) else Inl ''assert: operator-'')"

definition getint :: "int \<Rightarrow> int" where
  "getint m = (if m > 2 ^ 31 - 1 then 2 ^ 31 - 1 else if m < - (2 ^ 31) then - (2 ^ 31) else m)"

section \<open>Instructions\<close>

text \<open>
  \<open>GetScriptOp\<close> returns whether it succeeded, the opcode, the pushed data and where it left the
  iterator, which a failing call may have advanced.
\<close>

definition push_size :: "opcodetype \<Rightarrow> bytes \<Rightarrow> (u32 \<times> bytes) option" where
  "push_size opcode pc =
     (if opcode < OP_PUSHDATA1 then Some (ucast opcode, pc)
      else if opcode = OP_PUSHDATA1 then
        if length pc < 1 then None else Some (ucast (hd pc), drop 1 pc)
      else if opcode = OP_PUSHDATA2 then
        if length pc < 2 then None else Some (word_of_le (take 2 pc), drop 2 pc)
      else if opcode = OP_PUSHDATA4 then
        if length pc < 4 then None else Some (word_of_le (take 4 pc), drop 4 pc)
      else Some (0, pc))"

definition GetScriptOp :: "bytes \<Rightarrow> bool \<times> opcodetype \<times> bytes \<times> bytes" where
  "GetScriptOp pc =
     (case pc of
        [] \<Rightarrow> (False, OP_INVALIDOPCODE, [], pc)
      | opcode # pc1 \<Rightarrow>
          if opcode \<le> OP_PUSHDATA4 then
            case push_size opcode pc1 of
              None \<Rightarrow> (False, OP_INVALIDOPCODE, [], pc1)
            | Some (nSize, pc2) \<Rightarrow>
                if (of_nat (length pc2) :: u32) < nSize then (False, OP_INVALIDOPCODE, [], pc2)
                else (True, opcode, take (unat nSize) pc2, drop (unat nSize) pc2)
          else (True, opcode, [], pc1))"

lemma push_size_length: "push_size opcode pc = Some (k, pc') \<Longrightarrow> length pc' \<le> length pc"
  by (auto simp: push_size_def split: if_splits)

lemma GetScriptOp_progress:
  "GetScriptOp pc = (True, opcode, data, pc') \<Longrightarrow> length pc' < length pc"
  by (auto simp: GetScriptOp_def split: list.splits option.splits if_splits
      dest!: push_size_length)

lemmas GetScriptOp_progress' = GetScriptOp_progress [OF sym]

definition push_data :: "bytes \<Rightarrow> CScript" where
  "push_data b =
     (if length b < unat OP_PUSHDATA1 then [of_nat (length b)]
      else if length b \<le> 0xff then [OP_PUSHDATA1, of_nat (length b)]
      else if length b \<le> 0xffff then OP_PUSHDATA2 # word_to_le 2 (of_nat (length b) :: u16)
      else OP_PUSHDATA4 # word_to_le 4 (of_nat (length b) :: u32)) @ b"

definition push_int64 :: "int \<Rightarrow> CScript" where
  "push_int64 k =
     (if k = - 1 \<or> (k \<ge> 1 \<and> k \<le> 16) then [of_int (k + (uint OP_1 - 1))]
      else if k = 0 then [OP_0]
      else push_data (ScriptNum_serialize k))"

definition DecodeOP_N :: "opcodetype \<Rightarrow> int res" where
  "DecodeOP_N opcode =
     (if opcode = OP_0 then Inr 0
      else if opcode \<ge> OP_1 \<and> opcode \<le> OP_16 then Inr (uint opcode - (uint OP_1 - 1))
      else Inl ''assert: DecodeOP_N'')"

definition EncodeOP_N :: "int \<Rightarrow> opcodetype res" where
  "EncodeOP_N k =
     (if k \<ge> 0 \<and> k \<le> 16 then if k = 0 then Inr OP_0 else Inr (of_int (uint OP_1 + k - 1))
      else Inl ''assert: EncodeOP_N'')"

section \<open>Templates and counts\<close>

definition IsPayToPublicKeyHash :: "CScript \<Rightarrow> bool" where
  "IsPayToPublicKeyHash s \<longleftrightarrow> length s = 25 \<and> s ! 0 = OP_DUP \<and> s ! 1 = OP_HASH160 \<and> s ! 2 = 0x14
     \<and> s ! 23 = OP_EQUALVERIFY \<and> s ! 24 = OP_CHECKSIG"

definition IsPayToScriptHash :: "CScript \<Rightarrow> bool" where
  "IsPayToScriptHash s \<longleftrightarrow> length s = 23 \<and> s ! 0 = OP_HASH160 \<and> s ! 1 = 0x14 \<and> s ! 22 = OP_EQUAL"

definition IsPayToPublicKey :: "CScript \<Rightarrow> bool" where
  "IsPayToPublicKey s =
     (if length s = 35 then (s ! 1 = 0x02 \<or> s ! 1 = 0x03) \<and> s ! 34 = OP_CHECKSIG
      else if length s = 67 then s ! 1 = 0x04 \<and> s ! 66 = OP_CHECKSIG
      else False)"

definition IsUnspendable :: "CScript \<Rightarrow> bool" where
  "IsUnspendable s \<longleftrightarrow> (length s > 0 \<and> s ! 0 = OP_RETURN) \<or> length s > MAX_SCRIPT_SIZE"

function IsPushOnly :: "bytes \<Rightarrow> bool" where
  "IsPushOnly pc =
     (if pc = [] then True
      else
        case GetScriptOp pc of (ok, opcode, data, pc') \<Rightarrow>
          if \<not> ok then False else if opcode > OP_16 then False else IsPushOnly pc')"
  by pat_completeness auto
termination
  by (relation "measure length") (auto dest: GetScriptOp_progress')

function GetSigOpCount_loop :: "bool \<Rightarrow> bytes \<Rightarrow> opcodetype \<Rightarrow> u32 \<Rightarrow> u32 res" where
  "GetSigOpCount_loop fAccurate pc lastOpcode k =
     (if pc = [] then Inr k
      else
        case GetScriptOp pc of (ok, opcode, data, pc') \<Rightarrow>
          if \<not> ok then Inr k
          else if opcode = OP_CHECKSIG \<or> opcode = OP_CHECKSIGVERIFY
            then GetSigOpCount_loop fAccurate pc' opcode (k + 1)
          else if opcode = OP_CHECKMULTISIG \<or> opcode = OP_CHECKMULTISIGVERIFY then
            if fAccurate \<and> lastOpcode \<ge> OP_1 \<and> lastOpcode \<le> OP_16
            then res_bind (DecodeOP_N lastOpcode) (\<lambda>d. GetSigOpCount_loop fAccurate pc' opcode (k + of_int d))
            else GetSigOpCount_loop fAccurate pc' opcode (k + of_int MAX_PUBKEYS_PER_MULTISIG)
          else GetSigOpCount_loop fAccurate pc' opcode k)"
  by pat_completeness auto
termination
  by (relation "measure (\<lambda>(a, pc, l, k). length pc)") (auto dest: GetScriptOp_progress')

definition GetSigOpCount :: "bool \<Rightarrow> CScript \<Rightarrow> u32 res" where
  "GetSigOpCount fAccurate s = GetSigOpCount_loop fAccurate s OP_INVALIDOPCODE 0"

text \<open>The data of the last push of a push-only scriptSig; \<open>None\<close> where the source returns 0.\<close>

function last_push :: "bytes \<Rightarrow> bytes \<Rightarrow> bytes option" where
  "last_push pc vData =
     (if pc = [] then Some vData
      else
        case GetScriptOp pc of (ok, opcode, data, pc') \<Rightarrow>
          if \<not> ok then None else if opcode > OP_16 then None else last_push pc' data)"
  by pat_completeness auto
termination
  by (relation "measure (\<lambda>(pc, d). length pc)") (auto dest: GetScriptOp_progress')

definition GetSigOpCount_P2SH :: "CScript \<Rightarrow> CScript \<Rightarrow> u32 res" where
  "GetSigOpCount_P2SH s script_sig =
     (if \<not> IsPayToScriptHash s then GetSigOpCount True s
      else case last_push script_sig [] of None \<Rightarrow> Inr 0 | Some vData \<Rightarrow> GetSigOpCount True vData)"

declare IsPushOnly.simps [simp del] GetSigOpCount_loop.simps [simp del] last_push.simps [simp del]

section \<open>Script numbers round-trip\<close>

lemma set_vch_loop_le:
  "unat r < 2 ^ (8 * i) \<Longrightarrow> i + length v \<le> 8 \<Longrightarrow>
     unat (set_vch_loop i v r) = unat r + 2 ^ (8 * i) * le_nat v"
proof (induction v arbitrary: i r)
  case (Cons b v)
  let ?r = "r OR push_bit (8 * i) (ucast b)"
  have "2 ^ (8 * i) * unat b < 2 ^ (8 * i) * 2 ^ 8" using unat_byte_bound [of b] by simp
  also have "\<dots> = (2::nat) ^ (8 * Suc i)" by (simp add: power_add)
  finally have b: "2 ^ (8 * i) * unat b < 2 ^ (8 * Suc i)" .
  also have "(2::nat) ^ (8 * Suc i) \<le> 2 ^ LENGTH(64)" using Cons.prems(2) by (intro power_increasing) simp_all
  finally have r: "unat ?r = unat r + 2 ^ (8 * i) * unat b"
    using Cons.prems(1) by (intro unat_or_push_bit) simp_all
  have "unat r + 2 ^ (8 * i) * unat b < 2 ^ (8 * i) * Suc (unat b)" using Cons.prems(1) by simp
  also have "\<dots> \<le> 2 ^ (8 * i) * 2 ^ 8" using unat_byte_bound [of b] by (intro mult_le_mono2) (simp only: Suc_le_eq, simp)
  finally have "unat ?r < 2 ^ (8 * Suc i)" unfolding r by (simp add: power_add)
  then have "unat (set_vch_loop (Suc i) v ?r) = unat ?r + 2 ^ (8 * Suc i) * le_nat v"
    using Cons.prems(2) by (intro Cons.IH) simp_all
  also have "\<dots> = unat r + 2 ^ (8 * i) * le_nat (b # v)"
    unfolding r by (simp add: power_add distrib_left)
  finally show ?case by simp
qed simp

lemma set_vch_le: "length v \<le> 8 \<Longrightarrow> unat (set_vch_loop 0 v 0) = le_nat v"
  using set_vch_loop_le [of 0 0 v] by simp

text \<open>The number a byte string denotes: magnitude and sign bit.\<close>

definition signed_magnitude :: "bytes \<Rightarrow> byte \<Rightarrow> int" where
  "signed_magnitude xs b =
     (if 128 \<le> unat b then - int (le_nat xs + 256 ^ length xs * (unat b - 128))
      else int (le_nat xs + 256 ^ length xs * unat b))"

lemma high_bit_iff: "b AND 0x80 \<noteq> 0 \<longleftrightarrow> 128 \<le> unat b" for b :: byte
proof -
  have "bit b 7 \<longleftrightarrow> bit (unat b) 7" by (simp add: bit_unsigned_iff)
  also have "\<dots> \<longleftrightarrow> odd (unat b div 128)" by (simp add: bit_iff_odd)
  also have "\<dots> \<longleftrightarrow> 128 \<le> unat b"
  proof (cases "128 \<le> unat b")
    case True
    then have "unat b div 128 = 1" using unat_byte_bound [of b] by (simp add: div_nat_eqI)
    with True show ?thesis by simp
  qed simp
  finally show ?thesis by (simp add: and_0x80)
qed

lemma sint_small: "unat (w :: u64) < 2 ^ 63 \<Longrightarrow> sint w = int (unat w)"
proof -
  assume "unat w < 2 ^ 63"
  then have "int (unat w) < 2 ^ 63" by (simp only: of_nat_less_numeral_power_cancel_iff)
  then have "signed_take_bit 63 (int (unat w)) = int (unat w)"
    by (intro signed_take_bit_int_eq_self) (linarith, assumption)
  then show ?thesis by (simp only: sint_uint uint_nat) simp
qed

lemma set_vch_signed_magnitude:
  assumes "length xs < 8"
  shows "set_vch (xs @ [b]) = signed_magnitude xs b"
proof -
  let ?r = "set_vch_loop 0 (xs @ [b]) 0"
  let ?k = "8 * length xs + 7"
  have r: "unat ?r = le_nat xs + 256 ^ length xs * unat b"
    using assms by (subst set_vch_le) (simp_all add: le_nat_append)
  have k: "(2::nat) ^ ?k = 256 ^ length xs * 128" by (simp add: power_add power_mult)
  have A: "le_nat xs < 256 ^ length xs" by (rule le_nat_bound)
  have bound: "le_nat xs + 256 ^ length xs * c < 2 ^ ?k" if "c < 128" for c
  proof -
    have "le_nat xs + 256 ^ length xs * c < 256 ^ length xs * Suc c" using A by simp
    also have "\<dots> \<le> 256 ^ length xs * 128" using that by (intro mult_le_mono2) simp
    finally show ?thesis by (simp only: k)
  qed
  have "(2::nat) ^ ?k \<le> 2 ^ 63" using assms by (intro power_increasing) simp_all
  note small = less_le_trans [OF bound this]
  show ?thesis
  proof (cases "128 \<le> unat b")
    case False
    then have "unat ?r < 2 ^ 63" using small [of "unat b"] by (simp only: r)
    with False show ?thesis
      by (simp add: set_vch_def Let_def high_bit_iff sint_small r signed_magnitude_def)
  next
    case True
    define c where "c = unat b - 128"
    have c: "c < 128" "unat b = 128 + c" using True unat_byte_bound [of b] unfolding c_def by linarith+
    then have rc: "unat ?r = 2 ^ ?k + (le_nat xs + 256 ^ length xs * c)"
      by (simp only: r k) (simp add: algebra_simps)
    then have "unat ?r div 2 ^ ?k = 1" using bound [OF c(1)] by (simp add: div_nat_eqI)
    then have "bit (unat ?r) ?k" by (simp add: bit_iff_odd)
    then have "bit ?r ?k" using assms by (simp add: bit_unsigned_iff)
    moreover have "push_bit (8 * (length (xs @ [b]) - 1)) 0x80 = (push_bit ?k 1 :: u64)"
      by (simp add: push_bit_eq_mult power_add)
    ultimately have "unat (?r AND NOT (push_bit (8 * (length (xs @ [b]) - 1)) 0x80)) = le_nat xs + 256 ^ length xs * c"
      using assms unat_clear_bit [of ?k ?r] rc by simp
    then show ?thesis
      using True small [OF c(1)] by (simp add: set_vch_def Let_def high_bit_iff sint_small signed_magnitude_def c_def)
  qed
qed

lemma unat_low_byte: "unat (ucast (a AND 0xff) :: byte) = unat a mod 256" for a :: u64
proof -
  have m: "(0xff :: u64) = mask 8" by (simp add: mask_eq_exp_minus_1)
  show ?thesis
    unfolding m take_bit_eq_mask [symmetric]
    by (simp only: unsigned_ucast_eq unsigned_take_bit_eq) (simp add: take_bit_eq_mod)
qed

lemma le_nat_serialize_abs: "le_nat (serialize_abs a) = unat a"
proof (induction a rule: serialize_abs.induct)
  case (1 a)
  then show ?case
    by (simp add: serialize_abs.simps [of a] unat_low_byte unat_drop_bit_8 del: ucast_bintr)
qed

lemma serialize_abs_unique:
  "length xs < 8 \<Longrightarrow> c \<noteq> 0 \<Longrightarrow> unat a = le_nat (xs @ [c]) \<Longrightarrow> serialize_abs a = xs @ [c]"
proof (induction xs arbitrary: a)
  case Nil
  then have a: "unat a = unat c" by simp
  then have "a \<noteq> 0" "drop_bit 8 a = 0" "ucast (a AND 0xff) = c"
    using Nil unat_byte_bound [of c] by (auto simp: word_unat_eq_iff unat_low_byte unat_drop_bit_8)
  then show ?case by (simp add: serialize_abs.simps [of a] serialize_abs.simps [of 0])
next
  case (Cons b xs)
  have "unat c \<noteq> 0" using Cons.prems(2) by (simp add: unat_eq_zero)
  then have "0 < le_nat (xs @ [c])" by (simp add: le_nat_append)
  then have "a \<noteq> 0" using Cons.prems(3) by auto
  moreover have "ucast (a AND 0xff) = b"
    using Cons.prems(3) unat_byte_bound [of b] by (simp add: word_unat_eq_iff unat_low_byte)
  moreover have "serialize_abs (drop_bit 8 a) = xs @ [c]"
    using Cons.prems unat_byte_bound [of b] by (intro Cons.IH) (simp_all add: unat_drop_bit_8)
  ultimately show ?case by (simp add: serialize_abs.simps [of a])
qed

lemma serialize_abs_cases:
  assumes "a \<noteq> 0"
  obtains xs c where "serialize_abs a = xs @ [c]" "c \<noteq> 0" "unat a = le_nat xs + 256 ^ length xs * unat c"
proof -
  have "serialize_abs a \<noteq> [] \<and> last (serialize_abs a) \<noteq> 0"
    using assms
  proof (induction a rule: serialize_abs.induct)
    case (1 a)
    then show ?case
    proof (cases "drop_bit 8 a = 0")
      case True
      then have "unat a < 256" using unat_drop_bit_8 [of a] by (simp add: div_eq_0_iff)
      then have "ucast (a AND 0xff) \<noteq> (0 :: byte)"
        using 1(2) by (auto simp: word_unat_eq_iff unat_low_byte)
      with True 1(2) show ?thesis by (simp add: serialize_abs.simps [of a] serialize_abs.simps [of 0])
    next
      case False
      with 1 show ?thesis by (simp add: serialize_abs.simps [of a])
    qed
  qed
  then obtain xs c where "serialize_abs a = xs @ [c]" "c \<noteq> 0" by (metis append_butlast_last_id)
  with that le_nat_serialize_abs [of a] show thesis by (simp add: le_nat_append)
qed

lemma unat_absvalue:
  assumes "- (2 ^ 63) \<le> x" "x < 2 ^ 63"
  shows "unat (if x < 0 then NOT (of_int x) + 1 else of_int x :: u64) = nat \<bar>x\<bar>"
proof -
  have "NOT (of_int x) + 1 = (of_int (- x) :: u64)" by (simp add: not_eq_complement)
  then have "(if x < 0 then NOT (of_int x) + 1 else of_int x :: u64) = of_int \<bar>x\<bar>" by auto
  then show ?thesis using assms by (simp add: unsigned_of_int take_bit_int_eq_self)
qed

text \<open>The three shapes of an encoded number: a spare sign byte, the sign bit set, or neither.\<close>

lemma ScriptNum_serialize_cases:
  assumes "x \<noteq> 0" "- (2 ^ 63) \<le> x" "x < 2 ^ 63"
  obtains xs c where "c \<noteq> 0" "nat \<bar>x\<bar> = le_nat xs + 256 ^ length xs * unat c"
    "ScriptNum_serialize x =
       (if 128 \<le> unat c then xs @ [c, if x < 0 then 0x80 else 0]
        else if x < 0 then xs @ [c OR 0x80] else xs @ [c])"
proof -
  define a where "a = (if x < 0 then NOT (of_int x) + 1 else of_int x :: u64)"
  have a: "unat a = nat \<bar>x\<bar>" unfolding a_def using assms(2,3) by (rule unat_absvalue)
  then have "a \<noteq> 0" using assms(1) by auto
  then obtain xs c where xc: "serialize_abs a = xs @ [c]" "c \<noteq> 0"
    "unat a = le_nat xs + 256 ^ length xs * unat c"
    by (rule serialize_abs_cases)
  have "ScriptNum_serialize x =
       (if 128 \<le> unat c then xs @ [c, if x < 0 then 0x80 else 0]
        else if x < 0 then xs @ [c OR 0x80] else xs @ [c])"
    using assms(1) unfolding ScriptNum_serialize_def Let_def a_def [symmetric] xc(1) high_bit_iff last_snoc
    by simp
  then show thesis using xc(2) xc(3) a by (intro that) simp_all
qed

lemma unat_set_sign: "unat c < 128 \<Longrightarrow> unat (c OR 0x80) = unat c + 128" for c :: byte
  using unat_or_push_bit [of c 7 "1 :: byte"] by simp

lemma unat_and_0x7f: "unat (b AND 0x7f) = unat b mod 128" for b :: byte
  by (rule byte_high_bit(3))

lemma and_0x7f_eq_0: "b AND 0x7f = 0 \<longleftrightarrow> unat b mod 128 = 0" for b :: byte
  by (simp only: word_unat_eq_iff unat_and_0x7f unsigned_0)

lemma IsMinimallyEncoded_snoc:
  "IsMinimallyEncoded (xs @ [b]) k \<longleftrightarrow>
     length xs < k \<and> (unat b mod 128 \<noteq> 0 \<or> xs \<noteq> [] \<and> 128 \<le> unat (last xs))"
proof (cases xs rule: rev_cases)
  case Nil
  then show ?thesis by (auto simp: IsMinimallyEncoded_def and_0x7f_eq_0 not_less Suc_le_eq)
next
  case (snoc ys c)
  have "(xs @ [b]) ! (length (xs @ [b]) - 2) = c" by (simp add: snoc nth_append)
  then show ?thesis
    using high_bit_iff [of c]
    by (auto simp: IsMinimallyEncoded_def and_0x7f_eq_0 snoc not_less Suc_le_eq)
qed

lemma power_256_less: "256 ^ i * 128 < 256 ^ j * (128::nat) \<Longrightarrow> i < j"
  by (simp add: power_strict_increasing_iff)

lemma ScriptNum_serialize_ok:
  assumes "1 \<le> k" "k \<le> 8" "\<bar>x\<bar> < 2 ^ (8 * k - 1)"
  shows "CScriptNum (ScriptNum_serialize x) True k = Inr x"
proof (cases "x = 0")
  case True
  then show ?thesis by (simp add: ScriptNum_serialize_def CScriptNum_def IsMinimallyEncoded_def set_vch_def)
next
  case False
  obtain j where j: "k = Suc j" using assms(1) by (cases k) auto
  have "(2::int) ^ (8 * k - 1) = 256 ^ j * 128" by (simp add: j power_add power_mult)
  with assms(3) have lt: "\<bar>x\<bar> < 256 ^ j * 128" by simp
  then have ltn: "nat \<bar>x\<bar> < 256 ^ j * 128" by (simp add: nat_less_iff)
  have "(256::int) ^ j \<le> 256 ^ 7" using assms(2) j by (intro power_increasing) simp_all
  with lt have "\<bar>x\<bar> < 256 ^ 7 * 128" by linarith
  then have rng: "- (2 ^ 63) \<le> x" "x < 2 ^ 63" by simp_all
  obtain xs c where xc: "c \<noteq> 0" "nat \<bar>x\<bar> = le_nat xs + 256 ^ length xs * unat c"
    and ser: "ScriptNum_serialize x =
       (if 128 \<le> unat c then xs @ [c, if x < 0 then 0x80 else 0]
        else if x < 0 then xs @ [c OR 0x80] else xs @ [c])"
    using False rng by (rule ScriptNum_serialize_cases)
  have c0: "0 < unat c" using xc(1) by (simp add: unat_gt_0)
  have len: "256 ^ length xs * unat c < 256 ^ j * 128" using xc(2) ltn by linarith
  show ?thesis
  proof (cases "128 \<le> unat c")
    case True
    then have "256 ^ length xs * 128 \<le> 256 ^ length xs * unat c" by (intro mult_le_mono2) simp
    with len have "256 ^ length xs * 128 < 256 ^ j * (128::nat)" by linarith
    then have l: "length xs < j" by (rule power_256_less)
    let ?b = "(if x < 0 then 0x80 else 0) :: byte"
    have "set_vch ((xs @ [c]) @ [?b]) = signed_magnitude (xs @ [c]) ?b"
      by (rule set_vch_signed_magnitude) (use l assms(2) j in simp)
    also have "\<dots> = (if x < 0 then - int (nat \<bar>x\<bar>) else int (nat \<bar>x\<bar>))"
      unfolding xc(2) by (simp add: signed_magnitude_def le_nat_append)
    also have "\<dots> = x" by simp
    finally have "set_vch ((xs @ [c]) @ [?b]) = x" .
    moreover have "IsMinimallyEncoded ((xs @ [c]) @ [?b]) k"
      using True l by (subst IsMinimallyEncoded_snoc) (simp add: j)
    moreover have "length ((xs @ [c]) @ [?b]) \<le> k" using l by (simp add: j)
    moreover have "ScriptNum_serialize x = (xs @ [c]) @ [?b]" using True by (simp add: ser)
    ultimately show ?thesis by (simp add: CScriptNum_def)
  next
    case c: False
    let ?b = "if x < 0 then c OR 0x80 else c"
    have b: "unat ?b = unat c + (if x < 0 then 128 else 0)" using c by (simp add: unat_set_sign)
    have "256 ^ length xs * 1 \<le> 256 ^ length xs * unat c" using c0 by (intro mult_le_mono2) simp
    then have "256 ^ length xs < 256 ^ j * (256::nat)" using len by linarith
    then have "256 ^ length xs < (256::nat) ^ Suc j" by (simp add: mult.commute)
    then have "length xs < Suc j" by (rule power_less_imp_less_exp [rotated]) simp
    then have l: "length xs < k" by (simp only: j)
    have "set_vch (xs @ [?b]) = signed_magnitude xs ?b"
      by (rule set_vch_signed_magnitude) (use l assms(2) in simp)
    also have "\<dots> = (if x < 0 then - int (nat \<bar>x\<bar>) else int (nat \<bar>x\<bar>))"
      unfolding xc(2) using c by (simp add: signed_magnitude_def unat_set_sign)
    also have "\<dots> = x" by simp
    finally have "set_vch (xs @ [?b]) = x" .
    moreover have "IsMinimallyEncoded (xs @ [?b]) k"
      using c c0 l by (subst IsMinimallyEncoded_snoc) (simp add: b)
    moreover have "ScriptNum_serialize x = xs @ [?b]" using c by (simp add: ser)
    ultimately show ?thesis using l by (simp add: CScriptNum_def)
  qed
qed

lemma ScriptNum_serialize_eq:
  assumes "length xs < 8" "c \<noteq> 0" "nat \<bar>x\<bar> = le_nat (xs @ [c])" "\<bar>x\<bar> < 2 ^ 63"
  shows "ScriptNum_serialize x =
       (if 128 \<le> unat c then xs @ [c, if x < 0 then 0x80 else 0]
        else if x < 0 then xs @ [c OR 0x80] else xs @ [c])"
proof -
  define a where "a = (if x < 0 then NOT (of_int x) + 1 else of_int x :: u64)"
  have "unat a = nat \<bar>x\<bar>" unfolding a_def using assms(4) by (intro unat_absvalue) linarith+
  then have a: "serialize_abs a = xs @ [c]"
    using assms(1,2,3) by (intro serialize_abs_unique) simp_all
  have "0 < unat c" using assms(2) by (simp add: unat_gt_0)
  then have "0 < le_nat (xs @ [c])" by (simp add: le_nat_append)
  then have "x \<noteq> 0" using assms(3) by auto
  then show ?thesis
    unfolding ScriptNum_serialize_def Let_def a_def [symmetric] a high_bit_iff last_snoc by simp
qed

lemma ScriptNum_serialize_set_vch:
  assumes "IsMinimallyEncoded v k" "k \<le> 8"
  shows "ScriptNum_serialize (set_vch v) = v"
proof (cases v rule: rev_cases)
  case Nil
  then show ?thesis by (simp add: set_vch_def ScriptNum_serialize_def)
next
  case (snoc xs b)
  have min: "length xs < k" "unat b mod 128 \<noteq> 0 \<or> xs \<noteq> [] \<and> 128 \<le> unat (last xs)"
    using assms(1) by (simp_all only: snoc IsMinimallyEncoded_snoc)
  have x: "set_vch v = signed_magnitude xs b"
    unfolding snoc by (rule set_vch_signed_magnitude) (use min(1) assms(2) in simp)
  show ?thesis
  proof (cases "unat b mod 128 = 0")
    case True
    then obtain ys c where ys: "xs = ys @ [c]" "128 \<le> unat c"
      using min(2) by (metis append_butlast_last_id)
    have "unat b = 0 \<or> unat b = 128" using True unat_byte_bound [of b] by presburger
    then have b: "b = (if 128 \<le> unat b then 0x80 else 0)"
      by (auto simp: word_unat_eq_iff)
    then have x': "set_vch v = (if 128 \<le> unat b then - int (le_nat xs) else int (le_nat xs))"
      using True unat_byte_bound [of b] by (auto simp: x signed_magnitude_def)
    have "le_nat xs < 256 ^ length xs" by (rule le_nat_bound)
    also have "(256::nat) ^ length xs \<le> 256 ^ 7" using min(1) assms(2) by (intro power_increasing) simp_all
    finally have "int (le_nat xs) < 2 ^ 63" by simp
    moreover have "0 < le_nat xs" using ys by (simp add: le_nat_append)
    moreover have "c \<noteq> 0" "length ys < 8" using ys min(1) assms(2) by auto
    moreover from calculation have "nat \<bar>set_vch v\<bar> = le_nat (ys @ [c])" "\<bar>set_vch v\<bar> < 2 ^ 63"
      and sgn: "set_vch v < 0 \<longleftrightarrow> 128 \<le> unat b"
      unfolding x' by (simp_all add: ys(1) split: if_split)
    ultimately have "ScriptNum_serialize (set_vch v) = ys @ [c, if 128 \<le> unat b then 0x80 else 0]"
      using ys(2) unfolding sgn [symmetric] by (simp add: ScriptNum_serialize_eq [of ys c])
    then show ?thesis unfolding b [symmetric] by (simp add: snoc ys(1))
  next
    case False
    let ?c = "b AND 0x7f"
    have c: "unat ?c = unat b mod 128" "?c \<noteq> 0" using False by (simp_all only: unat_and_0x7f and_0x7f_eq_0) simp
    have b: "unat ?c = (if 128 \<le> unat b then unat b - 128 else unat b)"
    proof -
      have "n < 256 \<Longrightarrow> n mod 128 = (if 128 \<le> n then n - 128 else n)" for n :: nat
        by (cases "128 \<le> n") (simp_all add: le_mod_geq)
      from this [OF unat_byte_bound] show ?thesis unfolding c(1) .
    qed
    have x': "set_vch v = (if 128 \<le> unat b then - int (le_nat (xs @ [?c])) else int (le_nat (xs @ [?c])))"
      unfolding x signed_magnitude_def le_nat_append le_nat.simps b by simp
    have "le_nat xs < 256 ^ length xs" by (rule le_nat_bound)
    then have "le_nat (xs @ [?c]) < 256 ^ length xs * Suc (unat ?c)" by (simp add: le_nat_append)
    also have "\<dots> \<le> 256 ^ 7 * 128"
      using min(1) assms(2) by (intro mult_le_mono power_increasing) (simp_all add: c(1) Suc_le_eq)
    finally have bnd: "int (le_nat (xs @ [?c])) < 2 ^ 63" by simp
    have "0 < unat ?c" using c(2) by (simp add: unat_gt_0)
    then have pos: "0 < le_nat (xs @ [?c])" by (simp add: le_nat_append)
    have mag: "nat \<bar>set_vch v\<bar> = le_nat (xs @ [?c])" "\<bar>set_vch v\<bar> < 2 ^ 63"
      and sgn: "set_vch v < 0 \<longleftrightarrow> 128 \<le> unat b"
      unfolding x' using bnd pos by (simp_all split: if_split)
    have "\<not> 128 \<le> unat ?c" by (simp add: c(1))
    then have "ScriptNum_serialize (set_vch v) = xs @ [if 128 \<le> unat b then ?c OR 0x80 else ?c]"
      using min(1) assms(2) c(2) mag by (subst ScriptNum_serialize_eq [of xs ?c]) (simp_all add: sgn)
    moreover have "?c OR 0x80 = b" if "128 \<le> unat b"
      using that high_bit_iff [of b] by (intro byte_high_bit(2)) simp
    moreover have "?c = b" if "\<not> 128 \<le> unat b"
      using that high_bit_iff [of b] by (intro byte_high_bit(1)) simp
    ultimately show ?thesis by (simp add: snoc)
  qed
qed

section \<open>MinimallyEncode\<close>

text \<open>The number denoted by a byte string of any length.\<close>

definition num_value :: "bytes \<Rightarrow> int" where
  "num_value v = (if v = [] then 0 else signed_magnitude (butlast v) (last v))"

lemma num_value_simps [simp]: "num_value [] = 0" "num_value (xs @ [b]) = signed_magnitude xs b"
  by (simp_all add: num_value_def)

lemma set_vch_num_value: "length v \<le> 8 \<Longrightarrow> set_vch v = num_value v"
  by (cases v rule: rev_cases) (simp_all add: set_vch_signed_magnitude, simp add: set_vch_def)

lemma le_nat_eq_0: "le_nat xs = 0 \<longleftrightarrow> (\<forall>x\<in>set xs. x = 0)"
  by (induction xs) (auto simp: unat_eq_zero)

lemma le_nat_take: "le_nat (drop j xs) = 0 \<Longrightarrow> le_nat (take j xs) = le_nat xs"
  using le_nat_append [of "take j xs" "drop j xs"] by simp

lemma signed_magnitude_sign:
  assumes "unat b mod 128 = 0"
  shows "signed_magnitude xs b = (if 128 \<le> unat b then - int (le_nat xs) else int (le_nat xs))"
proof -
  have "unat b = 0 \<or> unat b = 128" using assms unat_byte_bound [of b] by presburger
  then show ?thesis by (auto simp: signed_magnitude_def simp del: of_nat_unat)
qed

lemma signed_magnitude_or:
  assumes "unat b mod 128 = 0" "unat d < 128"
  shows "signed_magnitude xs (d OR b) =
      (if 128 \<le> unat b then - int (le_nat (xs @ [d])) else int (le_nat (xs @ [d])))"
    and "unat (d OR b) mod 128 = unat d"
proof -
  have "unat b = 0 \<or> unat b = 128" using assms unat_byte_bound [of b] by presburger
  then have "b = 0 \<or> b = 0x80" by (auto simp: word_unat_eq_iff)
  then show "signed_magnitude xs (d OR b) =
      (if 128 \<le> unat b then - int (le_nat (xs @ [d])) else int (le_nat (xs @ [d])))"
    and "unat (d OR b) mod 128 = unat d"
    using assms(2) by (auto simp: signed_magnitude_def unat_set_sign le_nat_append simp del: of_nat_unat)
qed

lemma MinimallyEncode_loop_ok:
  assumes "unat b mod 128 = 0"
  shows "j \<le> length xs \<Longrightarrow> le_nat (drop j xs) = 0 \<Longrightarrow>
    num_value (fst (MinimallyEncode_loop b (xs @ [b]) j)) = signed_magnitude xs b
    \<and> IsMinimallyEncoded (fst (MinimallyEncode_loop b (xs @ [b]) j)) (Suc (length xs))"
proof (induction j)
  case 0
  then show ?case using assms by (simp add: signed_magnitude_sign IsMinimallyEncoded_def)
next
  case (Suc j)
  let ?d = "xs ! j"
  have j: "j < length xs" using Suc.prems by simp
  then have d: "(xs @ [b]) ! j = ?d" by (simp add: nth_append)
  have tk: "take (Suc j) xs = take j xs @ [?d]" using j by (rule take_Suc_conv_app_nth)
  have le: "le_nat (take j xs @ [?d]) = le_nat xs" using le_nat_take [OF Suc.prems(2)] by (simp only: tk)
  consider "?d = 0" | "128 \<le> unat ?d" | "?d \<noteq> 0" "unat ?d < 128" by linarith
  then show ?case
  proof cases
    case 1
    have "drop j xs = ?d # drop (Suc j) xs" using j by (rule Cons_nth_drop_Suc [symmetric])
    with 1 Suc j show ?thesis by (simp add: d)
  next
    case 2
    then have "fst (MinimallyEncode_loop b (xs @ [b]) (Suc j)) = (take j xs @ [?d]) @ [b]"
      using j high_bit_iff [of ?d] by (auto simp: d tk take_Suc_conv_app_nth list_update_append nth_append)
    moreover have "IsMinimallyEncoded ((take j xs @ [?d]) @ [b]) (Suc (length xs))"
      using 2 j by (subst IsMinimallyEncoded_snoc) simp
    ultimately show ?thesis using assms le by (simp only: num_value_simps signed_magnitude_sign)
  next
    case 3
    then have "fst (MinimallyEncode_loop b (xs @ [b]) (Suc j)) = take j xs @ [?d OR b]"
      using j high_bit_iff [of ?d] by (auto simp: d tk take_Suc_conv_app_nth list_update_append)
    moreover have "unat ?d \<noteq> 0" using 3(1) by (simp add: unat_eq_zero)
    then have "IsMinimallyEncoded (take j xs @ [?d OR b]) (Suc (length xs))"
      using j signed_magnitude_or(2) [OF assms 3(2)] by (subst IsMinimallyEncoded_snoc) simp
    ultimately show ?thesis
      using assms le by (simp only: num_value_simps signed_magnitude_sign signed_magnitude_or(1) [OF assms 3(2)])
  qed
qed

lemma MinimallyEncode_ok:
  "num_value (fst (MinimallyEncode v)) = num_value v
   \<and> IsMinimallyEncoded (fst (MinimallyEncode v)) (length v)"
proof (cases v rule: rev_cases)
  case Nil
  then show ?thesis by (simp add: MinimallyEncode_def IsMinimallyEncoded_def)
next
  case (snoc xs b)
  show ?thesis
  proof (cases "unat b mod 128 = 0 \<and> (xs \<noteq> [] \<longrightarrow> unat (last xs) < 128)")
    case False
    then have "fst (MinimallyEncode v) = v"
      using high_bit_iff [of "last xs"]
      by (auto simp: snoc MinimallyEncode_def and_0x7f_eq_0 nth_append last_conv_nth)
    moreover have "IsMinimallyEncoded (xs @ [b]) (length v)"
      using False by (subst IsMinimallyEncoded_snoc) (auto simp: snoc)
    ultimately show ?thesis by (simp add: snoc)
  next
    case True
    then have b: "unat b mod 128 = 0" by simp
    show ?thesis
    proof (cases "xs = []")
      case True
      with b show ?thesis
        by (simp add: snoc MinimallyEncode_def and_0x7f_eq_0 IsMinimallyEncoded_def signed_magnitude_sign
            num_value_simps(2) [of "[]", simplified])
    next
      case False
      then have "MinimallyEncode v = MinimallyEncode_loop b (xs @ [b]) (length xs)"
        using True high_bit_iff [of "last xs"]
        by (simp add: snoc MinimallyEncode_def and_0x7f_eq_0 nth_append last_conv_nth)
      then show ?thesis using MinimallyEncode_loop_ok [OF b, of "length xs" xs] by (simp add: snoc)
    qed
  qed
qed

section \<open>Pushes\<close>

text \<open>The opcode with which \<open>operator<<\<close> pushes \<open>b\<close>, and the length bytes after it.\<close>

definition push_opcode :: "bytes \<Rightarrow> opcodetype" where
  "push_opcode b =
     (if length b < 76 then of_nat (length b) else if length b \<le> 0xff then OP_PUSHDATA1
      else if length b \<le> 0xffff then OP_PUSHDATA2 else OP_PUSHDATA4)"

definition push_header :: "bytes \<Rightarrow> bytes" where
  "push_header b =
     (if length b < 76 then [] else if length b \<le> 0xff then [of_nat (length b)]
      else if length b \<le> 0xffff then word_to_le 2 (of_nat (length b) :: u16)
      else word_to_le 4 (of_nat (length b) :: u32))"

lemma push_data_header: "push_data b = push_opcode b # push_header b @ b"
  by (simp add: push_data_def push_opcode_def push_header_def)

lemma push_opcode_le: "push_opcode b \<le> OP_PUSHDATA4"
proof (cases "length b < 76")
  case True
  then have "unat (of_nat (length b) :: byte) \<le> unat OP_PUSHDATA4" by (simp)
  with True show ?thesis by (simp only: push_opcode_def word_le_nat_alt if_True)
qed (simp add: push_opcode_def)

lemma push_size_header:
  assumes "length b < 2 ^ 32"
  obtains k where "push_size (push_opcode b) (push_header b @ cs) = Some (k, cs)" "unat k = length b"
proof -
  consider "length b < 76" | "76 \<le> length b" "length b \<le> 0xff" | "0xff < length b" "length b \<le> 0xffff"
    | "0xffff < length b" by linarith
  then show thesis
  proof cases
    case 1
    let ?op = "of_nat (length b) :: byte"
    have op: "unat ?op = length b" using 1 by simp
    have "unat ?op < unat OP_PUSHDATA1" using 1 by (simp)
    then have "?op < OP_PUSHDATA1" by (simp only: word_less_nat_alt)
    moreover have "unat (ucast ?op :: u32) = length b"
      using 1 by (simp only: unsigned_ucast_eq op) (simp add: take_bit_eq_mod)
    ultimately show thesis using 1 by (intro that) (simp_all add: push_size_def push_opcode_def push_header_def)
  next
    case 2
    have "unat (ucast (of_nat (length b) :: byte) :: u32) = length b"
      using 2 by (simp only: unsigned_ucast_eq unat_byte_of_nat) (simp add: take_bit_eq_mod)
    with 2 show thesis by (intro that) (simp_all add: push_size_def push_opcode_def push_header_def)
  next
    case 3
    then have "unat (word_of_le (word_to_le 2 (of_nat (length b) :: u16)) :: u32) = length b"
      by (subst unat_word_of_le) (simp_all add: word_to_le_def le_simps unat_of_nat take_bit_eq_mod)
    with 3 show thesis by (intro that) (simp_all add: push_size_def push_opcode_def push_header_def)
  next
    case 4
    then have "unat (word_of_le (word_to_le 4 (of_nat (length b) :: u32)) :: u32) = length b"
      using assms by (subst unat_word_of_le) (simp_all add: word_to_le_def le_simps unat_of_nat take_bit_eq_mod)
    with 4 show thesis by (intro that) (simp_all add: push_size_def push_opcode_def push_header_def)
  qed
qed

lemma GetScriptOp_push_data:
  assumes "length b + length rest < 2 ^ 32"
  shows "GetScriptOp (push_data b @ rest) = (True, push_opcode b, b, rest)"
proof -
  obtain k where k: "push_size (push_opcode b) (push_header b @ b @ rest) = Some (k, b @ rest)" "unat k = length b"
    using assms by (elim push_size_header [of b "b @ rest", rotated]) simp
  have "unat (of_nat (length (b @ rest)) :: u32) = length b + length rest"
    using assms by (simp only: unat_of_nat length_append) simp
  then have "\<not> (of_nat (length (b @ rest)) :: u32) < k" by (simp add: word_less_nat_alt k(2) del: of_nat_add)
  then show ?thesis
    using k push_opcode_le [of b] by (simp add: push_data_header GetScriptOp_def del: of_nat_add)
qed

section \<open>Signature-operation counts\<close>

lemma GetSigOpCount_loop_bound:
  "\<exists>m n. GetSigOpCount_loop True pc l k = Inr (k + of_nat m) \<and> GetSigOpCount_loop False pc l k' = Inr (k' + of_nat n)
     \<and> m \<le> n \<and> n \<le> 20 * length pc"
proof (induction "length pc" arbitrary: pc l k k' rule: less_induct)
  case less
  obtain ok opcode data pc' where op: "GetScriptOp pc = (ok, opcode, data, pc')" by (metis prod_cases4)
  show ?case
  proof (cases "pc = [] \<or> \<not> ok")
    case True
    with op show ?thesis by (intro exI [of _ 0]) (auto simp: GetSigOpCount_loop.simps [of _ pc])
  next
    case False
    then have lt: "length pc' < length pc" using op GetScriptOp_progress by auto
    have step: "\<exists>m n. GetSigOpCount_loop True pc' opcode (k + of_nat d) = Inr (k + of_nat m)
        \<and> GetSigOpCount_loop False pc' opcode (k' + of_nat e) = Inr (k' + of_nat n) \<and> m \<le> n \<and> n \<le> 20 * length pc"
      if "d \<le> e" "e \<le> 20" for d e
    proof -
      obtain m n where "GetSigOpCount_loop True pc' opcode (k + of_nat d) = Inr (k + of_nat d + of_nat m)"
        "GetSigOpCount_loop False pc' opcode (k' + of_nat e) = Inr (k' + of_nat e + of_nat n)" "m \<le> n" "n \<le> 20 * length pc'"
        using less [OF lt] by metis
      with that lt show ?thesis by (intro exI [of _ "d + m"] exI [of _ "e + n"]) (simp add: add.assoc)
    qed
    let ?checksig = "opcode = OP_CHECKSIG \<or> opcode = OP_CHECKSIGVERIFY"
    let ?multisig = "opcode = OP_CHECKMULTISIG \<or> opcode = OP_CHECKMULTISIGVERIFY"
    let ?small = "l \<ge> OP_1 \<and> l \<le> OP_16"
    note unfold = GetSigOpCount_loop.simps [of _ pc] op split_conv
    have d: "DecodeOP_N l = Inr (int (unat l - 0x50))" "unat l - 0x50 \<le> 20" if ?small
    proof -
      have "0x51 \<le> unat l" "unat l \<le> 0x60" using that by (simp_all add: word_le_nat_alt)
      moreover have "l \<noteq> OP_0" using that by auto
      ultimately show "DecodeOP_N l = Inr (int (unat l - 0x50))" "unat l - 0x50 \<le> 20"
        using that by (simp_all add: DecodeOP_N_def uint_nat of_nat_diff del: of_nat_unat)
    qed
    consider ?checksig | "\<not> ?checksig" ?multisig ?small | "\<not> ?checksig" ?multisig "\<not> ?small"
      | "\<not> ?checksig" "\<not> ?multisig" by blast
    then show ?thesis
    proof cases
      case 1
      with False show ?thesis using step [of 1 1] by (simp add: unfold)
    next
      case 2
      with False show ?thesis
        using step [of "unat l - 0x50" 20] d by (simp add: unfold MAX_PUBKEYS_PER_MULTISIG_def)
    next
      case 3
      with False show ?thesis using step [of 20 20] by (auto simp: unfold MAX_PUBKEYS_PER_MULTISIG_def)
    next
      case 4
      with False show ?thesis using step [of 0 0] by (simp add: unfold)
    qed
  qed
qed

section \<open>Properties\<close>

lemma signed_magnitude_bound: "\<bar>signed_magnitude xs b\<bar> < 256 ^ length xs * 128"
proof -
  have *: "int (le_nat xs + 256 ^ length xs * c) < 256 ^ length xs * 128" if "c < 128" for c
  proof -
    have "le_nat xs + 256 ^ length xs * c < 256 ^ length xs * Suc c" using le_nat_bound [of xs] by simp
    also have "\<dots> \<le> 256 ^ length xs * 128" using that by (intro mult_le_mono2) simp
    finally have "int (le_nat xs + 256 ^ length xs * c) < int (256 ^ length xs * 128)" by (simp only: of_nat_less_iff)
    then show ?thesis by simp
  qed
  have "unat b < 256" by (rule unat_byte_bound)
  then show ?thesis using * [of "unat b"] * [of "unat b - 128"]
    unfolding signed_magnitude_def by (cases "128 \<le> unat b") (simp_all only: abs_minus_cancel if_True if_False abs_of_nat less_diff_conv2)
qed

text \<open>
  Script numbers of at most \<open>k\<close> bytes (\<open>k\<close> up to 8; consensus uses 4 and 5) and integers
  below \<open>2 ^ (8 * k - 1)\<close> in absolute value are in bijection: under the minimal-encoding rule the
  constructor accepts exactly the output of \<open>serialize\<close> and returns the number it encodes.
\<close>

lemma scriptnum_bijection:
  assumes "1 \<le> k" "k \<le> 8"
  shows "CScriptNum v True k = Inr x \<longleftrightarrow> v = ScriptNum_serialize x \<and> \<bar>x\<bar> < 2 ^ (8 * k - 1)"
proof
  assume "v = ScriptNum_serialize x \<and> \<bar>x\<bar> < 2 ^ (8 * k - 1)"
  then show "CScriptNum v True k = Inr x" using ScriptNum_serialize_ok [OF assms] by simp
next
  assume "CScriptNum v True k = Inr x"
  then have v: "IsMinimallyEncoded v k" "x = set_vch v" "length v \<le> k"
    by (auto simp: CScriptNum_def split: if_splits)
  have "\<bar>x\<bar> < 2 ^ (8 * k - 1)"
  proof (cases v rule: rev_cases)
    case Nil
    then show ?thesis by (simp add: v(2) set_vch_def)
  next
    case (snoc xs b)
    have "x = signed_magnitude xs b"
      unfolding v(2) snoc by (rule set_vch_signed_magnitude) (use v(3) assms(2) snoc in simp)
    then have "\<bar>x\<bar> < 256 ^ length xs * 128" using signed_magnitude_bound by simp
    also have "\<dots> = 2 ^ (8 * length xs + 7)" by (simp add: power_add power_mult)
    also have "\<dots> \<le> 2 ^ (8 * k - 1)" using v(3) snoc by (intro power_increasing) auto
    finally show ?thesis .
  qed
  with v ScriptNum_serialize_set_vch [OF v(1) assms(2)]
  show "v = ScriptNum_serialize x \<and> \<bar>x\<bar> < 2 ^ (8 * k - 1)" by simp
qed

text \<open>
  \<open>MinimallyEncode\<close>, on a byte string of any length, returns a minimally encoded string
  that is no longer and denotes the same number.
\<close>

lemma MinimallyEncode_correct:
  "num_value (fst (MinimallyEncode v)) = num_value v
   \<and> IsMinimallyEncoded (fst (MinimallyEncode v)) (length v)"
  by (rule MinimallyEncode_ok)

text \<open>
  Data pushed with \<open>operator<<\<close> is read back by one call of \<open>GetScriptOp\<close>, whatever follows it
  in the script, and the opcode is the shortest of the four push forms.
\<close>

lemma push_roundtrip:
  assumes "length b + length rest < 2 ^ 32"
  shows "GetScriptOp (push_data b @ rest) = (True, push_opcode b, b, rest)"
  using assms by (rule GetScriptOp_push_data)

text \<open>
  Counting signature operations never fails an assertion; the accurate count is at most the
  legacy count, which is at most 20 per script byte.
\<close>

lemma sigops_bound:
  assumes "20 * length s < 2 ^ 32"
  shows "\<exists>m n. GetSigOpCount True s = Inr m \<and> GetSigOpCount False s = Inr n
     \<and> unat m \<le> unat n \<and> unat n \<le> 20 * length s"
proof -
  obtain m n where *: "GetSigOpCount True s = Inr (of_nat m)" "GetSigOpCount False s = Inr (of_nat n)"
    "m \<le> n" "n \<le> 20 * length s"
    using GetSigOpCount_loop_bound [of s OP_INVALIDOPCODE 0 0] by (auto simp: GetSigOpCount_def)
  then have "unat (of_nat m :: u32) = m" "unat (of_nat n :: u32) = n"
    using assms by (simp_all add: unat_of_nat)
  with * show ?thesis by auto
qed

end
