(* ===== verification/Hashing.thy ===== *)
theory Hashing
  imports Serialize
begin

text \<open>
  The hash functions of \<open>src/crypto\<close> (SHA-256, SHA-1, RIPEMD-160) and their combinations in
  \<open>src/hash.h\<close>. The three classes share the buffering code of \<open>Write\<close> and \<open>Finalize\<close>; the
  locale \<open>block_hash\<close> proves for every block transformation that the digest depends on the
  concatenation of the data written only.
\<close>

section \<open>Big-endian integers\<close>

definition ReadBE32 :: "bytes \<Rightarrow> u32" where
  "ReadBE32 ptr = word_of_le (rev (take 4 ptr))"

definition ReadLE32 :: "bytes \<Rightarrow> u32" where
  "ReadLE32 ptr = word_of_le (take 4 ptr)"

definition WriteBE32 :: "u32 \<Rightarrow> bytes" where
  "WriteBE32 x = rev (word_to_le 4 x)"

definition WriteLE32 :: "u32 \<Rightarrow> bytes" where
  "WriteLE32 x = word_to_le 4 x"

definition WriteBE64 :: "u64 \<Rightarrow> bytes" where
  "WriteBE64 x = rev (word_to_le 8 x)"

definition WriteLE64 :: "u64 \<Rightarrow> bytes" where
  "WriteLE64 x = word_to_le 8 x"

section \<open>SHA-256\<close>

text \<open>Rotations are written as the source writes them: \<open>x >> k | x << (32 - k)\<close>.\<close>

definition rotr32 :: "nat \<Rightarrow> u32 \<Rightarrow> u32" where
  "rotr32 k x = drop_bit k x OR push_bit (32 - k) x"

definition rol :: "u32 \<Rightarrow> nat \<Rightarrow> u32" where
  "rol x i = push_bit i x OR drop_bit (32 - i) x"

definition Ch :: "u32 \<Rightarrow> u32 \<Rightarrow> u32 \<Rightarrow> u32" where
  "Ch x y z = z XOR (x AND (y XOR z))"

definition Maj :: "u32 \<Rightarrow> u32 \<Rightarrow> u32 \<Rightarrow> u32" where
  "Maj x y z = (x AND y) OR (z AND (x OR y))"

definition BigSigma0 :: "u32 \<Rightarrow> u32" where
  "BigSigma0 x = rotr32 2 x XOR rotr32 13 x XOR rotr32 22 x"

definition BigSigma1 :: "u32 \<Rightarrow> u32" where
  "BigSigma1 x = rotr32 6 x XOR rotr32 11 x XOR rotr32 25 x"

definition sigma0 :: "u32 \<Rightarrow> u32" where
  "sigma0 x = rotr32 7 x XOR rotr32 18 x XOR drop_bit 3 x"

definition sigma1 :: "u32 \<Rightarrow> u32" where
  "sigma1 x = rotr32 17 x XOR rotr32 19 x XOR drop_bit 10 x"

text \<open>
  One round. The source keeps the registers in place and permutes the argument order from round
  to round; here the tuple is rotated instead, so it always lists the roles \<open>a, ..., h\<close>.
\<close>

type_synonym sha256_regs = "u32 \<times> u32 \<times> u32 \<times> u32 \<times> u32 \<times> u32 \<times> u32 \<times> u32"

fun sha256_Round :: "u32 \<Rightarrow> sha256_regs \<Rightarrow> sha256_regs" where
  "sha256_Round k (a, b, c, d, e, f, g, h) =
     (let t1 = h + BigSigma1 e + Ch e f g + k;
          t2 = BigSigma0 a + Maj a b c in
      (t1 + t2, a, b, c, d + t1, e, f, g))"

definition sha256_Initialize :: "u32 list" where
  "sha256_Initialize =
     [0x6a09e667, 0xbb67ae85, 0x3c6ef372, 0xa54ff53a, 0x510e527f, 0x9b05688c, 0x1f83d9ab, 0x5be0cd19]"

text \<open>The constant and the message word of each call of \<open>Round\<close>, in the order of the source.\<close>

definition sha256_rounds :: "(u32 \<times> nat) list" where
  "sha256_rounds =
    [(0x428a2f98, 0), (0x71374491, 1), (0xb5c0fbcf, 2), (0xe9b5dba5, 3), (0x3956c25b, 4),
     (0x59f111f1, 5), (0x923f82a4, 6), (0xab1c5ed5, 7), (0xd807aa98, 8), (0x12835b01, 9),
     (0x243185be, 10), (0x550c7dc3, 11), (0x72be5d74, 12), (0x80deb1fe, 13), (0x9bdc06a7, 14),
     (0xc19bf174, 15), (0xe49b69c1, 0), (0xefbe4786, 1), (0x0fc19dc6, 2), (0x240ca1cc, 3),
     (0x2de92c6f, 4), (0x4a7484aa, 5), (0x5cb0a9dc, 6), (0x76f988da, 7), (0x983e5152, 8),
     (0xa831c66d, 9), (0xb00327c8, 10), (0xbf597fc7, 11), (0xc6e00bf3, 12), (0xd5a79147, 13),
     (0x06ca6351, 14), (0x14292967, 15), (0x27b70a85, 0), (0x2e1b2138, 1), (0x4d2c6dfc, 2),
     (0x53380d13, 3), (0x650a7354, 4), (0x766a0abb, 5), (0x81c2c92e, 6), (0x92722c85, 7),
     (0xa2bfe8a1, 8), (0xa81a664b, 9), (0xc24b8b70, 10), (0xc76c51a3, 11), (0xd192e819, 12),
     (0xd6990624, 13), (0xf40e3585, 14), (0x106aa070, 15), (0x19a4c116, 0), (0x1e376c08, 1),
     (0x2748774c, 2), (0x34b0bcb5, 3), (0x391c0cb3, 4), (0x4ed8aa4a, 5), (0x5b9cca4f, 6),
     (0x682e6ff3, 7), (0x748f82ee, 8), (0x78a5636f, 9), (0x84c87814, 10), (0x8cc70208, 11),
     (0x90befffa, 12), (0xa4506ceb, 13), (0xbef9a3f7, 14), (0xc67178f2, 15)]"

text \<open>The sixteen message words \<open>w0, ..., w15\<close>, updated in place from the sixteenth round on.\<close>

definition sha256_schedule :: "nat \<Rightarrow> u32 list \<Rightarrow> u32 list" where
  "sha256_schedule i w =
     (let j = i mod 16 in
      if i < 16 then w
      else w[j := w ! j + (sigma1 (w ! ((j + 14) mod 16)) + w ! ((j + 9) mod 16) + sigma0 (w ! ((j + 1) mod 16)))])"

definition sha256_step :: "nat \<Rightarrow> sha256_regs \<times> u32 list \<Rightarrow> sha256_regs \<times> u32 list" where
  "sha256_step i rw =
     (let w = sha256_schedule i (snd rw); (k, j) = sha256_rounds ! i in (sha256_Round (k + w ! j) (fst rw), w))"

definition sha256_Transform :: "u32 list \<Rightarrow> bytes \<Rightarrow> u32 list" where
  "sha256_Transform s chunk =
     (let w = map (\<lambda>i. ReadBE32 (drop (4 * i) chunk)) [0..<16];
          regs = (s ! 0, s ! 1, s ! 2, s ! 3, s ! 4, s ! 5, s ! 6, s ! 7) in
      case fst (fold sha256_step [0..<64] (regs, w)) of (a, b, c, d, e, f, g, h) \<Rightarrow>
        [s ! 0 + a, s ! 1 + b, s ! 2 + c, s ! 3 + d, s ! 4 + e, s ! 5 + f, s ! 6 + g, s ! 7 + h])"

fun sha256_Transform_blocks :: "u32 list \<Rightarrow> bytes \<Rightarrow> nat \<Rightarrow> u32 list" where
  "sha256_Transform_blocks s chunk 0 = s"
| "sha256_Transform_blocks s chunk (Suc blocks) =
     sha256_Transform_blocks (sha256_Transform s chunk) (drop 64 chunk) blocks"

section \<open>SHA-1\<close>

definition sha1_f1 :: "u32 \<Rightarrow> u32 \<Rightarrow> u32 \<Rightarrow> u32" where
  "sha1_f1 b c d = d XOR (b AND (c XOR d))"

definition sha1_f2 :: "u32 \<Rightarrow> u32 \<Rightarrow> u32 \<Rightarrow> u32" where
  "sha1_f2 b c d = b XOR c XOR d"

definition sha1_f3 :: "u32 \<Rightarrow> u32 \<Rightarrow> u32 \<Rightarrow> u32" where
  "sha1_f3 b c d = (b AND c) OR (d AND (b OR c))"

type_synonym sha1_regs = "u32 \<times> u32 \<times> u32 \<times> u32 \<times> u32"

fun sha1_Round :: "(u32 \<Rightarrow> u32 \<Rightarrow> u32 \<Rightarrow> u32) \<Rightarrow> u32 \<Rightarrow> u32 \<Rightarrow> sha1_regs \<Rightarrow> sha1_regs" where
  "sha1_Round f k w (a, b, c, d, e) = (e + (rol a 5 + f b c d + k + w), a, rol b 30, c, d)"

definition sha1_Initialize :: "u32 list" where
  "sha1_Initialize = [0x67452301, 0xEFCDAB89, 0x98BADCFE, 0x10325476, 0xC3D2E1F0]"

definition sha1_f :: "nat \<Rightarrow> u32 \<Rightarrow> u32 \<Rightarrow> u32 \<Rightarrow> u32" where
  "sha1_f i = (if i < 20 then sha1_f1 else if i < 40 then sha1_f2 else if i < 60 then sha1_f3 else sha1_f2)"

definition sha1_k :: "nat \<Rightarrow> u32" where
  "sha1_k i = (if i < 20 then 0x5A827999 else if i < 40 then 0x6ED9EBA1 else if i < 60 then 0x8F1BBCDC
     else 0xCA62C1D6)"

definition sha1_schedule :: "nat \<Rightarrow> u32 list \<Rightarrow> u32 list" where
  "sha1_schedule i w =
     (let j = i mod 16 in
      if i < 16 then w
      else w[j := rol (w ! j XOR w ! ((j + 13) mod 16) XOR w ! ((j + 8) mod 16) XOR w ! ((j + 2) mod 16)) 1])"

definition sha1_step :: "nat \<Rightarrow> sha1_regs \<times> u32 list \<Rightarrow> sha1_regs \<times> u32 list" where
  "sha1_step i rw =
     (let w = sha1_schedule i (snd rw) in (sha1_Round (sha1_f i) (sha1_k i) (w ! (i mod 16)) (fst rw), w))"

definition sha1_Transform :: "u32 list \<Rightarrow> bytes \<Rightarrow> u32 list" where
  "sha1_Transform s chunk =
     (let w = map (\<lambda>i. ReadBE32 (drop (4 * i) chunk)) [0..<16];
          regs = (s ! 0, s ! 1, s ! 2, s ! 3, s ! 4) in
      case fst (fold sha1_step [0..<80] (regs, w)) of (a, b, c, d, e) \<Rightarrow>
        [s ! 0 + a, s ! 1 + b, s ! 2 + c, s ! 3 + d, s ! 4 + e])"

section \<open>RIPEMD-160\<close>

definition ripemd160_f :: "nat \<Rightarrow> u32 \<Rightarrow> u32 \<Rightarrow> u32 \<Rightarrow> u32" where
  "ripemd160_f i x y z =
     (if i = 1 then x XOR y XOR z
      else if i = 2 then (x AND y) OR (NOT x AND z)
      else if i = 3 then (x OR NOT y) XOR z
      else if i = 4 then (x AND z) OR (y AND NOT z)
      else x XOR (y OR NOT z))"

definition ripemd160_Initialize :: "u32 list" where
  "ripemd160_Initialize = [0x67452301, 0xEFCDAB89, 0x98BADCFE, 0x10325476, 0xC3D2E1F0]"

text \<open>
  \<open>Round\<close> with the registers of one line in role order; \<open>R11, ..., R51\<close> use \<open>f1, ..., f5\<close> with
  the constants of the left line, \<open>R12, ..., R52\<close> use \<open>f5, ..., f1\<close> with those of the right line.
\<close>

fun ripemd160_Round :: "u32 \<Rightarrow> u32 \<Rightarrow> u32 \<Rightarrow> nat \<Rightarrow> sha1_regs \<Rightarrow> sha1_regs" where
  "ripemd160_Round f x k r (a, b, c, d, e) = (e, rol (a + f + x + k) r + e, b, rol c 10, d)"

definition ripemd160_k1 :: "u32 list" where
  "ripemd160_k1 = [0, 0x5A827999, 0x6ED9EBA1, 0x8F1BBCDC, 0xA953FD4E]"

definition ripemd160_k2 :: "u32 list" where
  "ripemd160_k2 = [0x50A28BE6, 0x5C4DD124, 0x6D703EF3, 0x7A6D76E9, 0]"

text \<open>For each of the 80 rounds of a line, the message word and the rotation it uses.\<close>

definition ripemd160_line1 :: "(nat \<times> nat) list" where
  "ripemd160_line1 =
    [(0, 11), (1, 14), (2, 15), (3, 12), (4, 5), (5, 8), (6, 7), (7, 9), (8, 11), (9, 13),
     (10, 14), (11, 15), (12, 6), (13, 7), (14, 9), (15, 8), (7, 7), (4, 6), (13, 8), (1, 13),
     (10, 11), (6, 9), (15, 7), (3, 15), (12, 7), (0, 12), (9, 15), (5, 9), (2, 11), (14, 7),
     (11, 13), (8, 12), (3, 11), (10, 13), (14, 6), (4, 7), (9, 14), (15, 9), (8, 13), (1, 15),
     (2, 14), (7, 8), (0, 13), (6, 6), (13, 5), (11, 12), (5, 7), (12, 5), (1, 11), (9, 12),
     (11, 14), (10, 15), (0, 14), (8, 15), (12, 9), (4, 8), (13, 9), (3, 14), (7, 5), (15, 6),
     (14, 8), (5, 6), (6, 5), (2, 12), (4, 9), (0, 15), (5, 5), (9, 11), (7, 6), (12, 8),
     (2, 13), (10, 12), (14, 5), (1, 12), (3, 13), (8, 14), (11, 11), (6, 8), (15, 5), (13, 6)]"

definition ripemd160_line2 :: "(nat \<times> nat) list" where
  "ripemd160_line2 =
    [(5, 8), (14, 9), (7, 9), (0, 11), (9, 13), (2, 15), (11, 15), (4, 5), (13, 7), (6, 7),
     (15, 8), (8, 11), (1, 14), (10, 14), (3, 12), (12, 6), (6, 9), (11, 13), (3, 15), (7, 7),
     (0, 12), (13, 8), (5, 9), (10, 11), (14, 7), (15, 7), (8, 12), (12, 7), (4, 6), (9, 15),
     (1, 13), (2, 11), (15, 9), (5, 7), (1, 15), (3, 11), (7, 8), (14, 6), (6, 6), (9, 14),
     (11, 12), (8, 13), (12, 5), (2, 14), (10, 13), (0, 13), (4, 7), (13, 5), (8, 15), (6, 5),
     (4, 8), (1, 11), (3, 14), (11, 14), (15, 6), (0, 14), (5, 6), (12, 9), (2, 12), (13, 9),
     (9, 12), (7, 5), (10, 15), (14, 8), (12, 8), (15, 5), (10, 12), (4, 9), (1, 12), (5, 5),
     (8, 14), (7, 6), (6, 8), (2, 13), (13, 6), (14, 5), (0, 15), (3, 13), (9, 11), (11, 11)]"

fun ripemd160_rounds1 :: "u32 list \<Rightarrow> nat \<Rightarrow> (nat \<times> nat) list \<Rightarrow> sha1_regs \<Rightarrow> sha1_regs" where
  "ripemd160_rounds1 w i [] regs = regs"
| "ripemd160_rounds1 w i ((x, r) # rs) (a, b, c, d, e) =
     ripemd160_rounds1 w (Suc i) rs
       (ripemd160_Round (ripemd160_f (i div 16 + 1) b c d) (w ! x) (ripemd160_k1 ! (i div 16)) r (a, b, c, d, e))"

fun ripemd160_rounds2 :: "u32 list \<Rightarrow> nat \<Rightarrow> (nat \<times> nat) list \<Rightarrow> sha1_regs \<Rightarrow> sha1_regs" where
  "ripemd160_rounds2 w i [] regs = regs"
| "ripemd160_rounds2 w i ((x, r) # rs) (a, b, c, d, e) =
     ripemd160_rounds2 w (Suc i) rs
       (ripemd160_Round (ripemd160_f (5 - i div 16) b c d) (w ! x) (ripemd160_k2 ! (i div 16)) r (a, b, c, d, e))"

definition ripemd160_Transform :: "u32 list \<Rightarrow> bytes \<Rightarrow> u32 list" where
  "ripemd160_Transform s chunk =
     (let w = map (\<lambda>i. ReadLE32 (drop (4 * i) chunk)) [0..<16];
          regs = (s ! 0, s ! 1, s ! 2, s ! 3, s ! 4) in
      case ripemd160_rounds1 w 0 ripemd160_line1 regs of (a1, b1, c1, d1, e1) \<Rightarrow>
      case ripemd160_rounds2 w 0 ripemd160_line2 regs of (a2, b2, c2, d2, e2) \<Rightarrow>
        [s ! 1 + c1 + d2, s ! 2 + d1 + e2, s ! 3 + e1 + a2, s ! 4 + a1 + b2, s ! 0 + b1 + c2])"

section \<open>Streaming\<close>

text \<open>The members \<open>s\<close>, \<open>buf\<close> and \<open>bytes\<close> of \<open>CSHA256\<close>, \<open>CSHA1\<close> and \<open>CRIPEMD160\<close>.\<close>

record hasher =
  h_s :: "u32 list"
  h_buf :: bytes
  h_bytes :: u64

definition memcpy_at :: "bytes \<Rightarrow> nat \<Rightarrow> bytes \<Rightarrow> bytes" where
  "memcpy_at dst off src = take off dst @ src @ drop (off + length src) dst"

function hash_full_chunks :: "(u32 list \<Rightarrow> bytes \<Rightarrow> u32 list) \<Rightarrow> u32 list \<Rightarrow> u64 \<Rightarrow> bytes \<Rightarrow> u32 list \<times> u64 \<times> bytes" where
  "hash_full_chunks tr s bs data =
     (if length data \<ge> 64 then hash_full_chunks tr (tr s (take 64 data)) (bs + 64) (drop 64 data)
      else (s, bs, data))"
  by pat_completeness auto
termination
  by (relation "measure (\<lambda>(tr, s, bs, data). length data)") auto

declare hash_full_chunks.simps [simp del]

definition hash_fill_buffer :: "(u32 list \<Rightarrow> bytes \<Rightarrow> u32 list) \<Rightarrow> bytes \<Rightarrow> hasher \<Rightarrow> hasher \<times> bytes" where
  "hash_fill_buffer tr data h =
     (let bufsize = unat (h_bytes h mod 64) in
      if bufsize \<noteq> 0 \<and> bufsize + length data \<ge> 64 then
        let buf = memcpy_at (h_buf h) bufsize (take (64 - bufsize) data) in
        (h\<lparr>h_buf := buf, h_bytes := h_bytes h + of_nat (64 - bufsize), h_s := tr (h_s h) buf\<rparr>,
         drop (64 - bufsize) data)
      else (h, data))"

definition hash_keep_rest :: "bytes \<Rightarrow> hasher \<Rightarrow> hasher" where
  "hash_keep_rest data h =
     (if data \<noteq> [] then
        h\<lparr>h_buf := memcpy_at (h_buf h) (unat (h_bytes h mod 64)) data,
          h_bytes := h_bytes h + of_nat (length data)\<rparr>
      else h)"

definition hash_Write :: "(u32 list \<Rightarrow> bytes \<Rightarrow> u32 list) \<Rightarrow> bytes \<Rightarrow> hasher \<Rightarrow> hasher" where
  "hash_Write tr data h =
     (case hash_fill_buffer tr data h of (h1, data1) \<Rightarrow>
      case hash_full_chunks tr (h_s h1) (h_bytes h1) data1 of (s, bs, data2) \<Rightarrow>
        hash_keep_rest data2 (h1\<lparr>h_s := s, h_bytes := bs\<rparr>))"

definition CRIPEMD160_Write :: "bytes \<Rightarrow> hasher \<Rightarrow> hasher" where
  "CRIPEMD160_Write = hash_Write ripemd160_Transform"

definition CSHA1_Write :: "bytes \<Rightarrow> hasher \<Rightarrow> hasher" where
  "CSHA1_Write = hash_Write sha1_Transform"

text \<open>\<open>CSHA256::Write\<close> hands all full chunks to one call of \<open>Transform\<close>.\<close>

definition CSHA256_Write :: "bytes \<Rightarrow> hasher \<Rightarrow> hasher" where
  "CSHA256_Write data h =
     (case hash_fill_buffer sha256_Transform data h of (h1, data1) \<Rightarrow>
      let h2_data2 =
        (if length data1 \<ge> 64 then
           let blocks = length data1 div 64 in
           (h1\<lparr>h_s := sha256_Transform_blocks (h_s h1) data1 blocks,
               h_bytes := h_bytes h1 + of_nat (64 * blocks)\<rparr>,
            drop (64 * blocks) data1)
         else (h1, data1)) in
      hash_keep_rest (snd h2_data2) (fst h2_data2))"

text \<open>A fresh object; the contents of \<open>buf\<close> are irrelevant.\<close>

definition hash_init :: "u32 list \<Rightarrow> hasher" where
  "hash_init s = \<lparr>h_s = s, h_buf = replicate 64 0, h_bytes = 0\<rparr>"

definition hash_Reset :: "u32 list \<Rightarrow> hasher \<Rightarrow> hasher" where
  "hash_Reset s h = h\<lparr>h_bytes := 0, h_s := s\<rparr>"

definition hash_pad :: bytes where
  "hash_pad = 0x80 # replicate 63 0"

definition hash_Finalize ::
    "(bytes \<Rightarrow> hasher \<Rightarrow> hasher) \<Rightarrow> (u64 \<Rightarrow> bytes) \<Rightarrow> (u32 \<Rightarrow> bytes) \<Rightarrow> hasher \<Rightarrow> hasher \<times> bytes" where
  "hash_Finalize wr size_enc word_enc h =
     (let sizedesc = size_enc (push_bit 3 (h_bytes h));
          h1 = wr (take (1 + unat ((119 - (h_bytes h mod 64)) mod 64)) hash_pad) h;
          h2 = wr sizedesc h1 in
      (h2, concat (map word_enc (h_s h2))))"

definition CSHA256_Finalize :: "hasher \<Rightarrow> hasher \<times> bytes" where
  "CSHA256_Finalize = hash_Finalize CSHA256_Write WriteBE64 WriteBE32"

definition CSHA1_Finalize :: "hasher \<Rightarrow> hasher \<times> bytes" where
  "CSHA1_Finalize = hash_Finalize CSHA1_Write WriteBE64 WriteBE32"

definition CRIPEMD160_Finalize :: "hasher \<Rightarrow> hasher \<times> bytes" where
  "CRIPEMD160_Finalize = hash_Finalize CRIPEMD160_Write WriteLE64 WriteLE32"

text \<open>Whole messages, as \<open>CSHA256().Write(...).Finalize(...)\<close>.\<close>

definition SHA256 :: "bytes \<Rightarrow> bytes" where
  "SHA256 m = snd (CSHA256_Finalize (CSHA256_Write m (hash_init sha256_Initialize)))"

definition SHA1 :: "bytes \<Rightarrow> bytes" where
  "SHA1 m = snd (CSHA1_Finalize (CSHA1_Write m (hash_init sha1_Initialize)))"

definition RIPEMD160 :: "bytes \<Rightarrow> bytes" where
  "RIPEMD160 m = snd (CRIPEMD160_Finalize (CRIPEMD160_Write m (hash_init ripemd160_Initialize)))"

text \<open>\<open>CHash256\<close> and \<open>CHash160\<close>: the digest is hashed again after a \<open>Reset\<close>.\<close>

definition CHash256_Finalize :: "hasher \<Rightarrow> bytes" where
  "CHash256_Finalize sha =
     (case CSHA256_Finalize sha of (sha', buf) \<Rightarrow>
        snd (CSHA256_Finalize (CSHA256_Write buf (hash_Reset sha256_Initialize sha'))))"

definition CHash160_Finalize :: "hasher \<Rightarrow> bytes" where
  "CHash160_Finalize sha =
     (case CSHA256_Finalize sha of (sha', buf) \<Rightarrow>
        snd (CRIPEMD160_Finalize (CRIPEMD160_Write buf (hash_init ripemd160_Initialize))))"

definition Hash256 :: "bytes \<Rightarrow> bytes" where
  "Hash256 m = CHash256_Finalize (CSHA256_Write m (hash_init sha256_Initialize))"

definition Hash160 :: "bytes \<Rightarrow> bytes" where
  "Hash160 m = CHash160_Finalize (CSHA256_Write m (hash_init sha256_Initialize))"

section \<open>The digest depends on the concatenation only\<close>

text \<open>
  A hasher represents the message \<open>m\<close> when its chaining value is that of the full blocks of
  \<open>m\<close>, the buffer starts with the rest of \<open>m\<close> and \<open>bytes\<close> is the length.
\<close>

lemma unat_mod_64: "unat ((of_nat n :: u64) mod 64) = n mod 64"
proof -
  have "(n mod 18446744073709551616) mod 64 = n mod (64::nat)" by (rule mod_mod_cancel) simp
  then show ?thesis by (simp add: unat_mod unat_of_nat)
qed

lemma length_memcpy_at: "off + length src \<le> length dst \<Longrightarrow> length (memcpy_at dst off src) = length dst"
  by (simp add: memcpy_at_def)

locale block_hash =
  fixes tr :: "u32 list \<Rightarrow> bytes \<Rightarrow> u32 list"
    and init :: "u32 list"
    and words :: nat
    and wr :: "bytes \<Rightarrow> hasher \<Rightarrow> hasher"
  assumes tr_length: "length s = words \<Longrightarrow> length chunk = 64 \<Longrightarrow> length (tr s chunk) = words"
    and init_length: "length init = words"
    and wr_eq: "wr data h = hash_Write tr data h"
begin

function absorb :: "u32 list \<Rightarrow> bytes \<Rightarrow> u32 list" where
  "absorb s m = (if length m \<ge> 64 then absorb (tr s (take 64 m)) (drop 64 m) else s)"
  by pat_completeness auto
termination
  by (relation "measure (\<lambda>(s, m). length m)") auto

declare absorb.simps [simp del]

definition represents :: "hasher \<Rightarrow> bytes \<Rightarrow> bool" where
  "represents h m \<longleftrightarrow> h_s h = absorb init m \<and> length (h_buf h) = 64 \<and> h_bytes h = of_nat (length m)
     \<and> take (length m mod 64) (h_buf h) = drop (64 * (length m div 64)) m"

lemma absorb_short: "length m < 64 \<Longrightarrow> absorb s m = s"
  by (simp add: absorb.simps)

lemma absorb_one: "length m = 64 \<Longrightarrow> absorb s m = tr s m"
  by (simp add: absorb.simps [of s m] absorb_short)

lemma absorb_append: "64 dvd length a \<Longrightarrow> absorb s (a @ b) = absorb (absorb s a) b"
proof (induction s a rule: absorb.induct)
  case (1 s a)
  show ?case
  proof (cases "64 \<le> length a")
    case True
    then have "absorb s (a @ b) = absorb (tr s (take 64 a)) (drop 64 a @ b)"
      by (subst absorb.simps) simp
    also have "\<dots> = absorb (absorb (tr s (take 64 a)) (drop 64 a)) b"
      using 1 True by (simp add: dvd_minus_self)
    finally show ?thesis using True by (simp add: absorb.simps [of s a])
  next
    case False
    with 1(2) have "a = []" by (auto dest: dvd_imp_le)
    then show ?thesis by (simp add: absorb_short)
  qed
qed

lemma absorb_full_blocks: "absorb s m = absorb s (take (64 * (length m div 64)) m)"
proof -
  let ?a = "take (64 * (length m div 64)) m"
  have "length ?a = 64 * (length m div 64)" by (simp add: min_absorb2)
  then have "64 dvd length ?a" by simp
  then have "absorb s (?a @ drop (64 * (length m div 64)) m) = absorb (absorb s ?a) (drop (64 * (length m div 64)) m)"
    by (rule absorb_append)
  also have "\<dots> = absorb s ?a" by (rule absorb_short) (simp add: minus_mult_div_eq_mod)
  finally show ?thesis by simp
qed

lemma hash_full_chunks_absorb:
  "hash_full_chunks tr s bs data =
     (absorb s data, bs + of_nat (64 * (length data div 64)), drop (64 * (length data div 64)) data)"
proof (induction "length data" arbitrary: s bs data rule: less_induct)
  case less
  show ?case
  proof (cases "64 \<le> length data")
    case True
    then have q: "length data div 64 = Suc ((length data - 64) div 64)" by (simp add: le_div_geq)
    have "hash_full_chunks tr s bs data = hash_full_chunks tr (tr s (take 64 data)) (bs + 64) (drop 64 data)"
      using True by (simp add: hash_full_chunks.simps [of tr s])
    then show ?thesis
      using less [of "drop 64 data" "tr s (take 64 data)" "bs + 64"] True
      by (simp add: q absorb.simps [of s data] algebra_simps)
  next
    case False
    then show ?thesis by (simp add: hash_full_chunks.simps [of tr s] absorb_short)
  qed
qed

lemma represents_init: "represents (hash_init init) []"
  by (simp add: represents_def hash_init_def absorb_short)

lemma represents_Reset: "length (h_buf h) = 64 \<Longrightarrow> represents (hash_Reset init h) []"
  by (simp add: represents_def hash_Reset_def absorb_short)

lemma represents_keep_rest:
  assumes "represents h m" "length m mod 64 + length d < 64"
  shows "represents (hash_keep_rest d h) (m @ d)"
proof -
  define q r where "q = length m div 64" and "r = length m mod 64"
  have m: "length m = 64 * q + r" "r < 64" by (simp_all add: q_def r_def)
  have len: "length (m @ d) div 64 = q" "length (m @ d) mod 64 = r + length d"
    using assms(2) by (simp_all add: m div_nat_eqI mod_nat_eqI)
  have "take (64 * q) (m @ d) = take (64 * q) m" by (simp add: m)
  then have s: "absorb init (m @ d) = absorb init m"
    using absorb_full_blocks [of init "m @ d"] absorb_full_blocks [of init m] len(1) by (simp add: q_def)
  have off: "unat (h_bytes h mod 64) = r"
    using assms(1) unat_mod_64 [of "length m"] by (simp add: represents_def r_def)
  have buf: "length (h_buf h) = 64" "take r (h_buf h) = drop (64 * q) m"
    using assms(1) by (simp_all add: represents_def q_def r_def)
  have "drop (64 * q) (m @ d) = drop (64 * q) m @ d" by (simp add: m)
  then have "take (r + length d) (memcpy_at (h_buf h) r d) = drop (64 * q) (m @ d)"
    using buf m by (simp add: memcpy_at_def)
  moreover have "length (memcpy_at (h_buf h) r d) = 64"
    using assms(2) buf by (subst length_memcpy_at) (simp_all add: r_def)
  moreover have "take (r + length d) (h_buf h) = drop (64 * q) (m @ d)" if "d = []" using that buf by simp
  ultimately show ?thesis
    using assms(1) s buf(1) unfolding represents_def hash_keep_rest_def off len by (cases "d = []") simp_all
qed

lemma represents_full_blocks:
  assumes "represents h m" "64 dvd length m" "64 dvd length d"
  shows "represents (h\<lparr>h_s := absorb (h_s h) d, h_bytes := h_bytes h + of_nat (length d)\<rparr>) (m @ d)"
  using assms absorb_append [OF assms(2), of init d] by (simp add: represents_def)

text \<open>The last two steps of \<open>Write\<close>, from a block boundary.\<close>

lemma represents_aligned:
  assumes "represents h m" "64 dvd length m"
  shows "represents (case hash_full_chunks tr (h_s h) (h_bytes h) d of (s, bs, data2) \<Rightarrow>
      hash_keep_rest data2 (h\<lparr>h_s := s, h_bytes := bs\<rparr>)) (m @ d)"
proof -
  let ?k = "64 * (length d div 64)"
  have k: "length (take ?k d) = ?k" by (simp add: min_absorb2)
  have "represents (h\<lparr>h_s := absorb (h_s h) (take ?k d), h_bytes := h_bytes h + of_nat (length (take ?k d))\<rparr>)
      (m @ take ?k d)"
    by (rule represents_full_blocks [OF assms]) (simp add: k)
  then have "represents (hash_keep_rest (drop ?k d)
      (h\<lparr>h_s := absorb (h_s h) (take ?k d), h_bytes := h_bytes h + of_nat ?k\<rparr>)) ((m @ take ?k d) @ drop ?k d)"
    unfolding k by (rule represents_keep_rest)
      (use assms(2) k in \<open>simp add: minus_mult_div_eq_mod mod_0_imp_dvd mod_add_eq dvd_imp_mod_0\<close>)
  then show ?thesis using absorb_full_blocks [of "h_s h" d] by (simp add: hash_full_chunks_absorb)
qed

lemma represents_fill:
  assumes "represents h m" "length m mod 64 + length d = 64"
  defines "buf \<equiv> memcpy_at (h_buf h) (length m mod 64) d"
  shows "represents (h\<lparr>h_buf := buf, h_bytes := h_bytes h + of_nat (length d), h_s := tr (h_s h) buf\<rparr>) (m @ d)"
    and "64 dvd length (m @ d)"
proof -
  define q where "q = length m div 64"
  let ?A = "take (64 * q) m"
  let ?B = "drop (64 * q) m"
  have A: "64 dvd length ?A" by (simp add: q_def min_absorb2)
  have m: "length m = 64 * q + length m mod 64" by (simp add: q_def)
  then have len: "length (m @ d) = 64 * Suc q" using assms(2) by simp
  then show dvd: "64 dvd length (m @ d)" by (simp only: dvd_triv_left)
  have buf: "buf = ?B @ d"
    using assms(1,2) by (simp add: buf_def memcpy_at_def represents_def q_def)
  have "length ?B = length m mod 64" using m by simp
  then have B: "length (?B @ d) = 64" using assms(2) by simp
  have "absorb init (m @ d) = absorb init (?A @ (?B @ d))" by (simp flip: append_assoc)
  also have "\<dots> = absorb (absorb init ?A) (?B @ d)" by (rule absorb_append [OF A])
  also have "\<dots> = tr (absorb init ?A) (?B @ d)"
    using absorb_one [OF B] .
  also have "absorb init ?A = absorb init m" unfolding q_def by (rule absorb_full_blocks [symmetric])
  finally have "absorb init (m @ d) = tr (h_s h) buf" using assms(1) by (simp add: represents_def buf)
  moreover have "length (m @ d) mod 64 = 0" "length (m @ d) div 64 = Suc q" unfolding len by simp_all
  moreover have "length buf = 64" unfolding buf by (rule B)
  moreover have "drop (64 * Suc q) (m @ d) = []" using len by simp
  moreover have "h_bytes h + of_nat (length d) = of_nat (length (m @ d))"
    using assms(1) by (simp add: represents_def)
  ultimately show "represents (h\<lparr>h_buf := buf, h_bytes := h_bytes h + of_nat (length d), h_s := tr (h_s h) buf\<rparr>) (m @ d)"
    unfolding represents_def by simp
qed

lemma represents_Write:
  assumes "represents h m"
  shows "represents (wr d h) (m @ d)"
proof -
  define r where "r = length m mod 64"
  have r: "unat (h_bytes h mod 64) = r" "r < 64"
    using assms unat_mod_64 [of "length m"] by (simp_all add: represents_def r_def)
  show ?thesis
  proof (cases "r \<noteq> 0 \<and> r + length d \<ge> 64")
    case True
    let ?d1 = "take (64 - r) d"
    let ?buf = "memcpy_at (h_buf h) r ?d1"
    let ?h1 = "h\<lparr>h_buf := ?buf, h_bytes := h_bytes h + of_nat (64 - r), h_s := tr (h_s h) ?buf\<rparr>"
    have fill: "hash_fill_buffer tr d h = (?h1, drop (64 - r) d)"
      using True by (simp add: hash_fill_buffer_def r Let_def)
    have d1: "length m mod 64 + length ?d1 = 64" using True r(2) unfolding r_def length_take by linarith
    have length_d1: "length ?d1 = 64 - r" using d1 unfolding r_def by linarith
    have "represents ?h1 (m @ ?d1)" "64 dvd length (m @ ?d1)"
      using represents_fill [OF assms d1] unfolding r_def [symmetric] length_d1 by simp_all
    then have "represents (case hash_full_chunks tr (h_s ?h1) (h_bytes ?h1) (drop (64 - r) d) of (s, bs, data2) \<Rightarrow>
        hash_keep_rest data2 (?h1\<lparr>h_s := s, h_bytes := bs\<rparr>)) ((m @ ?d1) @ drop (64 - r) d)"
      by (rule represents_aligned)
    then show ?thesis by (simp add: wr_eq hash_Write_def fill)
  next
    case False
    then have fill: "hash_fill_buffer tr d h = (h, d)" by (auto simp: hash_fill_buffer_def r)
    show ?thesis
    proof (cases "r = 0")
      case True
      then have "64 dvd length m" by (simp add: r_def dvd_eq_mod_eq_0)
      from represents_aligned [OF assms this, of d] show ?thesis by (simp add: wr_eq hash_Write_def fill)
    next
      case r0: False
      with False have "length d < 64" "length m mod 64 + length d < 64" by (auto simp: r_def)
      then show ?thesis
        using represents_keep_rest [OF assms]
        by (simp add: wr_eq hash_Write_def fill hash_full_chunks.simps)
    qed
  qed
qed

text \<open>The padded message: a one bit, zeros and the length, up to a block boundary.\<close>

definition padded :: "(u64 \<Rightarrow> bytes) \<Rightarrow> bytes \<Rightarrow> bytes" where
  "padded size_enc m =
     m @ take (1 + (119 - length m mod 64) mod 64) hash_pad @ size_enc (push_bit 3 (of_nat (length m)))"

lemma padded_length:
  assumes "\<And>x. length (size_enc x) = 8"
  shows "64 dvd length (padded size_enc m)"
proof -
  define r where "r = length m mod 64"
  have r: "r < 64" by (simp add: r_def)
  have "length hash_pad = 64" by (simp add: hash_pad_def)
  moreover have "(119 - r) mod 64 < 64" by simp
  ultimately have "length (padded size_enc m) = length m + (1 + (119 - r) mod 64) + 8"
    by (simp add: padded_def assms r_def min_absorb2)
  moreover have "length m + (1 + (119 - r) mod 64) + 8 = r + 9 + (119 - r) mod 64 + 64 * (length m div 64)"
    using mult_div_mod_eq [of 64 "length m"] unfolding r_def by linarith
  then have "(length m + (1 + (119 - r) mod 64) + 8) mod 64 = (r + 9 + (119 - r) mod 64) mod 64"
    by (simp only: mod_mult_self2)
  moreover have "(r + 9 + (119 - r) mod 64) mod 64 = (r + 9 + (119 - r)) mod 64" by (rule mod_add_right_eq)
  moreover have "r + 9 + (119 - r) = 128" using r by simp
  ultimately have "length (padded size_enc m) mod 64 = 128 mod 64" by (simp only:)
  then show ?thesis by (simp add: dvd_eq_mod_eq_0)
qed

lemma length_absorb: "length s = words \<Longrightarrow> length (absorb s m) = words"
proof (induction s m rule: absorb.induct)
  case (1 s m)
  then show ?case using tr_length by (simp add: absorb.simps [of s m])
qed

lemma Finalize_padded:
  assumes "represents h m"
  shows "represents (fst (hash_Finalize wr size_enc word_enc h)) (padded size_enc m)"
    and "snd (hash_Finalize wr size_enc word_enc h) = concat (map word_enc (absorb init (padded size_enc m)))"
proof -
  have b: "h_bytes h = of_nat (length m)" using assms by (simp add: represents_def)
  have "unat ((119 - (h_bytes h mod 64)) mod 64) = (119 - length m mod 64) mod 64"
  proof -
    have "h_bytes h mod 64 = of_nat (length m mod 64)"
    proof -
      have "length m mod 64 < 64" by simp
      then have "length m mod 64 < 2 ^ 64" by (rule less_le_trans) simp
      then have "unat (of_nat (length m mod 64) :: u64) = length m mod 64" by (simp add: unat_of_nat)
      then show ?thesis by (simp only: word_unat_eq_iff b unat_mod_64)
    qed
    moreover have "(119 - of_nat (length m mod 64) :: u64) = of_nat (119 - length m mod 64)"
      by (subst of_nat_diff) (simp_all add: le_trans [OF mod_le_divisor])
    ultimately show ?thesis using unat_mod_64 [of "119 - length m mod 64"] by simp
  qed
  then show r: "represents (fst (hash_Finalize wr size_enc word_enc h)) (padded size_enc m)"
    using represents_Write [OF represents_Write [OF assms]]
    by (simp add: hash_Finalize_def Let_def padded_def b)
  then show "snd (hash_Finalize wr size_enc word_enc h) = concat (map word_enc (absorb init (padded size_enc m)))"
    by (simp add: hash_Finalize_def Let_def represents_def)
qed

lemma represents_fold: "represents h m \<Longrightarrow> represents (fold wr ds h) (m @ concat ds)"
  by (induction ds arbitrary: h m) (simp, metis append_assoc concat.simps(2) fold_simps(2) represents_Write)

lemma streaming:
  "snd (hash_Finalize wr size_enc word_enc (fold wr ds (hash_init init))) =
   snd (hash_Finalize wr size_enc word_enc (wr (concat ds) (hash_init init)))"
  using Finalize_padded(2) [OF represents_fold [OF represents_init, of ds]]
    Finalize_padded(2) [OF represents_Write [OF represents_init, of "concat ds"]]
  by simp

lemma digest_length:
  assumes "represents h m" "\<And>x. length (word_enc x) = 4"
  shows "length (snd (hash_Finalize wr size_enc word_enc h)) = 4 * words"
proof -
  have "length (absorb init (padded size_enc m)) = words" using init_length by (rule length_absorb)
  then show ?thesis
    by (simp add: Finalize_padded(2) [OF assms(1)] length_concat o_def assms(2) sum_list_triv)
qed

end

section \<open>The three hash classes\<close>

lemma ReadBE32_take: "i < 16 \<Longrightarrow> ReadBE32 (drop (4 * i) (take 64 c)) = ReadBE32 (drop (4 * i) c)"
  by (simp add: ReadBE32_def drop_take min_def)

lemma sha256_Transform_take: "sha256_Transform s (take 64 c) = sha256_Transform s c"
proof -
  have "map (\<lambda>i. ReadBE32 (drop (4 * i) (take 64 c))) [0..<16] = map (\<lambda>i. ReadBE32 (drop (4 * i) c)) [0..<16]"
    by (rule map_cong) (simp_all add: ReadBE32_take)
  then show ?thesis by (simp only: sha256_Transform_def)
qed

lemma sha256_full_chunks:
  "hash_full_chunks sha256_Transform s bs data =
     (sha256_Transform_blocks s data (length data div 64), bs + of_nat (64 * (length data div 64)),
      drop (64 * (length data div 64)) data)"
proof (induction "length data" arbitrary: s bs data rule: less_induct)
  case less
  show ?case
  proof (cases "64 \<le> length data")
    case True
    then have q: "length data div 64 = Suc ((length data - 64) div 64)" by (simp add: le_div_geq)
    show ?thesis
      using less [of "drop 64 data" "sha256_Transform s data" "bs + 64"] True
      by (simp add: hash_full_chunks.simps [of _ s] sha256_Transform_take q algebra_simps)
  next
    case False
    then show ?thesis by (simp add: hash_full_chunks.simps [of _ s])
  qed
qed

lemma CSHA256_Write_eq: "CSHA256_Write data h = hash_Write sha256_Transform data h"
  by (simp add: CSHA256_Write_def hash_Write_def sha256_full_chunks Let_def split: prod.split)

interpretation sha256: block_hash sha256_Transform sha256_Initialize 8 CSHA256_Write
proof unfold_locales
  show "length (sha256_Transform s chunk) = 8" for s chunk
    by (simp add: sha256_Transform_def split: prod.split)
qed (simp_all add: sha256_Initialize_def CSHA256_Write_eq)

interpretation sha1: block_hash sha1_Transform sha1_Initialize 5 CSHA1_Write
proof unfold_locales
  show "length (sha1_Transform s chunk) = 5" for s chunk
    by (simp add: sha1_Transform_def split: prod.split)
qed (simp_all add: sha1_Initialize_def CSHA1_Write_def)

interpretation ripemd160: block_hash ripemd160_Transform ripemd160_Initialize 5 CRIPEMD160_Write
proof unfold_locales
  show "length (ripemd160_Transform s chunk) = 5" for s chunk
    by (simp add: ripemd160_Transform_def Let_def split: prod.split)
qed (simp_all add: ripemd160_Initialize_def CRIPEMD160_Write_def)

lemma length_word_encs [simp]: "length (WriteBE32 x) = 4" "length (WriteLE32 x) = 4"
  by (simp_all add: WriteBE32_def WriteLE32_def)

lemma length_SHA256 [simp]: "length (SHA256 m) = 32"
  using sha256.digest_length [OF sha256.represents_Write [OF sha256.represents_init]]
  by (simp add: SHA256_def CSHA256_Finalize_def)

lemma length_SHA1 [simp]: "length (SHA1 m) = 20"
  using sha1.digest_length [OF sha1.represents_Write [OF sha1.represents_init]]
  by (simp add: SHA1_def CSHA1_Finalize_def)

lemma length_RIPEMD160 [simp]: "length (RIPEMD160 m) = 20"
  using ripemd160.digest_length [OF ripemd160.represents_Write [OF ripemd160.represents_init]]
  by (simp add: RIPEMD160_def CRIPEMD160_Finalize_def)

lemma Hash256_eq: "Hash256 m = SHA256 (SHA256 m)"
proof -
  let ?h = "CSHA256_Write m (hash_init sha256_Initialize)"
  let ?f = "CSHA256_Finalize ?h"
  have "sha256.represents (fst ?f) (sha256.padded WriteBE64 m)"
    using sha256.Finalize_padded(1) [OF sha256.represents_Write [OF sha256.represents_init, of m]]
    by (simp add: CSHA256_Finalize_def)
  then have "sha256.represents (hash_Reset sha256_Initialize (fst ?f)) []"
    by (intro sha256.represents_Reset) (simp add: sha256.represents_def)
  from sha256.Finalize_padded(2) [OF sha256.represents_Write [OF this]]
    sha256.Finalize_padded(2) [OF sha256.represents_Write [OF sha256.represents_init]]
  show ?thesis
    by (simp add: Hash256_def CHash256_Finalize_def SHA256_def CSHA256_Finalize_def case_prod_unfold)
qed

lemma Hash160_eq: "Hash160 m = RIPEMD160 (SHA256 m)"
  by (simp add: Hash160_def CHash160_Finalize_def SHA256_def RIPEMD160_def split: prod.split)

lemma length_Hash256 [simp]: "length (Hash256 m) = 32"
  by (simp add: Hash256_eq)

lemma length_Hash160 [simp]: "length (Hash160 m) = 20"
  by (simp add: Hash160_eq)

text \<open>
  Hashing is independent of how the data is split into \<open>Write\<close> calls: for SHA-256, SHA-1 and
  RIPEMD-160, writing the pieces one after the other gives the digest of their concatenation.
\<close>

lemma hash_streaming:
  "snd (CSHA256_Finalize (fold CSHA256_Write ds (hash_init sha256_Initialize))) = SHA256 (concat ds)
   \<and> snd (CSHA1_Finalize (fold CSHA1_Write ds (hash_init sha1_Initialize))) = SHA1 (concat ds)
   \<and> snd (CRIPEMD160_Finalize (fold CRIPEMD160_Write ds (hash_init ripemd160_Initialize))) = RIPEMD160 (concat ds)"
  unfolding CSHA256_Finalize_def CSHA1_Finalize_def CRIPEMD160_Finalize_def SHA256_def SHA1_def RIPEMD160_def
  by (intro conjI sha256.streaming sha1.streaming ripemd160.streaming)

end
