(* ===== verification/Interpreter.thy ===== *)
theory Interpreter
  imports Script Hashing
begin

text \<open>
  The script interpreter of \<open>src/script/interpreter.cpp\<close>: signature and push encodings,
  \<open>FindAndDelete\<close>, the condition stack, every opcode of \<open>EvalScript\<close> and \<open>VerifyScript\<close>. The
  signature hash and the transaction signature checker are in \<open>SignatureHash\<close>. ECDSA itself (\<open>CPubKey::Verify\<close>,
  \<open>CPubKey::CheckLowS\<close>, which call libsecp256k1) is a parameter.
\<close>

section \<open>Errors and flags\<close>

datatype ScriptError =
    SCRIPT_ERR_OK | SCRIPT_ERR_UNKNOWN_ERROR | SCRIPT_ERR_EVAL_FALSE | SCRIPT_ERR_OP_RETURN
  | SCRIPT_ERR_SCRIPT_SIZE | SCRIPT_ERR_PUSH_SIZE | SCRIPT_ERR_OP_COUNT | SCRIPT_ERR_STACK_SIZE
  | SCRIPT_ERR_SIG_COUNT | SCRIPT_ERR_PUBKEY_COUNT
  | SCRIPT_ERR_VERIFY | SCRIPT_ERR_EQUALVERIFY | SCRIPT_ERR_CHECKMULTISIGVERIFY
  | SCRIPT_ERR_CHECKSIGVERIFY | SCRIPT_ERR_CHECKDATASIGVERIFY | SCRIPT_ERR_NUMEQUALVERIFY
  | SCRIPT_ERR_BAD_OPCODE | SCRIPT_ERR_DISABLED_OPCODE | SCRIPT_ERR_INVALID_STACK_OPERATION
  | SCRIPT_ERR_INVALID_ALTSTACK_OPERATION | SCRIPT_ERR_UNBALANCED_CONDITIONAL
  | SCRIPT_ERR_INVALID_SPLIT_RANGE | SCRIPT_ERR_INVALID_OPERAND_SIZE
  | SCRIPT_ERR_INVALID_NUMBER_RANGE | SCRIPT_ERR_IMPOSSIBLE_ENCODING
  | SCRIPT_ERR_DIV_BY_ZERO | SCRIPT_ERR_MOD_BY_ZERO
  | SCRIPT_ERR_NEGATIVE_LOCKTIME | SCRIPT_ERR_UNSATISFIED_LOCKTIME
  | SCRIPT_ERR_SIG_HASHTYPE | SCRIPT_ERR_SIG_DER | SCRIPT_ERR_MINIMALDATA | SCRIPT_ERR_SIG_PUSHONLY
  | SCRIPT_ERR_SIG_HIGH_S | SCRIPT_ERR_SIG_NULLDUMMY | SCRIPT_ERR_PUBKEYTYPE | SCRIPT_ERR_CLEANSTACK
  | SCRIPT_ERR_SIG_NULLFAIL | SCRIPT_ERR_DISCOURAGE_UPGRADABLE_NOPS
  | SCRIPT_ERR_OP_CODESEPARATOR | SCRIPT_ERR_SIG_FINDANDDELETE

text \<open>
  How evaluation stops early: \<open>set_error\<close> with a code, a C++ exception (caught by \<open>EvalScript\<close>),
  or a failed \<open>assert\<close>, which aborts the process.
\<close>

datatype eval_stop = ScriptFail ScriptError | Thrown string | AssertFail string

type_synonym 'a ev = "eval_stop + 'a"

abbreviation set_error :: "ScriptError \<Rightarrow> 'a ev" where
  "set_error e \<equiv> Inl (ScriptFail e)"

type_synonym script_flags = u32

definition SCRIPT_VERIFY_P2SH :: script_flags where "SCRIPT_VERIFY_P2SH = push_bit 0 1"
definition SCRIPT_VERIFY_STRICTENC :: script_flags where "SCRIPT_VERIFY_STRICTENC = push_bit 1 1"
definition SCRIPT_VERIFY_DERSIG :: script_flags where "SCRIPT_VERIFY_DERSIG = push_bit 2 1"
definition SCRIPT_VERIFY_LOW_S :: script_flags where "SCRIPT_VERIFY_LOW_S = push_bit 3 1"
definition SCRIPT_VERIFY_NULLDUMMY :: script_flags where "SCRIPT_VERIFY_NULLDUMMY = push_bit 4 1"
definition SCRIPT_VERIFY_SIGPUSHONLY :: script_flags where "SCRIPT_VERIFY_SIGPUSHONLY = push_bit 5 1"
definition SCRIPT_VERIFY_MINIMALDATA :: script_flags where "SCRIPT_VERIFY_MINIMALDATA = push_bit 6 1"
definition SCRIPT_VERIFY_DISCOURAGE_UPGRADABLE_NOPS :: script_flags where
  "SCRIPT_VERIFY_DISCOURAGE_UPGRADABLE_NOPS = push_bit 7 1"
definition SCRIPT_VERIFY_CLEANSTACK :: script_flags where "SCRIPT_VERIFY_CLEANSTACK = push_bit 8 1"
definition SCRIPT_VERIFY_CHECKLOCKTIMEVERIFY :: script_flags where
  "SCRIPT_VERIFY_CHECKLOCKTIMEVERIFY = push_bit 9 1"
definition SCRIPT_VERIFY_CHECKSEQUENCEVERIFY :: script_flags where
  "SCRIPT_VERIFY_CHECKSEQUENCEVERIFY = push_bit 10 1"
definition SCRIPT_VERIFY_NULLFAIL :: script_flags where "SCRIPT_VERIFY_NULLFAIL = push_bit 14 1"
definition SCRIPT_VERIFY_CONST_SCRIPTCODE :: script_flags where
  "SCRIPT_VERIFY_CONST_SCRIPTCODE = push_bit 16 1"

definition flag :: "script_flags \<Rightarrow> script_flags \<Rightarrow> bool" where
  "flag flags f \<longleftrightarrow> flags AND f \<noteq> 0"

section \<open>Interfaces\<close>

text \<open>
  \<open>BaseSignatureChecker\<close>: the virtual functions \<open>CheckSig\<close>, \<open>CheckLockTime\<close>, \<open>CheckSequence\<close>.
  \<open>SigVersion\<close> has the single value \<open>BASE\<close>, so it is not passed around. A failed \<open>assert\<close> inside one of
  them is an error value.
\<close>

record signature_checker =
  CheckSig :: "bytes \<Rightarrow> bytes \<Rightarrow> CScript \<Rightarrow> bool res"
  CheckLockTime :: "int \<Rightarrow> bool res"
  CheckSequence :: "int \<Rightarrow> bool res"

definition BaseSignatureChecker :: signature_checker where
  "BaseSignatureChecker =
     \<lparr>CheckSig = (\<lambda>_ _ _. Inr False), CheckLockTime = (\<lambda>_. Inr False), CheckSequence = (\<lambda>_. Inr False)\<rparr>"

text \<open>The operations of libsecp256k1 behind \<open>CPubKey\<close>: public key, message hash, signature.\<close>

record ecdsa =
  pubkey_verify :: "bytes \<Rightarrow> uint256 \<Rightarrow> bytes \<Rightarrow> bool"
  CheckLowS :: "bytes \<Rightarrow> bool"

section \<open>Encodings\<close>

function CastToBool_loop :: "bytes \<Rightarrow> nat \<Rightarrow> bool" where
  "CastToBool_loop v i =
     (if i < length v then
        if v ! i \<noteq> 0 then \<not> (i = length v - 1 \<and> v ! i = 0x80)
        else CastToBool_loop v (Suc i)
      else False)"
  by pat_completeness auto
termination
  by (relation "measure (\<lambda>(v, i). length v - i)") auto

definition CastToBool :: "bytes \<Rightarrow> bool" where
  "CastToBool v = CastToBool_loop v 0"

definition IsCompressedOrUncompressedPubKey :: "bytes \<Rightarrow> bool" where
  "IsCompressedOrUncompressedPubKey k =
     (if length k < 33 then False
      else if k ! 0 = 0x04 then length k = 65
      else if k ! 0 = 0x02 \<or> k ! 0 = 0x03 then length k = 33
      else False)"

definition IsValidSignatureEncoding :: "bytes \<Rightarrow> bool" where
  "IsValidSignatureEncoding sig =
     (if length sig < 9 then False
      else if length sig > 73 then False
      else if sig ! 0 \<noteq> 0x30 then False
      else if unat (sig ! 1) \<noteq> length sig - 3 then False
      else
        let lenR = unat (sig ! 3) in
        if 5 + lenR \<ge> length sig then False
        else
          let lenS = unat (sig ! (5 + lenR)) in
          if lenR + lenS + 7 \<noteq> length sig then False
          else if sig ! 2 \<noteq> 0x02 then False
          else if lenR = 0 then False
          else if sig ! 4 AND 0x80 \<noteq> 0 then False
          else if lenR > 1 \<and> sig ! 4 = 0x00 \<and> \<not> (sig ! 5 AND 0x80 \<noteq> 0) then False
          else if sig ! (lenR + 4) \<noteq> 0x02 then False
          else if lenS = 0 then False
          else if sig ! (lenR + 6) AND 0x80 \<noteq> 0 then False
          else if lenS > 1 \<and> sig ! (lenR + 6) = 0x00 \<and> \<not> (sig ! (lenR + 7) AND 0x80 \<noteq> 0) then False
          else True)"

definition SIGHASH_ALL :: byte where "SIGHASH_ALL = 1"
definition SIGHASH_NONE :: byte where "SIGHASH_NONE = 2"
definition SIGHASH_SINGLE :: byte where "SIGHASH_SINGLE = 3"
definition SIGHASH_ANYONECANPAY :: byte where "SIGHASH_ANYONECANPAY = 0x80"

definition IsDefinedHashtypeSignature :: "bytes \<Rightarrow> bool" where
  "IsDefinedHashtypeSignature sig =
     (if sig = [] then False
      else
        let nHashType = last sig AND NOT SIGHASH_ANYONECANPAY in
        if nHashType < SIGHASH_ALL \<or> nHashType > SIGHASH_SINGLE then False else True)"

definition IsLowDERSignature :: "ecdsa \<Rightarrow> bytes \<Rightarrow> unit ev" where
  "IsLowDERSignature ec sig =
     (if \<not> IsValidSignatureEncoding sig then set_error SCRIPT_ERR_SIG_DER
      else if \<not> CheckLowS ec (butlast sig) then set_error SCRIPT_ERR_SIG_HIGH_S
      else Inr ())"

definition CheckSignatureEncoding :: "ecdsa \<Rightarrow> bytes \<Rightarrow> script_flags \<Rightarrow> unit ev" where
  "CheckSignatureEncoding ec sig flags =
     (if sig = [] then Inr ()
      else if flag flags (SCRIPT_VERIFY_DERSIG OR SCRIPT_VERIFY_LOW_S OR SCRIPT_VERIFY_STRICTENC)
          \<and> \<not> IsValidSignatureEncoding sig then set_error SCRIPT_ERR_SIG_DER
      else
        res_bind (if flag flags SCRIPT_VERIFY_LOW_S then IsLowDERSignature ec sig else Inr ()) (\<lambda>_.
          if flag flags SCRIPT_VERIFY_STRICTENC \<and> \<not> IsDefinedHashtypeSignature sig
          then set_error SCRIPT_ERR_SIG_HASHTYPE else Inr ()))"

definition CheckPubKeyEncoding :: "bytes \<Rightarrow> script_flags \<Rightarrow> unit ev" where
  "CheckPubKeyEncoding k flags =
     (if flag flags SCRIPT_VERIFY_STRICTENC \<and> \<not> IsCompressedOrUncompressedPubKey k
      then set_error SCRIPT_ERR_PUBKEYTYPE else Inr ())"

definition CheckMinimalPush :: "bytes \<Rightarrow> opcodetype \<Rightarrow> bool res" where
  "CheckMinimalPush data opcode =
     (if \<not> (0 \<le> opcode \<and> opcode \<le> OP_PUSHDATA4) then Inl ''assert(0 <= opcode && opcode <= OP_PUSHDATA4)''
      else if length data = 0 then Inr (opcode = OP_0)
      else if length data = 1 \<and> data ! 0 \<ge> 1 \<and> data ! 0 \<le> 16 then Inr False
      else if length data = 1 \<and> data ! 0 = 0x81 then Inr False
      else if length data \<le> 75 then Inr (unat opcode = length data)
      else if length data \<le> 255 then Inr (opcode = OP_PUSHDATA1)
      else if length data \<le> 65535 then Inr (opcode = OP_PUSHDATA2)
      else Inr True)"

section \<open>FindAndDelete\<close>

text \<open>The inner loop skips every copy of \<open>b\<close> at the iterator.\<close>

function FindAndDelete_skip :: "bytes \<Rightarrow> bytes \<Rightarrow> nat \<Rightarrow> bytes \<times> nat" where
  "FindAndDelete_skip b pc nFound =
     (if b \<noteq> [] \<and> length pc \<ge> length b \<and> take (length b) pc = b
      then FindAndDelete_skip b (drop (length b) pc) (Suc nFound)
      else (pc, nFound))"
  by pat_completeness auto
termination
  by (relation "measure (\<lambda>(b, pc, k). length pc)") (auto intro!: diff_less)

declare FindAndDelete_skip.simps [simp del]

lemma FindAndDelete_skip_length: "length (fst (FindAndDelete_skip b pc k)) \<le> length pc"
proof (induction b pc k rule: FindAndDelete_skip.induct)
  case (1 b pc k)
  then show ?case by (subst FindAndDelete_skip.simps) auto
qed

text \<open>
  One iteration of the \<open>do ... while\<close> loop: copy the instruction read last (from \<open>pc2\<close> to
  \<open>pc\<close>), skip copies of \<open>b\<close>, read the next instruction.
\<close>

function FindAndDelete_loop :: "bytes \<Rightarrow> bytes \<Rightarrow> bytes \<Rightarrow> bytes \<Rightarrow> nat \<Rightarrow> bytes \<times> bytes \<times> nat" where
  "FindAndDelete_loop b pc2 pc result nFound =
     (let result' = result @ take (length pc2 - length pc) pc2;
          skipped = FindAndDelete_skip b pc nFound;
          op = GetScriptOp (fst skipped) in
      if fst op
      then FindAndDelete_loop b (fst skipped) (snd (snd (snd op))) result' (snd skipped)
      else (result', fst skipped, snd skipped))"
  by pat_completeness auto
termination
proof (relation "measure (\<lambda>(b, pc2, pc, r, k). length pc)", goal_cases)
  case (2 b pc2 pc result k x xa xb)
  then have "length (snd (snd (snd xb))) < length (fst xa)"
    by (intro GetScriptOp_progress [of _ "fst (snd xb)" "fst (snd (snd xb))"]) (simp add: prod_eq_iff)
  with 2 FindAndDelete_skip_length [of b pc k] show ?case by simp
qed simp

declare FindAndDelete_loop.simps [simp del]

definition FindAndDelete :: "CScript \<Rightarrow> CScript \<Rightarrow> CScript \<times> nat" where
  "FindAndDelete script b =
     (if b = [] then (script, 0)
      else
        case FindAndDelete_loop b script script [] 0 of (result, pc2, nFound) \<Rightarrow>
          if nFound > 0 then (result @ pc2, nFound) else (script, nFound))"

section \<open>Condition stack\<close>

record condition_stack =
  m_stack_size :: u32
  m_first_false_pos :: u32

definition NO_FALSE :: u32 where "NO_FALSE = - 1"

definition cs_init :: condition_stack where
  "cs_init = \<lparr>m_stack_size = 0, m_first_false_pos = NO_FALSE\<rparr>"

definition cs_empty :: "condition_stack \<Rightarrow> bool" where
  "cs_empty c \<longleftrightarrow> m_stack_size c = 0"

definition cs_all_true :: "condition_stack \<Rightarrow> bool" where
  "cs_all_true c \<longleftrightarrow> m_first_false_pos c = NO_FALSE"

definition cs_push_back :: "bool \<Rightarrow> condition_stack \<Rightarrow> condition_stack" where
  "cs_push_back f c =
     (if m_first_false_pos c = NO_FALSE \<and> \<not> f then c\<lparr>m_first_false_pos := m_stack_size c\<rparr> else c)
       \<lparr>m_stack_size := m_stack_size c + 1\<rparr>"

definition cs_pop_back :: "condition_stack \<Rightarrow> condition_stack ev" where
  "cs_pop_back c =
     (if m_stack_size c > 0 then
        let sz = m_stack_size c - 1 in
        Inr (c\<lparr>m_stack_size := sz,
               m_first_false_pos := (if m_first_false_pos c = sz then NO_FALSE else m_first_false_pos c)\<rparr>)
      else Inl (AssertFail ''m_stack_size > 0''))"

definition cs_toggle_top :: "condition_stack \<Rightarrow> condition_stack ev" where
  "cs_toggle_top c =
     (if m_stack_size c > 0 then
        Inr (if m_first_false_pos c = NO_FALSE then c\<lparr>m_first_false_pos := m_stack_size c - 1\<rparr>
             else if m_first_false_pos c = m_stack_size c - 1 then c\<lparr>m_first_false_pos := NO_FALSE\<rparr>
             else c)
      else Inl (AssertFail ''m_stack_size > 0''))"

section \<open>Evaluation state\<close>

text \<open>
  The local state of \<open>EvalScript\<close>. The stacks are listed from the top; \<open>pbegincodehash\<close> is the
  rest of the script after the last executed \<open>OP_CODESEPARATOR\<close>.
\<close>

record eval_state =
  stack :: "bytes list"
  altstack :: "bytes list"
  vfExec :: condition_stack
  nOpCount :: int
  pbegincodehash :: bytes

text \<open>What the evaluation does not change: flags, checker and ECDSA.\<close>

record eval_env =
  flags :: script_flags
  checker :: signature_checker
  ec :: ecdsa

text \<open>The environment of a call with the base class as checker.\<close>

definition base_env :: "ecdsa \<Rightarrow> script_flags \<Rightarrow> eval_env" where
  "base_env e f = \<lparr>flags = f, checker = BaseSignatureChecker, ec = e\<rparr>"

definition fRequireMinimal :: "eval_env \<Rightarrow> bool" where
  "fRequireMinimal env = flag (flags env) SCRIPT_VERIFY_MINIMALDATA"

definition vchFalse :: bytes where "vchFalse = []"
definition vchTrue :: bytes where "vchTrue = [1]"

definition bool_vch :: "bool \<Rightarrow> bytes" where
  "bool_vch b = (if b then vchTrue else vchFalse)"

definition scriptnum :: "eval_env \<Rightarrow> bytes \<Rightarrow> nat \<Rightarrow> int ev" where
  "scriptnum env v nMaxNumSize =
     (case CScriptNum v (fRequireMinimal env) nMaxNumSize of Inl e \<Rightarrow> Inl (Thrown e) | Inr x \<Rightarrow> Inr x)"

text \<open>A function that may fail an \<open>assert\<close>.\<close>

definition asserting :: "'a res \<Rightarrow> 'a ev" where
  "asserting r = (case r of Inl e \<Rightarrow> Inl (AssertFail e) | Inr x \<Rightarrow> Inr x)"

lemma asserting_simps [simp]: "asserting (Inr x) = Inr x" "asserting (Inl e) = Inl (AssertFail e)"
  by (simp_all add: asserting_def)

lemma asserting_Inr_iff: "asserting r = Inr x \<longleftrightarrow> r = Inr x"
  by (cases r) simp_all

text \<open>\<open>stacktop(-i)\<close>; \<open>vector::at\<close> throws when it is out of range.\<close>

definition stacktop :: "bytes list \<Rightarrow> nat \<Rightarrow> bytes ev" where
  "stacktop st i = (if 1 \<le> i \<and> i \<le> length st then Inr (st ! (i - 1)) else Inl (Thrown ''vector::at''))"

definition popstack :: "bytes list \<Rightarrow> bytes list ev" where
  "popstack st = (case st of [] \<Rightarrow> Inl (Thrown ''popstack(): stack empty'') | _ # st' \<Rightarrow> Inr st')"

section \<open>Opcodes: constants, control, locks\<close>

definition op_small_int :: "opcodetype \<Rightarrow> eval_state \<Rightarrow> eval_state ev" where
  "op_small_int opcode st =
     Inr (st\<lparr>stack := ScriptNum_serialize (uint opcode - (uint OP_1 - 1)) # stack st\<rparr>)"

definition op_checklocktimeverify :: "eval_env \<Rightarrow> eval_state \<Rightarrow> eval_state ev" where
  "op_checklocktimeverify env st =
     (if \<not> flag (flags env) SCRIPT_VERIFY_CHECKLOCKTIMEVERIFY then Inr st
      else
        case stack st of
          [] \<Rightarrow> set_error SCRIPT_ERR_INVALID_STACK_OPERATION
        | x # _ \<Rightarrow>
            res_bind (scriptnum env x 5) (\<lambda>n.
              if n < 0 then set_error SCRIPT_ERR_NEGATIVE_LOCKTIME
              else res_bind (asserting (CheckLockTime (checker env) n)) (\<lambda>fOk.
                if \<not> fOk then set_error SCRIPT_ERR_UNSATISFIED_LOCKTIME
                else Inr st)))"

definition op_checksequenceverify :: "eval_env \<Rightarrow> eval_state \<Rightarrow> eval_state ev" where
  "op_checksequenceverify env st =
     (if \<not> flag (flags env) SCRIPT_VERIFY_CHECKSEQUENCEVERIFY then Inr st
      else
        case stack st of
          [] \<Rightarrow> set_error SCRIPT_ERR_INVALID_STACK_OPERATION
        | x # _ \<Rightarrow>
            res_bind (scriptnum env x 5) (\<lambda>n.
              if n < 0 then set_error SCRIPT_ERR_NEGATIVE_LOCKTIME
              else if n AND uint SEQUENCE_LOCKTIME_DISABLE_FLAG \<noteq> 0 then Inr st
              else res_bind (asserting (CheckSequence (checker env) n)) (\<lambda>fOk.
                if \<not> fOk then set_error SCRIPT_ERR_UNSATISFIED_LOCKTIME
                else Inr st)))"

definition op_upgradable_nop :: "eval_env \<Rightarrow> eval_state \<Rightarrow> eval_state ev" where
  "op_upgradable_nop env st =
     (if flag (flags env) SCRIPT_VERIFY_DISCOURAGE_UPGRADABLE_NOPS
      then set_error SCRIPT_ERR_DISCOURAGE_UPGRADABLE_NOPS else Inr st)"

definition op_if :: "opcodetype \<Rightarrow> bool \<Rightarrow> eval_state \<Rightarrow> eval_state ev" where
  "op_if opcode fExec st =
     (if fExec then
        case stack st of
          [] \<Rightarrow> set_error SCRIPT_ERR_UNBALANCED_CONDITIONAL
        | x # stk \<Rightarrow>
            let fValue = (if opcode = OP_NOTIF then \<not> CastToBool x else CastToBool x) in
            Inr (st\<lparr>stack := stk, vfExec := cs_push_back fValue (vfExec st)\<rparr>)
      else Inr (st\<lparr>vfExec := cs_push_back False (vfExec st)\<rparr>))"

definition op_else :: "eval_state \<Rightarrow> eval_state ev" where
  "op_else st =
     (if cs_empty (vfExec st) then set_error SCRIPT_ERR_UNBALANCED_CONDITIONAL
      else res_bind (cs_toggle_top (vfExec st)) (\<lambda>c. Inr (st\<lparr>vfExec := c\<rparr>)))"

definition op_endif :: "eval_state \<Rightarrow> eval_state ev" where
  "op_endif st =
     (if cs_empty (vfExec st) then set_error SCRIPT_ERR_UNBALANCED_CONDITIONAL
      else res_bind (cs_pop_back (vfExec st)) (\<lambda>c. Inr (st\<lparr>vfExec := c\<rparr>)))"

definition op_verify :: "eval_state \<Rightarrow> eval_state ev" where
  "op_verify st =
     (case stack st of
        [] \<Rightarrow> set_error SCRIPT_ERR_INVALID_STACK_OPERATION
      | x # stk \<Rightarrow> if CastToBool x then Inr (st\<lparr>stack := stk\<rparr>) else set_error SCRIPT_ERR_VERIFY)"

section \<open>Opcodes: stack operations\<close>

definition op_toaltstack :: "eval_state \<Rightarrow> eval_state ev" where
  "op_toaltstack st =
     (case stack st of
        x # stk \<Rightarrow> Inr (st\<lparr>stack := stk, altstack := x # altstack st\<rparr>)
      | [] \<Rightarrow> set_error SCRIPT_ERR_INVALID_STACK_OPERATION)"

definition op_fromaltstack :: "eval_state \<Rightarrow> eval_state ev" where
  "op_fromaltstack st =
     (case altstack st of
        x # alt \<Rightarrow> Inr (st\<lparr>stack := x # stack st, altstack := alt\<rparr>)
      | [] \<Rightarrow> set_error SCRIPT_ERR_INVALID_ALTSTACK_OPERATION)"

text \<open>An operation of the main stack only; \<open>None\<close> when it has too few elements.\<close>

definition stack_op :: "(bytes list \<Rightarrow> bytes list option) \<Rightarrow> eval_state \<Rightarrow> eval_state ev" where
  "stack_op f st =
     (case f (stack st) of
        Some stk \<Rightarrow> Inr (st\<lparr>stack := stk\<rparr>)
      | None \<Rightarrow> set_error SCRIPT_ERR_INVALID_STACK_OPERATION)"

fun op_2drop :: "bytes list \<Rightarrow> bytes list option" where
  "op_2drop (x2 # x1 # st) = Some st"
| "op_2drop st = None"

fun op_2dup :: "bytes list \<Rightarrow> bytes list option" where
  "op_2dup (x2 # x1 # st) = Some (x2 # x1 # x2 # x1 # st)"
| "op_2dup st = None"

fun op_3dup :: "bytes list \<Rightarrow> bytes list option" where
  "op_3dup (x3 # x2 # x1 # st) = Some (x3 # x2 # x1 # x3 # x2 # x1 # st)"
| "op_3dup st = None"

fun op_2over :: "bytes list \<Rightarrow> bytes list option" where
  "op_2over (x4 # x3 # x2 # x1 # st) = Some (x2 # x1 # x4 # x3 # x2 # x1 # st)"
| "op_2over st = None"

fun op_2rot :: "bytes list \<Rightarrow> bytes list option" where
  "op_2rot (x6 # x5 # x4 # x3 # x2 # x1 # st) = Some (x2 # x1 # x6 # x5 # x4 # x3 # st)"
| "op_2rot st = None"

fun op_2swap :: "bytes list \<Rightarrow> bytes list option" where
  "op_2swap (x4 # x3 # x2 # x1 # st) = Some (x2 # x1 # x4 # x3 # st)"
| "op_2swap st = None"

fun op_ifdup :: "bytes list \<Rightarrow> bytes list option" where
  "op_ifdup (x # st) = Some (if CastToBool x then x # x # st else x # st)"
| "op_ifdup st = None"

definition op_depth :: "bytes list \<Rightarrow> bytes list option" where
  "op_depth st = Some (ScriptNum_serialize (int (length st)) # st)"

fun op_drop :: "bytes list \<Rightarrow> bytes list option" where
  "op_drop (x # st) = Some st"
| "op_drop st = None"

fun op_dup :: "bytes list \<Rightarrow> bytes list option" where
  "op_dup (x # st) = Some (x # x # st)"
| "op_dup st = None"

fun op_nip :: "bytes list \<Rightarrow> bytes list option" where
  "op_nip (x2 # x1 # st) = Some (x2 # st)"
| "op_nip st = None"

fun op_over :: "bytes list \<Rightarrow> bytes list option" where
  "op_over (x2 # x1 # st) = Some (x1 # x2 # x1 # st)"
| "op_over st = None"

fun op_rot :: "bytes list \<Rightarrow> bytes list option" where
  "op_rot (x3 # x2 # x1 # st) = Some (x1 # x3 # x2 # st)"
| "op_rot st = None"

fun op_swap :: "bytes list \<Rightarrow> bytes list option" where
  "op_swap (x2 # x1 # st) = Some (x1 # x2 # st)"
| "op_swap st = None"

fun op_tuck :: "bytes list \<Rightarrow> bytes list option" where
  "op_tuck (x2 # x1 # st) = Some (x2 # x1 # x2 # st)"
| "op_tuck st = None"

fun op_size :: "bytes list \<Rightarrow> bytes list option" where
  "op_size (x # st) = Some (ScriptNum_serialize (int (length x)) # x # st)"
| "op_size st = None"

text \<open>\<open>OP_PICK\<close> and \<open>OP_ROLL\<close>; the position is taken from the top of the stack first.\<close>

definition op_pick_roll :: "eval_env \<Rightarrow> opcodetype \<Rightarrow> eval_state \<Rightarrow> eval_state ev" where
  "op_pick_roll env opcode st =
     (case stack st of
        x # y # stk \<Rightarrow>
          res_bind (scriptnum env x nDefaultMaxNumSize) (\<lambda>bn.
            let k = getint bn; stk1 = y # stk in
            if k < 0 \<or> k \<ge> int (length stk1) then set_error SCRIPT_ERR_INVALID_STACK_OPERATION
            else
              let v = stk1 ! nat k;
                  stk2 = (if opcode = OP_ROLL then take (nat k) stk1 @ drop (Suc (nat k)) stk1 else stk1) in
              Inr (st\<lparr>stack := v # stk2\<rparr>))
      | _ \<Rightarrow> set_error SCRIPT_ERR_INVALID_STACK_OPERATION)"

section \<open>Opcodes: bitwise and numeric\<close>

definition op_equal :: "opcodetype \<Rightarrow> eval_state \<Rightarrow> eval_state ev" where
  "op_equal opcode st =
     (case stack st of
        x2 # x1 # stk \<Rightarrow>
          let fEqual = (x1 = x2) in
          if opcode = OP_EQUALVERIFY then
            if fEqual then Inr (st\<lparr>stack := stk\<rparr>) else set_error SCRIPT_ERR_EQUALVERIFY
          else Inr (st\<lparr>stack := bool_vch fEqual # stk\<rparr>)
      | _ \<Rightarrow> set_error SCRIPT_ERR_INVALID_STACK_OPERATION)"

definition op_bitwise :: "opcodetype \<Rightarrow> eval_state \<Rightarrow> eval_state ev" where
  "op_bitwise opcode st =
     (case stack st of
        x2 # x1 # stk \<Rightarrow>
          if length x1 \<noteq> length x2 then set_error SCRIPT_ERR_INVALID_OPERAND_SIZE
          else
            let f = (if opcode = OP_AND then (AND) else if opcode = OP_OR then (OR) else (XOR)) in
            Inr (st\<lparr>stack := map2 f x1 x2 # stk\<rparr>)
      | _ \<Rightarrow> set_error SCRIPT_ERR_INVALID_STACK_OPERATION)"

definition int_of_bool :: "bool \<Rightarrow> int" where
  "int_of_bool b = (if b then 1 else 0)"

definition unary_num :: "opcodetype \<Rightarrow> int \<Rightarrow> int ev" where
  "unary_num opcode bn =
     (if opcode = OP_1ADD then asserting (ScriptNum_add_assign bn 1)
      else if opcode = OP_1SUB then asserting (ScriptNum_sub_assign bn 1)
      else if opcode = OP_NEGATE then asserting (ScriptNum_neg bn)
      else if opcode = OP_ABS then if bn < 0 then asserting (ScriptNum_neg bn) else Inr bn
      else if opcode = OP_NOT then Inr (int_of_bool (bn = 0))
      else if opcode = OP_0NOTEQUAL then Inr (int_of_bool (bn \<noteq> 0))
      else Inl (AssertFail ''invalid opcode''))"

definition op_unary_num :: "eval_env \<Rightarrow> opcodetype \<Rightarrow> eval_state \<Rightarrow> eval_state ev" where
  "op_unary_num env opcode st =
     (case stack st of
        x # stk \<Rightarrow>
          res_bind (scriptnum env x nDefaultMaxNumSize) (\<lambda>bn.
          res_bind (unary_num opcode bn) (\<lambda>r. Inr (st\<lparr>stack := ScriptNum_serialize r # stk\<rparr>)))
      | [] \<Rightarrow> set_error SCRIPT_ERR_INVALID_STACK_OPERATION)"

text \<open>C++ division truncates towards zero.\<close>

definition cdiv :: "int \<Rightarrow> int \<Rightarrow> int" where
  "cdiv a b = sgn a * sgn b * (\<bar>a\<bar> div \<bar>b\<bar>)"

definition cmod :: "int \<Rightarrow> int \<Rightarrow> int" where
  "cmod a b = a - b * cdiv a b"

definition binary_num :: "opcodetype \<Rightarrow> int \<Rightarrow> int \<Rightarrow> int ev" where
  "binary_num opcode bn1 bn2 =
     (if opcode = OP_ADD then Inr (bn1 + bn2)
      else if opcode = OP_SUB then Inr (bn1 - bn2)
      else if opcode = OP_DIV then if bn2 = 0 then set_error SCRIPT_ERR_DIV_BY_ZERO else Inr (cdiv bn1 bn2)
      else if opcode = OP_MOD then if bn2 = 0 then set_error SCRIPT_ERR_MOD_BY_ZERO else Inr (cmod bn1 bn2)
      else if opcode = OP_BOOLAND then Inr (int_of_bool (bn1 \<noteq> 0 \<and> bn2 \<noteq> 0))
      else if opcode = OP_BOOLOR then Inr (int_of_bool (bn1 \<noteq> 0 \<or> bn2 \<noteq> 0))
      else if opcode = OP_NUMEQUAL \<or> opcode = OP_NUMEQUALVERIFY then Inr (int_of_bool (bn1 = bn2))
      else if opcode = OP_NUMNOTEQUAL then Inr (int_of_bool (bn1 \<noteq> bn2))
      else if opcode = OP_LESSTHAN then Inr (int_of_bool (bn1 < bn2))
      else if opcode = OP_GREATERTHAN then Inr (int_of_bool (bn1 > bn2))
      else if opcode = OP_LESSTHANOREQUAL then Inr (int_of_bool (bn1 \<le> bn2))
      else if opcode = OP_GREATERTHANOREQUAL then Inr (int_of_bool (bn1 \<ge> bn2))
      else if opcode = OP_MIN then Inr (if bn1 < bn2 then bn1 else bn2)
      else if opcode = OP_MAX then Inr (if bn1 > bn2 then bn1 else bn2)
      else Inl (AssertFail ''invalid opcode''))"

definition op_binary_num :: "eval_env \<Rightarrow> opcodetype \<Rightarrow> eval_state \<Rightarrow> eval_state ev" where
  "op_binary_num env opcode st =
     (case stack st of
        x2 # x1 # stk \<Rightarrow>
          res_bind (scriptnum env x1 nDefaultMaxNumSize) (\<lambda>bn1.
          res_bind (scriptnum env x2 nDefaultMaxNumSize) (\<lambda>bn2.
          res_bind (binary_num opcode bn1 bn2) (\<lambda>bn.
            let v = ScriptNum_serialize bn in
            if opcode = OP_NUMEQUALVERIFY then
              if CastToBool v then Inr (st\<lparr>stack := stk\<rparr>) else set_error SCRIPT_ERR_NUMEQUALVERIFY
            else Inr (st\<lparr>stack := v # stk\<rparr>))))
      | _ \<Rightarrow> set_error SCRIPT_ERR_INVALID_STACK_OPERATION)"

definition op_within :: "eval_env \<Rightarrow> eval_state \<Rightarrow> eval_state ev" where
  "op_within env st =
     (case stack st of
        x3 # x2 # x1 # stk \<Rightarrow>
          res_bind (scriptnum env x1 nDefaultMaxNumSize) (\<lambda>bn1.
          res_bind (scriptnum env x2 nDefaultMaxNumSize) (\<lambda>bn2.
          res_bind (scriptnum env x3 nDefaultMaxNumSize) (\<lambda>bn3.
            Inr (st\<lparr>stack := bool_vch (bn2 \<le> bn1 \<and> bn1 < bn3) # stk\<rparr>))))
      | _ \<Rightarrow> set_error SCRIPT_ERR_INVALID_STACK_OPERATION)"

section \<open>Opcodes: hashes and signatures\<close>

definition op_hash_value :: "opcodetype \<Rightarrow> bytes \<Rightarrow> bytes" where
  "op_hash_value opcode x =
     (if opcode = OP_RIPEMD160 then RIPEMD160 x
      else if opcode = OP_SHA1 then SHA1 x
      else if opcode = OP_SHA256 then SHA256 x
      else if opcode = OP_HASH160 then Hash160 x
      else Hash256 x)"

definition op_hash_top :: "opcodetype \<Rightarrow> eval_state \<Rightarrow> eval_state ev" where
  "op_hash_top opcode st =
     (case stack st of
        x # stk \<Rightarrow> Inr (st\<lparr>stack := op_hash_value opcode x # stk\<rparr>)
      | [] \<Rightarrow> set_error SCRIPT_ERR_INVALID_STACK_OPERATION)"

definition EvalChecksig :: "eval_env \<Rightarrow> bytes \<Rightarrow> bytes \<Rightarrow> bytes \<Rightarrow> bool ev" where
  "EvalChecksig env vchSig vchPubKey code =
     (case FindAndDelete code (push_data vchSig) of (scriptCode, found) \<Rightarrow>
        if found > 0 \<and> flag (flags env) SCRIPT_VERIFY_CONST_SCRIPTCODE
        then set_error SCRIPT_ERR_SIG_FINDANDDELETE
        else
          res_bind (CheckSignatureEncoding (ec env) vchSig (flags env)) (\<lambda>_.
          res_bind (CheckPubKeyEncoding vchPubKey (flags env)) (\<lambda>_.
          res_bind (asserting (CheckSig (checker env) vchSig vchPubKey scriptCode)) (\<lambda>fSuccess.
            if \<not> fSuccess \<and> flag (flags env) SCRIPT_VERIFY_NULLFAIL \<and> vchSig \<noteq> []
            then set_error SCRIPT_ERR_SIG_NULLFAIL else Inr fSuccess))))"

definition op_checksig :: "eval_env \<Rightarrow> opcodetype \<Rightarrow> eval_state \<Rightarrow> eval_state ev" where
  "op_checksig env opcode st =
     (case stack st of
        vchPubKey # vchSig # stk \<Rightarrow>
          res_bind (EvalChecksig env vchSig vchPubKey (pbegincodehash st)) (\<lambda>fSuccess.
            if opcode = OP_CHECKSIGVERIFY then
              if fSuccess then Inr (st\<lparr>stack := stk\<rparr>) else set_error SCRIPT_ERR_CHECKSIGVERIFY
            else Inr (st\<lparr>stack := bool_vch fSuccess # stk\<rparr>))
      | _ \<Rightarrow> set_error SCRIPT_ERR_INVALID_STACK_OPERATION)"

text \<open>\<open>CPubKey\<close>: the constructor keeps the bytes when their number fits the header byte.\<close>

definition CPubKey_GetLen :: "byte \<Rightarrow> nat" where
  "CPubKey_GetLen chHeader =
     (if chHeader = 2 \<or> chHeader = 3 then 33
      else if chHeader = 4 \<or> chHeader = 6 \<or> chHeader = 7 then 65 else 0)"

definition CPubKey_IsValid :: "bytes \<Rightarrow> bool" where
  "CPubKey_IsValid k \<longleftrightarrow> k \<noteq> [] \<and> length k = CPubKey_GetLen (hd k)"

definition CPubKey_Verify :: "ecdsa \<Rightarrow> bytes \<Rightarrow> uint256 \<Rightarrow> bytes \<Rightarrow> bool" where
  "CPubKey_Verify e k h sig = (if \<not> CPubKey_IsValid k then False else pubkey_verify e k h sig)"

definition op_checkdatasig :: "eval_env \<Rightarrow> opcodetype \<Rightarrow> eval_state \<Rightarrow> eval_state ev" where
  "op_checkdatasig env opcode st =
     (case stack st of
        vchPubKey # vchMessage # vchSig # stk \<Rightarrow>
          res_bind (CheckSignatureEncoding (ec env) vchSig (flags env)) (\<lambda>_.
          res_bind (CheckPubKeyEncoding vchPubKey (flags env)) (\<lambda>_.
            let fSuccess = (if vchSig \<noteq> [] then
                  CPubKey_Verify (ec env) vchPubKey (word_of_le (SHA256 vchMessage)) vchSig else False) in
            if \<not> fSuccess \<and> flag (flags env) SCRIPT_VERIFY_NULLFAIL \<and> vchSig \<noteq> []
            then set_error SCRIPT_ERR_SIG_NULLFAIL
            else if opcode = OP_CHECKDATASIGVERIFY then
              if fSuccess then Inr (st\<lparr>stack := stk\<rparr>) else set_error SCRIPT_ERR_CHECKDATASIGVERIFY
            else Inr (st\<lparr>stack := bool_vch fSuccess # stk\<rparr>)))
      | _ \<Rightarrow> set_error SCRIPT_ERR_INVALID_STACK_OPERATION)"

subsection \<open>CHECKMULTISIG\<close>

text \<open>Stack positions count from the top, starting with 1, as in \<open>stacktop(-i)\<close>.\<close>

fun multisig_scriptCode :: "eval_env \<Rightarrow> bytes list \<Rightarrow> nat \<Rightarrow> nat \<Rightarrow> CScript \<Rightarrow> CScript ev" where
  "multisig_scriptCode env stk pos 0 scriptCode = Inr scriptCode"
| "multisig_scriptCode env stk pos (Suc k) scriptCode =
     res_bind (stacktop stk pos) (\<lambda>vchSig.
       case FindAndDelete scriptCode (push_data vchSig) of (scriptCode', found) \<Rightarrow>
         if found > 0 \<and> flag (flags env) SCRIPT_VERIFY_CONST_SCRIPTCODE
         then set_error SCRIPT_ERR_SIG_FINDANDDELETE
         else multisig_scriptCode env stk (Suc pos) k scriptCode')"

text \<open>The matching loop; \<open>fSuccess\<close> is an argument, and a false value ends it.\<close>

function multisig_match :: "eval_env \<Rightarrow> bytes list \<Rightarrow> CScript \<Rightarrow> nat \<Rightarrow> nat \<Rightarrow> int \<Rightarrow> int \<Rightarrow> bool \<Rightarrow> bool ev" where
  "multisig_match env stk scriptCode isig ikey nSigsCount nKeysCount fSuccess =
     (if fSuccess \<and> nSigsCount > 0 then
        res_bind (stacktop stk isig) (\<lambda>vchSig.
        res_bind (stacktop stk ikey) (\<lambda>vchPubKey.
        res_bind (CheckSignatureEncoding (ec env) vchSig (flags env)) (\<lambda>_.
        res_bind (CheckPubKeyEncoding vchPubKey (flags env)) (\<lambda>_.
        res_bind (asserting (CheckSig (checker env) vchSig vchPubKey scriptCode)) (\<lambda>fOk.
          let isig' = (if fOk then Suc isig else isig);
              nSigs' = (if fOk then nSigsCount - 1 else nSigsCount);
              nKeys' = nKeysCount - 1 in
          multisig_match env stk scriptCode isig' (Suc ikey) nSigs' nKeys' (\<not> nSigs' > nKeys'))))))
      else Inr fSuccess)"
  by pat_completeness auto
termination
  by (relation "measure (\<lambda>(env, stk, code, isig, ikey, nSigs, nKeys, ok). if ok then Suc (nat (nKeys + 1)) else 0)")
    (auto split: if_splits)

declare multisig_match.simps [simp del]

text \<open>\<open>while (i-- > 1)\<close>: remove the arguments, checking the signatures of a failed match.\<close>

fun multisig_cleanup :: "eval_env \<Rightarrow> bool \<Rightarrow> nat \<Rightarrow> nat \<Rightarrow> bytes list \<Rightarrow> bytes list ev" where
  "multisig_cleanup env fSuccess ikey2 0 stk = Inr stk"
| "multisig_cleanup env fSuccess ikey2 (Suc k) stk =
     res_bind (if \<not> fSuccess \<and> flag (flags env) SCRIPT_VERIFY_NULLFAIL \<and> ikey2 = 0
               then res_bind (stacktop stk 1) (\<lambda>x. if x \<noteq> [] then set_error SCRIPT_ERR_SIG_NULLFAIL else Inr ())
               else Inr ()) (\<lambda>_.
     res_bind (popstack stk) (\<lambda>stk'. multisig_cleanup env fSuccess (ikey2 - 1) k stk'))"

definition multisig_finish :: "eval_env \<Rightarrow> opcodetype \<Rightarrow> bool \<Rightarrow> eval_state \<Rightarrow> bytes list \<Rightarrow> eval_state ev" where
  "multisig_finish env opcode fSuccess st stk =
     (case stk of
        [] \<Rightarrow> set_error SCRIPT_ERR_INVALID_STACK_OPERATION
      | x # stk' \<Rightarrow>
          if flag (flags env) SCRIPT_VERIFY_NULLDUMMY \<and> x \<noteq> [] then set_error SCRIPT_ERR_SIG_NULLDUMMY
          else if opcode = OP_CHECKMULTISIGVERIFY then
            if fSuccess then Inr (st\<lparr>stack := stk'\<rparr>) else set_error SCRIPT_ERR_CHECKMULTISIGVERIFY
          else Inr (st\<lparr>stack := bool_vch fSuccess # stk'\<rparr>))"

definition op_checkmultisig :: "eval_env \<Rightarrow> opcodetype \<Rightarrow> eval_state \<Rightarrow> eval_state ev" where
  "op_checkmultisig env opcode st =
     (let stk = stack st in
      if length stk < 1 then set_error SCRIPT_ERR_INVALID_STACK_OPERATION
      else
        res_bind (res_bind (stacktop stk 1) (\<lambda>x. scriptnum env x nDefaultMaxNumSize)) (\<lambda>bnKeys.
        let nKeysCount = getint bnKeys in
        if nKeysCount < 0 \<or> nKeysCount > MAX_PUBKEYS_PER_MULTISIG then set_error SCRIPT_ERR_PUBKEY_COUNT
        else
          let ops = nOpCount st + nKeysCount in
          if ops > MAX_OPS_PER_SCRIPT then set_error SCRIPT_ERR_OP_COUNT
          else
            let ikey = 2; ikey2 = nat nKeysCount + 2; i1 = 2 + nat nKeysCount in
            if length stk < i1 then set_error SCRIPT_ERR_INVALID_STACK_OPERATION
            else
              res_bind (res_bind (stacktop stk i1) (\<lambda>x. scriptnum env x nDefaultMaxNumSize)) (\<lambda>bnSigs.
              let nSigsCount = getint bnSigs in
              if nSigsCount < 0 \<or> nSigsCount > nKeysCount then set_error SCRIPT_ERR_SIG_COUNT
              else
                let isig = Suc i1; i2 = Suc i1 + nat nSigsCount in
                if length stk < i2 then set_error SCRIPT_ERR_INVALID_STACK_OPERATION
                else
                  res_bind (multisig_scriptCode env stk isig (nat nSigsCount) (pbegincodehash st)) (\<lambda>scriptCode.
                  res_bind (multisig_match env stk scriptCode isig ikey nSigsCount nKeysCount True) (\<lambda>fSuccess.
                  res_bind (multisig_cleanup env fSuccess ikey2 (i2 - 1) stk) (\<lambda>stk'.
                    multisig_finish env opcode fSuccess (st\<lparr>nOpCount := ops\<rparr>) stk'))))))"

section \<open>Opcodes: splicing and conversions\<close>

definition op_cat :: "eval_state \<Rightarrow> eval_state ev" where
  "op_cat st =
     (case stack st of
        x2 # x1 # stk \<Rightarrow>
          if length x1 + length x2 > MAX_SCRIPT_ELEMENT_SIZE then set_error SCRIPT_ERR_PUSH_SIZE
          else Inr (st\<lparr>stack := (x1 @ x2) # stk\<rparr>)
      | _ \<Rightarrow> set_error SCRIPT_ERR_INVALID_STACK_OPERATION)"

definition op_split :: "eval_env \<Rightarrow> eval_state \<Rightarrow> eval_state ev" where
  "op_split env st =
     (case stack st of
        x2 # x1 # stk \<Rightarrow>
          res_bind (scriptnum env x2 nDefaultMaxNumSize) (\<lambda>bn.
            let nPosition = getint bn in
            if nPosition < 0 \<or> nat nPosition > length x1 then set_error SCRIPT_ERR_INVALID_SPLIT_RANGE
            else if nPosition = 0 then Inr (st\<lparr>stack := x1 # [] # stk\<rparr>)
            else if nat nPosition = length x1 then Inr (st\<lparr>stack := [] # x1 # stk\<rparr>)
            else Inr (st\<lparr>stack := drop (nat nPosition) x1 # take (nat nPosition) x1 # stk\<rparr>))
      | _ \<Rightarrow> set_error SCRIPT_ERR_INVALID_STACK_OPERATION)"

text \<open>\<open>size\<close> is a \<open>uint64_t\<close>: a negative operand becomes a large value and is rejected.\<close>

definition pad_number :: "bytes \<Rightarrow> nat \<Rightarrow> bytes" where
  "pad_number rawnum sz =
     (let signbit = (if rawnum \<noteq> [] then last rawnum AND 0x80 else 0x00);
          body = (if rawnum \<noteq> [] then butlast rawnum @ [last rawnum AND 0x7f] else rawnum) in
      body @ replicate (sz - 1 - length body) 0x00 @ [signbit])"

definition op_num2bin :: "eval_env \<Rightarrow> eval_state \<Rightarrow> eval_state ev" where
  "op_num2bin env st =
     (case stack st of
        x2 # x1 # stk \<Rightarrow>
          res_bind (scriptnum env x2 nDefaultMaxNumSize) (\<lambda>bn.
            let sz = unat (of_int (getint bn) :: u64) in
            if sz > MAX_SCRIPT_ELEMENT_SIZE then set_error SCRIPT_ERR_PUSH_SIZE
            else
              let rawnum = fst (MinimallyEncode x1) in
              if length rawnum > sz then set_error SCRIPT_ERR_IMPOSSIBLE_ENCODING
              else if length rawnum = sz then Inr (st\<lparr>stack := rawnum # stk\<rparr>)
              else Inr (st\<lparr>stack := pad_number rawnum sz # stk\<rparr>))
      | _ \<Rightarrow> set_error SCRIPT_ERR_INVALID_STACK_OPERATION)"

definition op_bin2num :: "eval_state \<Rightarrow> eval_state ev" where
  "op_bin2num st =
     (case stack st of
        x # stk \<Rightarrow>
          let v = fst (MinimallyEncode x) in
          if \<not> IsMinimallyEncoded v nDefaultMaxNumSize then set_error SCRIPT_ERR_INVALID_NUMBER_RANGE
          else Inr (st\<lparr>stack := v # stk\<rparr>)
      | [] \<Rightarrow> set_error SCRIPT_ERR_INVALID_STACK_OPERATION)"

section \<open>EvalScript\<close>

text \<open>The \<open>switch\<close>, in four groups of cases; \<open>None\<close> means that the opcode is in another group.\<close>

definition exec_control :: "eval_env \<Rightarrow> opcodetype \<Rightarrow> bool \<Rightarrow> bytes \<Rightarrow> eval_state \<Rightarrow> eval_state ev option" where
  "exec_control env opcode fExec pc st =
     (if opcode = OP_1NEGATE \<or> (OP_1 \<le> opcode \<and> opcode \<le> OP_16) then Some (op_small_int opcode st)
      else if opcode = OP_NOP then Some (Inr st)
      else if opcode = OP_CHECKLOCKTIMEVERIFY then Some (op_checklocktimeverify env st)
      else if opcode = OP_CHECKSEQUENCEVERIFY then Some (op_checksequenceverify env st)
      else if opcode = OP_NOP1 \<or> (OP_NOP4 \<le> opcode \<and> opcode \<le> OP_NOP10) then Some (op_upgradable_nop env st)
      else if opcode = OP_IF \<or> opcode = OP_NOTIF then Some (op_if opcode fExec st)
      else if opcode = OP_ELSE then Some (op_else st)
      else if opcode = OP_ENDIF then Some (op_endif st)
      else if opcode = OP_VERIFY then Some (op_verify st)
      else if opcode = OP_RETURN then Some (set_error SCRIPT_ERR_OP_RETURN)
      else if opcode = OP_CODESEPARATOR then Some (Inr (st\<lparr>pbegincodehash := pc\<rparr>))
      else None)"

definition exec_stack :: "eval_env \<Rightarrow> opcodetype \<Rightarrow> eval_state \<Rightarrow> eval_state ev option" where
  "exec_stack env opcode st =
     (if opcode = OP_TOALTSTACK then Some (op_toaltstack st)
      else if opcode = OP_FROMALTSTACK then Some (op_fromaltstack st)
      else if opcode = OP_2DROP then Some (stack_op op_2drop st)
      else if opcode = OP_2DUP then Some (stack_op op_2dup st)
      else if opcode = OP_3DUP then Some (stack_op op_3dup st)
      else if opcode = OP_2OVER then Some (stack_op op_2over st)
      else if opcode = OP_2ROT then Some (stack_op op_2rot st)
      else if opcode = OP_2SWAP then Some (stack_op op_2swap st)
      else if opcode = OP_IFDUP then Some (stack_op op_ifdup st)
      else if opcode = OP_DEPTH then Some (stack_op op_depth st)
      else if opcode = OP_DROP then Some (stack_op op_drop st)
      else if opcode = OP_DUP then Some (stack_op op_dup st)
      else if opcode = OP_NIP then Some (stack_op op_nip st)
      else if opcode = OP_OVER then Some (stack_op op_over st)
      else if opcode = OP_PICK \<or> opcode = OP_ROLL then Some (op_pick_roll env opcode st)
      else if opcode = OP_ROT then Some (stack_op op_rot st)
      else if opcode = OP_SWAP then Some (stack_op op_swap st)
      else if opcode = OP_TUCK then Some (stack_op op_tuck st)
      else if opcode = OP_SIZE then Some (stack_op op_size st)
      else None)"

definition exec_arith :: "eval_env \<Rightarrow> opcodetype \<Rightarrow> eval_state \<Rightarrow> eval_state ev option" where
  "exec_arith env opcode st =
     (if opcode = OP_EQUAL \<or> opcode = OP_EQUALVERIFY then Some (op_equal opcode st)
      else if opcode = OP_AND \<or> opcode = OP_OR \<or> opcode = OP_XOR then Some (op_bitwise opcode st)
      else if opcode \<in> {OP_1ADD, OP_1SUB, OP_NEGATE, OP_ABS, OP_NOT, OP_0NOTEQUAL}
        then Some (op_unary_num env opcode st)
      else if opcode \<in> {OP_ADD, OP_SUB, OP_DIV, OP_MOD, OP_BOOLAND, OP_BOOLOR, OP_NUMEQUAL, OP_NUMEQUALVERIFY,
          OP_NUMNOTEQUAL, OP_LESSTHAN, OP_GREATERTHAN, OP_LESSTHANOREQUAL, OP_GREATERTHANOREQUAL, OP_MIN, OP_MAX}
        then Some (op_binary_num env opcode st)
      else if opcode = OP_WITHIN then Some (op_within env st)
      else None)"

definition exec_crypto :: "eval_env \<Rightarrow> opcodetype \<Rightarrow> eval_state \<Rightarrow> eval_state ev option" where
  "exec_crypto env opcode st =
     (if opcode \<in> {OP_RIPEMD160, OP_SHA1, OP_SHA256, OP_HASH160, OP_HASH256} then Some (op_hash_top opcode st)
      else if opcode = OP_CHECKSIG \<or> opcode = OP_CHECKSIGVERIFY then Some (op_checksig env opcode st)
      else if opcode = OP_CHECKDATASIG \<or> opcode = OP_CHECKDATASIGVERIFY then Some (op_checkdatasig env opcode st)
      else if opcode = OP_CHECKMULTISIG \<or> opcode = OP_CHECKMULTISIGVERIFY then Some (op_checkmultisig env opcode st)
      else if opcode = OP_CAT then Some (op_cat st)
      else if opcode = OP_SPLIT then Some (op_split env st)
      else if opcode = OP_NUM2BIN then Some (op_num2bin env st)
      else if opcode = OP_BIN2NUM then Some (op_bin2num st)
      else None)"

definition exec_switch :: "eval_env \<Rightarrow> opcodetype \<Rightarrow> bool \<Rightarrow> bytes \<Rightarrow> eval_state \<Rightarrow> eval_state ev" where
  "exec_switch env opcode fExec pc st =
     (case exec_control env opcode fExec pc st of Some r \<Rightarrow> r | None \<Rightarrow>
      case exec_stack env opcode st of Some r \<Rightarrow> r | None \<Rightarrow>
      case exec_arith env opcode st of Some r \<Rightarrow> r | None \<Rightarrow>
      case exec_crypto env opcode st of Some r \<Rightarrow> r | None \<Rightarrow>
        set_error SCRIPT_ERR_BAD_OPCODE)"

definition disabled_opcode :: "opcodetype \<Rightarrow> bool" where
  "disabled_opcode opcode \<longleftrightarrow> opcode = OP_INVERT \<or> opcode = OP_2MUL \<or> opcode = OP_2DIV \<or> opcode = OP_MUL
     \<or> opcode = OP_LSHIFT \<or> opcode = OP_RSHIFT"

text \<open>The body of the loop after the instruction has been read; \<open>pc\<close> is behind it.\<close>

definition exec_instruction :: "eval_env \<Rightarrow> opcodetype \<Rightarrow> bytes \<Rightarrow> bytes \<Rightarrow> eval_state \<Rightarrow> eval_state ev" where
  "exec_instruction env opcode vchPushValue pc st =
     (let fExec = cs_all_true (vfExec st) in
      if length vchPushValue > MAX_SCRIPT_ELEMENT_SIZE then set_error SCRIPT_ERR_PUSH_SIZE
      else
        let ops = (if opcode > OP_16 then nOpCount st + 1 else nOpCount st) in
        if opcode > OP_16 \<and> ops > MAX_OPS_PER_SCRIPT then set_error SCRIPT_ERR_OP_COUNT
        else if disabled_opcode opcode then set_error SCRIPT_ERR_DISABLED_OPCODE
        else if opcode = OP_CODESEPARATOR \<and> flag (flags env) SCRIPT_VERIFY_CONST_SCRIPTCODE
          then set_error SCRIPT_ERR_OP_CODESEPARATOR
        else
          res_bind
            (if fExec \<and> opcode \<le> OP_PUSHDATA4 then
               res_bind (if fRequireMinimal env then asserting (CheckMinimalPush vchPushValue opcode) else Inr True) (\<lambda>fMinimal.
                 if \<not> fMinimal then set_error SCRIPT_ERR_MINIMALDATA
                 else Inr (st\<lparr>stack := vchPushValue # stack st, nOpCount := ops\<rparr>))
             else if fExec \<or> (OP_IF \<le> opcode \<and> opcode \<le> OP_ENDIF)
               then exec_switch env opcode fExec pc (st\<lparr>nOpCount := ops\<rparr>)
             else Inr (st\<lparr>nOpCount := ops\<rparr>))
            (\<lambda>st'. if length (stack st') + length (altstack st') > MAX_STACK_SIZE
                  then set_error SCRIPT_ERR_STACK_SIZE else Inr st'))"

function EvalScript_loop :: "eval_env \<Rightarrow> bytes \<Rightarrow> eval_state \<Rightarrow> eval_state ev" where
  "EvalScript_loop env pc st =
     (if pc = [] then Inr st
      else
        case GetScriptOp pc of (ok, opcode, vchPushValue, pc') \<Rightarrow>
          if \<not> ok then set_error SCRIPT_ERR_BAD_OPCODE
          else res_bind (exec_instruction env opcode vchPushValue pc' st) (\<lambda>st'. EvalScript_loop env pc' st'))"
  by pat_completeness auto
termination
  by (relation "measure (\<lambda>(env, pc, st). length pc)") (auto dest: GetScriptOp_progress')

declare EvalScript_loop.simps [simp del]

definition eval_init :: "CScript \<Rightarrow> bytes list \<Rightarrow> eval_state" where
  "eval_init script stk =
     \<lparr>stack = stk, altstack = [], vfExec = cs_init, nOpCount = 0, pbegincodehash = script\<rparr>"

text \<open>The \<open>catch (...)\<close> clause turns an exception into \<open>SCRIPT_ERR_UNKNOWN_ERROR\<close>.\<close>

definition EvalScript :: "eval_env \<Rightarrow> bytes list \<Rightarrow> CScript \<Rightarrow> bytes list ev" where
  "EvalScript env stk script =
     (if length script > MAX_SCRIPT_SIZE then set_error SCRIPT_ERR_SCRIPT_SIZE
      else
        case EvalScript_loop env script (eval_init script stk) of
          Inl (Thrown _) \<Rightarrow> set_error SCRIPT_ERR_UNKNOWN_ERROR
        | Inl e \<Rightarrow> Inl e
        | Inr st \<Rightarrow>
            if \<not> cs_empty (vfExec st) then set_error SCRIPT_ERR_UNBALANCED_CONDITIONAL
            else Inr (stack st))"

section \<open>VerifyScript\<close>

definition top_is_true :: "bytes list \<Rightarrow> unit ev" where
  "top_is_true stk =
     (case stk of
        [] \<Rightarrow> set_error SCRIPT_ERR_EVAL_FALSE
      | x # _ \<Rightarrow> if CastToBool x then Inr () else set_error SCRIPT_ERR_EVAL_FALSE)"

definition verify_p2sh :: "eval_env \<Rightarrow> CScript \<Rightarrow> CScript \<Rightarrow> bytes list \<Rightarrow> bytes list \<Rightarrow> bytes list ev" where
  "verify_p2sh env script_sig script_pubkey stackCopy stk =
     (if flag (flags env) SCRIPT_VERIFY_P2SH \<and> IsPayToScriptHash script_pubkey then
        if \<not> IsPushOnly script_sig then set_error SCRIPT_ERR_SIG_PUSHONLY
        else
          case stackCopy of
            [] \<Rightarrow> Inl (AssertFail ''!stack.empty()'')
          | pubKey2 # stk1 \<Rightarrow>
              res_bind (EvalScript env stk1 pubKey2) (\<lambda>stk2.
              res_bind (top_is_true stk2) (\<lambda>_. Inr stk2))
      else Inr stk)"

definition VerifyScript :: "eval_env \<Rightarrow> CScript \<Rightarrow> CScript \<Rightarrow> unit ev" where
  "VerifyScript env script_sig script_pubkey =
     (if flag (flags env) SCRIPT_VERIFY_SIGPUSHONLY \<and> \<not> IsPushOnly script_sig
      then set_error SCRIPT_ERR_SIG_PUSHONLY
      else
        res_bind (EvalScript env [] script_sig) (\<lambda>stackCopy.
        res_bind (EvalScript env stackCopy script_pubkey) (\<lambda>stk.
        res_bind (top_is_true stk) (\<lambda>_.
        res_bind (verify_p2sh env script_sig script_pubkey stackCopy stk) (\<lambda>stk'.
          if flag (flags env) SCRIPT_VERIFY_CLEANSTACK then
            if \<not> flag (flags env) SCRIPT_VERIFY_P2SH then Inl (AssertFail ''CLEANSTACK without P2SH'')
            else if length stk' \<noteq> 1 then set_error SCRIPT_ERR_CLEANSTACK
            else Inr ()
          else Inr ())))))"

lemma VerifyScript_accepts:
  "VerifyScript env script_sig script_pubkey = Inr () \<longleftrightarrow>
     (flag (flags env) SCRIPT_VERIFY_SIGPUSHONLY \<longrightarrow> IsPushOnly script_sig)
     \<and> (\<exists>c stk stk'. EvalScript env [] script_sig = Inr c \<and> EvalScript env c script_pubkey = Inr stk
          \<and> top_is_true stk = Inr () \<and> verify_p2sh env script_sig script_pubkey c stk = Inr stk'
          \<and> (flag (flags env) SCRIPT_VERIFY_CLEANSTACK \<longrightarrow>
               flag (flags env) SCRIPT_VERIFY_P2SH \<and> length stk' = 1))"
  by (auto simp: VerifyScript_def res_bind_Inr_iff split: if_splits)

end
