(* ===== verification/ScriptFlags.thy ===== *)
theory ScriptFlags
  imports Interpreter
begin

text \<open>
  Script verification flags are soft forks: for every routine of \<open>src/script/interpreter.cpp\<close> that
  reads the flags, whatever succeeds under more flags succeeds with the same result under fewer.
\<close>

section \<open>More flags accept fewer scripts\<close>

text \<open>
  \<open>env_le eA eB\<close>: the two environments differ at most in that \<open>eB\<close> sets more flags.
  \<open>soft rB rA\<close>: whenever \<open>rB\<close> succeeds, \<open>rA\<close> succeeds with the same result.
\<close>

definition env_le :: "eval_env \<Rightarrow> eval_env \<Rightarrow> bool" where
  "env_le eA eB \<longleftrightarrow> checker eA = checker eB \<and> ec eA = ec eB \<and> flags eA AND flags eB = flags eA"

definition soft :: "'a ev \<Rightarrow> 'a ev \<Rightarrow> bool" where
  "soft rB rA \<longleftrightarrow> (\<forall>x. rB = Inr x \<longrightarrow> rA = Inr x)"

named_theorems soft_intros \<open>monotonicity of evaluation in the flags\<close>

lemma flag_le: "env_le eA eB \<Longrightarrow> flag (flags eA) f \<Longrightarrow> flag (flags eB) f"
proof -
  assume le: "env_le eA eB" and f: "flag (flags eA) f"
  then have "flags eA AND f = (flags eA AND flags eB) AND f" by (simp add: env_le_def)
  also have "\<dots> = flags eA AND (flags eB AND f)" by (simp add: and.assoc)
  finally show ?thesis using f by (auto simp: flag_def)
qed

lemma env_le_same: "env_le eA eB \<Longrightarrow> checker eB = checker eA" "env_le eA eB \<Longrightarrow> ec eB = ec eA"
  by (simp_all add: env_le_def)

lemma soft_refl [soft_intros]: "soft r r"
  by (simp add: soft_def)

lemma soft_Inl [soft_intros]: "soft (Inl e) r"
  by (simp add: soft_def)

lemma soft_bind [soft_intros]:
  "soft mB mA \<Longrightarrow> (\<And>x. soft (fB x) (fA x)) \<Longrightarrow> soft (res_bind mB fB) (res_bind mA fA)"
  by (auto simp: soft_def res_bind_Inr_iff)

lemma soft_if [soft_intros]: "soft a a' \<Longrightarrow> soft b b' \<Longrightarrow> soft (if c then a else b) (if c then a' else b')"
  by simp

text \<open>A check that the flags of \<open>eB\<close> enable and those of \<open>eA\<close> may not.\<close>

lemma soft_guard:
  "(cA \<Longrightarrow> cB) \<Longrightarrow> soft rB rA \<Longrightarrow> soft (if cB then Inl e else rB) (if cA then Inl e' else rA)"
  by (auto simp: soft_def)

lemma soft_scriptnum [soft_intros]: "env_le eA eB \<Longrightarrow> soft (scriptnum eB v k) (scriptnum eA v k)"
  using flag_le [of eA eB SCRIPT_VERIFY_MINIMALDATA]
  by (auto simp: soft_def scriptnum_def CScriptNum_def fRequireMinimal_def split: if_splits sum.splits)

lemma soft_CheckSignatureEncoding [soft_intros]:
  assumes "env_le eA eB"
  shows "soft (CheckSignatureEncoding (ec eB) sig (flags eB)) (CheckSignatureEncoding (ec eA) sig (flags eA))"
proof -
  let ?low = "\<lambda>e. if flag (flags e) SCRIPT_VERIFY_LOW_S then IsLowDERSignature (ec e) sig else Inr ()"
  have "soft (?low eB) (?low eA)"
    using flag_le [OF assms, of SCRIPT_VERIFY_LOW_S] by (simp add: soft_def env_le_same [OF assms])
  then show ?thesis
    unfolding CheckSignatureEncoding_def
    using flag_le [OF assms]
    by (intro soft_if soft_guard soft_bind soft_refl) auto
qed

lemma soft_CheckPubKeyEncoding [soft_intros]:
  "env_le eA eB \<Longrightarrow> soft (CheckPubKeyEncoding k (flags eB)) (CheckPubKeyEncoding k (flags eA))"
  unfolding CheckPubKeyEncoding_def by (rule soft_guard) (auto dest: flag_le intro: soft_refl)

lemma soft_EvalChecksig [soft_intros]:
  assumes "env_le eA eB"
  shows "soft (EvalChecksig eB sig k code) (EvalChecksig eA sig k code)"
  using flag_le [OF assms]
  unfolding EvalChecksig_def env_le_same [OF assms] Let_def
  by (cases "FindAndDelete code (push_data sig)")
    (auto intro!: soft_guard soft_bind soft_refl soft_Inl soft_CheckPubKeyEncoding [OF assms]
      soft_CheckSignatureEncoding [OF assms, unfolded env_le_same [OF assms]])

lemma soft_op_checklocktimeverify [soft_intros]:
  assumes "env_le eA eB"
  shows "soft (op_checklocktimeverify eB st) (op_checklocktimeverify eA st)"
  using flag_le [OF assms, of SCRIPT_VERIFY_CHECKLOCKTIMEVERIFY] soft_scriptnum [OF assms]
  by (auto simp: soft_def op_checklocktimeverify_def res_bind_Inr_iff env_le_same [OF assms] split: list.splits if_splits)

lemma soft_op_checksequenceverify [soft_intros]:
  assumes "env_le eA eB"
  shows "soft (op_checksequenceverify eB st) (op_checksequenceverify eA st)"
  using flag_le [OF assms, of SCRIPT_VERIFY_CHECKSEQUENCEVERIFY] soft_scriptnum [OF assms]
  by (auto simp: soft_def op_checksequenceverify_def res_bind_Inr_iff env_le_same [OF assms] split: list.splits if_splits)

lemma soft_op_upgradable_nop [soft_intros]:
  "env_le eA eB \<Longrightarrow> soft (op_upgradable_nop eB st) (op_upgradable_nop eA st)"
  unfolding op_upgradable_nop_def by (rule soft_guard) (auto dest: flag_le intro: soft_refl)

text \<open>Operations that use the environment only to read numbers.\<close>

lemma soft_numeric [soft_intros]:
  assumes "env_le eA eB"
  shows "soft (op_pick_roll eB opcode st) (op_pick_roll eA opcode st)"
    and "soft (op_unary_num eB opcode st) (op_unary_num eA opcode st)"
    and "soft (op_binary_num eB opcode st) (op_binary_num eA opcode st)"
    and "soft (op_within eB st) (op_within eA st)"
    and "soft (op_split eB st) (op_split eA st)"
    and "soft (op_num2bin eB st) (op_num2bin eA st)"
  unfolding op_pick_roll_def op_unary_num_def op_binary_num_def op_within_def op_split_def op_num2bin_def
  by (auto intro!: soft_bind soft_refl soft_scriptnum [OF assms] split: list.split)

lemma soft_op_checksig [soft_intros]:
  "env_le eA eB \<Longrightarrow> soft (op_checksig eB opcode st) (op_checksig eA opcode st)"
  unfolding op_checksig_def by (auto intro!: soft_bind soft_refl soft_EvalChecksig split: list.split)

lemma soft_op_checkdatasig [soft_intros]:
  assumes "env_le eA eB"
  shows "soft (op_checkdatasig eB opcode st) (op_checkdatasig eA opcode st)"
  using flag_le [OF assms]
  unfolding op_checkdatasig_def env_le_same [OF assms] Let_def
  by (auto intro!: soft_bind soft_refl soft_Inl soft_CheckPubKeyEncoding [OF assms]
      soft_CheckSignatureEncoding [OF assms, unfolded env_le_same [OF assms]] split: list.split)

lemma soft_multisig_scriptCode:
  assumes "env_le eA eB"
  shows "soft (multisig_scriptCode eB stk pos k code) (multisig_scriptCode eA stk pos k code)"
proof (induction k arbitrary: pos code)
  case (Suc k)
  show ?case
    unfolding multisig_scriptCode.simps
    by (intro soft_bind soft_refl, simp only: case_prod_unfold, intro soft_guard Suc.IH)
      (use flag_le [OF assms] in auto)
qed (simp add: soft_refl)

lemma soft_multisig_match:
  assumes "env_le eA eB"
  shows "soft (multisig_match eB stk code isig ikey nSigs nKeys ok) (multisig_match eA stk code isig ikey nSigs nKeys ok)"
proof (induction "if ok then Suc (nat (nKeys + 1)) else 0" arbitrary: isig ikey nSigs nKeys ok rule: less_induct)
  case less
  show ?case
  proof (cases "ok \<and> nSigs > 0")
    case False
    then show ?thesis
      by (simp only: multisig_match.simps [of _ stk code isig ikey nSigs nKeys ok] if_False soft_refl)
  next
    case True
    show ?thesis
      unfolding multisig_match.simps [of _ stk code isig ikey nSigs nKeys ok] env_le_same [OF assms] Let_def
      by (intro soft_if soft_bind soft_refl soft_CheckPubKeyEncoding [OF assms] less
          soft_CheckSignatureEncoding [OF assms, unfolded env_le_same [OF assms]])
        (use True in \<open>auto split: if_splits\<close>)
  qed
qed

lemma soft_multisig_cleanup:
  assumes "env_le eA eB"
  shows "soft (multisig_cleanup eB ok ikey2 k stk) (multisig_cleanup eA ok ikey2 k stk)"
proof (induction k arbitrary: ikey2 stk)
  case (Suc k)
  have "soft (if \<not> ok \<and> flag (flags eB) f \<and> c then r else Inr ()) (if \<not> ok \<and> flag (flags eA) f \<and> c then r else Inr ())"
    for f c and r :: "unit ev"
    using flag_le [OF assms] by (auto simp: soft_def)
  then show ?case unfolding multisig_cleanup.simps by (intro soft_bind soft_refl Suc.IH)
qed (simp add: soft_refl)

lemma soft_multisig_finish:
  assumes "env_le eA eB"
  shows "soft (multisig_finish eB opcode ok st stk) (multisig_finish eA opcode ok st stk)"
  using flag_le [OF assms] unfolding multisig_finish_def
  by (auto intro!: soft_refl soft_Inl split: list.split)

lemma soft_op_checkmultisig [soft_intros]:
  assumes "env_le eA eB"
  shows "soft (op_checkmultisig eB opcode st) (op_checkmultisig eA opcode st)"
  unfolding op_checkmultisig_def Let_def
  by (intro soft_if soft_bind soft_refl soft_scriptnum [OF assms] soft_multisig_scriptCode [OF assms]
      soft_multisig_match [OF assms] soft_multisig_cleanup [OF assms] soft_multisig_finish [OF assms])

text \<open>The dispatch: the same group handles an opcode in both environments.\<close>

definition soft_option :: "'a ev option \<Rightarrow> 'a ev option \<Rightarrow> bool" where
  "soft_option rB rA \<longleftrightarrow> (case (rB, rA) of (Some b, Some a) \<Rightarrow> soft b a | (None, None) \<Rightarrow> True | _ \<Rightarrow> False)"

lemma soft_option_intros:
  "soft b a \<Longrightarrow> soft_option (Some b) (Some a)"
  "soft_option None None"
  "soft_option p q \<Longrightarrow> soft_option p' q' \<Longrightarrow> soft_option (if c then p else p') (if c then q else q')"
  by (simp_all add: soft_option_def)

lemma soft_option_case:
  "soft_option b a \<Longrightarrow> soft db da \<Longrightarrow> soft (case b of Some r \<Rightarrow> r | None \<Rightarrow> db) (case a of Some r \<Rightarrow> r | None \<Rightarrow> da)"
  by (auto simp: soft_option_def split: option.splits)

lemma soft_exec_switch:
  assumes "env_le eA eB"
  shows "soft (exec_switch eB opcode fExec pc st) (exec_switch eA opcode fExec pc st)"
proof -
  have "soft_option (exec_control eB opcode fExec pc st) (exec_control eA opcode fExec pc st)"
    unfolding exec_control_def by (intro soft_option_intros soft_intros assms)
  moreover have "soft_option (exec_stack eB opcode st) (exec_stack eA opcode st)"
    unfolding exec_stack_def by (intro soft_option_intros soft_intros assms)
  moreover have "soft_option (exec_arith eB opcode st) (exec_arith eA opcode st)"
    unfolding exec_arith_def by (intro soft_option_intros soft_intros assms)
  moreover have "soft_option (exec_crypto eB opcode st) (exec_crypto eA opcode st)"
    unfolding exec_crypto_def by (intro soft_option_intros soft_intros assms)
  ultimately show ?thesis unfolding exec_switch_def by (intro soft_option_case soft_refl)
qed

lemma soft_exec_instruction:
  assumes "env_le eA eB"
  shows "soft (exec_instruction eB opcode v pc st) (exec_instruction eA opcode v pc st)"
proof -
  have m: "fRequireMinimal eA \<Longrightarrow> fRequireMinimal eB" using flag_le [OF assms] by (simp add: fRequireMinimal_def)
  have push: "soft (res_bind (if fRequireMinimal eB then x else Inr True) (\<lambda>b. if \<not> b then set_error e else r))
      (res_bind (if fRequireMinimal eA then x else Inr True) (\<lambda>b. if \<not> b then set_error e else r))" for x e and r :: "'a ev"
    using m by (auto simp: soft_def res_bind_Inr_iff split: if_splits)
  show ?thesis
    unfolding exec_instruction_def Let_def
    using flag_le [OF assms] soft_exec_switch [OF assms]
    by (intro soft_if soft_guard push soft_bind soft_refl) auto
qed

lemma soft_EvalScript_loop:
  assumes "env_le eA eB"
  shows "soft (EvalScript_loop eB pc st) (EvalScript_loop eA pc st)"
proof (induction "length pc" arbitrary: pc st rule: less_induct)
  case less
  obtain ok opcode v pc' where op: "GetScriptOp pc = (ok, opcode, v, pc')" by (metis prod_cases4)
  show ?case
  proof (cases "pc = [] \<or> \<not> ok")
    case True
    with op show ?thesis by (auto simp: EvalScript_loop.simps [of _ pc] soft_refl)
  next
    case False
    then have lt: "length pc' < length pc" using op GetScriptOp_progress by auto
    with False op show ?thesis
      by (auto simp: EvalScript_loop.simps [of _ pc] intro!: soft_bind soft_exec_instruction [OF assms] less)
  qed
qed

lemma soft_EvalScript:
  assumes "env_le eA eB"
  shows "soft (EvalScript eB stk script) (EvalScript eA stk script)"
  using soft_EvalScript_loop [OF assms, of script "eval_init script stk"]
  by (auto simp: EvalScript_def soft_def split: sum.splits eval_stop.splits if_splits)

text \<open>
  C1: script verification flags are soft forks, as the interface documents: if \<open>VerifyScript\<close>
  accepts under a set of flags, it accepts under every subset of them (\<open>CLEANSTACK\<close> requires
  \<open>P2SH\<close>, which the code asserts).
\<close>

theorem verify_flags_soft_fork:
  assumes "env_le eA eB"
    and "flag (flags eA) SCRIPT_VERIFY_CLEANSTACK \<Longrightarrow> flag (flags eA) SCRIPT_VERIFY_P2SH"
    and "VerifyScript eB script_sig script_pubkey = Inr ()"
  shows "VerifyScript eA script_sig script_pubkey = Inr ()"
proof -
  have ev: "EvalScript eB stk sc = Inr x \<Longrightarrow> EvalScript eA stk sc = Inr x" for stk sc x
    using soft_EvalScript [OF assms(1)] by (simp add: soft_def)
  note le = flag_le [OF assms(1)]
  from assms(3) obtain c stk stk' where
    1: "EvalScript eB [] script_sig = Inr c" "EvalScript eB c script_pubkey = Inr stk" "top_is_true stk = Inr ()"
    and 2: "flag (flags eB) SCRIPT_VERIFY_SIGPUSHONLY \<longrightarrow> IsPushOnly script_sig"
    and 3: "verify_p2sh eB script_sig script_pubkey c stk = Inr stk'"
    and 4: "flag (flags eB) SCRIPT_VERIFY_CLEANSTACK \<longrightarrow> length stk' = 1"
    unfolding VerifyScript_accepts by blast
  show ?thesis
  proof (cases "flag (flags eA) SCRIPT_VERIFY_P2SH")
    case True
    then have "verify_p2sh eA script_sig script_pubkey c stk = Inr stk'"
      using 3 le [of SCRIPT_VERIFY_P2SH]
      by (auto simp: verify_p2sh_def res_bind_Inr_iff dest: ev split: if_splits list.splits)
    with 1 2 4 True le ev show ?thesis unfolding VerifyScript_accepts by blast
  next
    case False
    then have "verify_p2sh eA script_sig script_pubkey c stk = Inr stk" by (simp add: verify_p2sh_def)
    with 1 2 False assms(2) le ev show ?thesis unfolding VerifyScript_accepts by blast
  qed
qed

theorem verify_flags_soft_fork_witness:
  "(let e = \<lparr>pubkey_verify = (\<lambda>_ _ _. False), CheckLowS = (\<lambda>_. True)\<rparr> in
     env_le (base_env e 0x1) (base_env e 0x101)
     \<and> VerifyScript (base_env e 0x101) [0x51, 0x52] [0x93, 0x53, 0x87] = Inr ()
     \<and> VerifyScript (base_env e 0x1) [0x51, 0x52] [0x93, 0x53, 0x87] = Inr ())"
proof -
  let ?e = "\<lparr>pubkey_verify = (\<lambda>_ _ _. False), CheckLowS = (\<lambda>_. True)\<rparr>"
  have "env_le (base_env ?e 0x1) (base_env ?e 0x101)" by (simp add: env_le_def base_env_def)
  moreover have "VerifyScript (base_env ?e 0x101) [0x51, 0x52] [0x93, 0x53, 0x87] = Inr ()" by code_simp
  moreover have "flag (flags (base_env ?e 0x1)) SCRIPT_VERIFY_P2SH" by code_simp
  ultimately show ?thesis unfolding Let_def using verify_flags_soft_fork by blast
qed

end
