(* ===== verification/SignatureHash.thy ===== *)
theory SignatureHash
  imports Interpreter
begin

text \<open>
  The signature hash and the transaction signature checker of \<open>src/script/interpreter.cpp\<close>:
  \<open>CTransactionSignatureSerializer\<close>, \<open>SignatureHash\<close> and \<open>GenericTransactionSignatureChecker\<close>. The
  serializer, which modifies the transaction while it writes it, is compared with the older formulation
  kept in \<open>src/test/sighash_tests.cpp\<close>, which modifies a copy and serializes that.
\<close>

section \<open>The serializer\<close>

text \<open>Iterators into the script are the suffixes they point at. The first loop counts the separators.\<close>

function count_code_separators :: "bytes \<Rightarrow> u32 \<Rightarrow> u32" where
  "count_code_separators it nCodeSeparators =
     (case GetScriptOp it of (ok, opcode, data, it') \<Rightarrow>
        if ok then count_code_separators it' (if opcode = OP_CODESEPARATOR then nCodeSeparators + 1 else nCodeSeparators)
        else nCodeSeparators)"
  by pat_completeness auto
termination
  by (relation "measure (\<lambda>(it, n). length it)") (auto dest: GetScriptOp_progress')

text \<open>The second loop: the final iterators \<open>it\<close> and \<open>itBegin\<close>, and the bytes written.\<close>

function write_script_code :: "bytes \<Rightarrow> bytes \<Rightarrow> bytes \<Rightarrow> bytes \<times> bytes \<times> bytes" where
  "write_script_code it itBegin s =
     (case GetScriptOp it of (ok, opcode, data, it') \<Rightarrow>
        if ok then
          if opcode = OP_CODESEPARATOR
          then write_script_code it' it' (s @ take (length itBegin - length it' - 1) itBegin)
          else write_script_code it' itBegin s
        else (it', itBegin, s))"
  by pat_completeness auto
termination
  by (relation "measure (\<lambda>(it, b, s). length it)") (auto dest: GetScriptOp_progress')

declare count_code_separators.simps [simp del] write_script_code.simps [simp del]

definition SerializeScriptCode :: "CScript \<Rightarrow> bytes" where
  "SerializeScriptCode scriptCode =
     WriteCompactSize (ucast (of_nat (length scriptCode) - count_code_separators scriptCode 0))
     @ (case write_script_code scriptCode scriptCode [] of (it, itBegin, s) \<Rightarrow>
          s @ (if itBegin \<noteq> [] then take (length itBegin - length it) itBegin else []))"

record signature_serializer =
  ss_scriptCode :: CScript
  ss_nIn :: u32
  fAnyoneCanPay :: bool
  fHashSingle :: bool
  fHashNone :: bool

definition CTransactionSignatureSerializer :: "CScript \<Rightarrow> u32 \<Rightarrow> u32 \<Rightarrow> signature_serializer" where
  "CTransactionSignatureSerializer scriptCodeIn nInIn nHashTypeIn =
     \<lparr>ss_scriptCode = scriptCodeIn, ss_nIn = nInIn,
      fAnyoneCanPay = (nHashTypeIn AND ucast SIGHASH_ANYONECANPAY \<noteq> 0),
      fHashSingle = (nHashTypeIn AND 0x1f = ucast SIGHASH_SINGLE),
      fHashNone = (nHashTypeIn AND 0x1f = ucast SIGHASH_NONE)\<rparr>"

definition SerializeInput :: "signature_serializer \<Rightarrow> 'a mutable_transaction_scheme \<Rightarrow> nat \<Rightarrow> bytes" where
  "SerializeInput ss txTo nInput0 =
     (let nIn = unat (ss_nIn ss);
          nInput = (if fAnyoneCanPay ss then nIn else nInput0) in
      COutPoint_Ser (prevout (vin txTo ! nInput))
      @ (if nInput \<noteq> nIn then WriteBytes [] else SerializeScriptCode (ss_scriptCode ss))
      @ (if nInput \<noteq> nIn \<and> (fHashSingle ss \<or> fHashNone ss) then ser_writedata32 0
         else ser_writedata32 (nSequence (vin txTo ! nInput))))"

definition SerializeOutput :: "signature_serializer \<Rightarrow> 'a mutable_transaction_scheme \<Rightarrow> nat \<Rightarrow> bytes" where
  "SerializeOutput ss txTo nOutput =
     (if fHashSingle ss \<and> nOutput \<noteq> unat (ss_nIn ss) then CTxOut_Ser CTxOut_SetNull
      else CTxOut_Ser (vout txTo ! nOutput))"

definition SignatureSerializer_Serialize :: "signature_serializer \<Rightarrow> 'a mutable_transaction_scheme \<Rightarrow> bytes" where
  "SignatureSerializer_Serialize ss txTo =
     (let nInputs = (if fAnyoneCanPay ss then 1 else of_nat (length (vin txTo)) :: u32);
          nOutputs = (if fHashNone ss then 0 else if fHashSingle ss then ss_nIn ss + 1
                      else of_nat (length (vout txTo)) :: u32) in
      ser_writedata32 (n32bitVersion (nVersion txTo) (nType txTo))
      @ WriteCompactSize (ucast nInputs) @ concat (map (SerializeInput ss txTo) [0..<unat nInputs])
      @ WriteCompactSize (ucast nOutputs) @ concat (map (SerializeOutput ss txTo) [0..<unat nOutputs])
      @ ser_writedata32 (nLockTime txTo)
      @ (if sint (nVersion txTo) \<ge> SPECIAL_VERSION \<and> nType txTo \<noteq> TRANSACTION_NORMAL
         then WriteBytes (vExtraPayload txTo) else []))"

definition SignatureHash :: "CScript \<Rightarrow> 'a mutable_transaction_scheme \<Rightarrow> u32 \<Rightarrow> u32 \<Rightarrow> uint256 res" where
  "SignatureHash scriptCode txTo nIn nHashType =
     (if \<not> unat nIn < length (vin txTo) then Inl ''assert(nIn < txTo.vin.size())''
      else if nHashType AND 0x1f = ucast SIGHASH_SINGLE \<and> unat nIn \<ge> length (vout txTo) then Inr 1
      else
        let txTmp = CTransactionSignatureSerializer scriptCode nIn nHashType in
        Inr (word_of_le (Hash256 (SignatureSerializer_Serialize txTmp txTo @ ser_writedata32 nHashType))))"

section \<open>The transaction signature checker\<close>

text \<open>
  The operations of \<open>GenericTransactionSignatureChecker\<close> on a transaction and an input index. The
  \<open>amount\<close>, the signature version and the precomputed data are not used by the code. An index that
  is not of an input aborts (\<open>SignatureHash\<close>) or reads past the vector.
\<close>

definition VerifySignature :: "ecdsa \<Rightarrow> bytes \<Rightarrow> bytes \<Rightarrow> uint256 \<Rightarrow> bool" where
  "VerifySignature e vchSig pubkey sighash = CPubKey_Verify e pubkey sighash vchSig"

definition Generic_CheckSig ::
    "ecdsa \<Rightarrow> 'a mutable_transaction_scheme \<Rightarrow> u32 \<Rightarrow> bytes \<Rightarrow> bytes \<Rightarrow> CScript \<Rightarrow> bool res" where
  "Generic_CheckSig e txTo nIn vchSigIn vchPubKey scriptCode =
     (if \<not> CPubKey_IsValid vchPubKey then Inr False
      else if vchSigIn = [] then Inr False
      else
        let nHashType = ucast (last vchSigIn) in
        res_bind (SignatureHash scriptCode txTo nIn nHashType) (\<lambda>sighash.
          Inr (VerifySignature e (butlast vchSigIn) vchPubKey sighash)))"

definition Generic_CheckLockTime :: "'a mutable_transaction_scheme \<Rightarrow> u32 \<Rightarrow> int \<Rightarrow> bool res" where
  "Generic_CheckLockTime txTo nIn lockTime =
     (let txLock = uint (nLockTime txTo) in
      if \<not> ((txLock < LOCKTIME_THRESHOLD \<and> lockTime < LOCKTIME_THRESHOLD)
           \<or> (txLock \<ge> LOCKTIME_THRESHOLD \<and> lockTime \<ge> LOCKTIME_THRESHOLD)) then Inr False
      else if lockTime > txLock then Inr False
      else if unat nIn \<ge> length (vin txTo) then Inl ''undefined behaviour: vin[nIn]''
      else if SEQUENCE_FINAL = nSequence (vin txTo ! unat nIn) then Inr False
      else Inr True)"

definition Generic_CheckSequence :: "'a mutable_transaction_scheme \<Rightarrow> u32 \<Rightarrow> int \<Rightarrow> bool res" where
  "Generic_CheckSequence txTo nIn sequence =
     (if unat nIn \<ge> length (vin txTo) then Inl ''undefined behaviour: vin[nIn]''
      else
        let txToSequence = uint (nSequence (vin txTo ! unat nIn)) in
        if (scast (nVersion txTo) :: u32) < 2 then Inr False
        else if txToSequence AND uint SEQUENCE_LOCKTIME_DISABLE_FLAG \<noteq> 0 then Inr False
        else
          let nLockTimeMask = SEQUENCE_LOCKTIME_TYPE_FLAG OR SEQUENCE_LOCKTIME_MASK;
              txToSequenceMasked = txToSequence AND uint nLockTimeMask;
              nSequenceMasked = sequence AND uint nLockTimeMask in
          if \<not> ((txToSequenceMasked < uint SEQUENCE_LOCKTIME_TYPE_FLAG \<and> nSequenceMasked < uint SEQUENCE_LOCKTIME_TYPE_FLAG)
               \<or> (txToSequenceMasked \<ge> uint SEQUENCE_LOCKTIME_TYPE_FLAG \<and> nSequenceMasked \<ge> uint SEQUENCE_LOCKTIME_TYPE_FLAG))
          then Inr False
          else if nSequenceMasked > txToSequenceMasked then Inr False
          else Inr True)"

text \<open>The checker that the interpreter is given.\<close>

definition TransactionSignatureChecker :: "ecdsa \<Rightarrow> 'a mutable_transaction_scheme \<Rightarrow> u32 \<Rightarrow> signature_checker" where
  "TransactionSignatureChecker e txTo nIn =
     \<lparr>CheckSig = Generic_CheckSig e txTo nIn, CheckLockTime = Generic_CheckLockTime txTo nIn,
      CheckSequence = Generic_CheckSequence txTo nIn\<rparr>"

lemma checker_in_range:
  assumes "unat nIn < length (vin txTo)"
  shows "\<exists>b. Generic_CheckSig e txTo nIn sig k code = Inr b" "\<exists>b. Generic_CheckLockTime txTo nIn n = Inr b"
    "\<exists>b. Generic_CheckSequence txTo nIn n = Inr b"
  using assms by (auto simp: Generic_CheckSig_def SignatureHash_def Generic_CheckLockTime_def Generic_CheckSequence_def Let_def)

section \<open>The reference formulation\<close>

definition update_others :: "nat \<Rightarrow> ('a \<Rightarrow> 'a) \<Rightarrow> 'a list \<Rightarrow> 'a list" where
  "update_others n f xs = map (\<lambda>k. if k \<noteq> n then f (xs ! k) else xs ! k) [0..<length xs]"

definition hash_none :: "u32 \<Rightarrow> bool" where
  "hash_none nHashType \<longleftrightarrow> nHashType AND 0x1f = ucast SIGHASH_NONE"

definition hash_single :: "u32 \<Rightarrow> bool" where
  "hash_single nHashType \<longleftrightarrow> nHashType AND 0x1f = ucast SIGHASH_SINGLE"

definition hash_anyone :: "u32 \<Rightarrow> bool" where
  "hash_anyone nHashType \<longleftrightarrow> nHashType AND ucast SIGHASH_ANYONECANPAY \<noteq> 0"

definition old_inputs :: "CScript \<Rightarrow> 'a mutable_transaction_scheme \<Rightarrow> nat \<Rightarrow> u32 \<Rightarrow> ctxin list" where
  "old_inputs code txTo nIn nHashType =
     (let code' = fst (FindAndDelete code [OP_CODESEPARATOR]);
          ins = map (\<lambda>i. i\<lparr>scriptSig := []\<rparr>) (vin txTo);
          ins = ins[nIn := (ins ! nIn)\<lparr>scriptSig := code'\<rparr>];
          ins = (if hash_none nHashType \<or> hash_single nHashType
                 then update_others nIn (\<lambda>i. i\<lparr>nSequence := 0\<rparr>) ins else ins) in
      if hash_anyone nHashType then [ins ! nIn] else ins)"

definition old_outputs :: "'a mutable_transaction_scheme \<Rightarrow> nat \<Rightarrow> u32 \<Rightarrow> ctxout list" where
  "old_outputs txTo nIn nHashType =
     (if hash_none nHashType then []
      else if hash_single nHashType then replicate nIn CTxOut_SetNull @ [vout txTo ! nIn]
      else vout txTo)"

definition SignatureHashOld_tx ::
    "CScript \<Rightarrow> 'a mutable_transaction_scheme \<Rightarrow> nat \<Rightarrow> u32 \<Rightarrow> 'a mutable_transaction_scheme" where
  "SignatureHashOld_tx code txTo nIn nHashType =
     txTo\<lparr>vin := old_inputs code txTo nIn nHashType, vout := old_outputs txTo nIn nHashType\<rparr>"

definition SignatureHashOld :: "CScript \<Rightarrow> 'a mutable_transaction_scheme \<Rightarrow> u32 \<Rightarrow> u32 \<Rightarrow> uint256" where
  "SignatureHashOld code txTo nIn nHashType =
     (if unat nIn \<ge> length (vin txTo) then 1
      else if hash_single nHashType \<and> unat nIn \<ge> length (vout txTo) then 1
      else word_of_le (Hash256 (CTransaction_Serialize (SignatureHashOld_tx code txTo (unat nIn) nHashType)
             @ ser_writedata32 nHashType)))"

section \<open>Code separators\<close>

text \<open>
  What both formulations make of the script code: the instructions except \<open>OP_CODESEPARATOR\<close>, then
  whatever does not decode. \<open>script_ok\<close> says that the whole script decodes.
\<close>

function strip_code_separators :: "bytes \<Rightarrow> bytes" where
  "strip_code_separators pc =
     (case GetScriptOp pc of (ok, opcode, data, pc') \<Rightarrow>
        if ok then (if opcode = OP_CODESEPARATOR then [] else take (length pc - length pc') pc) @ strip_code_separators pc'
        else pc)"
  by pat_completeness auto
termination
  by (relation "measure length") (auto dest: GetScriptOp_progress')

function script_ok :: "bytes \<Rightarrow> bool" where
  "script_ok pc = (case GetScriptOp pc of (ok, opcode, data, pc') \<Rightarrow> if ok then script_ok pc' else pc = [])"
  by pat_completeness auto
termination
  by (relation "measure length") (auto dest: GetScriptOp_progress')

declare strip_code_separators.simps [simp del] script_ok.simps [simp del]

lemma push_size_suffix: "push_size opcode pc = Some (k, pc') \<Longrightarrow> \<exists>h. pc = h @ pc'"
  by (auto simp: push_size_def split: if_splits intro: append_take_drop_id [symmetric] exI [of _ "[]"])

lemma GetScriptOp_suffix:
  assumes "GetScriptOp pc = (True, opcode, data, pc')"
  shows "pc = take (length pc - length pc') pc @ pc'" "opcode = hd pc" "pc \<noteq> []"
proof -
  have "\<exists>h. pc = h @ pc'"
  proof (cases pc)
    case (Cons x pc1)
    show ?thesis
    proof (cases "x \<le> OP_PUSHDATA4")
      case True
      then obtain k pc2 where ps: "push_size x pc1 = Some (k, pc2)" and pc': "pc' = drop (unat k) pc2"
        using assms Cons by (auto simp: GetScriptOp_def split: option.splits if_splits)
      obtain h where "pc1 = h @ pc2" using push_size_suffix [OF ps] by blast
      then have "pc = (x # h @ take (unat k) pc2) @ pc'" using Cons pc' by simp
      then show ?thesis by blast
    qed (use assms Cons in \<open>auto simp: GetScriptOp_def\<close>)
  qed (use assms in \<open>simp add: GetScriptOp_def\<close>)
  then show "pc = take (length pc - length pc') pc @ pc'" by auto
  show "opcode = hd pc" "pc \<noteq> []"
    using assms by (auto simp: GetScriptOp_def split: list.splits option.splits if_splits)
qed

lemma GetScriptOp_codesep [simp]: "GetScriptOp (OP_CODESEPARATOR # pc) = (True, OP_CODESEPARATOR, [], pc)"
  by (simp add: GetScriptOp_def)

lemma GetScriptOp_Nil [simp]: "GetScriptOp [] = (False, OP_INVALIDOPCODE, [], [])"
  by (simp add: GetScriptOp_def)

lemma strip_step:
  "strip_code_separators (OP_CODESEPARATOR # pc) = strip_code_separators pc"
  "GetScriptOp pc = (True, opcode, data, pc') \<Longrightarrow> opcode \<noteq> OP_CODESEPARATOR \<Longrightarrow>
     strip_code_separators pc = take (length pc - length pc') pc @ strip_code_separators pc'"
  "GetScriptOp pc = (False, opcode, data, pc') \<Longrightarrow> strip_code_separators pc = pc"
  by (subst strip_code_separators.simps, simp)+

lemma codesep_cases:
  assumes "GetScriptOp pc = (True, OP_CODESEPARATOR, data, pc')"
  shows "pc = OP_CODESEPARATOR # pc'"
proof -
  obtain x pc1 where "pc = x # pc1" using GetScriptOp_suffix(3) [OF assms] by (cases pc) auto
  with GetScriptOp_suffix(2) [OF assms] assms show ?thesis by simp
qed

lemma count_code_separators_eq:
  "count_code_separators pc n = n + (of_nat (length pc) - of_nat (length (strip_code_separators pc)))"
proof (induction pc n rule: count_code_separators.induct)
  case (1 pc n)
  obtain ok opcode data pc' where op: "GetScriptOp pc = (ok, opcode, data, pc')" by (metis prod_cases4)
  show ?case
  proof (cases ok)
    case ok: True
    show ?thesis
    proof (cases "opcode = OP_CODESEPARATOR")
      case True
      then have "pc = OP_CODESEPARATOR # pc'" using op ok codesep_cases by simp
      then show ?thesis using 1 [OF op [symmetric]] ok True op
        by (subst count_code_separators.simps) (simp add: strip_step)
    next
      case False
      have len: "length pc = (length pc - length pc') + length pc'"
        using GetScriptOp_progress [of pc] op ok by (simp add: less_imp_le)
      have "length (strip_code_separators pc) = (length pc - length pc') + length (strip_code_separators pc')"
        using strip_step(2) op ok False by simp
      then have "(of_nat (length pc) :: u32) - of_nat (length (strip_code_separators pc))
          = of_nat (length pc') - of_nat (length (strip_code_separators pc'))"
        using arg_cong [OF len, of "of_nat :: nat \<Rightarrow> u32"] by simp
      then show ?thesis using 1 [OF op [symmetric]] ok False op by (subst count_code_separators.simps) simp
    qed
  qed (use op in \<open>subst count_code_separators.simps, simp add: strip_step\<close>)
qed

lemma write_script_code_eq:
  assumes "script_ok pc"
  shows "\<exists>b s'. write_script_code pc (seg @ pc) s = ([], b, s') \<and> s' @ b = s @ seg @ strip_code_separators pc"
  using assms
proof (induction "length pc" arbitrary: pc seg s rule: less_induct)
  case less
  obtain ok opcode data pc' where op: "GetScriptOp pc = (ok, opcode, data, pc')" by (metis prod_cases4)
  show ?case
  proof (cases ok)
    case True
    then have op: "GetScriptOp pc = (True, opcode, data, pc')" using op by simp
    have IH: "\<exists>b s'. write_script_code pc' (seg @ pc') s = ([], b, s') \<and> s' @ b = s @ seg @ strip_code_separators pc'" for seg s
      using less(1) [OF GetScriptOp_progress [OF op]] less(2) op by (simp add: script_ok.simps [of pc])
    show ?thesis
    proof (cases "opcode = OP_CODESEPARATOR")
      case True
      then have pc: "pc = OP_CODESEPARATOR # pc'" using op codesep_cases by simp
      show ?thesis using IH [of "[]" "s @ seg"] unfolding pc
        by (subst write_script_code.simps) (simp add: strip_step)
    next
      case False
      let ?h = "take (length pc - length pc') pc"
      have "write_script_code pc (seg @ pc) s = write_script_code pc' (seg @ pc) s"
        using op False by (subst write_script_code.simps) simp
      moreover have "seg @ pc = (seg @ ?h) @ pc'" using GetScriptOp_suffix(1) [OF op] by (metis append_assoc)
      ultimately show ?thesis using IH [of "seg @ ?h" s] strip_step(2) [OF op False] by simp
    qed
  next
    case False
    then have "pc = []" using less(2) op by (simp add: script_ok.simps [of pc])
    then show ?thesis by (subst write_script_code.simps) (simp add: strip_step)
  qed
qed

lemma strip_length: "length (strip_code_separators pc) \<le> length pc"
proof (induction pc rule: strip_code_separators.induct)
  case (1 pc)
  obtain ok opcode data pc' where op: "GetScriptOp pc = (ok, opcode, data, pc')" by (metis prod_cases4)
  have "ok \<Longrightarrow> length (strip_code_separators pc') \<le> length pc'" using 1 [OF op [symmetric]] by simp
  then show ?case using op GetScriptOp_progress [of pc opcode data pc']
    by (subst strip_code_separators.simps) (auto split: if_splits)
qed

lemma SerializeScriptCode_eq:
  assumes "script_ok s" "length s < 2 ^ 32"
  shows "SerializeScriptCode s = WriteBytes (strip_code_separators s)"
proof -
  have "ucast (of_nat (length s) - count_code_separators s 0) = (of_nat (length (strip_code_separators s)) :: u64)"
    using strip_length [of s] assms(2)
    by (simp add: count_code_separators_eq word_unat_eq_iff unsigned_ucast_eq unat_of_nat take_bit_eq_mod)
  moreover obtain b s' where "write_script_code s s [] = ([], b, s')" "s' @ b = strip_code_separators s"
    using write_script_code_eq [OF assms(1), of "[]" "[]"] by auto
  ultimately show ?thesis by (auto simp: SerializeScriptCode_def WriteBytes_def)
qed

text \<open>\<open>FindAndDelete\<close> of the separator does the same, on every script.\<close>

lemma FindAndDelete_skip_codesep:
  "strip_code_separators (fst (FindAndDelete_skip [OP_CODESEPARATOR] pc k)) = strip_code_separators pc
   \<and> k \<le> snd (FindAndDelete_skip [OP_CODESEPARATOR] pc k)
   \<and> (snd (FindAndDelete_skip [OP_CODESEPARATOR] pc k) = k \<longrightarrow> fst (FindAndDelete_skip [OP_CODESEPARATOR] pc k) = pc)
   \<and> take 1 (fst (FindAndDelete_skip [OP_CODESEPARATOR] pc k)) \<noteq> [OP_CODESEPARATOR]"
proof (induction pc arbitrary: k)
  case Nil
  then show ?case by (subst FindAndDelete_skip.simps) (simp add: FindAndDelete_skip.simps)
next
  case (Cons x pc)
  show ?case
  proof (cases "x = OP_CODESEPARATOR")
    case True
    then have "FindAndDelete_skip [OP_CODESEPARATOR] (x # pc) k = FindAndDelete_skip [OP_CODESEPARATOR] pc (Suc k)"
      by (subst FindAndDelete_skip.simps) simp
    then show ?thesis using Cons [of "Suc k"] True by (simp add: strip_step)
  next
    case False
    then have "FindAndDelete_skip [OP_CODESEPARATOR] (x # pc) k = (x # pc, k)"
      by (subst FindAndDelete_skip.simps) simp
    then show ?thesis using False by simp
  qed
qed

lemma FindAndDelete_loop_codesep:
  "FindAndDelete_loop [OP_CODESEPARATOR] pc2 pc result k = (r, p, n) \<Longrightarrow>
   r @ p = result @ take (length pc2 - length pc) pc2 @ strip_code_separators pc \<and> k \<le> n
   \<and> (n = k \<longrightarrow> strip_code_separators pc = pc)"
proof (induction "length pc" arbitrary: pc2 pc result k rule: less_induct)
  case less
  let ?b = "[OP_CODESEPARATOR] :: bytes"
  obtain q j where sk: "FindAndDelete_skip ?b pc k = (q, j)" by fastforce
  obtain ok opcode data q' where op: "GetScriptOp q = (ok, opcode, data, q')" by (metis prod_cases4)
  have q: "strip_code_separators q = strip_code_separators pc" "k \<le> j" "j = k \<longrightarrow> q = pc" "take 1 q \<noteq> ?b"
    using FindAndDelete_skip_codesep [of pc k] sk by simp_all
  show ?case
  proof (cases ok)
    case True
    then have op: "GetScriptOp q = (True, opcode, data, q')" using op by simp
    have "opcode \<noteq> OP_CODESEPARATOR" using codesep_cases [of q data q'] op q(4) by auto
    note st = strip_step(2) [OF op this]
    have "length q' < length pc"
      using GetScriptOp_progress [OF op] FindAndDelete_skip_length [of ?b pc k] sk by simp
    moreover have "FindAndDelete_loop ?b q q' (result @ take (length pc2 - length pc) pc2) j = (r, p, n)"
      using less(2) sk op by (simp add: FindAndDelete_loop.simps [of ?b pc2] Let_def)
    ultimately have IH: "r @ p = (result @ take (length pc2 - length pc) pc2) @ take (length q - length q') q @ strip_code_separators q'"
      "j \<le> n" "n = j \<longrightarrow> strip_code_separators q' = q'"
      using less(1) by blast+
    have "strip_code_separators pc = pc" if "n = k"
    proof -
      have "q = pc" "strip_code_separators q' = q'" using that IH(2,3) q(2,3) by auto
      then show ?thesis using st GetScriptOp_suffix(1) [OF op] by simp
    qed
    then show ?thesis using IH(1,2) st q(1,2) by auto
  next
    case False
    then have "strip_code_separators q = q" using op strip_step(3) by simp
    then show ?thesis using less(2) sk op False q
      by (auto simp: FindAndDelete_loop.simps [of ?b pc2] Let_def)
  qed
qed

lemma FindAndDelete_codesep: "fst (FindAndDelete s [OP_CODESEPARATOR]) = strip_code_separators s"
  using FindAndDelete_loop_codesep [of s s "[]" 0]
  by (auto simp: FindAndDelete_def split: prod.splits)

section \<open>The serializer writes the modified transaction\<close>

lemma serializer_fields [simp]:
  "ss_scriptCode (CTransactionSignatureSerializer code nIn ht) = code"
  "ss_nIn (CTransactionSignatureSerializer code nIn ht) = nIn"
  "fAnyoneCanPay (CTransactionSignatureSerializer code nIn ht) = hash_anyone ht"
  "fHashSingle (CTransactionSignatureSerializer code nIn ht) = hash_single ht"
  "fHashNone (CTransactionSignatureSerializer code nIn ht) = hash_none ht"
  by (simp_all add: CTransactionSignatureSerializer_def hash_anyone_def hash_single_def hash_none_def)

lemma hash_none_not_single: "hash_none ht \<Longrightarrow> \<not> hash_single ht"
  by (simp add: hash_none_def hash_single_def SIGHASH_NONE_def SIGHASH_SINGLE_def)

lemma length_update_others [simp]: "length (update_others n f xs) = length xs"
  by (simp add: update_others_def)

lemma nth_update_others [simp]: "k < length xs \<Longrightarrow> update_others n f xs ! k = (if k \<noteq> n then f (xs ! k) else xs ! k)"
  by (simp add: update_others_def)

lemma length_old_inputs [simp]: "length (old_inputs code tx n ht) = (if hash_anyone ht then 1 else length (vin tx))"
  by (simp add: old_inputs_def Let_def)

lemma nth_old_inputs:
  assumes "n < length (vin tx)" "k < length (old_inputs code tx n ht)"
  shows "old_inputs code tx n ht ! k =
    (let j = (if hash_anyone ht then n else k) in
     \<lparr>prevout = prevout (vin tx ! j), scriptSig = (if j = n then strip_code_separators code else []),
      nSequence = (if j \<noteq> n \<and> (hash_single ht \<or> hash_none ht) then 0 else nSequence (vin tx ! j))\<rparr>)"
  using assms by (auto simp: old_inputs_def Let_def FindAndDelete_codesep nth_list_update split: if_splits)

lemma concat_map_indices:
  assumes "\<And>k. k < length xs \<Longrightarrow> f k = g (xs ! k)"
  shows "concat (map f [0..<length xs]) = concat (map g xs)"
  using assms by (intro arg_cong [of _ _ concat] nth_equalityI) simp_all

lemma u32_size: "n < 2 ^ 32 \<Longrightarrow> unat (of_nat n :: u32) = n \<and> (ucast (of_nat n :: u32) :: u64) = of_nat n"
  by (simp add: word_unat_eq_iff unsigned_ucast_eq unat_of_nat take_bit_eq_mod)

lemma serializer_inputs:
  assumes "script_ok code" "length code < 2 ^ 32" "length (vin tx) < 2 ^ 32" "unat nIn < length (vin tx)"
  shows "WriteCompactSize (ucast (if hash_anyone ht then 1 else of_nat (length (vin tx)) :: u32))
     @ concat (map (SerializeInput (CTransactionSignatureSerializer code nIn ht) tx)
         [0..<unat (if hash_anyone ht then 1 else of_nat (length (vin tx)) :: u32)])
     = VectorFormatter_Ser CTxIn_Ser (old_inputs code tx (unat nIn) ht)"
proof -
  let ?ins = "old_inputs code tx (unat nIn) ht"
  have "SerializeInput (CTransactionSignatureSerializer code nIn ht) tx k = CTxIn_Ser (?ins ! k)" if "k < length ?ins" for k
    using nth_old_inputs [OF assms(4) that] SerializeScriptCode_eq [OF assms(1,2)]
    by (simp add: SerializeInput_def CTxIn_Ser_def Let_def)
  then have "concat (map (SerializeInput (CTransactionSignatureSerializer code nIn ht) tx) [0..<length ?ins]) = concat (map CTxIn_Ser ?ins)"
    by (rule concat_map_indices)
  then show ?thesis using u32_size [OF assms(3)] by (auto simp: VectorFormatter_Ser_def)
qed

lemma serializer_outputs:
  fixes tx :: "'a mutable_transaction_scheme"
  assumes "length (vout tx) < 2 ^ 32" "hash_single ht \<longrightarrow> unat nIn < length (vout tx)"
  defines "n \<equiv> (if hash_none ht then 0 else if hash_single ht then nIn + 1 else of_nat (length (vout tx)) :: u32)"
  shows "WriteCompactSize (ucast n) @ concat (map (SerializeOutput (CTransactionSignatureSerializer code nIn ht) tx) [0..<unat n])
     = VectorFormatter_Ser CTxOut_Ser (old_outputs tx (unat nIn) ht)"
proof -
  let ?outs = "old_outputs tx (unat nIn) ht"
  have n: "n = of_nat (length ?outs)" by (simp add: n_def old_outputs_def add.commute)
  have "length ?outs < 2 ^ 32" using assms(1,2) by (auto simp: old_outputs_def)
  note len = u32_size [OF this]
  have "SerializeOutput (CTransactionSignatureSerializer code nIn ht) tx k = CTxOut_Ser (?outs ! k)" if "k < length ?outs" for k
    using that by (auto simp: SerializeOutput_def old_outputs_def nth_append split: if_splits)
  then have "concat (map (SerializeOutput (CTransactionSignatureSerializer code nIn ht) tx) [0..<length ?outs]) = concat (map CTxOut_Ser ?outs)"
    by (rule concat_map_indices)
  then show ?thesis unfolding n using len by (simp add: VectorFormatter_Ser_def)
qed

lemma serializer_eq:
  assumes "script_ok code" "length code < 2 ^ 32" "length (vin tx) < 2 ^ 32" "length (vout tx) < 2 ^ 32"
    and "unat nIn < length (vin tx)" "hash_single ht \<longrightarrow> unat nIn < length (vout tx)"
  shows "SignatureSerializer_Serialize (CTransactionSignatureSerializer code nIn ht) tx
    = CTransaction_Serialize (SignatureHashOld_tx code tx (unat nIn) ht)"
  unfolding SignatureSerializer_Serialize_def CTransaction_Serialize_def Let_def serializer_fields
  by (simp add: SignatureHashOld_tx_def HasExtraPayloadField_def IsSpecialTxVersion_def
      serializer_inputs [OF assms(1-3,5), of ht, symmetric] serializer_outputs [OF assms(4,6), of code, symmetric])

text \<open>
  C4: \<open>SignatureHash\<close>, whose serializer applies the modifications of the hash type while it writes, computes
  the hash of the reference formulation, which deletes the code separators with \<open>FindAndDelete\<close>, blanks and
  truncates a copy of the transaction and serializes that: for every hash type, every input, and every
  script code that decodes.
\<close>

theorem sighash_equivalence:
  assumes "script_ok code" "length code < 2 ^ 32" "length (vin tx) < 2 ^ 32" "length (vout tx) < 2 ^ 32"
    and "unat nIn < length (vin tx)"
  shows "SignatureHash code tx nIn ht = Inr (SignatureHashOld code tx nIn ht)"
  using serializer_eq [OF assms, of ht] assms(5)
  by (cases "hash_single ht \<longrightarrow> unat nIn < length (vout tx)")
     (auto simp: SignatureHash_def SignatureHashOld_def Let_def hash_single_def [symmetric])

theorem sighash_equivalence_witness:
  "script_ok [OP_DUP, OP_CODESEPARATOR, OP_CHECKSIG]
   \<and> SignatureHash [OP_DUP, OP_CODESEPARATOR, OP_CHECKSIG] sample_tx 0 0x83 = Inr (SignatureHashOld [OP_DUP, OP_CODESEPARATOR, OP_CHECKSIG] sample_tx 0 0x83)"
proof -
  have ok: "script_ok [OP_DUP, OP_CODESEPARATOR, OP_CHECKSIG]" by code_simp
  show ?thesis using sighash_equivalence [OF ok, of sample_tx 0 "0x83"] ok by (simp add: sample_tx_def)
qed

section \<open>What a signature commits to\<close>

lemma CTransaction_Serialize_inj:
  fixes tx tx' :: mutable_transaction
  assumes "wf_tx tx" "wf_tx tx'" "sint (nVersion tx) \<ge> 0" "sint (nVersion tx') \<ge> 0"
    and "CTransaction_Serialize tx = CTransaction_Serialize tx'" "length (CTransaction_Serialize tx) < 2 ^ 64"
  shows "tx = tx'"
proof -
  let ?s = "ds_of (CTransaction_Serialize tx)"
  have s: "ds_inv ?s" "ds_contents ?s = CTransaction_Serialize tx @ []" "ds_contents ?s = CTransaction_Serialize tx' @ []"
    using assms(5,6) by simp_all
  obtain s1 where "CMutableTransaction_Unser ds_read ?s = Inr (tx, s1)"
    using ds.readsD [OF ds.reads_CMutableTransaction [OF assms(1,3)] s(1,2)] by blast
  moreover obtain s2 where "CMutableTransaction_Unser ds_read ?s = Inr (tx', s2)"
    using ds.readsD [OF ds.reads_CMutableTransaction [OF assms(2,4)] s(1,3)] by blast
  ultimately show ?thesis by simp
qed

definition hash_all :: "u32 \<Rightarrow> bool" where
  "hash_all ht \<longleftrightarrow> \<not> hash_none ht \<and> \<not> hash_single ht \<and> \<not> hash_anyone ht"

lemma wf_SignatureHashOld_tx:
  assumes "wf_tx tx" "script_fits code" "hash_all ht" "n < length (vin tx)"
  shows "wf_tx (SignatureHashOld_tx code tx n ht)"
proof -
  have "script_fits (scriptSig i)" if "i \<in> set (old_inputs code tx n ht)" for i
  proof -
    obtain k where "k < length (old_inputs code tx n ht)" "i = old_inputs code tx n ht ! k"
      using \<open>i \<in> set _\<close> by (auto simp: in_set_conv_nth)
    then show ?thesis using nth_old_inputs [OF assms(4), of k code ht] assms(2) strip_length [of code]
      by (auto simp: script_fits_def Let_def)
  qed
  moreover have "old_outputs tx n ht = vout tx" "length (old_inputs code tx n ht) = length (vin tx)"
    using assms(3) by (simp_all add: old_outputs_def hash_all_def)
  ultimately show ?thesis using assms(1)
    by (auto simp: SignatureHashOld_tx_def wf_tx_def HasExtraPayloadField_def IsSpecialTxVersion_def)
qed

lemma old_inputs_commit:
  assumes "hash_all ht" "n < length (vin tx)" "n' < length (vin tx')" "old_inputs code tx n ht = old_inputs code' tx' n' ht"
  shows "map prevout (vin tx) = map prevout (vin tx')" "map nSequence (vin tx) = map nSequence (vin tx')"
    "strip_code_separators code = strip_code_separators code'" "strip_code_separators code \<noteq> [] \<Longrightarrow> n = n'"
proof -
  have len: "length (vin tx) = length (vin tx')" using arg_cong [OF assms(4), of length] assms(1) by (simp add: hash_all_def)
  have k: "\<lparr>prevout = prevout (vin tx ! k), scriptSig = (if k = n then strip_code_separators code else []), nSequence = nSequence (vin tx ! k)\<rparr>
    = \<lparr>prevout = prevout (vin tx' ! k), scriptSig = (if k = n' then strip_code_separators code' else []), nSequence = nSequence (vin tx' ! k)\<rparr>"
    if "k < length (vin tx)" for k
    using nth_old_inputs [OF assms(2), of k code ht] nth_old_inputs [OF assms(3), of k code' ht] assms(1,4) that len
    by (simp add: hash_all_def Let_def)
  show "map prevout (vin tx) = map prevout (vin tx')" "map nSequence (vin tx) = map nSequence (vin tx')"
    using k len by (auto intro!: nth_equalityI)
  have n': "n' < length (vin tx)" using assms(3) len by simp
  show "strip_code_separators code = strip_code_separators code'" "strip_code_separators code \<noteq> [] \<Longrightarrow> n = n'"
    using k [OF assms(2)] k [OF n'] by (auto split: if_splits)
qed

text \<open>
  C31: with hash type \<open>SIGHASH_ALL\<close> the data that is hashed determines the transaction except the scripts of its
  inputs: two well-formed transactions whose versions are not negative and that are hashed to the same data, with
  script codes that decode, have the same version, type, outpoints, sequence numbers, outputs, lock time and payload.
  The script codes are the same after the removal of \<open>OP_CODESEPARATOR\<close>, and if that leaves anything, the input
  they are hashed for is the same.
\<close>

theorem sighash_all_commits:
  fixes tx tx' :: mutable_transaction
  assumes "hash_all ht" "wf_tx tx" "wf_tx tx'" "sint (nVersion tx) \<ge> 0" "sint (nVersion tx') \<ge> 0" "unat nIn < length (vin tx)" "unat nIn' < length (vin tx')"
    and "script_ok code" "script_fits code" "script_ok code'" "script_fits code'"
    and "SignatureSerializer_Serialize (CTransactionSignatureSerializer code nIn ht) tx
       = SignatureSerializer_Serialize (CTransactionSignatureSerializer code' nIn' ht) tx'"
    and "length (SignatureSerializer_Serialize (CTransactionSignatureSerializer code nIn ht) tx) < 2 ^ 64"
  shows "nVersion tx = nVersion tx' \<and> nType tx = nType tx' \<and> map prevout (vin tx) = map prevout (vin tx')
    \<and> map nSequence (vin tx) = map nSequence (vin tx') \<and> vout tx = vout tx' \<and> nLockTime tx = nLockTime tx'
    \<and> vExtraPayload tx = vExtraPayload tx'
    \<and> strip_code_separators code = strip_code_separators code' \<and> (strip_code_separators code \<noteq> [] \<longrightarrow> nIn = nIn')"
proof -
  have small: "script_fits c \<Longrightarrow> length c < 2 ^ 32" "wf_tx t \<Longrightarrow> length (vin t) < 2 ^ 32" "wf_tx t \<Longrightarrow> length (vout t) < 2 ^ 32"
    for c and t :: mutable_transaction
    by (auto simp: script_fits_def wf_tx_def MAX_SIZE_def)
  note eq = serializer_eq [OF _ small(1) small(2) small(3), of _ _ _ ht]
  let ?t = "SignatureHashOld_tx code tx (unat nIn) ht" and ?t' = "SignatureHashOld_tx code' tx' (unat nIn') ht"
  have "CTransaction_Serialize ?t = CTransaction_Serialize ?t'" "length (CTransaction_Serialize ?t) < 2 ^ 64"
    using assms(12,13) eq [OF assms(8,9,2,2,6)] eq [OF assms(10,11,3,3,7)] assms(1) by (simp_all add: hash_all_def)
  moreover have "nVersion ?t = nVersion tx" "nVersion ?t' = nVersion tx'" by (simp_all add: SignatureHashOld_tx_def)
  ultimately have t: "?t = ?t'" using assms wf_SignatureHashOld_tx by (intro CTransaction_Serialize_inj) auto
  have "old_inputs code tx (unat nIn) ht = old_inputs code' tx' (unat nIn') ht"
    "old_outputs tx (unat nIn) ht = old_outputs tx' (unat nIn') ht"
    "nVersion tx = nVersion tx'" "nType tx = nType tx'" "nLockTime tx = nLockTime tx'" "vExtraPayload tx = vExtraPayload tx'"
    using arg_cong [OF t, of vin] arg_cong [OF t, of vout] arg_cong [OF t, of nVersion] arg_cong [OF t, of nType]
      arg_cong [OF t, of nLockTime] arg_cong [OF t, of vExtraPayload]
    by (simp_all add: SignatureHashOld_tx_def)
  then show ?thesis using old_inputs_commit [OF assms(1,6,7)] assms(1)
    by (simp add: old_outputs_def hash_all_def word_unat_eq_iff)
qed

theorem sighash_all_commits_witness:
  "let tx = sample_tx\<lparr>vin := [\<lparr>prevout = \<lparr>op_hash = 7, op_n = 1\<rparr>, scriptSig = [], nSequence = 0xffffffff\<rparr>]\<rparr> in
   hash_all 1 \<and> wf_tx sample_tx \<and> wf_tx tx \<and> tx \<noteq> sample_tx \<and> vout tx = vout sample_tx"
proof -
  let ?tx = "sample_tx\<lparr>vin := [\<lparr>prevout = \<lparr>op_hash = 7, op_n = 1\<rparr>, scriptSig = [], nSequence = 0xffffffff\<rparr>]\<rparr>"
  have all: "hash_all 1" and wf: "wf_tx sample_tx" "wf_tx ?tx" "sint (nVersion sample_tx) \<ge> 0" "sint (nVersion ?tx) \<ge> 0" and n: "unat (0 :: u32) < length (vin sample_tx)" "unat (0 :: u32) < length (vin ?tx)"
    and code: "script_ok [OP_CHECKSIG]" "script_fits [OP_CHECKSIG]"
    and eq: "SignatureSerializer_Serialize (CTransactionSignatureSerializer [OP_CHECKSIG] 0 1) sample_tx
      = SignatureSerializer_Serialize (CTransactionSignatureSerializer [OP_CHECKSIG] 0 1) ?tx"
    and len: "length (SignatureSerializer_Serialize (CTransactionSignatureSerializer [OP_CHECKSIG] 0 1) sample_tx) < 2 ^ 64"
    and ne: "?tx \<noteq> sample_tx"
    by code_simp+
  show ?thesis using sighash_all_commits [OF all wf n code code eq len] all wf(1,2) ne by (simp add: Let_def)
qed

text \<open>
  On a script that does not decode, the last write stops where decoding stopped: the size announced first
  counts the rest, which is not written. (A script that does not decode fails, whatever is hashed.)
\<close>

lemma truncated_script_code: "SerializeScriptCode [5, 1] = WriteCompactSize 2 @ [5]"
  by code_simp

end
