(* ===== verification/ScriptSafety.thy ===== *)
theory ScriptSafety
  imports SignatureHash
begin

text \<open>
  Safety of the script interpreter: no \<open>assert\<close> of \<open>src/script/interpreter.cpp\<close> or \<open>script.h\<close> can
  fail, the resource limits hold after every instruction, and the compressed condition stack
  behaves as the stack of booleans it stands for.
\<close>

section \<open>Resource limits and assertions\<close>

lemma length_serialize_abs: "length (serialize_abs a) \<le> 8"
proof (cases "a = 0")
  case True
  then show ?thesis by (simp add: serialize_abs.simps)
next
  case False
  then obtain xs c where xc: "serialize_abs a = xs @ [c]" "c \<noteq> 0" "unat a = le_nat xs + 256 ^ length xs * unat c"
    by (rule serialize_abs_cases)
  have "0 < unat c" using xc(2) by (simp add: unat_gt_0)
  then have "256 ^ length xs * 1 \<le> 256 ^ length xs * unat c" by (intro mult_le_mono2) simp
  then have "256 ^ length xs \<le> unat a" using xc(3) by linarith
  also have "unat a < 2 ^ LENGTH(64)" by (rule unsigned_less)
  also have "(2::nat) ^ LENGTH(64) = 256 ^ 8" by simp
  finally have "length xs < 8" by (rule power_less_imp_less_exp [rotated]) simp
  then show ?thesis by (simp add: xc(1))
qed

lemma length_ScriptNum_serialize: "length (ScriptNum_serialize x) \<le> 9"
proof -
  have "length (serialize_abs (if x < 0 then NOT (of_int x) + 1 else of_int x)) \<le> 8"
    by (rule length_serialize_abs)
  then show ?thesis by (auto simp: ScriptNum_serialize_def Let_def)
qed

lemma MinimallyEncode_length: "length (fst (MinimallyEncode v)) \<le> length v"
  using MinimallyEncode_ok [of v] by (auto simp: IsMinimallyEncoded_def split: if_splits)

text \<open>Stack elements respect the size limit and the operation counter its maximum.\<close>

definition within_limits :: "eval_state \<Rightarrow> bool" where
  "within_limits st \<longleftrightarrow> (\<forall>x\<in>set (stack st). length x \<le> MAX_SCRIPT_ELEMENT_SIZE)
     \<and> (\<forall>x\<in>set (altstack st). length x \<le> MAX_SCRIPT_ELEMENT_SIZE) \<and> nOpCount st \<le> MAX_OPS_PER_SCRIPT"

text \<open>A result that is not a failed assertion, those in \<open>E\<close> apart, and satisfies \<open>P\<close> when evaluation goes on.\<close>

definition safe :: "string set \<Rightarrow> ('a \<Rightarrow> bool) \<Rightarrow> 'a ev \<Rightarrow> bool" where
  "safe E P r \<longleftrightarrow> (case r of Inr x \<Rightarrow> P x | Inl (AssertFail m) \<Rightarrow> m \<in> E | Inl _ \<Rightarrow> True)"

text \<open>The assertions that a signature checker can fail.\<close>

definition checker_asserts :: "signature_checker \<Rightarrow> string set" where
  "checker_asserts ck = {m. (\<exists>sig k code. CheckSig ck sig k code = Inl m) \<or> (\<exists>n. CheckLockTime ck n = Inl m) \<or> (\<exists>n. CheckSequence ck n = Inl m)}"

lemma safe_simps [simp]:
  "safe E P (Inr x) \<longleftrightarrow> P x" "safe E P (Inl (ScriptFail e))" "safe E P (Inl (Thrown m))" "safe E P (Inl (AssertFail m)) \<longleftrightarrow> m \<in> E"
  by (simp_all add: safe_def)

named_theorems safe_intros \<open>absence of assertion failures\<close>

lemma safe_bind [safe_intros]: "safe E Q m \<Longrightarrow> (\<And>x. Q x \<Longrightarrow> safe E P (f x)) \<Longrightarrow> safe E P (res_bind m f)"
  by (cases m) (auto simp: safe_def split: eval_stop.splits)

lemma safe_if: "(c \<Longrightarrow> safe E P a) \<Longrightarrow> (\<not> c \<Longrightarrow> safe E P b) \<Longrightarrow> safe E P (if c then a else b)"
  by simp

lemma safe_mono: "safe E Q r \<Longrightarrow> (\<And>x. Q x \<Longrightarrow> P x) \<Longrightarrow> safe E P r"
  by (auto simp: safe_def split: sum.splits eval_stop.splits)

lemma set_vch_bound: "length v \<le> 4 \<Longrightarrow> \<bar>set_vch v\<bar> < 2 ^ 31"
proof (cases v rule: rev_cases)
  case Nil
  then show ?thesis by (simp add: set_vch_def)
next
  case (snoc xs b)
  assume "length v \<le> 4"
  then have xs: "length xs \<le> 3" "length xs < 8" by (simp_all add: snoc)
  have "\<bar>set_vch v\<bar> < 256 ^ length xs * 128"
    unfolding snoc set_vch_signed_magnitude [OF xs(2)] by (rule signed_magnitude_bound)
  also have "(256::int) ^ length xs * 128 \<le> 256 ^ 3 * 128"
    using xs(1) by (intro mult_right_mono power_increasing) simp_all
  finally show ?thesis by simp
qed

lemma safe_scriptnum [safe_intros]: "safe E (\<lambda>n. \<bar>n\<bar> < 2 ^ 31) (scriptnum env v nDefaultMaxNumSize)"
  using set_vch_bound [of v] by (auto simp: scriptnum_def CScriptNum_def nDefaultMaxNumSize_def split: sum.splits)

lemma safe_scriptnum_any: "safe E (\<lambda>n. True) (scriptnum env v k)"
  by (auto simp: scriptnum_def split: sum.splits)

lemma safe_unary_num:
  "\<bar>n\<bar> < 2 ^ 31 \<Longrightarrow> opcode \<in> {OP_1ADD, OP_1SUB, OP_NEGATE, OP_ABS, OP_NOT, OP_0NOTEQUAL} \<Longrightarrow>
     safe E (\<lambda>n. True) (unary_num opcode n)"
  unfolding unary_num_def
  by (intro safe_if) (auto simp: asserting_def ScriptNum_add_assign_def ScriptNum_sub_assign_def
      ScriptNum_neg_def)

lemma safe_binary_num:
  "opcode \<in> {OP_ADD, OP_SUB, OP_DIV, OP_MOD, OP_BOOLAND, OP_BOOLOR, OP_NUMEQUAL, OP_NUMEQUALVERIFY,
     OP_NUMNOTEQUAL, OP_LESSTHAN, OP_GREATERTHAN, OP_LESSTHANOREQUAL, OP_GREATERTHANOREQUAL, OP_MIN, OP_MAX} \<Longrightarrow>
     safe E (\<lambda>n. True) (binary_num opcode n m)"
  unfolding binary_num_def by (intro safe_if) simp_all

lemma element_sizes [simp]:
  "length (ScriptNum_serialize x) \<le> MAX_SCRIPT_ELEMENT_SIZE"
  "length (bool_vch b) \<le> MAX_SCRIPT_ELEMENT_SIZE"
  "length (op_hash_value opcode v) \<le> MAX_SCRIPT_ELEMENT_SIZE"
  using length_ScriptNum_serialize [of x]
  by (simp_all add: MAX_SCRIPT_ELEMENT_SIZE_def bool_vch_def vchTrue_def vchFalse_def op_hash_value_def)

text \<open>The plain stack operations only rearrange elements or push small numbers.\<close>

definition keeps_sizes :: "(bytes list \<Rightarrow> bytes list option) \<Rightarrow> bool" where
  "keeps_sizes f \<longleftrightarrow> (\<forall>xs ys. f xs = Some ys \<longrightarrow> (\<forall>x\<in>set xs. length x \<le> MAX_SCRIPT_ELEMENT_SIZE) \<longrightarrow>
     (\<forall>y\<in>set ys. length y \<le> MAX_SCRIPT_ELEMENT_SIZE))"

lemma keeps_sizes_ops [safe_intros]:
  "keeps_sizes op_2drop"
  "keeps_sizes op_2dup"
  "keeps_sizes op_3dup"
  "keeps_sizes op_2over"
  "keeps_sizes op_2rot"
  "keeps_sizes op_2swap"
  "keeps_sizes op_ifdup"
  "keeps_sizes op_drop"
  "keeps_sizes op_dup"
  "keeps_sizes op_nip"
  "keeps_sizes op_over"
  "keeps_sizes op_rot"
  "keeps_sizes op_swap"
  "keeps_sizes op_tuck"
  "keeps_sizes op_size"
  "keeps_sizes op_depth"
proof -
  show "keeps_sizes op_2drop" unfolding keeps_sizes_def
    by (intro allI impI, elim op_2drop.elims) (auto split: if_splits)
  show "keeps_sizes op_2dup" unfolding keeps_sizes_def
    by (intro allI impI, elim op_2dup.elims) (auto split: if_splits)
  show "keeps_sizes op_3dup" unfolding keeps_sizes_def
    by (intro allI impI, elim op_3dup.elims) (auto split: if_splits)
  show "keeps_sizes op_2over" unfolding keeps_sizes_def
    by (intro allI impI, elim op_2over.elims) (auto split: if_splits)
  show "keeps_sizes op_2rot" unfolding keeps_sizes_def
    by (intro allI impI, elim op_2rot.elims) (auto split: if_splits)
  show "keeps_sizes op_2swap" unfolding keeps_sizes_def
    by (intro allI impI, elim op_2swap.elims) (auto split: if_splits)
  show "keeps_sizes op_ifdup" unfolding keeps_sizes_def
    by (intro allI impI, elim op_ifdup.elims) (auto split: if_splits)
  show "keeps_sizes op_drop" unfolding keeps_sizes_def
    by (intro allI impI, elim op_drop.elims) (auto split: if_splits)
  show "keeps_sizes op_dup" unfolding keeps_sizes_def
    by (intro allI impI, elim op_dup.elims) (auto split: if_splits)
  show "keeps_sizes op_nip" unfolding keeps_sizes_def
    by (intro allI impI, elim op_nip.elims) (auto split: if_splits)
  show "keeps_sizes op_over" unfolding keeps_sizes_def
    by (intro allI impI, elim op_over.elims) (auto split: if_splits)
  show "keeps_sizes op_rot" unfolding keeps_sizes_def
    by (intro allI impI, elim op_rot.elims) (auto split: if_splits)
  show "keeps_sizes op_swap" unfolding keeps_sizes_def
    by (intro allI impI, elim op_swap.elims) (auto split: if_splits)
  show "keeps_sizes op_tuck" unfolding keeps_sizes_def
    by (intro allI impI, elim op_tuck.elims) (auto split: if_splits)
  show "keeps_sizes op_size" unfolding keeps_sizes_def
    by (intro allI impI, elim op_size.elims) (auto split: if_splits)
  show "keeps_sizes op_depth" by (auto simp: keeps_sizes_def op_depth_def)
qed

lemma safe_stack_op [safe_intros]:
  "keeps_sizes f \<Longrightarrow> within_limits st \<Longrightarrow> safe E within_limits (stack_op f st)"
  by (auto simp: stack_op_def within_limits_def keeps_sizes_def split: option.split)

lemma safe_simple_ops [safe_intros]:
  assumes "within_limits st"
  shows "safe E within_limits (op_small_int opcode st)"
    and "safe E within_limits (op_upgradable_nop env st)"
    and "safe E within_limits (op_if opcode fExec st)"
    and "safe E within_limits (op_else st)"
    and "safe E within_limits (op_endif st)"
    and "safe E within_limits (op_verify st)"
    and "safe E within_limits (op_toaltstack st)"
    and "safe E within_limits (op_fromaltstack st)"
    and "safe E within_limits (op_equal opcode st)"
    and "safe E within_limits (op_hash_top opcode st)"
    and "safe E within_limits (op_cat st)"
  using assms
  by (auto simp: within_limits_def op_small_int_def op_upgradable_nop_def op_if_def op_else_def op_endif_def
      op_verify_def op_toaltstack_def op_fromaltstack_def op_equal_def op_hash_top_def op_cat_def Let_def
      cs_toggle_top_def cs_pop_back_def cs_empty_def word_gt_0 split: list.split)

lemma safe_checker:
  assumes "checker_asserts ck \<subseteq> E"
  shows "safe E (\<lambda>b. True) (asserting (CheckSig ck sig k code))" "safe E (\<lambda>b. True) (asserting (CheckLockTime ck n))"
    "safe E (\<lambda>b. True) (asserting (CheckSequence ck n))"
  using assms by (auto simp: checker_asserts_def asserting_def split: sum.split)

lemma safe_lock_ops [safe_intros]:
  assumes "within_limits st" "checker_asserts (checker env) \<subseteq> E"
  shows "safe E within_limits (op_checklocktimeverify env st)"
    and "safe E within_limits (op_checksequenceverify env st)"
  unfolding op_checklocktimeverify_def op_checksequenceverify_def
  using assms(1) by (auto split: list.split intro!: safe_bind [OF safe_scriptnum_any] safe_bind [OF safe_checker(2) [OF assms(2)]]
      safe_bind [OF safe_checker(3) [OF assms(2)]])

lemma safe_number_ops [safe_intros]:
  assumes "within_limits st"
  shows "safe E within_limits (op_pick_roll env opcode st)"
    and "safe E within_limits (op_within env st)"
    and "safe E within_limits (op_split env st)"
proof -
  have roll: "length y \<le> MAX_SCRIPT_ELEMENT_SIZE"
    if "y \<in> set (xs ! k # take k xs @ drop (Suc k) xs) \<or> y \<in> set (xs ! k # xs)" "k < length xs"
      "\<forall>x\<in>set xs. length x \<le> MAX_SCRIPT_ELEMENT_SIZE" for y xs k
    using that by (auto dest: in_set_takeD in_set_dropD)
  show "safe E within_limits (op_pick_roll env opcode st)"
  proof (cases "\<exists>x y stk. stack st = x # y # stk")
    case True
    then obtain x y stk where stk: "stack st = x # y # stk" by blast
    then have sz: "\<forall>z\<in>set (y # stk). length z \<le> MAX_SCRIPT_ELEMENT_SIZE"
      using assms by (simp add: within_limits_def)
    show ?thesis
      unfolding op_pick_roll_def stk list.case Let_def
    proof (rule safe_bind [OF safe_scriptnum_any], rule safe_if, simp)
      fix bn :: int
      assume "\<not> (getint bn < 0 \<or> int (length (y # stk)) \<le> getint bn)"
      then have "nat (getint bn) < length (y # stk)" by (simp add: nat_less_iff)
      from roll [OF _ this sz] show "safe E within_limits (Inr (st\<lparr>stack := (y # stk) ! nat (getint bn) #
          (if opcode = OP_ROLL then take (nat (getint bn)) (y # stk) @ drop (Suc (nat (getint bn))) (y # stk)
           else y # stk)\<rparr>))"
        using assms unfolding safe_simps within_limits_def by (auto simp del: set_simps)
    qed
  next
    case False
    then show ?thesis by (auto simp: op_pick_roll_def split: list.split)
  qed
  show "safe E within_limits (op_within env st)" "safe E within_limits (op_split env st)"
    unfolding op_within_def op_split_def
    using assms
    by (auto simp: within_limits_def Let_def split: list.split intro!: safe_bind [OF safe_scriptnum_any])
qed

lemma length_map2: "length (map2 f xs ys) = min (length xs) (length ys)"
  by simp

lemma safe_op_bitwise [safe_intros]: "within_limits st \<Longrightarrow> safe E within_limits (op_bitwise opcode st)"
  by (auto simp: op_bitwise_def within_limits_def Let_def split: list.split)

lemma safe_op_unary_num:
  assumes "within_limits st" "opcode \<in> {OP_1ADD, OP_1SUB, OP_NEGATE, OP_ABS, OP_NOT, OP_0NOTEQUAL}"
  shows "safe E within_limits (op_unary_num env opcode st)"
  unfolding op_unary_num_def using assms(1)
  by (auto split: list.split simp: within_limits_def
      intro!: safe_bind [OF safe_scriptnum] safe_bind [OF safe_unary_num [OF _ assms(2)]])

lemma safe_op_binary_num:
  assumes "within_limits st" "opcode \<in> {OP_ADD, OP_SUB, OP_DIV, OP_MOD, OP_BOOLAND, OP_BOOLOR, OP_NUMEQUAL,
    OP_NUMEQUALVERIFY, OP_NUMNOTEQUAL, OP_LESSTHAN, OP_GREATERTHAN, OP_LESSTHANOREQUAL, OP_GREATERTHANOREQUAL,
    OP_MIN, OP_MAX}"
  shows "safe E within_limits (op_binary_num env opcode st)"
  unfolding op_binary_num_def using assms(1)
  by (auto split: list.split simp: within_limits_def Let_def
      intro!: safe_bind [OF safe_scriptnum] safe_bind [OF safe_binary_num [OF assms(2)]])

lemma length_pad_number: "length v < sz \<Longrightarrow> length (pad_number v sz) = sz"
  by (cases v rule: rev_cases) (auto simp: pad_number_def Let_def)

lemma safe_conversions [safe_intros]:
  assumes "within_limits st"
  shows "safe E within_limits (op_num2bin env st)" and "safe E within_limits (op_bin2num st)"
  unfolding op_num2bin_def op_bin2num_def using assms
  by (auto simp: within_limits_def Let_def length_pad_number split: list.split
      intro!: safe_bind [OF safe_scriptnum_any] le_trans [OF MinimallyEncode_length])

lemma safe_encodings:
  "safe E (\<lambda>u. True) (CheckSignatureEncoding e sig fl)" "safe E (\<lambda>u. True) (CheckPubKeyEncoding k fl)"
  by (auto simp: CheckSignatureEncoding_def IsLowDERSignature_def CheckPubKeyEncoding_def)

lemma safe_EvalChecksig:
  assumes "checker_asserts (checker env) \<subseteq> E"
  shows "safe E (\<lambda>b. True) (EvalChecksig env sig k code)"
  unfolding EvalChecksig_def Let_def
  by (auto split: prod.split intro!: safe_bind [OF safe_encodings(1)] safe_bind [OF safe_encodings(2)] safe_bind [OF safe_checker(1) [OF assms]])

lemma safe_sig_ops [safe_intros]:
  assumes "within_limits st" "checker_asserts (checker env) \<subseteq> E"
  shows "safe E within_limits (op_checksig env opcode st)" and "safe E within_limits (op_checkdatasig env opcode st)"
  unfolding op_checksig_def op_checkdatasig_def Let_def using assms(1)
  by (auto simp: within_limits_def split: list.split intro!: safe_bind [OF safe_EvalChecksig [OF assms(2)]]
      safe_bind [OF safe_encodings(1)] safe_bind [OF safe_encodings(2)])

lemma safe_stacktop: "safe E (\<lambda>x. x \<in> set stk) (stacktop stk i)"
  by (auto simp: stacktop_def intro!: nth_mem)

lemma safe_popstack: "safe E (\<lambda>stk'. set stk' \<subseteq> set stk) (popstack stk)"
  by (auto simp: popstack_def split: list.split)

lemma safe_multisig_scriptCode: "safe E (\<lambda>c. True) (multisig_scriptCode env stk pos k code)"
  by (induction k arbitrary: pos code)
    (auto split: prod.split intro!: safe_bind [OF safe_stacktop])

lemma safe_multisig_match:
  assumes "checker_asserts (checker env) \<subseteq> E"
  shows "safe E (\<lambda>b. True) (multisig_match env stk code isig ikey nSigs nKeys ok)"
proof (induction "if ok then Suc (nat (nKeys + 1)) else 0" arbitrary: isig ikey nSigs nKeys ok rule: less_induct)
  case less
  show ?case
  proof (cases "ok \<and> nSigs > 0")
    case False
    then show ?thesis
      by (simp only: multisig_match.simps [of _ stk code isig ikey nSigs nKeys ok] if_False safe_simps)
  next
    case True
    show ?thesis
      unfolding multisig_match.simps [of _ stk code isig ikey nSigs nKeys ok] Let_def
      by (intro safe_if safe_bind [OF safe_stacktop] safe_bind [OF safe_encodings(1)]
          safe_bind [OF safe_encodings(2)] safe_bind [OF safe_checker(1) [OF assms]] less) (use True in \<open>auto split: if_splits\<close>)
  qed
qed

lemma safe_multisig_cleanup:
  "safe E (\<lambda>stk'. set stk' \<subseteq> set stk) (multisig_cleanup env ok ikey2 k stk)"
proof (induction k arbitrary: ikey2 stk)
  case (Suc k)
  have "safe E (\<lambda>u. True) (if c then res_bind (stacktop stk 1) (\<lambda>x. if x \<noteq> [] then set_error e else Inr ()) else Inr ())"
    for c e by (auto intro!: safe_bind [OF safe_stacktop])
  moreover have "safe E (\<lambda>stk''. set stk'' \<subseteq> set stk) (multisig_cleanup env ok (ikey2 - 1) k stk')"
    if "set stk' \<subseteq> set stk" for stk'
    using that by (intro safe_mono [OF Suc.IH]) auto
  ultimately show ?case
    unfolding multisig_cleanup.simps by (intro safe_bind [where Q = "\<lambda>u. True"] safe_bind [OF safe_popstack])
qed simp

lemma safe_op_checkmultisig [safe_intros]:
  assumes "within_limits st" "checker_asserts (checker env) \<subseteq> E"
  shows "safe E within_limits (op_checkmultisig env opcode st)"
proof -
  have fin: "safe E within_limits (multisig_finish env opcode ok (st\<lparr>nOpCount := ops\<rparr>) stk')"
    if "\<not> MAX_OPS_PER_SCRIPT < ops" "set stk' \<subseteq> set (stack st)" for ok ops stk'
    using assms(1) that by (auto simp: multisig_finish_def within_limits_def split: list.split)
  have num: "safe E (\<lambda>n. True) (res_bind (stacktop stk i) (\<lambda>x. scriptnum env x nDefaultMaxNumSize))" for stk i
    by (intro safe_bind [OF safe_stacktop] safe_scriptnum_any)
  show ?thesis
    unfolding op_checkmultisig_def Let_def
    by (intro safe_if safe_bind [OF num] safe_bind [OF safe_multisig_scriptCode] safe_bind [OF safe_multisig_match [OF assms(2)]]
        safe_bind [OF safe_multisig_cleanup] fin safe_simps)
qed

definition safe_option :: "string set \<Rightarrow> ('a \<Rightarrow> bool) \<Rightarrow> 'a ev option \<Rightarrow> bool" where
  "safe_option E P r \<longleftrightarrow> (case r of None \<Rightarrow> True | Some r \<Rightarrow> safe E P r)"

lemma safe_option_intros:
  "safe E P r \<Longrightarrow> safe_option E P (Some r)"
  "safe_option E P None"
  "(c \<Longrightarrow> safe_option E P a) \<Longrightarrow> (\<not> c \<Longrightarrow> safe_option E P b) \<Longrightarrow> safe_option E P (if c then a else b)"
  by (simp_all add: safe_option_def)

lemma safe_option_case: "safe_option E P a \<Longrightarrow> safe E P d \<Longrightarrow> safe E P (case a of Some r \<Rightarrow> r | None \<Rightarrow> d)"
  by (simp add: safe_option_def split: option.splits)

lemma safe_exec_switch:
  assumes "within_limits st" "checker_asserts (checker env) \<subseteq> E"
  shows "safe E within_limits (exec_switch env opcode fExec pc st)"
proof -
  have cs: "within_limits (st\<lparr>pbegincodehash := pc\<rparr>)" using assms(1) by (simp add: within_limits_def)
  have "safe_option E within_limits (exec_control env opcode fExec pc st)"
    unfolding exec_control_def by (intro safe_option_intros safe_intros assms) (simp_all add: assms cs)
  moreover have "safe_option E within_limits (exec_stack env opcode st)"
    unfolding exec_stack_def by (intro safe_option_intros safe_intros assms)
  moreover have "safe_option E within_limits (exec_arith env opcode st)"
    unfolding exec_arith_def
    by (intro safe_option_intros safe_intros safe_op_unary_num safe_op_binary_num assms) assumption+
  moreover have "safe_option E within_limits (exec_crypto env opcode st)"
    unfolding exec_crypto_def by (intro safe_option_intros safe_intros assms)
  ultimately show ?thesis unfolding exec_switch_def by (intro safe_option_case safe_simps)
qed

text \<open>What holds after every instruction.\<close>

definition after_instruction :: "eval_state \<Rightarrow> bool" where
  "after_instruction st \<longleftrightarrow> within_limits st \<and> length (stack st) + length (altstack st) \<le> MAX_STACK_SIZE"

lemma safe_exec_instruction:
  assumes "within_limits st" "checker_asserts (checker env) \<subseteq> E"
  shows "safe E after_instruction (exec_instruction env opcode v pc st)"
proof -
  have minimal: "safe E (\<lambda>b. True) (if c then asserting (CheckMinimalPush v opcode) else Inr True)" if "opcode \<le> OP_PUSHDATA4" for c
    using that by (simp add: CheckMinimalPush_def)
  have "safe E after_instruction
      (if length v > MAX_SCRIPT_ELEMENT_SIZE then set_error e1 else if opcode > OP_16 \<and> ops > MAX_OPS_PER_SCRIPT then set_error e2
       else if c1 then set_error e3 else if c2 then set_error e4
       else res_bind (if fExec \<and> opcode \<le> OP_PUSHDATA4 then
             res_bind (if c4 then asserting (CheckMinimalPush v opcode) else Inr True) (\<lambda>fMinimal.
               if \<not> fMinimal then set_error e5 else Inr (st\<lparr>stack := v # stack st, nOpCount := ops\<rparr>))
           else if c5 then exec_switch env opcode fExec pc (st\<lparr>nOpCount := ops\<rparr>) else Inr (st\<lparr>nOpCount := ops\<rparr>))
         (\<lambda>st'. if length (stack st') + length (altstack st') > MAX_STACK_SIZE then set_error e6 else Inr st'))"
    if "ops = (if opcode > OP_16 then nOpCount st + 1 else nOpCount st)" for ops c1 c2 c4 c5 e1 e2 e3 e4 e5 e6 fExec
    using assms that
    by (intro safe_if safe_bind [where Q = within_limits] safe_bind [OF minimal] safe_exec_switch)
      (auto simp: within_limits_def after_instruction_def split: if_splits)
  then show ?thesis unfolding exec_instruction_def Let_def by blast
qed

lemma safe_EvalScript_loop:
  assumes "checker_asserts (checker env) \<subseteq> E"
  shows "within_limits st \<Longrightarrow> safe E (\<lambda>st'. (pc = [] \<and> st' = st) \<or> after_instruction st') (EvalScript_loop env pc st)"
proof (induction "length pc" arbitrary: pc st rule: less_induct)
  case less
  obtain ok opcode v pc' where op: "GetScriptOp pc = (ok, opcode, v, pc')" by (metis prod_cases4)
  show ?case
  proof (cases "pc = [] \<or> \<not> ok")
    case True
    with op show ?thesis by (auto simp: EvalScript_loop.simps [of _ pc])
  next
    case False
    then have lt: "length pc' < length pc" using op GetScriptOp_progress by auto
    have "safe E (\<lambda>st'. (pc = [] \<and> st' = st) \<or> after_instruction st') (EvalScript_loop env pc' st')"
      if "after_instruction st'" for st'
      by (rule safe_mono [OF less.hyps [OF lt]]) (use that in \<open>auto simp: after_instruction_def\<close>)
    then have "safe E (\<lambda>st'. (pc = [] \<and> st' = st) \<or> after_instruction st')
        (res_bind (exec_instruction env opcode v pc' st) (EvalScript_loop env pc'))"
      by (rule safe_bind [OF safe_exec_instruction [OF less.prems assms]])
    with False op show ?thesis by (simp add: EvalScript_loop.simps [of _ pc])
  qed
qed

lemma safe_EvalScript:
  assumes "\<forall>x\<in>set stk. length x \<le> MAX_SCRIPT_ELEMENT_SIZE" "checker_asserts (checker env) \<subseteq> E"
  shows "safe E (\<lambda>stk'. (\<forall>x\<in>set stk'. length x \<le> MAX_SCRIPT_ELEMENT_SIZE)
      \<and> ((script = [] \<and> stk' = stk) \<or> length stk' \<le> MAX_STACK_SIZE)) (EvalScript env stk script)"
proof -
  let ?st = "eval_init script stk"
  have init: "within_limits ?st" using assms(1) by (simp add: within_limits_def eval_init_def MAX_OPS_PER_SCRIPT_def)
  have "safe E (\<lambda>st'. within_limits st' \<and> ((script = [] \<and> stack st' = stk) \<or> length (stack st') \<le> MAX_STACK_SIZE))
      (EvalScript_loop env script ?st)"
    by (rule safe_mono [OF safe_EvalScript_loop [OF assms(2) init]])
      (use init in \<open>auto simp: after_instruction_def eval_init_def\<close>)
  then show ?thesis
    by (auto simp: EvalScript_def safe_def within_limits_def split: sum.splits eval_stop.splits)
qed

text \<open>A pay-to-script-hash output cannot be evaluated on an empty stack.\<close>

lemma P2SH_needs_argument:
  assumes "IsPayToScriptHash script"
  shows "EvalScript env [] script \<noteq> Inr stk"
proof -
  obtain rest where s: "script = OP_HASH160 # rest" and len: "length script = 23"
    using assms by (cases script) (auto simp: IsPayToScriptHash_def)
  have op: "GetScriptOp script = (True, OP_HASH160, [], rest)"
    by (simp add: s GetScriptOp_def)
  have "exec_instruction env OP_HASH160 [] rest (eval_init script []) = set_error SCRIPT_ERR_INVALID_STACK_OPERATION"
    by (simp add: exec_instruction_def Let_def eval_init_def cs_all_true_def cs_init_def disabled_opcode_def
        MAX_OPS_PER_SCRIPT_def exec_switch_def exec_control_def exec_stack_def exec_arith_def exec_crypto_def
        op_hash_top_def)
  then have "EvalScript_loop env script (eval_init script []) = set_error SCRIPT_ERR_INVALID_STACK_OPERATION"
    by (subst EvalScript_loop.simps) (simp add: op, simp add: s)
  then show ?thesis by (simp add: EvalScript_def)
qed

lemma checker_asserts_empty: "checker_asserts BaseSignatureChecker = {}"
  "unat nIn < length (vin tx) \<Longrightarrow> checker_asserts (TransactionSignatureChecker e tx nIn) = {}"
proof -
  show "checker_asserts BaseSignatureChecker = {}" by (simp add: checker_asserts_def BaseSignatureChecker_def)
  assume "unat nIn < length (vin tx)"
  from checker_in_range [OF this] show "checker_asserts (TransactionSignatureChecker e tx nIn) = {}"
    by (simp add: checker_asserts_def TransactionSignatureChecker_def) (metis Inl_Inr_False)
qed

text \<open>The assertions of a verification are those of its signature checker.\<close>

lemma safe_VerifyScript:
  assumes "flag (flags env) SCRIPT_VERIFY_CLEANSTACK \<Longrightarrow> flag (flags env) SCRIPT_VERIFY_P2SH" "checker_asserts (checker env) \<subseteq> E"
  shows "safe E (\<lambda>u. True) (VerifyScript env script_sig script_pubkey)"
proof -
  let ?small = "\<lambda>stk :: bytes list. \<forall>x\<in>set stk. length x \<le> MAX_SCRIPT_ELEMENT_SIZE"
  have ev: "safe E ?small (EvalScript env stk sc)" if "?small stk" for stk sc
    by (rule safe_mono [OF safe_EvalScript [OF that assms(2)]]) simp
  have top: "safe E (\<lambda>u. True) (top_is_true stk)" for stk by (simp add: top_is_true_def split: list.split)
  have p2sh: "safe E (\<lambda>stk. True) (verify_p2sh env script_sig script_pubkey c stk)"
    if "?small c" "EvalScript env c script_pubkey = Inr stk" for c stk
    using that P2SH_needs_argument [of script_pubkey env stk]
    by (auto simp: verify_p2sh_def split: list.split intro!: safe_bind [OF ev] safe_bind [OF top])
  show ?thesis
    unfolding VerifyScript_def
  proof (rule safe_if, simp, rule safe_bind [OF ev], simp)
    fix c assume c: "?small c"
    have s: "safe E (\<lambda>stk. EvalScript env c script_pubkey = Inr stk) (EvalScript env c script_pubkey)"
      using ev [OF c, of script_pubkey] by (auto simp: safe_def split: sum.splits eval_stop.splits)
    show "safe E (\<lambda>u. True) (res_bind (EvalScript env c script_pubkey) (\<lambda>stk.
        res_bind (top_is_true stk) (\<lambda>_.
        res_bind (verify_p2sh env script_sig script_pubkey c stk) (\<lambda>stk'.
          if flag (flags env) SCRIPT_VERIFY_CLEANSTACK then
            if \<not> flag (flags env) SCRIPT_VERIFY_P2SH then Inl (AssertFail ''CLEANSTACK without P2SH'')
            else if length stk' \<noteq> 1 then set_error SCRIPT_ERR_CLEANSTACK
            else Inr ()
          else Inr ()))))"
      by (rule safe_bind [OF s], rule safe_bind [OF top], rule safe_bind [OF p2sh [OF c]]) (use assms(1) in auto)
  qed
qed

text \<open>
  C2: verification fails no assertion of the interpreter, whatever the two scripts (\<open>CLEANSTACK\<close> only together with
  \<open>P2SH\<close>, as the interface requires): an assertion that fails is one of the signature checker's. The checker of a
  transaction fails none when its input index is in range, so that then nothing fails. This covers the overflow
  assertions of \<open>CScriptNum\<close>, those of the condition stack, of \<open>CheckMinimalPush\<close> and of \<open>SignatureHash\<close>, and
  \<open>assert(!stack.empty())\<close> before the P2SH evaluation.
\<close>

theorem VerifyScript_no_assertion_failure:
  assumes "flag (flags env) SCRIPT_VERIFY_CLEANSTACK \<Longrightarrow> flag (flags env) SCRIPT_VERIFY_P2SH"
  shows "(VerifyScript env script_sig script_pubkey = Inl (AssertFail m) \<longrightarrow> m \<in> checker_asserts (checker env))
    \<and> (checker env = BaseSignatureChecker \<or> (checker env = TransactionSignatureChecker e tx nIn \<and> unat nIn < length (vin tx))
       \<longrightarrow> VerifyScript env script_sig script_pubkey \<noteq> Inl (AssertFail m))"
  using safe_VerifyScript [OF assms order_refl, of script_sig script_pubkey] checker_asserts_empty(1)
    checker_asserts_empty(2) [of nIn tx e] by auto

theorem VerifyScript_no_assertion_failure_witness:
  "(let e = \<lparr>pubkey_verify = (\<lambda>_ _ _. False), CheckLowS = (\<lambda>_. True)\<rparr>;
        env = \<lparr>flags = 0x141, checker = TransactionSignatureChecker e sample_tx 0, ec = e\<rparr> in
     flag (flags env) SCRIPT_VERIFY_CLEANSTACK \<and> unat (0 :: u32) < length (vin sample_tx)
     \<and> (\<forall>m. VerifyScript env [0x01, 0x30, 0x21] [0xac] \<noteq> Inl (AssertFail m)))"
proof -
  let ?e = "\<lparr>pubkey_verify = (\<lambda>_ _ _. False), CheckLowS = (\<lambda>_. True)\<rparr>"
  let ?env = "\<lparr>flags = 0x141, checker = TransactionSignatureChecker ?e sample_tx 0, ec = ?e\<rparr>"
  have "flag 0x141 SCRIPT_VERIFY_CLEANSTACK" "flag 0x141 SCRIPT_VERIFY_P2SH" "unat (0 :: u32) < length (vin sample_tx)" by code_simp+
  then show ?thesis unfolding Let_def using VerifyScript_no_assertion_failure [of ?env _ _ _ ?e sample_tx 0] by simp
qed

text \<open>
  C37: the interpreter respects its resource limits: starting from a stack of elements of at most
  520 bytes, \<open>EvalScript\<close> that succeeds leaves only such elements and, unless the script is empty, at most 1000 of
  them, however many it was given; an empty script leaves the stack as it is.
\<close>

theorem EvalScript_limits:
  assumes "\<forall>x\<in>set stk. length x \<le> 520" "EvalScript env stk script = Inr stk'"
  shows "(\<forall>x\<in>set stk'. length x \<le> 520) \<and> (script \<noteq> [] \<longrightarrow> length stk' \<le> 1000) \<and> (script = [] \<longrightarrow> stk' = stk)"
proof -
  have "script = [] \<longrightarrow> stk' = stk"
    using assms(2) by (auto simp: EvalScript_def EvalScript_loop.simps [of env "[]"] eval_init_def split: if_splits)
  then show ?thesis
    using safe_EvalScript [of stk env UNIV script] assms by (auto simp: MAX_SCRIPT_ELEMENT_SIZE_def MAX_STACK_SIZE_def)
qed

theorem EvalScript_limits_witness:
  "(let env = base_env \<lparr>pubkey_verify = (\<lambda>_ _ _. False), CheckLowS = (\<lambda>_. True)\<rparr> 0 in
     (\<forall>x\<in>set [[1 :: byte]]. length x \<le> 520) \<and> EvalScript env [[1]] [0x76] = Inr [[1], [1]]
     \<and> length [[1 :: byte], [1]] \<le> 1000)"
proof -
  let ?env = "base_env \<lparr>pubkey_verify = (\<lambda>_ _ _. False), CheckLowS = (\<lambda>_. True)\<rparr> 0"
  have "EvalScript ?env [[1]] [0x76] = Inr [[1], [1]]" by code_simp
  then show ?thesis unfolding Let_def using EvalScript_limits [of "[[1]]" ?env "[0x76]" "[[1], [1]]"] by simp
qed

section \<open>The condition stack implements a stack of booleans\<close>

text \<open>
  The comment in front of \<open>ConditionStack\<close> says that it stands for a stack of booleans of which it
  keeps only the size and the position of the first \<open>false\<close>. \<open>cs_repr\<close> is that representation of a
  list of booleans, the top last.
\<close>

definition first_false :: "bool list \<Rightarrow> u32" where
  "first_false bs = (if False \<in> set bs then of_nat (length (takeWhile id bs)) else NO_FALSE)"

definition cs_repr :: "bool list \<Rightarrow> condition_stack" where
  "cs_repr bs = \<lparr>m_stack_size = of_nat (length bs), m_first_false_pos = first_false bs\<rparr>"

lemma of_nat_u32_eq:
  assumes "a < 2 ^ 32" "b < 2 ^ 32"
  shows "of_nat a = (of_nat b :: u32) \<longleftrightarrow> a = b"
  using assms by (simp add: word_of_nat_eq_iff take_bit_nat_eq_self)

lemma of_nat_u32_NO_FALSE:
  assumes "a < 2 ^ 32 - 1"
  shows "of_nat a \<noteq> NO_FALSE"
proof -
  have "NO_FALSE = of_nat (2 ^ 32 - 1)" by (simp add: NO_FALSE_def)
  then show ?thesis using of_nat_u32_eq [of a "2 ^ 32 - 1"] assms by simp
qed

lemma first_false_pos:
  "False \<in> set bs \<Longrightarrow> length (takeWhile id bs) < length bs"
  by (induction bs) auto

lemma first_false_NO_FALSE [simp]:
  assumes "length bs < 2 ^ 32"
  shows "first_false bs = NO_FALSE \<longleftrightarrow> False \<notin> set bs"
  using assms first_false_pos [of bs] of_nat_u32_NO_FALSE [of "length (takeWhile id bs)"]
  by (auto simp: first_false_def)

lemma first_false_all: "False \<notin> set bs \<Longrightarrow> first_false bs = NO_FALSE"
  by (simp add: first_false_def)

lemma first_false_snoc:
  "first_false (bs @ [f]) =
     (if False \<in> set bs then first_false bs else if f then NO_FALSE else of_nat (length bs))"
proof (cases "False \<in> set bs")
  case True
  then show ?thesis by (simp add: first_false_def takeWhile_append1)
next
  case False
  then have "takeWhile id bs = bs" by (metis (full_types) id_apply takeWhile_eq_all_conv)
  with False show ?thesis by (auto simp: first_false_def takeWhile_append)
qed

lemma first_false_not_top:
  assumes "False \<in> set bs" "length bs < 2 ^ 32"
  shows "first_false bs \<noteq> of_nat (length bs)"
  using assms first_false_pos [of bs] of_nat_u32_eq [of "length (takeWhile id bs)" "length bs"]
  by (simp add: first_false_def)

lemma cs_size_pos:
  assumes "length bs < 2 ^ 32 - 1"
  shows "0 < m_stack_size (cs_repr (bs @ [b]))" "m_stack_size (cs_repr (bs @ [b])) - 1 = of_nat (length bs)"
proof -
  have "of_nat (Suc (length bs)) \<noteq> (of_nat 0 :: u32)"
    using assms of_nat_u32_eq [of "Suc (length bs)" 0] by simp
  then show "0 < m_stack_size (cs_repr (bs @ [b]))"
    by (simp add: cs_repr_def word_gt_0)
qed (simp add: cs_repr_def)

lemma cs_repr_push:
  "length bs < 2 ^ 32 \<Longrightarrow> cs_push_back f (cs_repr bs) = cs_repr (bs @ [f])"
  by (simp add: cs_push_back_def cs_repr_def first_false_snoc)

lemma cs_repr_pop:
  assumes "length bs < 2 ^ 32 - 1"
  shows "cs_pop_back (cs_repr (bs @ [b])) = Inr (cs_repr bs)"
  using assms cs_size_pos [OF assms, of b] first_false_not_top [of bs]
  by (cases b; cases "False \<in> set bs")
    (simp_all add: cs_pop_back_def Let_def cs_repr_def first_false_snoc first_false_all)

lemma cs_repr_toggle:
  assumes "length bs < 2 ^ 32 - 1"
  shows "cs_toggle_top (cs_repr (bs @ [b])) = Inr (cs_repr (bs @ [\<not> b]))"
  using assms cs_size_pos [OF assms, of b] first_false_not_top [of bs] of_nat_u32_NO_FALSE [of "length bs"]
  by (cases b; cases "False \<in> set bs") (simp_all add: cs_toggle_top_def cs_repr_def first_false_snoc)

lemma cs_repr_empty: "length bs < 2 ^ 32 \<Longrightarrow> cs_empty (cs_repr bs) \<longleftrightarrow> bs = []"
  using of_nat_u32_eq [of "length bs" 0] by (simp add: cs_empty_def cs_repr_def)

text \<open>
  \<open>ConditionStack\<close>, which only stores the size and the position of the first \<open>false\<close>, refines a
  stack of booleans: on the representation of any list (shorter than the counters' range),
  \<open>push_back\<close>, \<open>pop_back\<close> and \<open>toggle_top\<close> give the representation of the list after the operation,
  and \<open>empty\<close> and \<open>all_true\<close> answer for the list. \<open>pop_back\<close> and \<open>toggle_top\<close> on the empty stack
  fail their assertion.
\<close>

lemma condition_stack_refines:
  assumes "length bs < 2 ^ 32 - 1"
  shows "cs_init = cs_repr []
    \<and> (cs_empty (cs_repr bs) \<longleftrightarrow> bs = [])
    \<and> (cs_all_true (cs_repr bs) \<longleftrightarrow> (\<forall>b\<in>set bs. b))
    \<and> cs_push_back f (cs_repr bs) = cs_repr (bs @ [f])
    \<and> cs_pop_back (cs_repr (bs @ [f])) = Inr (cs_repr bs)
    \<and> cs_toggle_top (cs_repr (bs @ [f])) = Inr (cs_repr (bs @ [\<not> f]))
    \<and> cs_pop_back (cs_repr []) = Inl (AssertFail ''m_stack_size > 0'')
    \<and> cs_toggle_top (cs_repr []) = Inl (AssertFail ''m_stack_size > 0'')"
proof -
  have "cs_all_true (cs_repr bs) \<longleftrightarrow> (\<forall>b\<in>set bs. b)"
    using assms by (simp add: cs_all_true_def cs_repr_def) (metis (full_types))
  then show ?thesis
    using assms cs_repr_empty [of bs] cs_repr_push [of bs f] cs_repr_pop [OF assms, of f] cs_repr_toggle [OF assms, of f]
    by (simp add: cs_init_def cs_repr_def first_false_def cs_pop_back_def cs_toggle_top_def)
qed

end
