(* ===== verification/Coins.thy ===== *)
theory Coins
  imports TxCheck Script "HOL-Library.AList"
begin

text \<open>
  The unspent transaction outputs (\<open>src/coins.h\<close>, \<open>src/coins.cpp\<close>): coins, the view interface
  \<open>CCoinsView\<close> as a record of operations with a contract (the locale \<open>coins_view\<close>), and the cache
  \<open>CCoinsViewCache\<close> over any view. The cache refines a map from outpoints to coins, and is itself a
  view, so that caches can be stacked.
\<close>

section \<open>Coins and cache entries\<close>

record coin =
  coin_out :: ctxout
  coin_fCoinBase :: bool
  coin_nHeight :: "31 word"

definition Coin :: "ctxout \<Rightarrow> int \<Rightarrow> bool \<Rightarrow> coin" where
  "Coin txout nHeightIn fCoinBaseIn =
     \<lparr>coin_out = txout, coin_fCoinBase = fCoinBaseIn, coin_nHeight = of_int nHeightIn\<rparr>"

definition coinEmpty :: coin where
  "coinEmpty = \<lparr>coin_out = CTxOut_SetNull, coin_fCoinBase = False, coin_nHeight = 0\<rparr>"

definition Coin_Clear :: "coin \<Rightarrow> coin" where
  "Coin_Clear cn = cn\<lparr>coin_out := CTxOut_SetNull, coin_fCoinBase := False, coin_nHeight := 0\<rparr>"

definition Coin_IsSpent :: "coin \<Rightarrow> bool" where
  "Coin_IsSpent cn \<longleftrightarrow> CTxOut_IsNull (coin_out cn)"

text \<open>The two bits of \<open>CCoinsCacheEntry::flags\<close> are two booleans: \<open>flags == 0\<close> is neither set.\<close>

record cache_entry =
  entry_coin :: coin
  DIRTY :: bool
  FRESH :: bool

text \<open>An \<open>unordered_map\<close>: an association list with distinct keys.\<close>

type_synonym CCoinsMap = "(coutpoint \<times> cache_entry) list"

section \<open>Views\<close>

text \<open>
  \<open>CCoinsView\<close>: the virtual operations, on a state of type \<open>'b\<close> (a cache changes when it is read).
  \<open>v_GetCoin\<close> returns the coin when the operation returns true. \<open>v_BatchWrite\<close> returns the result and the
  map it was given, after the call; it may throw.
\<close>

record 'b coins_view_ops =
  v_GetCoin :: "coutpoint \<Rightarrow> 'b \<Rightarrow> coin option \<times> 'b"
  v_GetBestBlock :: "'b \<Rightarrow> uint256 \<times> 'b"
  v_BatchWrite :: "CCoinsMap \<Rightarrow> uint256 \<Rightarrow> bool \<Rightarrow> 'b \<Rightarrow> (bool \<times> CCoinsMap \<times> 'b) res"

definition CCoinsView_ops :: "unit coins_view_ops" where
  "CCoinsView_ops =
     \<lparr>v_GetCoin = (\<lambda>p b. (None, b)), v_GetBestBlock = (\<lambda>b. (0, b)),
      v_BatchWrite = (\<lambda>m h er b. Inr (False, m, b))\<rparr>"

text \<open>\<open>CCoinsViewBacked\<close> passes every operation on to its base.\<close>

definition CCoinsViewBacked_ops :: "'b coins_view_ops \<Rightarrow> 'b coins_view_ops" where
  "CCoinsViewBacked_ops V =
     \<lparr>v_GetCoin = (\<lambda>p b. v_GetCoin V p b), v_GetBestBlock = (\<lambda>b. v_GetBestBlock V b),
      v_BatchWrite = (\<lambda>m h er b. v_BatchWrite V m h er b)\<rparr>"

section \<open>The cache\<close>

text \<open>
  \<open>CCoinsViewCache\<close>. \<open>mu\<close> is \<open>Coin::DynamicMemoryUsage\<close>, the size of the script's allocation, which the
  cache only adds up; \<open>V\<close> are the operations of the base view.
\<close>

record 'b coins_cache =
  cc_base :: 'b
  hashBlock :: uint256
  cacheCoins :: CCoinsMap
  cachedCoinsUsage :: u64

definition CCoinsViewCache :: "'b \<Rightarrow> 'b coins_cache" where
  "CCoinsViewCache b = \<lparr>cc_base = b, hashBlock = 0, cacheCoins = [], cachedCoinsUsage = 0\<rparr>"

definition FetchCoin ::
    "(coin \<Rightarrow> u64) \<Rightarrow> 'b coins_view_ops \<Rightarrow> coutpoint \<Rightarrow> 'b coins_cache \<Rightarrow> cache_entry option \<times> 'b coins_cache" where
  "FetchCoin mu V p c =
     (case map_of (cacheCoins c) p of
        Some e \<Rightarrow> (Some e, c)
      | None \<Rightarrow>
          (case v_GetCoin V p (cc_base c) of
             (None, b) \<Rightarrow> (None, c\<lparr>cc_base := b\<rparr>)
           | (Some tmp, b) \<Rightarrow>
               let e = \<lparr>entry_coin = tmp, DIRTY = False, FRESH = Coin_IsSpent tmp\<rparr> in
               (Some e, c\<lparr>cc_base := b, cacheCoins := AList.update p e (cacheCoins c),
                          cachedCoinsUsage := cachedCoinsUsage c + mu tmp\<rparr>)))"

definition cache_GetCoin ::
    "(coin \<Rightarrow> u64) \<Rightarrow> 'b coins_view_ops \<Rightarrow> coutpoint \<Rightarrow> 'b coins_cache \<Rightarrow> coin option \<times> 'b coins_cache" where
  "cache_GetCoin mu V p c =
     (case FetchCoin mu V p c of
        (Some e, c') \<Rightarrow> (if Coin_IsSpent (entry_coin e) then None else Some (entry_coin e), c')
      | (None, c') \<Rightarrow> (None, c'))"

definition cache_HaveCoin ::
    "(coin \<Rightarrow> u64) \<Rightarrow> 'b coins_view_ops \<Rightarrow> coutpoint \<Rightarrow> 'b coins_cache \<Rightarrow> bool \<times> 'b coins_cache" where
  "cache_HaveCoin mu V p c =
     (case FetchCoin mu V p c of
        (Some e, c') \<Rightarrow> (\<not> Coin_IsSpent (entry_coin e), c')
      | (None, c') \<Rightarrow> (False, c'))"

definition cache_HaveCoinInCache :: "coutpoint \<Rightarrow> 'b coins_cache \<Rightarrow> bool" where
  "cache_HaveCoinInCache p c =
     (case map_of (cacheCoins c) p of Some e \<Rightarrow> \<not> Coin_IsSpent (entry_coin e) | None \<Rightarrow> False)"

definition AccessCoin ::
    "(coin \<Rightarrow> u64) \<Rightarrow> 'b coins_view_ops \<Rightarrow> coutpoint \<Rightarrow> 'b coins_cache \<Rightarrow> coin \<times> 'b coins_cache" where
  "AccessCoin mu V p c =
     (case FetchCoin mu V p c of (Some e, c') \<Rightarrow> (entry_coin e, c') | (None, c') \<Rightarrow> (coinEmpty, c'))"

text \<open>
  \<open>AddCoin\<close> returns what it threw or asserted, if anything, and the cache as it is then. The entry
  that \<open>emplace\<close> creates holds an empty coin and no flags.
\<close>

definition new_entry :: cache_entry where
  "new_entry = \<lparr>entry_coin = coinEmpty, DIRTY = False, FRESH = False\<rparr>"

definition AddCoin ::
    "(coin \<Rightarrow> u64) \<Rightarrow> coutpoint \<Rightarrow> coin \<Rightarrow> bool \<Rightarrow> 'b coins_cache \<Rightarrow> string option \<times> 'b coins_cache" where
  "AddCoin mu p cn possible_overwrite c =
     (if Coin_IsSpent cn then (Some ''assert(!coin.IsSpent())'', c)
      else if IsUnspendable (scriptPubKey (coin_out cn)) then (None, c)
      else
        let it = (case map_of (cacheCoins c) p of Some e \<Rightarrow> e | None \<Rightarrow> new_entry);
            usage1 = (case map_of (cacheCoins c) p of
                        Some e \<Rightarrow> cachedCoinsUsage c - mu (entry_coin e) | None \<Rightarrow> cachedCoinsUsage c) in
        if \<not> possible_overwrite \<and> \<not> Coin_IsSpent (entry_coin it)
        then (Some ''Attempted to overwrite an unspent coin (when possible_overwrite is false)'',
              c\<lparr>cachedCoinsUsage := usage1\<rparr>)
        else
          let fresh = (\<not> possible_overwrite \<and> \<not> DIRTY it);
              e = \<lparr>entry_coin = cn, DIRTY = True, FRESH = FRESH it \<or> fresh\<rparr> in
          (None, c\<lparr>cacheCoins := AList.update p e (cacheCoins c), cachedCoinsUsage := usage1 + mu cn\<rparr>))"

definition EmplaceCoinInternalDANGER ::
    "(coin \<Rightarrow> u64) \<Rightarrow> coutpoint \<Rightarrow> coin \<Rightarrow> 'b coins_cache \<Rightarrow> 'b coins_cache" where
  "EmplaceCoinInternalDANGER mu p cn c =
     c\<lparr>cachedCoinsUsage := cachedCoinsUsage c + mu cn,
       cacheCoins :=
         (case map_of (cacheCoins c) p of
            Some e \<Rightarrow> cacheCoins c
          | None \<Rightarrow> AList.update p \<lparr>entry_coin = cn, DIRTY = True, FRESH = False\<rparr> (cacheCoins c))\<rparr>"

text \<open>\<open>SpendCoin\<close> returns its result and the coin moved out, when there is an entry.\<close>

definition SpendCoin ::
    "(coin \<Rightarrow> u64) \<Rightarrow> 'b coins_view_ops \<Rightarrow> coutpoint \<Rightarrow> 'b coins_cache \<Rightarrow> bool \<times> coin option \<times> 'b coins_cache" where
  "SpendCoin mu V p c =
     (case FetchCoin mu V p c of
        (None, c') \<Rightarrow> (False, None, c')
      | (Some e, c') \<Rightarrow>
          let c1 = c'\<lparr>cachedCoinsUsage := cachedCoinsUsage c' - mu (entry_coin e)\<rparr> in
          if FRESH e then (True, Some (entry_coin e), c1\<lparr>cacheCoins := AList.delete p (cacheCoins c1)\<rparr>)
          else (True, Some (entry_coin e),
                c1\<lparr>cacheCoins := AList.update p (e\<lparr>DIRTY := True, entry_coin := Coin_Clear (entry_coin e)\<rparr>)
                                   (cacheCoins c1)\<rparr>))"

definition cache_GetBestBlock :: "'b coins_view_ops \<Rightarrow> 'b coins_cache \<Rightarrow> uint256 \<times> 'b coins_cache" where
  "cache_GetBestBlock V c =
     (if hashBlock c = 0 then
        case v_GetBestBlock V (cc_base c) of (h, b) \<Rightarrow> (h, c\<lparr>cc_base := b, hashBlock := h\<rparr>)
      else (hashBlock c, c))"

definition SetBestBlock :: "uint256 \<Rightarrow> 'b coins_cache \<Rightarrow> 'b coins_cache" where
  "SetBestBlock h c = c\<lparr>hashBlock := h\<rparr>"

fun BatchWrite_loop :: "(coin \<Rightarrow> u64) \<Rightarrow> CCoinsMap \<Rightarrow> 'b coins_cache \<Rightarrow> 'b coins_cache res" where
  "BatchWrite_loop mu [] c = Inr c"
| "BatchWrite_loop mu ((p, e) # m) c =
     (if \<not> DIRTY e then BatchWrite_loop mu m c
      else
        case map_of (cacheCoins c) p of
          None \<Rightarrow>
            if FRESH e \<and> Coin_IsSpent (entry_coin e) then BatchWrite_loop mu m c
            else
              BatchWrite_loop mu m
                (c\<lparr>cacheCoins := AList.update p \<lparr>entry_coin = entry_coin e, DIRTY = True, FRESH = FRESH e\<rparr> (cacheCoins c),
                   cachedCoinsUsage := cachedCoinsUsage c + mu (entry_coin e)\<rparr>)
        | Some us \<Rightarrow>
            if FRESH e \<and> \<not> Coin_IsSpent (entry_coin us)
            then Inl ''FRESH flag misapplied to coin that exists in parent cache''
            else if FRESH us \<and> Coin_IsSpent (entry_coin e) then
              BatchWrite_loop mu m
                (c\<lparr>cacheCoins := AList.delete p (cacheCoins c),
                   cachedCoinsUsage := cachedCoinsUsage c - mu (entry_coin us)\<rparr>)
            else
              BatchWrite_loop mu m
                (c\<lparr>cacheCoins := AList.update p (us\<lparr>entry_coin := entry_coin e, DIRTY := True\<rparr>) (cacheCoins c),
                   cachedCoinsUsage := cachedCoinsUsage c - mu (entry_coin us) + mu (entry_coin e)\<rparr>))"

definition cache_BatchWrite ::
    "(coin \<Rightarrow> u64) \<Rightarrow> CCoinsMap \<Rightarrow> uint256 \<Rightarrow> bool \<Rightarrow> 'b coins_cache \<Rightarrow> (bool \<times> CCoinsMap \<times> 'b coins_cache) res" where
  "cache_BatchWrite mu m h er c =
     res_bind (BatchWrite_loop mu m c) (\<lambda>c'. Inr (True, if er then [] else m, c'\<lparr>hashBlock := h\<rparr>))"

definition Flush :: "'b coins_view_ops \<Rightarrow> 'b coins_cache \<Rightarrow> (bool \<times> 'b coins_cache) res" where
  "Flush V c =
     res_bind (v_BatchWrite V (cacheCoins c) (hashBlock c) True (cc_base c)) (\<lambda>(fOk, m, b).
       if fOk \<and> m \<noteq> [] then Inl ''Not all cached coins were erased''
       else Inr (fOk, c\<lparr>cc_base := b, cacheCoins := m, cachedCoinsUsage := 0\<rparr>))"

fun Sync_loop :: "(coin \<Rightarrow> u64) \<Rightarrow> CCoinsMap \<Rightarrow> u64 \<Rightarrow> CCoinsMap \<times> u64" where
  "Sync_loop mu [] usage = ([], usage)"
| "Sync_loop mu ((p, e) # m) usage =
     (if Coin_IsSpent (entry_coin e) then Sync_loop mu m (usage - mu (entry_coin e))
      else case Sync_loop mu m usage of (m', u) \<Rightarrow> ((p, e\<lparr>DIRTY := False, FRESH := False\<rparr>) # m', u))"

definition Sync :: "(coin \<Rightarrow> u64) \<Rightarrow> 'b coins_view_ops \<Rightarrow> 'b coins_cache \<Rightarrow> (bool \<times> 'b coins_cache) res" where
  "Sync mu V c =
     res_bind (v_BatchWrite V (cacheCoins c) (hashBlock c) False (cc_base c)) (\<lambda>(fOk, m, b).
       case Sync_loop mu m (cachedCoinsUsage c) of (m', u) \<Rightarrow>
         Inr (fOk, c\<lparr>cc_base := b, cacheCoins := m', cachedCoinsUsage := u\<rparr>))"

definition Uncache :: "(coin \<Rightarrow> u64) \<Rightarrow> coutpoint \<Rightarrow> 'b coins_cache \<Rightarrow> 'b coins_cache" where
  "Uncache mu p c =
     (case map_of (cacheCoins c) p of
        Some e \<Rightarrow>
          if \<not> DIRTY e \<and> \<not> FRESH e
          then c\<lparr>cacheCoins := AList.delete p (cacheCoins c),
                 cachedCoinsUsage := cachedCoinsUsage c - mu (entry_coin e)\<rparr>
          else c
      | None \<Rightarrow> c)"

definition GetCacheSize :: "'b coins_cache \<Rightarrow> nat" where
  "GetCacheSize c = length (cacheCoins c)"

fun HaveInputs_loop ::
    "(coin \<Rightarrow> u64) \<Rightarrow> 'b coins_view_ops \<Rightarrow> ctxin list \<Rightarrow> 'b coins_cache \<Rightarrow> bool \<times> 'b coins_cache" where
  "HaveInputs_loop mu V [] c = (True, c)"
| "HaveInputs_loop mu V (txin # ins) c =
     (case cache_HaveCoin mu V (prevout txin) c of
        (True, c') \<Rightarrow> HaveInputs_loop mu V ins c'
      | (False, c') \<Rightarrow> (False, c'))"

definition HaveInputs ::
    "(coin \<Rightarrow> u64) \<Rightarrow> 'b coins_view_ops \<Rightarrow> 'a mutable_transaction_scheme \<Rightarrow> 'b coins_cache \<Rightarrow> bool \<times> 'b coins_cache" where
  "HaveInputs mu V tx c = (if IsCoinBase tx then (True, c) else HaveInputs_loop mu V (vin tx) c)"

text \<open>\<open>SanityCheck\<close>: whether its assertions hold.\<close>

definition entry_attr_ok :: "cache_entry \<Rightarrow> bool" where
  "entry_attr_ok e \<longleftrightarrow>
     (let attr = (if DIRTY e then 1 else 0) + (if FRESH e then 2 else 0) + (if Coin_IsSpent (entry_coin e) then 4 else 0)
      in attr \<noteq> (2::nat) \<and> attr \<noteq> 4 \<and> attr \<noteq> 7)"

definition entries_usage :: "(coin \<Rightarrow> u64) \<Rightarrow> CCoinsMap \<Rightarrow> u64" where
  "entries_usage mu m = sum_list (map (\<lambda>(p, e). mu (entry_coin e)) m)"

definition SanityCheck :: "(coin \<Rightarrow> u64) \<Rightarrow> 'b coins_cache \<Rightarrow> bool" where
  "SanityCheck mu c \<longleftrightarrow> list_all (\<lambda>(p, e). entry_attr_ok e) (cacheCoins c)
     \<and> entries_usage mu (cacheCoins c) = cachedCoinsUsage c"

text \<open>\<open>AddCoins\<close>: the coins of all outputs of a transaction; it stops at the first throw.\<close>

fun AddCoins_loop ::
    "(coin \<Rightarrow> u64) \<Rightarrow> 'b coins_view_ops \<Rightarrow> uint256 \<Rightarrow> bool \<Rightarrow> int \<Rightarrow> bool \<Rightarrow> nat \<Rightarrow> ctxout list \<Rightarrow> 'b coins_cache
      \<Rightarrow> string option \<times> 'b coins_cache" where
  "AddCoins_loop mu V txid fCoinbase height check_for_overwrite i [] c = (None, c)"
| "AddCoins_loop mu V txid fCoinbase height check_for_overwrite i (txout # outs) c =
     (let p = \<lparr>op_hash = txid, op_n = of_nat i\<rparr>;
          (overwrite, c1) = (if check_for_overwrite then cache_HaveCoin mu V p c else (fCoinbase, c)) in
      case AddCoin mu p (Coin txout height fCoinbase) overwrite c1 of
        (None, c2) \<Rightarrow> AddCoins_loop mu V txid fCoinbase height check_for_overwrite (Suc i) outs c2
      | (Some e, c2) \<Rightarrow> (Some e, c2))"

definition AddCoins ::
    "(coin \<Rightarrow> u64) \<Rightarrow> 'b coins_view_ops \<Rightarrow> transaction \<Rightarrow> int \<Rightarrow> bool \<Rightarrow> 'b coins_cache \<Rightarrow> string option \<times> 'b coins_cache" where
  "AddCoins mu V tx height check_for_overwrite c =
     AddCoins_loop mu V (tx_hash tx) (IsCoinBase tx) height check_for_overwrite 0 (vout tx) c"

definition MAX_OUTPUTS_PER_BLOCK :: nat where
  "MAX_OUTPUTS_PER_BLOCK = MaxBlockSize True div length (CTxOut_Ser CTxOut_SetNull)"

function AccessByTxid_loop ::
    "(coin \<Rightarrow> u64) \<Rightarrow> 'b coins_view_ops \<Rightarrow> uint256 \<Rightarrow> nat \<Rightarrow> 'b coins_cache \<Rightarrow> coin \<times> 'b coins_cache" where
  "AccessByTxid_loop mu V txid n c =
     (if n < MAX_OUTPUTS_PER_BLOCK then
        case AccessCoin mu V \<lparr>op_hash = txid, op_n = of_nat n\<rparr> c of
          (alternate, c') \<Rightarrow>
            if \<not> Coin_IsSpent alternate then (alternate, c') else AccessByTxid_loop mu V txid (Suc n) c'
      else (coinEmpty, c))"
  by pat_completeness auto
termination
  by (relation "measure (\<lambda>(mu, V, txid, n, c). MAX_OUTPUTS_PER_BLOCK - n)") auto

declare AccessByTxid_loop.simps [simp del]

definition AccessByTxid ::
    "(coin \<Rightarrow> u64) \<Rightarrow> 'b coins_view_ops \<Rightarrow> uint256 \<Rightarrow> 'b coins_cache \<Rightarrow> coin \<times> 'b coins_cache" where
  "AccessByTxid mu V txid c = AccessByTxid_loop mu V txid 0 c"

text \<open>The cache as a view of its own.\<close>

definition cache_ops :: "(coin \<Rightarrow> u64) \<Rightarrow> 'b coins_view_ops \<Rightarrow> 'b coins_cache coins_view_ops" where
  "cache_ops mu V =
     \<lparr>v_GetCoin = cache_GetCoin mu V, v_GetBestBlock = cache_GetBestBlock V, v_BatchWrite = cache_BatchWrite mu\<rparr>"

section \<open>The contract of a view\<close>

text \<open>
  The abstract state of a view is its set of unspent coins, a map \<open>u\<close> from outpoints to coins.
  \<open>apply_changes\<close> is what the dirty entries of a map do to it. A map may be written to a view when its
  keys are distinct and an entry marked \<open>FRESH\<close> has no unspent coin in the view, as the comment in
  front of \<open>FRESH\<close> demands.
\<close>

type_synonym utxos = "coutpoint \<Rightarrow> coin option"

definition entry_abs :: "cache_entry \<Rightarrow> coin option" where
  "entry_abs e = (if Coin_IsSpent (entry_coin e) then None else Some (entry_coin e))"

definition apply_changes :: "CCoinsMap \<Rightarrow> utxos \<Rightarrow> utxos" where
  "apply_changes m u = (\<lambda>p. case map_of m p of Some e \<Rightarrow> if DIRTY e then entry_abs e else u p | None \<Rightarrow> u p)"

definition changes_ok :: "utxos \<Rightarrow> CCoinsMap \<Rightarrow> bool" where
  "changes_ok u m \<longleftrightarrow> distinct (map fst m) \<and> (\<forall>p e. map_of m p = Some e \<longrightarrow> FRESH e \<longrightarrow> u p = None)"

locale coins_view =
  fixes V :: "'b coins_view_ops"
    and utxo :: "'b \<Rightarrow> utxos"
    and best :: "'b \<Rightarrow> uint256"
    and vinv :: "'b \<Rightarrow> bool"
  assumes GetCoin_law: "vinv b \<Longrightarrow> v_GetCoin V p b = (r, b') \<Longrightarrow>
      r = utxo b p \<and> vinv b' \<and> utxo b' = utxo b \<and> best b' = best b"
    and unspent_law: "vinv b \<Longrightarrow> utxo b p = Some cn \<Longrightarrow> \<not> Coin_IsSpent cn"
    and GetBestBlock_law: "vinv b \<Longrightarrow> v_GetBestBlock V b = (h, b') \<Longrightarrow>
      h = best b \<and> vinv b' \<and> utxo b' = utxo b \<and> best b' = best b"
    and BatchWrite_law: "vinv b \<Longrightarrow> changes_ok (utxo b) m \<Longrightarrow>
      \<exists>ok m' b'. v_BatchWrite V m h er b = Inr (ok, m', b')
        \<and> (ok \<longrightarrow> m' = (if er then [] else m) \<and> vinv b' \<and> utxo b' = apply_changes m (utxo b)
             \<and> (h \<noteq> 0 \<longrightarrow> best b' = h))"

text \<open>
  The abstract state of a cache over a view, its best block, and what has to hold of its entries:
  the combinations of flags the comment in front of \<open>CCoinsCacheEntry\<close> allows, no unspent coin in
  the base under a \<open>FRESH\<close> entry, and agreement with the base for an entry that is not \<open>DIRTY\<close>.
\<close>

definition cache_utxo :: "('b \<Rightarrow> utxos) \<Rightarrow> 'b coins_cache \<Rightarrow> utxos" where
  "cache_utxo utxo c =
     (\<lambda>p. case map_of (cacheCoins c) p of Some e \<Rightarrow> entry_abs e | None \<Rightarrow> utxo (cc_base c) p)"

definition cache_best :: "('b \<Rightarrow> uint256) \<Rightarrow> 'b coins_cache \<Rightarrow> uint256" where
  "cache_best best c = (if hashBlock c = 0 then best (cc_base c) else hashBlock c)"

definition entry_inv :: "coin option \<Rightarrow> cache_entry \<Rightarrow> bool" where
  "entry_inv below e \<longleftrightarrow> entry_attr_ok e \<and> (FRESH e \<longrightarrow> below = None) \<and> (\<not> DIRTY e \<longrightarrow> below = entry_abs e)"

definition cache_inv :: "('b \<Rightarrow> utxos) \<Rightarrow> ('b \<Rightarrow> bool) \<Rightarrow> 'b coins_cache \<Rightarrow> bool" where
  "cache_inv utxo vinv c \<longleftrightarrow> vinv (cc_base c) \<and> distinct (map fst (cacheCoins c))
     \<and> (\<forall>p e. map_of (cacheCoins c) p = Some e \<longrightarrow> entry_inv (utxo (cc_base c) p) e)"

section \<open>Lemmas on entries and maps\<close>

lemma entry_attr_ok_iff:
  "entry_attr_ok e \<longleftrightarrow>
     (if Coin_IsSpent (entry_coin e) then DIRTY e \<noteq> FRESH e else FRESH e \<longrightarrow> DIRTY e)"
  by (auto simp: entry_attr_ok_def Let_def)

lemma Coin_IsSpent_Clear [simp]: "Coin_IsSpent (Coin_Clear cn)" "Coin_IsSpent coinEmpty"
  by (simp_all add: Coin_IsSpent_def Coin_Clear_def coinEmpty_def CTxOut_IsNull_def CTxOut_SetNull_def)

lemma Coin_Clear_coinEmpty: "Coin_Clear cn = coinEmpty"
  by (simp add: Coin_Clear_def coinEmpty_def)

lemma cache_invD:
  assumes "cache_inv utxo vinv c"
  shows "vinv (cc_base c)" "distinct (map fst (cacheCoins c))"
    "map_of (cacheCoins c) p = Some e \<Longrightarrow> entry_inv (utxo (cc_base c) p) e"
  using assms by (auto simp: cache_inv_def)

lemma map_of_update [simp]: "map_of (AList.update k v m) = (map_of m)(k \<mapsto> v)"
  by (rule update_conv')

lemma map_of_delete [simp]: "map_of (AList.delete k m) = (map_of m)(k := None)"
  by (rule delete_conv')

lemma cache_inv_update:
  assumes "cache_inv utxo vinv c" "entry_inv (utxo (cc_base c) p) e"
  shows "cache_inv utxo vinv (c\<lparr>cacheCoins := AList.update p e (cacheCoins c), cachedCoinsUsage := x\<rparr>)"
  using assms by (auto simp: cache_inv_def distinct_update)

lemma cache_inv_delete:
  assumes "cache_inv utxo vinv c"
  shows "cache_inv utxo vinv (c\<lparr>cacheCoins := AList.delete p (cacheCoins c), cachedCoinsUsage := x\<rparr>)"
  using assms by (auto simp: cache_inv_def distinct_delete)

lemma cache_utxo_update [simp]:
  "m = cacheCoins c \<Longrightarrow> cache_utxo utxo (c\<lparr>cacheCoins := AList.update p e m, cachedCoinsUsage := x\<rparr>)
     = (cache_utxo utxo c)(p := entry_abs e)"
  by (rule ext) (simp add: cache_utxo_def split: option.split)

lemma cache_utxo_delete [simp]:
  "m = cacheCoins c \<Longrightarrow> cache_utxo utxo (c\<lparr>cacheCoins := AList.delete p m, cachedCoinsUsage := x\<rparr>)
     = (cache_utxo utxo c)(p := utxo (cc_base c) p)"
  by (rule ext) (simp add: cache_utxo_def split: option.split)

lemma cache_best_entries [simp]:
  "cache_best best (c\<lparr>cacheCoins := m, cachedCoinsUsage := x\<rparr>) = cache_best best c"
  by (simp add: cache_best_def)

lemma cache_inv_base:
  assumes "cache_inv utxo vinv c" "vinv b" "utxo b = utxo (cc_base c)"
  shows "cache_inv utxo vinv (c\<lparr>cc_base := b\<rparr>)"
  using assms by (simp add: cache_inv_def)

lemma apply_changes_nil [simp]: "apply_changes [] u = u"
  by (simp add: apply_changes_def)

lemma apply_changes_Cons:
  "p \<notin> fst ` set m \<Longrightarrow> apply_changes ((p, e) # m) u = apply_changes m (if DIRTY e then u(p := entry_abs e) else u)"
proof (rule ext)
  fix q
  assume "p \<notin> fst ` set m"
  then have "map_of m p = None" by (simp add: map_of_eq_None_iff)
  then show "apply_changes ((p, e) # m) u q = apply_changes m (if DIRTY e then u(p := entry_abs e) else u) q"
    by (auto simp: apply_changes_def split: option.split)
qed

lemma changes_ok_Cons:
  "changes_ok u ((p, e) # m) \<Longrightarrow> changes_ok u m" "changes_ok u ((p, e) # m) \<Longrightarrow> changes_ok (u(p := x)) m"
proof -
  assume ok: "changes_ok u ((p, e) # m)"
  then have "map_of m p = None" by (simp add: changes_ok_def map_of_eq_None_iff)
  then have "q \<noteq> p \<and> map_of ((p, e) # m) q = Some ea" if "map_of m q = Some ea" for q ea using that by auto
  with ok show "changes_ok u m" "changes_ok (u(p := x)) m"
    unfolding changes_ok_def by (simp_all del: map_of.simps)
qed

text \<open>What the entries of a cache are worth to the view below: exactly its changes.\<close>

lemma cache_changes_ok: "cache_inv utxo vinv c \<Longrightarrow> changes_ok (utxo (cc_base c)) (cacheCoins c)"
  by (auto simp: cache_inv_def changes_ok_def entry_inv_def)

lemma cache_changes_abs:
  "cache_inv utxo vinv c \<Longrightarrow> apply_changes (cacheCoins c) (utxo (cc_base c)) = cache_utxo utxo c"
  by (rule ext) (auto simp: apply_changes_def cache_utxo_def cache_inv_def entry_inv_def split: option.split)

section \<open>The cache over a view\<close>

context coins_view
begin

lemma cache_utxo_unspent:
  "cache_inv utxo vinv c \<Longrightarrow> cache_utxo utxo c p = Some cn \<Longrightarrow> \<not> Coin_IsSpent cn"
  by (auto simp: cache_utxo_def entry_abs_def cache_inv_def dest: unspent_law split: option.splits if_splits)

lemma FetchCoin_refines:
  assumes inv: "cache_inv utxo vinv c" and f: "FetchCoin mu V p c = (r, c')"
  shows "cache_inv utxo vinv c'" "cache_utxo utxo c' = cache_utxo utxo c"
    "cache_best best c' = cache_best best c" "map_of (cacheCoins c') p = r"
    "cache_utxo utxo c p = Option.bind r entry_abs"
proof -
  have "cache_inv utxo vinv c' \<and> cache_utxo utxo c' = cache_utxo utxo c \<and> cache_best best c' = cache_best best c
      \<and> map_of (cacheCoins c') p = r \<and> cache_utxo utxo c p = Option.bind r entry_abs"
  proof (cases "map_of (cacheCoins c) p")
    case (Some e)
    with inv f show ?thesis by (auto simp: FetchCoin_def cache_utxo_def split: option.split)
  next
    case None
    obtain r1 b where g: "v_GetCoin V p (cc_base c) = (r1, b)" by fastforce
    have b: "r1 = utxo (cc_base c) p" "vinv b" "utxo b = utxo (cc_base c)" "best b = best (cc_base c)"
      using GetCoin_law [OF cache_invD(1) [OF inv] g] by auto
    let ?c = "c\<lparr>cc_base := b\<rparr>"
    have c: "cache_inv utxo vinv ?c" "cache_utxo utxo ?c = cache_utxo utxo c"
      using cache_inv_base [OF inv b(2,3)] b(3) by (simp_all add: cache_utxo_def cong: option.case_cong)
    show ?thesis
    proof (cases r1)
      case None
      with \<open>map_of (cacheCoins c) p = None\<close> f g have "c' = ?c" "r = None"
        by (auto simp: FetchCoin_def)
      moreover have "cache_utxo utxo c p = None"
        using \<open>map_of (cacheCoins c) p = None\<close> None b(1) by (simp add: cache_utxo_def)
      ultimately show ?thesis using \<open>map_of (cacheCoins c) p = None\<close> b(4) c by (simp add: cache_best_def)
    next
      case (Some cn)
      let ?e = "\<lparr>entry_coin = cn, DIRTY = False, FRESH = Coin_IsSpent cn\<rparr>"
      have uns: "\<not> Coin_IsSpent cn" using unspent_law [OF cache_invD(1) [OF inv], of p cn] b(1) Some by simp
      have abs: "cache_utxo utxo c p = entry_abs ?e"
        using None uns b(1) Some by (simp add: cache_utxo_def entry_abs_def)
      have c': "c' = ?c\<lparr>cacheCoins := AList.update p ?e (cacheCoins ?c), cachedCoinsUsage := cachedCoinsUsage c + mu cn\<rparr>"
        and r: "r = Some ?e"
        using f g None Some by (auto simp: FetchCoin_def Let_def)
      have "entry_inv (utxo (cc_base ?c) p) ?e"
        using uns b Some by (simp add: entry_inv_def entry_attr_ok_iff entry_abs_def)
      with c' r c abs b(4) show ?thesis
        using cache_inv_update [OF c(1), of p ?e] by (simp add: cache_best_def fun_upd_idem)
    qed
  qed
  then show "cache_inv utxo vinv c'" "cache_utxo utxo c' = cache_utxo utxo c"
    "cache_best best c' = cache_best best c" "map_of (cacheCoins c') p = r"
    "cache_utxo utxo c p = Option.bind r entry_abs" by simp_all
qed

lemma cache_GetCoin_refines:
  assumes "cache_inv utxo vinv c" "cache_GetCoin mu V p c = (r, c')"
  shows "r = cache_utxo utxo c p \<and> cache_inv utxo vinv c' \<and> cache_utxo utxo c' = cache_utxo utxo c
    \<and> cache_best best c' = cache_best best c"
proof -
  obtain r1 c1 where f: "FetchCoin mu V p c = (r1, c1)" by fastforce
  with FetchCoin_refines [OF assms(1) f] assms(2) show ?thesis
    by (cases r1) (auto simp: cache_GetCoin_def entry_abs_def)
qed

lemma cache_HaveCoin_refines:
  assumes "cache_inv utxo vinv c" "cache_HaveCoin mu V p c = (r, c')"
  shows "r = (cache_utxo utxo c p \<noteq> None) \<and> cache_inv utxo vinv c' \<and> cache_utxo utxo c' = cache_utxo utxo c
    \<and> cache_best best c' = cache_best best c"
proof -
  obtain r1 c1 where f: "FetchCoin mu V p c = (r1, c1)" by fastforce
  with FetchCoin_refines [OF assms(1) f] assms(2) show ?thesis
    by (cases r1) (auto simp: cache_HaveCoin_def entry_abs_def)
qed

lemma AccessCoin_refines:
  assumes "cache_inv utxo vinv c" "AccessCoin mu V p c = (r, c')"
  shows "cache_utxo utxo c p = (if Coin_IsSpent r then None else Some r) \<and> cache_inv utxo vinv c'
    \<and> cache_utxo utxo c' = cache_utxo utxo c \<and> cache_best best c' = cache_best best c"
proof -
  obtain r1 c1 where f: "FetchCoin mu V p c = (r1, c1)" by fastforce
  with FetchCoin_refines [OF assms(1) f] assms(2) show ?thesis
    by (cases r1) (auto simp: AccessCoin_def entry_abs_def)
qed

lemma AddCoin_refines:
  assumes inv: "cache_inv utxo vinv c" and cn: "\<not> Coin_IsSpent cn" "\<not> IsUnspendable (scriptPubKey (coin_out cn))"
    and ow: "ow \<or> cache_utxo utxo c p = None"
  shows "\<exists>c'. AddCoin mu p cn ow c = (None, c') \<and> cache_inv utxo vinv c'
    \<and> cache_utxo utxo c' = (cache_utxo utxo c)(p \<mapsto> cn) \<and> cache_best best c' = cache_best best c"
proof -
  define it where "it = (case map_of (cacheCoins c) p of Some e \<Rightarrow> e | None \<Rightarrow> new_entry)"
  define e where "e = \<lparr>entry_coin = cn, DIRTY = True, FRESH = FRESH it \<or> (\<not> ow \<and> \<not> DIRTY it)\<rparr>"
  have spent: "\<not> ow \<Longrightarrow> Coin_IsSpent (entry_coin it)"
    using ow by (auto simp: it_def new_entry_def cache_utxo_def entry_abs_def split: option.splits if_splits)
  have "FRESH e \<Longrightarrow> utxo (cc_base c) p = None"
    using ow cache_invD(3) [OF inv, of p it] spent
    by (auto simp: e_def it_def new_entry_def cache_utxo_def entry_inv_def entry_abs_def split: option.splits if_splits)
  then have e: "entry_inv (utxo (cc_base c) p) e" "entry_abs e = Some cn"
    using cn by (auto simp: e_def entry_inv_def entry_attr_ok_iff entry_abs_def)
  obtain x where "AddCoin mu p cn ow c = (None, c\<lparr>cacheCoins := AList.update p e (cacheCoins c), cachedCoinsUsage := x\<rparr>)"
    using cn spent by (cases ow) (simp_all add: AddCoin_def Let_def it_def [symmetric] e_def)
  with e show ?thesis using cache_inv_update [OF inv e(1)] by (simp add: cache_best_def)
qed

lemma SpendCoin_refines:
  assumes inv: "cache_inv utxo vinv c" and sp: "SpendCoin mu V p c = (ok, moved, c')"
  shows "cache_inv utxo vinv c' \<and> cache_utxo utxo c' = (cache_utxo utxo c)(p := None)
    \<and> cache_best best c' = cache_best best c
    \<and> cache_utxo utxo c p = (case moved of Some cn \<Rightarrow> if Coin_IsSpent cn then None else Some cn | None \<Rightarrow> None)
    \<and> ok = (moved \<noteq> None)"
proof -
  obtain r1 c1 where f: "FetchCoin mu V p c = (r1, c1)" by fastforce
  note F = FetchCoin_refines [OF inv f]
  show ?thesis
  proof (cases r1)
    case None
    with sp f F show ?thesis by (auto simp: SpendCoin_def fun_upd_idem)
  next
    case (Some e)
    let ?x = "cachedCoinsUsage c1 - mu (entry_coin e)"
    have e: "entry_inv (utxo (cc_base c1) p) e" using cache_invD(3) [OF F(1)] F(4) Some by simp
    have res: "ok" "moved = Some (entry_coin e)" "cache_utxo utxo c p = entry_abs e"
      using sp f Some F(5) by (auto simp: SpendCoin_def Let_def split: if_splits)
    show ?thesis
    proof (cases "FRESH e")
      case True
      then have "c' = c1\<lparr>cacheCoins := AList.delete p (cacheCoins c1), cachedCoinsUsage := ?x\<rparr>"
        using sp f Some by (auto simp: SpendCoin_def)
      moreover have "utxo (cc_base c1) p = None" using e True by (simp add: entry_inv_def)
      ultimately show ?thesis
        using res F(2,3) cache_inv_delete [OF F(1)] by (simp add: entry_abs_def)
    next
      case False
      let ?e = "e\<lparr>DIRTY := True, entry_coin := Coin_Clear (entry_coin e)\<rparr>"
      have "entry_inv (utxo (cc_base c1) p) ?e" "entry_abs ?e = None"
        using False by (simp_all add: entry_inv_def entry_attr_ok_iff entry_abs_def)
      moreover have "c' = c1\<lparr>cacheCoins := AList.update p ?e (cacheCoins c1), cachedCoinsUsage := ?x\<rparr>"
        using sp f Some False by (auto simp: SpendCoin_def)
      ultimately show ?thesis
        using res F(2,3) cache_inv_update [OF F(1), of p ?e] by (simp add: entry_abs_def)
    qed
  qed
qed

lemma Uncache_refines:
  assumes "cache_inv utxo vinv c"
  shows "cache_inv utxo vinv (Uncache mu p c) \<and> cache_utxo utxo (Uncache mu p c) = cache_utxo utxo c
    \<and> cache_best best (Uncache mu p c) = cache_best best c"
proof (cases "map_of (cacheCoins c) p")
  case (Some e)
  with assms cache_invD(3) [OF assms Some] cache_inv_delete [OF assms] show ?thesis
    by (simp add: Uncache_def entry_inv_def cache_best_def) (simp add: cache_utxo_def fun_upd_idem)
qed (simp add: Uncache_def assms)

lemma cache_GetBestBlock_refines:
  assumes "cache_inv utxo vinv c" "cache_GetBestBlock V c = (h, c')"
  shows "h = cache_best best c \<and> cache_inv utxo vinv c' \<and> cache_utxo utxo c' = cache_utxo utxo c
    \<and> cache_best best c' = cache_best best c"
proof (cases "hashBlock c = 0")
  case True
  obtain h' b where g: "v_GetBestBlock V (cc_base c) = (h', b)" by fastforce
  have b: "h' = best (cc_base c)" "vinv b" "utxo b = utxo (cc_base c)" "best b = best (cc_base c)"
    using GetBestBlock_law [OF cache_invD(1) [OF assms(1)] g] by auto
  have "h = h'" "c' = c\<lparr>cc_base := b, hashBlock := h'\<rparr>"
    using True g assms(2) by (auto simp: cache_GetBestBlock_def)
  with b True assms(1) show ?thesis
    by (simp add: cache_best_def cache_inv_def) (simp add: cache_utxo_def cong: option.case_cong)
qed (use assms in \<open>auto simp: cache_GetBestBlock_def cache_best_def\<close>)

lemma BatchWrite_step:
  assumes inv: "cache_inv utxo vinv c" and fr: "FRESH e \<longrightarrow> cache_utxo utxo c p = None"
  shows "\<exists>c1. (\<forall>m. BatchWrite_loop mu ((p, e) # m) c = BatchWrite_loop mu m c1) \<and> cache_inv utxo vinv c1
    \<and> cache_utxo utxo c1 = (if DIRTY e then (cache_utxo utxo c)(p := entry_abs e) else cache_utxo utxo c)
    \<and> hashBlock c1 = hashBlock c \<and> cc_base c1 = cc_base c"
proof (cases "DIRTY e")
  case True
  show ?thesis
  proof (cases "map_of (cacheCoins c) p")
    case None
    then have u: "cache_utxo utxo c p = utxo (cc_base c) p" by (simp add: cache_utxo_def)
    show ?thesis
    proof (cases "FRESH e \<and> Coin_IsSpent (entry_coin e)")
      case skip: True
      with fr have "(cache_utxo utxo c)(p := entry_abs e) = cache_utxo utxo c"
        by (simp add: entry_abs_def fun_upd_idem)
      with skip None inv \<open>DIRTY e\<close> show ?thesis by (intro exI [of _ c]) simp
    next
      case False
      let ?e = "\<lparr>entry_coin = entry_coin e, DIRTY = True, FRESH = FRESH e\<rparr>"
      have "entry_inv (utxo (cc_base c) p) ?e" "entry_abs ?e = entry_abs e"
        using False fr u by (auto simp: entry_inv_def entry_attr_ok_iff entry_abs_def)
      with False None \<open>DIRTY e\<close> show ?thesis
        by (intro exI [of _ "c\<lparr>cacheCoins := AList.update p ?e (cacheCoins c),
              cachedCoinsUsage := cachedCoinsUsage c + mu (entry_coin e)\<rparr>"]) (auto simp: cache_inv_update [OF inv])
    qed
  next
    case (Some us)
    then have u: "cache_utxo utxo c p = entry_abs us" by (simp add: cache_utxo_def)
    have us: "entry_inv (utxo (cc_base c) p) us" by (rule cache_invD(3) [OF inv Some])
    have ok: "\<not> (FRESH e \<and> \<not> Coin_IsSpent (entry_coin us))" using fr u by (simp add: entry_abs_def split: if_splits)
    show ?thesis
    proof (cases "FRESH us \<and> Coin_IsSpent (entry_coin e)")
      case del: True
      with us have "utxo (cc_base c) p = entry_abs e" by (simp add: entry_inv_def entry_abs_def)
      with del ok Some \<open>DIRTY e\<close> show ?thesis
        by (intro exI [of _ "c\<lparr>cacheCoins := AList.delete p (cacheCoins c),
              cachedCoinsUsage := cachedCoinsUsage c - mu (entry_coin us)\<rparr>"]) (auto simp: cache_inv_delete [OF inv])
    next
      case False
      let ?e = "us\<lparr>entry_coin := entry_coin e, DIRTY := True\<rparr>"
      have "entry_inv (utxo (cc_base c) p) ?e" "entry_abs ?e = entry_abs e"
        using False us by (auto simp: entry_inv_def entry_attr_ok_iff entry_abs_def)
      with False ok Some \<open>DIRTY e\<close> show ?thesis
        by (intro exI [of _ "c\<lparr>cacheCoins := AList.update p ?e (cacheCoins c), cachedCoinsUsage :=
              cachedCoinsUsage c - mu (entry_coin us) + mu (entry_coin e)\<rparr>"]) (auto simp: cache_inv_update [OF inv])
    qed
  qed
qed (use inv in auto)

lemma BatchWrite_loop_refines:
  assumes "cache_inv utxo vinv c" "changes_ok (cache_utxo utxo c) m"
  shows "\<exists>c'. BatchWrite_loop mu m c = Inr c' \<and> cache_inv utxo vinv c'
    \<and> cache_utxo utxo c' = apply_changes m (cache_utxo utxo c) \<and> hashBlock c' = hashBlock c \<and> cc_base c' = cc_base c"
  using assms
proof (induction m arbitrary: c)
  case (Cons pe m)
  obtain p e where pe: "pe = (p, e)" by fastforce
  let ?u = "cache_utxo utxo c"
  have fr: "FRESH e \<longrightarrow> ?u p = None" using Cons.prems(2) by (auto simp: pe changes_ok_def)
  from BatchWrite_step [OF Cons.prems(1) fr, of mu] obtain c1 where
    step: "\<forall>m. BatchWrite_loop mu ((p, e) # m) c = BatchWrite_loop mu m c1" and inv1: "cache_inv utxo vinv c1"
    and u1: "cache_utxo utxo c1 = (if DIRTY e then ?u(p := entry_abs e) else ?u)"
    and same1: "hashBlock c1 = hashBlock c" "cc_base c1 = cc_base c" by blast
  have "changes_ok (cache_utxo utxo c1) m"
    using Cons.prems(2) unfolding pe u1 by (cases "DIRTY e") (simp_all add: changes_ok_Cons)
  from Cons.IH [OF inv1 this] obtain c' where c': "BatchWrite_loop mu m c1 = Inr c'" "cache_inv utxo vinv c'"
    "cache_utxo utxo c' = apply_changes m (cache_utxo utxo c1)" "hashBlock c' = hashBlock c1" "cc_base c' = cc_base c1" by blast
  have "p \<notin> fst ` set m" using Cons.prems(2) by (simp add: pe changes_ok_def)
  then have "cache_utxo utxo c' = apply_changes (pe # m) ?u" unfolding c'(3) u1 pe by (rule apply_changes_Cons [symmetric])
  moreover have "BatchWrite_loop mu (pe # m) c = Inr c'" unfolding pe by (simp only: step [rule_format] c'(1))
  ultimately show ?case using c'(2,4,5) same1 by (intro exI [of _ c']) (simp only: simp_thms)
qed simp

lemma cache_best_BatchWrite: "h \<noteq> 0 \<Longrightarrow> cache_best best (c\<lparr>hashBlock := h\<rparr>) = h"
  by (simp add: cache_best_def)

text \<open>The contract holds of the cache again: caches can be stacked.\<close>

lemma cache_is_view: "coins_view (cache_ops mu V) (cache_utxo utxo) (cache_best best) (cache_inv utxo vinv)"
proof
  fix b m h er
  assume "cache_inv utxo vinv b" "changes_ok (cache_utxo utxo b) m"
  from BatchWrite_loop_refines [OF this, of mu] obtain c where
    c: "BatchWrite_loop mu m b = Inr c" "cache_inv utxo vinv c" "cache_utxo utxo c = apply_changes m (cache_utxo utxo b)" by auto
  have "cache_inv utxo vinv (c\<lparr>hashBlock := h\<rparr>)" "cache_utxo utxo (c\<lparr>hashBlock := h\<rparr>) = cache_utxo utxo c"
    using c(2) by (simp_all add: cache_inv_def cache_utxo_def cong: option.case_cong)
  with c show "\<exists>ok m' b'. v_BatchWrite (cache_ops mu V) m h er b = Inr (ok, m', b')
      \<and> (ok \<longrightarrow> m' = (if er then [] else m) \<and> cache_inv utxo vinv b' \<and> cache_utxo utxo b' = apply_changes m (cache_utxo utxo b)
           \<and> (h \<noteq> 0 \<longrightarrow> cache_best best b' = h))"
    by (auto simp: cache_ops_def cache_BatchWrite_def cache_best_BatchWrite)
qed (auto simp: cache_ops_def dest: cache_GetCoin_refines cache_GetBestBlock_refines cache_utxo_unspent)

lemma Flush_refines:
  assumes inv: "cache_inv utxo vinv c"
  shows "\<exists>ok c'. Flush V c = Inr (ok, c') \<and> (ok \<longrightarrow> cacheCoins c' = [] \<and> cache_inv utxo vinv c'
    \<and> cache_utxo utxo c' = cache_utxo utxo c \<and> utxo (cc_base c') = cache_utxo utxo c
    \<and> (hashBlock c \<noteq> 0 \<longrightarrow> best (cc_base c') = hashBlock c))"
proof -
  obtain ok m b where bw: "v_BatchWrite V (cacheCoins c) (hashBlock c) True (cc_base c) = Inr (ok, m, b)"
    and ok: "ok \<longrightarrow> m = [] \<and> vinv b \<and> utxo b = cache_utxo utxo c \<and> (hashBlock c \<noteq> 0 \<longrightarrow> best b = hashBlock c)"
    using BatchWrite_law [OF cache_invD(1) [OF inv] cache_changes_ok [OF inv], of "hashBlock c" True]
    by (auto simp: cache_changes_abs [OF inv])
  let ?c = "c\<lparr>cc_base := b, cacheCoins := m, cachedCoinsUsage := 0\<rparr>"
  have "Flush V c = Inr (ok, ?c)" using bw ok by (simp add: Flush_def)
  then show ?thesis using ok by (intro exI [of _ ok] exI [of _ ?c]) (auto simp: cache_inv_def cache_utxo_def)
qed

lemma Sync_loop_result:
  "fst (Sync_loop mu m usage) =
     map (\<lambda>(p, e). (p, e\<lparr>DIRTY := False, FRESH := False\<rparr>)) (filter (\<lambda>(p, e). \<not> Coin_IsSpent (entry_coin e)) m)"
  by (induction mu m usage rule: Sync_loop.induct) (auto split: prod.split)

lemma synced_lookup:
  assumes "distinct (map fst m)"
  shows "map_of (fst (Sync_loop mu m usage)) p =
    (case map_of m p of
       Some e \<Rightarrow> if Coin_IsSpent (entry_coin e) then None else Some (e\<lparr>DIRTY := False, FRESH := False\<rparr>)
     | None \<Rightarrow> None)"
  using assms unfolding Sync_loop_result
  by (induction m) (auto simp: map_of_eq_None_iff [symmetric] split: option.splits)

lemma synced_distinct: "distinct (map fst m) \<Longrightarrow> distinct (map fst (fst (Sync_loop mu m usage)))"
  unfolding Sync_loop_result by (induction m) (auto simp: image_iff)

lemma Sync_refines:
  assumes inv: "cache_inv utxo vinv c"
  shows "\<exists>ok c'. Sync mu V c = Inr (ok, c') \<and> (ok \<longrightarrow> cache_inv utxo vinv c'
    \<and> cache_utxo utxo c' = cache_utxo utxo c \<and> utxo (cc_base c') = cache_utxo utxo c
    \<and> (hashBlock c \<noteq> 0 \<longrightarrow> best (cc_base c') = hashBlock c)
    \<and> (\<forall>p e. map_of (cacheCoins c') p = Some e \<longrightarrow> \<not> DIRTY e \<and> \<not> FRESH e \<and> \<not> Coin_IsSpent (entry_coin e)))"
proof -
  let ?m = "cacheCoins c"
  let ?s = "Sync_loop mu ?m (cachedCoinsUsage c)"
  note dist = cache_invD(2) [OF inv]
  obtain ok m b where bw: "v_BatchWrite V ?m (hashBlock c) False (cc_base c) = Inr (ok, m, b)"
    and ok: "ok \<longrightarrow> m = ?m \<and> vinv b \<and> utxo b = cache_utxo utxo c \<and> (hashBlock c \<noteq> 0 \<longrightarrow> best b = hashBlock c)"
    using BatchWrite_law [OF cache_invD(1) [OF inv] cache_changes_ok [OF inv], of "hashBlock c" False]
    by (auto simp: cache_changes_abs [OF inv])
  show ?thesis
  proof (cases ok)
    case True
    let ?c = "c\<lparr>cc_base := b, cacheCoins := fst ?s, cachedCoinsUsage := snd ?s\<rparr>"
    have look: "map_of (fst ?s) p = (case map_of ?m p of
        Some e \<Rightarrow> if Coin_IsSpent (entry_coin e) then None else Some (e\<lparr>DIRTY := False, FRESH := False\<rparr>) | None \<Rightarrow> None)" for p
      by (rule synced_lookup [OF dist])
    have utxo: "cache_utxo utxo ?c = cache_utxo utxo c"
      using True ok by (intro ext) (auto simp: cache_utxo_def look entry_abs_def split: option.split)
    have "cache_inv utxo vinv ?c"
      using True ok synced_distinct [OF dist]
      by (auto simp: cache_inv_def look entry_inv_def entry_attr_ok_iff entry_abs_def cache_utxo_def split: option.splits if_splits)
    moreover have "Sync mu V c = Inr (True, ?c)" using bw ok True by (simp add: Sync_def split: prod.split)
    ultimately show ?thesis
      using True ok utxo by (intro exI [of _ True] exI [of _ ?c]) (auto simp: look split: option.splits if_splits)
  next
    case False
    with bw show ?thesis by (auto simp: Sync_def split: prod.split)
  qed
qed

lemma HaveInputs_loop_refines:
  assumes "cache_inv utxo vinv c"
  shows "\<exists>c'. HaveInputs_loop mu V ins c = (list_all (\<lambda>i. cache_utxo utxo c (prevout i) \<noteq> None) ins, c')
    \<and> cache_inv utxo vinv c' \<and> cache_utxo utxo c' = cache_utxo utxo c"
  using assms
proof (induction ins arbitrary: c)
  case (Cons i ins)
  obtain b c1 where h: "cache_HaveCoin mu V (prevout i) c = (b, c1)" by fastforce
  note c1 = cache_HaveCoin_refines [OF Cons.prems h]
  with Cons.IH [of c1] h show ?case by (cases b) auto
qed simp

lemma HaveInputs_refines:
  assumes "cache_inv utxo vinv c"
  shows "\<exists>c'. HaveInputs mu V tx c = (IsCoinBase tx \<or> (\<forall>i\<in>set (vin tx). cache_utxo utxo c (prevout i) \<noteq> None), c')
    \<and> cache_inv utxo vinv c' \<and> cache_utxo utxo c' = cache_utxo utxo c"
  using HaveInputs_loop_refines [OF assms, of mu "vin tx"] assms by (auto simp: HaveInputs_def list_all_iff)

end

section \<open>Memory accounting\<close>

definition usage_ok :: "(coin \<Rightarrow> u64) \<Rightarrow> 'b coins_cache \<Rightarrow> bool" where
  "usage_ok mu c \<longleftrightarrow> entries_usage mu (cacheCoins c) = cachedCoinsUsage c"

definition usage_at :: "(coin \<Rightarrow> u64) \<Rightarrow> CCoinsMap \<Rightarrow> coutpoint \<Rightarrow> u64" where
  "usage_at mu m p = (case map_of m p of Some e \<Rightarrow> mu (entry_coin e) | None \<Rightarrow> 0)"

lemma entries_usage_simps [simp]:
  "entries_usage mu [] = 0" "entries_usage mu ((p, e) # m) = mu (entry_coin e) + entries_usage mu m"
  by (simp_all add: entries_usage_def)

lemma entries_usage_update:
  "distinct (map fst m) \<Longrightarrow> entries_usage mu (AList.update p e m) = entries_usage mu m - usage_at mu m p + mu (entry_coin e)"
  by (induction m) (auto simp: usage_at_def)

lemma entries_usage_delete:
  assumes "distinct (map fst m)"
  shows "entries_usage mu (AList.delete p m) = entries_usage mu m - usage_at mu m p"
  using assms
proof (induction m)
  case (Cons qe m)
  obtain q e where qe: "qe = (q, e)" by fastforce
  from Cons.prems have "p = q \<Longrightarrow> AList.delete p m = m" by (simp add: qe delete_notin_dom)
  with Cons show ?case by (auto simp: qe usage_at_def)
qed (simp add: usage_at_def)

lemma usage_FetchCoin:
  assumes "distinct (map fst (cacheCoins c))" "usage_ok mu c"
  shows "usage_ok mu (snd (FetchCoin mu V p c)) \<and> distinct (map fst (cacheCoins (snd (FetchCoin mu V p c))))"
  using assms
  by (auto simp: FetchCoin_def usage_ok_def Let_def entries_usage_update usage_at_def distinct_update split: option.splits prod.splits)

lemma usage_SpendCoin:
  assumes "distinct (map fst (cacheCoins c))" "usage_ok mu c" "mu coinEmpty = 0" "SpendCoin mu V p c = (ok, mv, c')"
  shows "usage_ok mu c'"
proof -
  obtain r c1 where f: "FetchCoin mu V p c = (r, c1)" by fastforce
  have c1: "usage_ok mu c1" "distinct (map fst (cacheCoins c1))"
    using usage_FetchCoin [OF assms(1,2), of V p] by (simp_all add: f)
  have "usage_at mu (cacheCoins c1) p = mu (entry_coin e)" if "r = Some e" for e
    using f that by (auto simp: FetchCoin_def usage_at_def Let_def split: option.splits prod.splits)
  with c1 assms(3,4) f show ?thesis
    by (cases r) (auto simp: SpendCoin_def Let_def usage_ok_def entries_usage_update entries_usage_delete Coin_Clear_coinEmpty
        split: if_splits)
qed

lemma usage_AddCoin:
  assumes "distinct (map fst (cacheCoins c))" "usage_ok mu c" "AddCoin mu p cn ow c = (None, c')"
  shows "usage_ok mu c'"
  using assms
  by (auto simp: AddCoin_def Let_def usage_ok_def entries_usage_update usage_at_def split: if_splits option.splits)

lemma usage_Uncache:
  "distinct (map fst (cacheCoins c)) \<Longrightarrow> usage_ok mu c \<Longrightarrow> usage_ok mu (Uncache mu p c)"
  by (auto simp: Uncache_def usage_ok_def entries_usage_delete usage_at_def split: option.splits)

lemma usage_Sync_loop: "snd (Sync_loop mu m usage) = usage - entries_usage mu m + entries_usage mu (fst (Sync_loop mu m usage))"
  by (induction mu m usage rule: Sync_loop.induct) (auto split: prod.split)

lemma usage_BatchWrite_loop:
  assumes "distinct (map fst (cacheCoins c))" "usage_ok mu c" "BatchWrite_loop mu m c = Inr c'"
  shows "usage_ok mu c'"
  using assms
proof (induction mu m c rule: BatchWrite_loop.induct)
  case (2 mu p e m c)
  show ?case
  proof (cases "map_of (cacheCoins c) p")
    case None
    with 2 show ?thesis
      by (auto simp: usage_ok_def entries_usage_update usage_at_def distinct_update split: if_splits)
  next
    case (Some us)
    with 2 show ?thesis
      by (auto simp: usage_ok_def entries_usage_update entries_usage_delete usage_at_def distinct_update distinct_delete split: if_splits)
  qed
qed simp

lemma cache_inv_SanityCheck:
  assumes "cache_inv utxo vinv c" "usage_ok mu c"
  shows "SanityCheck mu c"
proof -
  have "entry_attr_ok e" if "(p, e) \<in> set (cacheCoins c)" for p e
    using that assms(1) cache_invD(2,3) [OF assms(1)] by (auto simp: entry_inv_def)
  then show ?thesis using assms(2) by (auto simp: SanityCheck_def usage_ok_def list_all_iff)
qed

text \<open>
  The two places that lose track of the memory: \<open>AddCoin\<close> subtracts the old coin's memory before it
  throws, and \<open>EmplaceCoinInternalDANGER\<close> adds the new coin's memory even when \<open>emplace\<close> keeps the old entry.
\<close>

lemma AddCoin_throw_usage:
  assumes "usage_ok mu c" "map_of (cacheCoins c) p = Some e" "\<not> Coin_IsSpent (entry_coin e)"
    "\<not> Coin_IsSpent cn" "\<not> IsUnspendable (scriptPubKey (coin_out cn))" "mu (entry_coin e) \<noteq> 0"
  shows "\<not> usage_ok mu (snd (AddCoin mu p cn False c))"
  using assms by (simp add: AddCoin_def Let_def usage_ok_def)

lemma Emplace_usage:
  assumes "usage_ok mu c" "map_of (cacheCoins c) p = Some e" "mu cn \<noteq> 0"
  shows "\<not> usage_ok mu (EmplaceCoinInternalDANGER mu p cn c)"
  using assms by (simp add: EmplaceCoinInternalDANGER_def usage_ok_def)

section \<open>Sequences of operations\<close>

text \<open>A view whose \<open>BatchWrite\<close> does not fail, so that a cache over it can be flushed.\<close>

locale reliable_view = coins_view +
  assumes BatchWrite_succeeds: "vinv b \<Longrightarrow> changes_ok (utxo b) m \<Longrightarrow> v_BatchWrite V m h er b = Inr (ok, m', b') \<Longrightarrow> ok"

datatype coins_op =
    GetCoin_op coutpoint | HaveCoin_op coutpoint | AddCoin_op coutpoint coin bool | SpendCoin_op coutpoint
  | Uncache_op coutpoint | Flush_op | Sync_op

datatype coins_obs = Coin_obs "coin option" | Bool_obs bool | Unit_obs

text \<open>One operation on the cache, with what its caller sees; a throw or a failed write is an error.\<close>

definition seen_coin :: "coin option \<Rightarrow> coin option" where
  "seen_coin mv = (case mv of Some cn \<Rightarrow> if Coin_IsSpent cn then None else Some cn | None \<Rightarrow> None)"

fun run_op :: "(coin \<Rightarrow> u64) \<Rightarrow> 'b coins_view_ops \<Rightarrow> coins_op \<Rightarrow> 'b coins_cache \<Rightarrow> (coins_obs \<times> 'b coins_cache) res" where
  "run_op mu V (GetCoin_op p) c = (case cache_GetCoin mu V p c of (r, c') \<Rightarrow> Inr (Coin_obs r, c'))"
| "run_op mu V (HaveCoin_op p) c = (case cache_HaveCoin mu V p c of (r, c') \<Rightarrow> Inr (Bool_obs r, c'))"
| "run_op mu V (AddCoin_op p cn ow) c =
     (case AddCoin mu p cn ow c of (None, c') \<Rightarrow> Inr (Unit_obs, c') | (Some e, c') \<Rightarrow> Inl e)"
| "run_op mu V (SpendCoin_op p) c = (case SpendCoin mu V p c of (ok, mv, c') \<Rightarrow> Inr (Coin_obs (seen_coin mv), c'))"
| "run_op mu V (Uncache_op p) c = Inr (Unit_obs, Uncache mu p c)"
| "run_op mu V Flush_op c =
     res_bind (Flush V c) (\<lambda>(ok, c'). if ok then Inr (Unit_obs, c') else Inl ''Flush returned false'')"
| "run_op mu V Sync_op c =
     res_bind (Sync mu V c) (\<lambda>(ok, c'). if ok then Inr (Unit_obs, c') else Inl ''Sync returned false'')"

fun run_ops :: "(coin \<Rightarrow> u64) \<Rightarrow> 'b coins_view_ops \<Rightarrow> coins_op list \<Rightarrow> 'b coins_cache \<Rightarrow> (coins_obs list \<times> 'b coins_cache) res" where
  "run_ops mu V [] c = Inr ([], c)"
| "run_ops mu V (x # xs) c =
     res_bind (run_op mu V x c) (\<lambda>(r, c'). res_bind (run_ops mu V xs c') (\<lambda>(rs, c''). Inr (r # rs, c'')))"

text \<open>The same on the map of unspent coins, and what the caller of \<open>AddCoin\<close> has to ensure.\<close>

fun spec_op :: "coins_op \<Rightarrow> utxos \<Rightarrow> coins_obs \<times> utxos" where
  "spec_op (GetCoin_op p) u = (Coin_obs (u p), u)"
| "spec_op (HaveCoin_op p) u = (Bool_obs (u p \<noteq> None), u)"
| "spec_op (AddCoin_op p cn ow) u = (Unit_obs, if IsUnspendable (scriptPubKey (coin_out cn)) then u else u(p \<mapsto> cn))"
| "spec_op (SpendCoin_op p) u = (Coin_obs (u p), u(p := None))"
| "spec_op (Uncache_op p) u = (Unit_obs, u)"
| "spec_op Flush_op u = (Unit_obs, u)"
| "spec_op Sync_op u = (Unit_obs, u)"

fun spec_ops :: "coins_op list \<Rightarrow> utxos \<Rightarrow> coins_obs list \<times> utxos" where
  "spec_ops [] u = ([], u)"
| "spec_ops (x # xs) u = (case spec_op x u of (r, u') \<Rightarrow> case spec_ops xs u' of (rs, u'') \<Rightarrow> (r # rs, u''))"

fun op_allowed :: "coins_op \<Rightarrow> utxos \<Rightarrow> bool" where
  "op_allowed (AddCoin_op p cn ow) u \<longleftrightarrow>
     \<not> Coin_IsSpent cn \<and> (ow \<or> u p = None \<or> IsUnspendable (scriptPubKey (coin_out cn)))"
| "op_allowed _ u \<longleftrightarrow> True"

fun ops_allowed :: "coins_op list \<Rightarrow> utxos \<Rightarrow> bool" where
  "ops_allowed [] u \<longleftrightarrow> True"
| "ops_allowed (x # xs) u \<longleftrightarrow> op_allowed x u \<and> ops_allowed xs (snd (spec_op x u))"

lemma usage_GetCoin: "cache_GetCoin mu V p c = (r, c') \<Longrightarrow> c' = snd (FetchCoin mu V p c)"
  by (auto simp: cache_GetCoin_def split: prod.splits option.splits)

lemma usage_HaveCoin: "cache_HaveCoin mu V p c = (r, c') \<Longrightarrow> c' = snd (FetchCoin mu V p c)"
  by (auto simp: cache_HaveCoin_def split: prod.splits option.splits)

context reliable_view
begin

definition good :: "(coin \<Rightarrow> u64) \<Rightarrow> 'a coins_cache \<Rightarrow> bool" where
  "good mu c \<longleftrightarrow> cache_inv utxo vinv c \<and> usage_ok mu c"

lemma good_FetchCoin:
  assumes "good mu c"
  shows "cache_inv utxo vinv c" "usage_ok mu (snd (FetchCoin mu V p c))"
proof -
  show inv: "cache_inv utxo vinv c" using assms by (simp add: good_def)
  show "usage_ok mu (snd (FetchCoin mu V p c))"
    using assms usage_FetchCoin [OF cache_invD(2) [OF inv], of mu V p] by (simp add: good_def)
qed

lemma run_get:
  assumes "good mu c" "cache_GetCoin mu V p c = (r, c')"
  shows "r = cache_utxo utxo c p \<and> good mu c' \<and> cache_utxo utxo c' = cache_utxo utxo c"
  using cache_GetCoin_refines [OF good_FetchCoin(1) [OF assms(1)] assms(2)] good_FetchCoin(2) [OF assms(1), of p]
  unfolding good_def usage_GetCoin [OF assms(2)] by blast

lemma run_have:
  assumes "good mu c" "cache_HaveCoin mu V p c = (b, c')"
  shows "b = (cache_utxo utxo c p \<noteq> None) \<and> good mu c' \<and> cache_utxo utxo c' = cache_utxo utxo c"
  using cache_HaveCoin_refines [OF good_FetchCoin(1) [OF assms(1)] assms(2)] good_FetchCoin(2) [OF assms(1), of p]
  unfolding good_def usage_HaveCoin [OF assms(2)] by blast

lemma run_add:
  assumes "good mu c" "op_allowed (AddCoin_op p cn ow) (cache_utxo utxo c)"
  shows "\<exists>c'. AddCoin mu p cn ow c = (None, c') \<and> good mu c'
    \<and> cache_utxo utxo c' = snd (spec_op (AddCoin_op p cn ow) (cache_utxo utxo c))"
proof (cases "IsUnspendable (scriptPubKey (coin_out cn))")
  case True
  with assms show ?thesis by (simp add: AddCoin_def)
next
  case False
  have inv: "cache_inv utxo vinv c" and u: "usage_ok mu c" using assms(1) by (simp_all add: good_def)
  from assms(2) False have "\<not> Coin_IsSpent cn" "ow \<or> cache_utxo utxo c p = None" by simp_all
  then obtain c' where c': "AddCoin mu p cn ow c = (None, c')" "cache_inv utxo vinv c'"
    "cache_utxo utxo c' = (cache_utxo utxo c)(p \<mapsto> cn)"
    using AddCoin_refines [OF inv _ False] by blast
  with usage_AddCoin [OF cache_invD(2) [OF inv] u c'(1)] False show ?thesis by (simp add: good_def)
qed

lemma run_spend:
  assumes "good mu c" "mu coinEmpty = 0" "SpendCoin mu V p c = (ok, mv, c')"
  shows "seen_coin mv = cache_utxo utxo c p \<and> good mu c' \<and> cache_utxo utxo c' = (cache_utxo utxo c)(p := None)"
proof -
  have inv: "cache_inv utxo vinv c" and u: "usage_ok mu c" using assms(1) by (simp_all add: good_def)
  show ?thesis
    using SpendCoin_refines [OF inv assms(3)] usage_SpendCoin [OF cache_invD(2) [OF inv] u assms(2,3)]
    unfolding good_def seen_coin_def by simp
qed

lemma run_flush:
  assumes "good mu c"
  shows "\<exists>c'. Flush V c = Inr (True, c') \<and> good mu c' \<and> cache_utxo utxo c' = cache_utxo utxo c"
proof -
  have inv: "cache_inv utxo vinv c" using assms by (simp add: good_def)
  note ok = BatchWrite_succeeds [OF cache_invD(1) [OF inv] cache_changes_ok [OF inv], of "hashBlock c" True]
  obtain r c' where f: "Flush V c = Inr (r, c')" and c: "r \<longrightarrow> cacheCoins c' = [] \<and> cache_inv utxo vinv c'
      \<and> cache_utxo utxo c' = cache_utxo utxo c"
    using Flush_refines [OF inv] by metis
  then have "r \<and> cachedCoinsUsage c' = 0" using ok by (auto simp: Flush_def res_bind_Inr_iff split: if_splits)
  with f c show ?thesis by (auto simp: good_def usage_ok_def)
qed

lemma run_sync:
  assumes "good mu c"
  shows "\<exists>c'. Sync mu V c = Inr (True, c') \<and> good mu c' \<and> cache_utxo utxo c' = cache_utxo utxo c"
proof -
  have inv: "cache_inv utxo vinv c" and u: "usage_ok mu c" using assms by (simp_all add: good_def)
  obtain ok m b where bw: "v_BatchWrite V (cacheCoins c) (hashBlock c) False (cc_base c) = Inr (ok, m, b)"
    and m: "ok \<longrightarrow> m = cacheCoins c"
    using BatchWrite_law [OF cache_invD(1) [OF inv] cache_changes_ok [OF inv], of "hashBlock c" False] by auto
  have ok by (rule BatchWrite_succeeds [OF cache_invD(1) [OF inv] cache_changes_ok [OF inv] bw])
  with bw m have s: "Sync mu V c = Inr (True, c\<lparr>cc_base := b, cacheCoins := fst (Sync_loop mu (cacheCoins c) (cachedCoinsUsage c)),
      cachedCoinsUsage := snd (Sync_loop mu (cacheCoins c) (cachedCoinsUsage c))\<rparr>)" (is "_ = Inr (True, ?c)")
    by (simp add: Sync_def split: prod.split)
  have "usage_ok mu ?c" using u usage_Sync_loop [of mu "cacheCoins c" "cachedCoinsUsage c"] by (simp add: usage_ok_def)
  with s Sync_refines [OF inv, of mu] show ?thesis by (auto simp: good_def)
qed

lemma run_op_refines:
  assumes "good mu c" "mu coinEmpty = 0" "op_allowed x (cache_utxo utxo c)"
  shows "\<exists>c'. run_op mu V x c = Inr (fst (spec_op x (cache_utxo utxo c)), c') \<and> good mu c'
    \<and> cache_utxo utxo c' = snd (spec_op x (cache_utxo utxo c))"
proof (cases x)
  case (AddCoin_op p cn ow)
  with run_add [OF assms(1), of p cn ow] assms(3) obtain c' where "AddCoin mu p cn ow c = (None, c')" "good mu c'"
    "cache_utxo utxo c' = snd (spec_op x (cache_utxo utxo c))" by auto
  with AddCoin_op show ?thesis by simp
next
  case (GetCoin_op p)
  then show ?thesis using run_get [OF assms(1), of p] by (cases "cache_GetCoin mu V p c") simp
next
  case (HaveCoin_op p)
  then show ?thesis using run_have [OF assms(1), of p] by (cases "cache_HaveCoin mu V p c") simp
next
  case (SpendCoin_op p)
  then show ?thesis using run_spend [OF assms(1,2), of p] by (cases "SpendCoin mu V p c") simp
next
  case Flush_op
  then show ?thesis using run_flush [OF assms(1)] by auto
next
  case Sync_op
  then show ?thesis using run_sync [OF assms(1)] by auto
next
  case (Uncache_op p)
  have inv: "cache_inv utxo vinv c" and u: "usage_ok mu c" using assms(1) by (simp_all add: good_def)
  from Uncache_op Uncache_refines [OF inv] usage_Uncache [OF cache_invD(2) [OF inv] u] show ?thesis
    by (simp add: good_def)
qed

lemma run_ops_refines:
  assumes "good mu c" "mu coinEmpty = 0" "ops_allowed xs (cache_utxo utxo c)"
  shows "\<exists>c'. run_ops mu V xs c = Inr (fst (spec_ops xs (cache_utxo utxo c)), c') \<and> good mu c'
    \<and> cache_utxo utxo c' = snd (spec_ops xs (cache_utxo utxo c))"
  using assms(1,3)
proof (induction xs arbitrary: c)
  case (Cons x xs)
  then obtain c1 where c1: "run_op mu V x c = Inr (fst (spec_op x (cache_utxo utxo c)), c1)" "good mu c1"
    "cache_utxo utxo c1 = snd (spec_op x (cache_utxo utxo c))"
    using run_op_refines [OF Cons.prems(1) assms(2), of x] by auto
  with Cons.IH [of c1] Cons.prems(2) show ?case by (auto split: prod.split)
qed simp

end

section \<open>Views of the program\<close>

lemma CCoinsViewBacked_same: "CCoinsViewBacked_ops V = V"
  by (simp add: CCoinsViewBacked_ops_def)

text \<open>The base class, which has no coins and refuses every write, and a cache over it.\<close>

interpretation no_coins: coins_view CCoinsView_ops "\<lambda>_ _. None" "\<lambda>_. 0" "\<lambda>_. True"
  by unfold_locales (auto simp: CCoinsView_ops_def)

lemma cache_is_reliable:
  assumes "coins_view V utxo best vinv"
  shows "reliable_view (cache_ops mu V) (cache_utxo utxo) (cache_best best) (cache_inv utxo vinv)"
proof (intro reliable_view.intro coins_view.cache_is_view [OF assms] reliable_view_axioms.intro)
  fix b m h er ok m' b'
  assume "v_BatchWrite (cache_ops mu V) m h er b = Inr (ok, m', b')"
  then show ok by (auto simp: cache_ops_def cache_BatchWrite_def res_bind_Inr_iff)
qed

interpretation memory_coins: reliable_view "cache_ops mu CCoinsView_ops" "cache_utxo (\<lambda>_ _. None)" "cache_best (\<lambda>_. 0)"
    "cache_inv (\<lambda>_ _. None) (\<lambda>_. True)" for mu
  by (rule cache_is_reliable [OF no_coins.coins_view_axioms])

lemma fresh_cache:
  assumes "vinv b"
  shows "cache_inv utxo vinv (CCoinsViewCache b)" "cache_utxo utxo (CCoinsViewCache b) = utxo b" "usage_ok mu (CCoinsViewCache b)"
  using assms by (simp_all add: cache_inv_def cache_utxo_def CCoinsViewCache_def usage_ok_def)

text \<open>
  C3: \<open>CCoinsViewCache\<close> refines the map of unspent coins. Over any base that honours the contract of
  \<open>CCoinsView\<close>, every sequence of operations (\<open>GetCoin\<close>, \<open>HaveCoin\<close>, \<open>AddCoin\<close>, \<open>SpendCoin\<close>, \<open>Uncache\<close>,
  \<open>Flush\<close>, \<open>Sync\<close>) whose additions do not overwrite an unspent coin unannounced runs without an error,
  returns what the map returns, ends in the map's state, and passes \<open>SanityCheck\<close>: flags, caching,
  uncaching and flushing are invisible.
\<close>

theorem coins_cache_refines:
  assumes "reliable_view V utxo best vinv" "mu coinEmpty = 0"
    and "cache_inv utxo vinv c" "usage_ok mu c" "ops_allowed xs (cache_utxo utxo c)"
  shows "\<exists>c'. run_ops mu V xs c = Inr (fst (spec_ops xs (cache_utxo utxo c)), c')
    \<and> cache_utxo utxo c' = snd (spec_ops xs (cache_utxo utxo c)) \<and> cache_inv utxo vinv c' \<and> SanityCheck mu c'"
  using reliable_view.run_ops_refines [OF assms(1), of mu c xs] assms(2-5) cache_inv_SanityCheck [of utxo vinv _ mu]
  by (auto simp: reliable_view.good_def [OF assms(1)])

definition sample_coin :: coin where
  "sample_coin = Coin \<lparr>nValue = 5, scriptPubKey = [0x51]\<rparr> 100 True"

definition sample_ops :: "coins_op list" where
  "sample_ops =
     (let p = \<lparr>op_hash = 1, op_n = 0\<rparr> in
      [AddCoin_op p sample_coin False, Flush_op, HaveCoin_op p, SpendCoin_op p, Sync_op, GetCoin_op p])"

theorem coins_cache_refines_witness:
  "reliable_view (cache_ops (\<lambda>_. 0) CCoinsView_ops) (cache_utxo (\<lambda>_ _. None)) (cache_best (\<lambda>_. 0)) (cache_inv (\<lambda>_ _. None) (\<lambda>_. True))
   \<and> (\<exists>c'. run_ops (\<lambda>_. 0) (cache_ops (\<lambda>_. 0) CCoinsView_ops) sample_ops (CCoinsViewCache (CCoinsViewCache ()))
        = Inr ([Unit_obs, Unit_obs, Bool_obs True, Coin_obs (Some sample_coin), Unit_obs, Coin_obs None], c') \<and> SanityCheck (\<lambda>_. 0) c')"
proof -
  let ?c = "CCoinsViewCache (CCoinsViewCache ())"
  have base: "cache_inv (cache_utxo (\<lambda>_ _. None)) (cache_inv (\<lambda>_ _. None) (\<lambda>_. True)) ?c" "usage_ok (\<lambda>_. 0) ?c"
    and u: "cache_utxo (cache_utxo (\<lambda>_ _. None)) ?c = (\<lambda>_. None)"
    by (simp_all add: cache_inv_def cache_utxo_def CCoinsViewCache_def usage_ok_def)
  have cn: "\<not> Coin_IsSpent sample_coin" "\<not> IsUnspendable (scriptPubKey (coin_out sample_coin))" by code_simp+
  have "ops_allowed sample_ops (\<lambda>_. None)" and "fst (spec_ops sample_ops (\<lambda>_. None))
      = [Unit_obs, Unit_obs, Bool_obs True, Coin_obs (Some sample_coin), Unit_obs, Coin_obs None]"
    using cn by (simp_all add: sample_ops_def Let_def)
  with coins_cache_refines [OF memory_coins.reliable_view_axioms _ base, of sample_ops] u
    memory_coins.reliable_view_axioms show ?thesis by auto
qed

text \<open>
  A successful \<open>Flush\<close> leaves the cache empty and the base with exactly the unspent coins the
  cache stood for, and with its best block; nothing is lost and nothing is resurrected.
\<close>

lemma Flush_persists:
  assumes "coins_view V utxo best vinv" "cache_inv utxo vinv c"
  shows "\<exists>ok c'. Flush V c = Inr (ok, c') \<and> (ok \<longrightarrow> cacheCoins c' = [] \<and> utxo (cc_base c') = cache_utxo utxo c
    \<and> (hashBlock c \<noteq> 0 \<longrightarrow> best (cc_base c') = hashBlock c))"
  using coins_view.Flush_refines [OF assms] by blast

definition sample_cache :: "unit coins_cache coins_cache" where
  "sample_cache = (CCoinsViewCache (CCoinsViewCache ()))
     \<lparr>cacheCoins := [(\<lparr>op_hash = 1, op_n = 0\<rparr>, \<lparr>entry_coin = sample_coin, DIRTY = True, FRESH = True\<rparr>)], hashBlock := 7\<rparr>"

text \<open>
  C39: a cache honours the contract of \<open>CCoinsView\<close> itself whenever its base does, with the state it
  stands for: caches can be stacked to any depth, and a write to a cache always succeeds.
\<close>

theorem caches_stack:
  assumes "coins_view V utxo best vinv"
  shows "reliable_view (cache_ops mu V) (cache_utxo utxo) (cache_best best) (cache_inv utxo vinv)"
  using assms by (rule cache_is_reliable)

theorem caches_stack_witness:
  "coins_view CCoinsView_ops (\<lambda>_ _. None) (\<lambda>_. 0) (\<lambda>_. True)
   \<and> reliable_view (cache_ops (\<lambda>_. 0) CCoinsView_ops) (cache_utxo (\<lambda>_ _. None)) (cache_best (\<lambda>_. 0)) (cache_inv (\<lambda>_ _. None) (\<lambda>_. True))"
  using caches_stack [OF no_coins.coins_view_axioms, of "\<lambda>_. 0"] no_coins.coins_view_axioms by blast

end
