(* ===== verification/Compressor.thy ===== *)
theory Compressor
  imports Coins
begin

text \<open>
  The compact format of coins on disk (\<open>src/compressor.h\<close>, \<open>src/compressor.cpp\<close>, \<open>Coin\<close> in
  \<open>src/coins.h\<close>): amounts, scripts and coins. The two operations on public keys that come from
  libsecp256k1, full validation and decompression, are parameters.
\<close>

section \<open>Amounts\<close>

function CompressAmount_strip :: "u64 \<Rightarrow> nat \<Rightarrow> u64 \<times> nat" where
  "CompressAmount_strip n e = (if n mod 10 = 0 \<and> e < 9 then CompressAmount_strip (n div 10) (Suc e) else (n, e))"
  by pat_completeness auto
termination
  by (relation "measure (\<lambda>(n, e). 9 - e)") auto

declare CompressAmount_strip.simps [simp del]

definition CompressAmount :: "u64 \<Rightarrow> u64 res" where
  "CompressAmount n0 =
     (if n0 = 0 then Inr 0
      else
        case CompressAmount_strip n0 0 of (n, e) \<Rightarrow>
          if e < 9 then
            let d = n mod 10 in
            if \<not> (1 \<le> d \<and> d \<le> 9) then Inl ''assert(d >= 1 && d <= 9)''
            else Inr (1 + (n div 10 * 9 + d - 1) * 10 + of_nat e)
          else Inr (1 + (n - 1) * 10 + 9))"

fun times_10 :: "nat \<Rightarrow> u64 \<Rightarrow> u64" where
  "times_10 0 n = n"
| "times_10 (Suc e) n = times_10 e (n * 10)"

definition DecompressAmount :: "u64 \<Rightarrow> u64" where
  "DecompressAmount x0 =
     (if x0 = 0 then 0
      else
        let x1 = x0 - 1;
            e = unat (x1 mod 10);
            x = x1 div 10;
            n = (if e < 9 then (let d = x mod 9 + 1 in x div 9 * 10 + d) else x + 1) in
        times_10 e n)"

section \<open>Scripts\<close>

record secp_pubkey =
  IsFullyValid :: "bytes \<Rightarrow> bool"
  Decompress :: "bytes \<Rightarrow> bytes option"

definition IsToKeyID :: "CScript \<Rightarrow> bytes option" where
  "IsToKeyID script =
     (if length script = 25 \<and> script ! 0 = OP_DUP \<and> script ! 1 = OP_HASH160 \<and> script ! 2 = 20
         \<and> script ! 23 = OP_EQUALVERIFY \<and> script ! 24 = OP_CHECKSIG
      then Some (take 20 (drop 3 script)) else None)"

definition IsToScriptID :: "CScript \<Rightarrow> bytes option" where
  "IsToScriptID script =
     (if length script = 23 \<and> script ! 0 = OP_HASH160 \<and> script ! 1 = 20 \<and> script ! 22 = OP_EQUAL
      then Some (take 20 (drop 2 script)) else None)"

definition IsToPubKey :: "secp_pubkey \<Rightarrow> CScript \<Rightarrow> bytes option" where
  "IsToPubKey K script =
     (if length script = 35 \<and> script ! 0 = 33 \<and> script ! 34 = OP_CHECKSIG \<and> (script ! 1 = 0x02 \<or> script ! 1 = 0x03)
      then Some (take 33 (drop 1 script))
      else if length script = 67 \<and> script ! 0 = 65 \<and> script ! 66 = OP_CHECKSIG \<and> script ! 1 = 0x04
      then let pubkey = take 65 (drop 1 script) in if IsFullyValid K pubkey then Some pubkey else None
      else None)"

definition CompressScript :: "secp_pubkey \<Rightarrow> CScript \<Rightarrow> bytes option" where
  "CompressScript K script =
     (case IsToKeyID script of
        Some keyID \<Rightarrow> Some (0x00 # keyID)
      | None \<Rightarrow>
          (case IsToScriptID script of
             Some scriptID \<Rightarrow> Some (0x01 # scriptID)
           | None \<Rightarrow>
               (case IsToPubKey K script of
                  Some pubkey \<Rightarrow>
                    let x = take 32 (drop 1 pubkey) in
                    if pubkey ! 0 = 0x02 \<or> pubkey ! 0 = 0x03 then Some (pubkey ! 0 # x)
                    else if pubkey ! 0 = 0x04 then Some ((0x04 OR (pubkey ! 64 AND 0x01)) # x)
                    else None
                | None \<Rightarrow> None)))"

definition GetSpecialScriptSize :: "u32 \<Rightarrow> nat" where
  "GetSpecialScriptSize sz =
     (if sz = 0 \<or> sz = 1 then 20 else if sz = 2 \<or> sz = 3 \<or> sz = 4 \<or> sz = 5 then 32 else 0)"

text \<open>\<open>None\<close> is the result \<open>false\<close>, which leaves the script as it was.\<close>

definition DecompressScript :: "secp_pubkey \<Rightarrow> u32 \<Rightarrow> bytes \<Rightarrow> CScript option res" where
  "DecompressScript K sz buf =
     (if sz = 0x00 then Inr (Some ([OP_DUP, OP_HASH160, 20] @ take 20 buf @ [OP_EQUALVERIFY, OP_CHECKSIG]))
      else if sz = 0x01 then Inr (Some ([OP_HASH160, 20] @ take 20 buf @ [OP_EQUAL]))
      else if sz = 0x02 \<or> sz = 0x03 then Inr (Some ([33, ucast sz] @ take 32 buf @ [OP_CHECKSIG]))
      else if sz = 0x04 \<or> sz = 0x05 then
        (case Decompress K (ucast (sz - 2) # take 32 buf) of
           None \<Rightarrow> Inr None
         | Some pubkey \<Rightarrow>
             if length pubkey \<noteq> 65 then Inl ''assert(pubkey.size() == 65)''
             else Inr (Some ([65] @ pubkey @ [OP_CHECKSIG])))
      else Inr None)"

definition nSpecialScripts :: u32 where
  "nSpecialScripts = 6"

definition ScriptCompression_Ser :: "secp_pubkey \<Rightarrow> CScript \<Rightarrow> bytes" where
  "ScriptCompression_Ser K script =
     (case CompressScript K script of
        Some compr \<Rightarrow> compr
      | None \<Rightarrow> WriteVarInt (of_nat (length script) + nSpecialScripts) @ script)"

text \<open>
  \<open>rd\<close> and \<open>ign\<close> are \<open>read\<close> and \<open>ignore\<close> of the stream, \<open>script0\<close> is the script object before the call. The
  result of \<open>DecompressScript\<close> is not looked at.
\<close>

definition ScriptCompression_Unser ::
    "secp_pubkey \<Rightarrow> (nat \<Rightarrow> 's \<Rightarrow> string + bytes \<times> 's) \<Rightarrow> (nat \<Rightarrow> 's \<Rightarrow> string + unit \<times> 's) \<Rightarrow> CScript \<Rightarrow> 's
      \<Rightarrow> string + CScript \<times> 's" where
  "ScriptCompression_Unser K rd ign script0 s =
     res_bind (ReadVarInt rd s) (\<lambda>(sz :: u32, s1).
       if sz < nSpecialScripts then
         res_bind (rd (GetSpecialScriptSize sz) s1) (\<lambda>(buf, s2).
         res_bind (DecompressScript K sz buf) (\<lambda>r.
           Inr (case r of Some script \<Rightarrow> script | None \<Rightarrow> script0, s2)))
       else
         let n = unat (sz - nSpecialScripts) in
         if n > MAX_SCRIPT_SIZE then res_bind (ign n s1) (\<lambda>(_, s2). Inr (script0 @ [OP_RETURN], s2))
         else rd n s1)"

section \<open>Outputs and coins\<close>

definition TxOutCompression_Ser :: "secp_pubkey \<Rightarrow> ctxout \<Rightarrow> bytes res" where
  "TxOutCompression_Ser K txo =
     res_bind (CompressAmount (of_int (nValue txo))) (\<lambda>v.
       Inr (WriteVarInt v @ ScriptCompression_Ser K (scriptPubKey txo)))"

definition TxOutCompression_Unser ::
    "secp_pubkey \<Rightarrow> (nat \<Rightarrow> 's \<Rightarrow> string + bytes \<times> 's) \<Rightarrow> (nat \<Rightarrow> 's \<Rightarrow> string + unit \<times> 's) \<Rightarrow> CScript \<Rightarrow> 's
      \<Rightarrow> string + ctxout \<times> 's" where
  "TxOutCompression_Unser K rd ign script0 s =
     res_bind (ReadVarInt rd s) (\<lambda>(v :: u64, s1).
     res_bind (ScriptCompression_Unser K rd ign script0 s1) (\<lambda>(script, s2).
       Inr (\<lparr>nValue = sint (DecompressAmount v), scriptPubKey = script\<rparr>, s2)))"

definition Coin_Serialize :: "secp_pubkey \<Rightarrow> coin \<Rightarrow> bytes res" where
  "Coin_Serialize K cn =
     (if Coin_IsSpent cn then Inl ''assert(!IsSpent())''
      else
        let code = ucast (coin_nHeight cn) * 2 + (if coin_fCoinBase cn then 1 else 0) :: u32 in
        res_bind (TxOutCompression_Ser K (coin_out cn)) (\<lambda>bs. Inr (WriteVarInt code @ bs)))"

definition Coin_Unserialize ::
    "secp_pubkey \<Rightarrow> (nat \<Rightarrow> 's \<Rightarrow> string + bytes \<times> 's) \<Rightarrow> (nat \<Rightarrow> 's \<Rightarrow> string + unit \<times> 's) \<Rightarrow> coin \<Rightarrow> 's
      \<Rightarrow> string + coin \<times> 's" where
  "Coin_Unserialize K rd ign cn0 s =
     res_bind (ReadVarInt rd s) (\<lambda>(code :: u32, s1).
     res_bind (TxOutCompression_Unser K rd ign (scriptPubKey (coin_out cn0)) s1) (\<lambda>(txo, s2).
       Inr (\<lparr>coin_out = txo, coin_fCoinBase = (code AND 1 \<noteq> 0), coin_nHeight = ucast (drop_bit 1 code)\<rparr>, s2)))"

section \<open>Amounts survive compression\<close>

lemma unat_mod_10: "unat (n mod 10 :: u64) = unat n mod 10" "unat (n div 10 :: u64) = unat n div 10"
  "unat (n mod 9 :: u64) = unat n mod 9" "unat (n div 9 :: u64) = unat n div 9"
  by (simp_all add: unat_mod_distrib unat_div_distrib)

lemma CompressAmount_strip_cases:
  assumes "CompressAmount_strip n e = (m, f)" "e \<le> 9"
  shows "e \<le> f \<and> f \<le> 9 \<and> unat n = unat m * 10 ^ (f - e) \<and> (f < 9 \<longrightarrow> unat m mod 10 \<noteq> 0)"
  using assms
proof (induction n e rule: CompressAmount_strip.induct)
  case (1 n e)
  show ?case
  proof (cases "n mod 10 = 0 \<and> e < 9")
    case True
    then have "unat n mod 10 = 0" by (metis unat_mod_10(1) unat_0)
    then have n: "unat n = unat (n div 10) * 10" by (simp add: unat_mod_10) (metis mod_0_imp_dvd dvd_div_mult_self)
    from True 1 have IH: "Suc e \<le> f \<and> f \<le> 9 \<and> unat (n div 10) = unat m * 10 ^ (f - Suc e) \<and> (f < 9 \<longrightarrow> unat m mod 10 \<noteq> 0)"
      by (simp add: CompressAmount_strip.simps [of n e])
    then have "10 ^ (f - e) = (10 :: nat) * 10 ^ (f - Suc e)" by (metis Suc_diff_Suc Suc_le_lessD power_Suc)
    with IH n show ?thesis by simp
  next
    case False
    with 1 have "m = n" "f = e" by (simp_all add: CompressAmount_strip.simps [of n e] split: if_splits)
    moreover have "f < 9 \<Longrightarrow> unat n mod 10 \<noteq> 0" using False \<open>f = e\<close>
      by (metis unat_mod_10(1) unsigned_eq_0_iff)
    ultimately show ?thesis using 1 by simp
  qed
qed

lemma times_10_unat: "unat n * 10 ^ e < 2 ^ 64 \<Longrightarrow> unat (times_10 e n) = unat n * 10 ^ e"
proof (induction e arbitrary: n)
  case (Suc e)
  have "unat n * 10 \<le> unat n * 10 ^ Suc e" by (intro mult_le_mono2) simp
  then have "unat n * 10 < 2 ^ 64" using Suc.prems by (rule le_less_trans)
  then have "unat (n * 10) = unat n * 10" by (simp add: unat_word_ariths)
  with Suc show ?case by (simp add: mult.assoc)
qed simp

lemma unat_of_nat_u64: "k < 2 ^ 64 \<Longrightarrow> unat (of_nat k :: u64) = k"
  by (simp add: unat_of_nat)

lemma DecompressAmount_code:
  fixes k e :: nat
  assumes "1 + k * 10 + e < 2 ^ 64" "e \<le> 9"
  shows "DecompressAmount (of_nat (1 + k * 10 + e)) =
    times_10 e (if e < 9 then of_nat (k div 9 * 10 + (k mod 9 + 1)) else of_nat (k + 1))"
proof -
  let ?x = "of_nat (1 + k * 10 + e) :: u64"
  have x: "unat ?x = 1 + k * 10 + e" using assms(1) by (rule unat_of_nat_u64)
  then have "?x \<noteq> 0" by (metis add_is_0 one_neq_zero unat_0)
  have x1: "?x - 1 = of_nat (k * 10 + e)" by simp
  have u1: "unat (of_nat (k * 10 + e) :: u64) = k * 10 + e" using assms(1) by (intro unat_of_nat_u64) simp
  have "unat ((of_nat (k * 10 + e) :: u64) mod 10) = e" "unat ((of_nat (k * 10 + e) :: u64) div 10) = k"
    using assms(2) by (simp_all only: unat_mod_10 u1) simp_all
  moreover from this have d: "(of_nat (k * 10 + e) :: u64) div 10 = of_nat k"
    by (metis of_nat_unat ucast_id unsigned_of_nat word_unat_eq_iff unat_of_nat_u64)
  moreover have k: "unat (of_nat k :: u64) = k" using assms(1) by (intro unat_of_nat_u64) simp
  moreover have "(of_nat k :: u64) mod 9 = of_nat (k mod 9)" "(of_nat k :: u64) div 9 = of_nat (k div 9)"
    using assms(1) by (simp_all add: word_unat_eq_iff unat_mod_10 k unat_of_nat_u64)
  ultimately show ?thesis
    using \<open>?x \<noteq> 0\<close> unfolding DecompressAmount_def Let_def x1 by (simp add: algebra_simps)
qed

text \<open>The code \<open>CompressAmount\<close> computes, without wrap-around, for every amount below \<open>2 ^ 60\<close>.\<close>

lemma CompressAmount_code:
  assumes n: "n \<noteq> 0" "unat n < 2 ^ 60" and st: "CompressAmount_strip n 0 = (m, e)"
  shows "\<exists>k. CompressAmount n = Inr (of_nat (1 + k * 10 + e)) \<and> 1 + k * 10 + e < 2 ^ 64 \<and> e \<le> 9
    \<and> unat m = (if e < 9 then k div 9 * 10 + (k mod 9 + 1) else k + 1) \<and> unat n = unat m * 10 ^ e"
proof -
  have s: "e \<le> 9" "unat n = unat m * 10 ^ e" "e < 9 \<longrightarrow> unat m mod 10 \<noteq> 0"
    using CompressAmount_strip_cases [OF st] by auto
  have "unat m \<le> unat n" unfolding s(2) by simp
  then have m: "unat m < 2 ^ 60" using n(2) by (rule le_less_trans)
  have m0: "unat m \<noteq> 0" using n(1) s(2) by (metis mult_0 unat_0 word_unat_eq_iff)
  show ?thesis
  proof (cases "e < 9")
    case True
    define q d where "q = unat m div 10" and "d = unat m mod 10"
    have d: "1 \<le> d" "d \<le> 9" and qd: "unat m = q * 10 + d" using s(3) True by (auto simp: d_def q_def)
    let ?k = "q * 9 + d - 1"
    have words: "m mod 10 = of_nat d" "m div 10 = of_nat q"
      using m by (simp_all add: word_unat_eq_iff unat_mod_10 unat_of_nat_u64 q_def d_def)
    have "unat (of_nat d :: u64) = d" using d by (intro unat_of_nat_u64) simp
    then have dw: "1 \<le> (of_nat d :: u64)" "(of_nat d :: u64) \<le> 9" using d by (simp_all add: word_le_nat_alt)
    have "CompressAmount n = Inr (of_nat (1 + ?k * 10 + e))"
      using n(1) True st dw d by (simp add: CompressAmount_def words Let_def of_nat_diff algebra_simps)
    moreover have "?k = (d - 1) + q * 9" using d by simp
    moreover have "((d - 1) + q * 9) div 9 = q" "((d - 1) + q * 9) mod 9 = d - 1"
      using d by (simp_all only: mod_mult_self1 div_mult_self1 mod_less)
    moreover have "1 + ?k * 10 + e < 2 ^ 64" using m qd d True by simp
    ultimately show ?thesis using True s qd d by (intro exI [of _ ?k]) simp
  next
    case False
    let ?k = "unat m - 1"
    have "m - 1 = of_nat ?k" using m0 by (simp add: of_nat_diff)
    then have "CompressAmount n = Inr (of_nat (1 + ?k * 10 + e))"
      using n(1) False s(1) st m0 by (simp add: CompressAmount_def of_nat_diff algebra_simps)
    moreover have "1 + ?k * 10 + e < 2 ^ 64" using m s(1) by simp
    ultimately show ?thesis using False s m0 by (intro exI [of _ ?k]) simp
  qed
qed

lemma amount_roundtrip:
  assumes "unat n < 2 ^ 60"
  shows "\<exists>x. CompressAmount n = Inr x \<and> DecompressAmount x = n"
proof (cases "n = 0")
  case True
  then show ?thesis by (simp add: CompressAmount_def DecompressAmount_def)
next
  case False
  obtain m e where st: "CompressAmount_strip n 0 = (m, e)" by fastforce
  obtain k where k: "CompressAmount n = Inr (of_nat (1 + k * 10 + e))" "1 + k * 10 + e < 2 ^ 64" "e \<le> 9"
    "unat m = (if e < 9 then k div 9 * 10 + (k mod 9 + 1) else k + 1)" "unat n = unat m * 10 ^ e"
    using CompressAmount_code [OF False assms st] by blast
  have "m = (if e < 9 then of_nat (k div 9 * 10 + (k mod 9 + 1)) else of_nat (k + 1))"
    by (metis k(4) of_nat_unat ucast_id unsigned_of_nat word_unat_eq_iff)
  then have "DecompressAmount (of_nat (1 + k * 10 + e)) = times_10 e m" by (simp only: DecompressAmount_code [OF k(2,3)])
  moreover have "unat (times_10 e m) = unat n" using k(5) assms by (simp add: times_10_unat)
  ultimately show ?thesis using k(1) by (auto simp: word_unat_eq_iff)
qed

section \<open>Scripts and coins survive compression\<close>

text \<open>
  What the format relies on of libsecp256k1: a fully valid uncompressed public key is recovered
  from its first coordinate and the parity of the second.
\<close>

definition secp_decompresses :: "secp_pubkey \<Rightarrow> bool" where
  "secp_decompresses K \<longleftrightarrow>
     (\<forall>pk. length pk = 65 \<longrightarrow> pk ! 0 = 0x04 \<longrightarrow> IsFullyValid K pk \<longrightarrow>
        Decompress K ((0x02 OR (pk ! 64 AND 0x01)) # take 32 (drop 1 pk)) = Some pk)"

lemma split_middle:
  "length s = a + n + b \<Longrightarrow> s = take a s @ take n (drop a s) @ drop (a + n) s"
  by (metis add.commute append_take_drop_id drop_drop)

lemma take_nths: "1 \<le> length s \<Longrightarrow> take 1 s = [s ! 0]" "2 \<le> length s \<Longrightarrow> take 2 s = [s ! 0, s ! 1]"
  "3 \<le> length s \<Longrightarrow> take 3 s = [s ! 0, s ! 1, s ! 2]"
  by (auto simp: numeral_2_eq_2 numeral_3_eq_3 Suc_le_length_iff)

lemma drop_nths: "length s = Suc k \<Longrightarrow> drop k s = [s ! k]" "length s = Suc (Suc k) \<Longrightarrow> drop k s = [s ! k, s ! Suc k]"
  by (simp_all add: Cons_nth_drop_Suc [symmetric])

lemma key_id_script:
  assumes "IsToKeyID script = Some h"
  shows "script = [OP_DUP, OP_HASH160, 20] @ h @ [OP_EQUALVERIFY, OP_CHECKSIG]" "length h = 20"
proof -
  from assms have a: "length script = 25" "script ! 0 = OP_DUP" "script ! 1 = OP_HASH160" "script ! 2 = 20"
    "script ! 23 = OP_EQUALVERIFY" "script ! Suc 23 = OP_CHECKSIG" "h = take 20 (drop 3 script)"
    by (auto simp: IsToKeyID_def split: if_splits)
  have "script = take 3 script @ take 20 (drop 3 script) @ drop (3 + 20) script"
    by (rule split_middle [of _ _ _ 2]) (use a in simp)
  also have "\<dots> = [OP_DUP, OP_HASH160, 20] @ h @ [OP_EQUALVERIFY, OP_CHECKSIG]" using take_nths(3) [of script] drop_nths(2) [of script 23] a by simp
  finally show "script = [OP_DUP, OP_HASH160, 20] @ h @ [OP_EQUALVERIFY, OP_CHECKSIG]" .
  show "length h = 20" using a by simp
qed

lemma script_id_script:
  assumes "IsToScriptID script = Some h"
  shows "script = [OP_HASH160, 20] @ h @ [OP_EQUAL]" "length h = 20"
proof -
  from assms have a: "length script = 23" "script ! 0 = OP_HASH160" "script ! 1 = 20" "script ! 22 = OP_EQUAL"
    "h = take 20 (drop 2 script)"
    by (auto simp: IsToScriptID_def split: if_splits)
  have "script = take 2 script @ take 20 (drop 2 script) @ drop (2 + 20) script"
    by (rule split_middle [of _ _ _ 1]) (use a in simp)
  also have "\<dots> = [OP_HASH160, 20] @ h @ [OP_EQUAL]" using take_nths(2) [of script] drop_nths(1) [of script 22] a by simp
  finally show "script = [OP_HASH160, 20] @ h @ [OP_EQUAL]" .
  show "length h = 20" using a by simp
qed

lemma pubkey_script:
  assumes "IsToPubKey K script = Some pk"
  obtains "pk ! 0 = 0x02 \<or> pk ! 0 = 0x03" "length pk = 33" "script = [33] @ pk @ [OP_CHECKSIG]"
  | "pk ! 0 = 0x04" "length pk = 65" "IsFullyValid K pk" "script = [65] @ pk @ [OP_CHECKSIG]"
proof (cases "length script = 35 \<and> script ! 0 = 33 \<and> script ! 34 = OP_CHECKSIG \<and> (script ! 1 = 0x02 \<or> script ! 1 = 0x03)")
  case True
  with assms have pk: "pk = take 33 (drop 1 script)" by (simp add: IsToPubKey_def)
  have "script = take 1 script @ take 33 (drop 1 script) @ drop (1 + 33) script"
    by (rule split_middle [of _ _ _ 1]) (use True in simp)
  also have "\<dots> = [33] @ pk @ [OP_CHECKSIG]"
    using take_nths(1) [of script] drop_nths(1) [of script 34] True by (simp add: pk)
  finally show ?thesis by (rule that(1) [rotated 2]) (use True in \<open>simp_all add: pk\<close>)
next
  case False
  with assms have a: "length script = 67" "script ! 0 = 65" "script ! 66 = OP_CHECKSIG" "script ! 1 = 0x04"
    "pk = take 65 (drop 1 script)" "IsFullyValid K pk"
    by (auto simp: IsToPubKey_def Let_def split: if_splits)
  have "script = take 1 script @ take 65 (drop 1 script) @ drop (1 + 65) script"
    by (rule split_middle [of _ _ _ 1]) (use a in simp)
  also have "\<dots> = [65] @ pk @ [OP_CHECKSIG]"
    using take_nths(1) [of script] drop_nths(1) [of script 66] a by simp
  finally show ?thesis by (rule that(2) [rotated 3]) (use a in simp_all)
qed

lemma split_head: "length pk = Suc n \<Longrightarrow> pk ! 0 # take n (drop 1 pk) = pk"
  by (cases pk) auto

lemma WriteVarInt_tags:
  "WriteVarInt (0 :: u32) = [0]" "WriteVarInt (1 :: u32) = [1]" "WriteVarInt (2 :: u32) = [2]"
  "WriteVarInt (3 :: u32) = [3]" "WriteVarInt (4 :: u32) = [4]" "WriteVarInt (5 :: u32) = [5]"
  by code_simp+

text \<open>The special cases: the tag, the bytes after it, and that they decompress to the script.\<close>

lemma CompressScript_cases:
  assumes "CompressScript K script = Some compr" "secp_decompresses K"
  obtains sz buf where "compr = WriteVarInt sz @ buf" "sz < nSpecialScripts" "length buf = GetSpecialScriptSize sz"
    "DecompressScript K sz buf = Inr (Some script)"
proof -
  note tags = WriteVarInt_tags nSpecialScripts_def GetSpecialScriptSize_def DecompressScript_def
  show ?thesis
  proof (cases "IsToKeyID script")
    case (Some h)
    with assms(1) have c: "compr = WriteVarInt (0 :: u32) @ h" by (simp add: CompressScript_def tags)
    show ?thesis by (rule that [OF c]) (use key_id_script [OF Some] in \<open>simp_all add: tags\<close>)
  next
    case noKey: None
    show ?thesis
    proof (cases "IsToScriptID script")
      case (Some h)
      with noKey assms(1) have c: "compr = WriteVarInt (1 :: u32) @ h" by (simp add: CompressScript_def tags)
      show ?thesis by (rule that [OF c]) (use script_id_script [OF Some] in \<open>simp_all add: tags\<close>)
    next
      case None
      with noKey assms(1) obtain pk where pk: "IsToPubKey K script = Some pk"
        by (auto simp: CompressScript_def split: option.splits)
      let ?x = "take 32 (drop 1 pk)"
      from pk show ?thesis
      proof (cases rule: pubkey_script)
        case 1
        then have c0: "compr = pk ! 0 # ?x" using assms(1) noKey None pk by (simp add: CompressScript_def)
        from 1(1) show ?thesis
        proof
          assume h: "pk ! 0 = 0x02"
          with c0 have c: "compr = WriteVarInt (2 :: u32) @ ?x" by (simp add: tags)
          show ?thesis by (rule that [OF c]) (use 1 h split_head [of pk 32] in \<open>simp_all add: tags\<close>)
        next
          assume h: "pk ! 0 = 0x03"
          with c0 have c: "compr = WriteVarInt (3 :: u32) @ ?x" by (simp add: tags)
          show ?thesis by (rule that [OF c]) (use 1 h split_head [of pk 32] in \<open>simp_all add: tags\<close>)
        qed
      next
        case 2
        then have c0: "compr = (0x04 OR (pk ! 64 AND 0x01)) # ?x" using assms(1) noKey None pk by (simp add: CompressScript_def)
        have dec: "Decompress K ((0x02 OR (pk ! 64 AND 0x01)) # ?x) = Some pk"
          using assms(2) 2 by (simp add: secp_decompresses_def)
        show ?thesis
        proof (cases "odd (pk ! 64)")
          case True
          then have "pk ! 64 AND 0x01 = 1" by (simp add: and_one_eq odd_iff_mod_2_eq_one)
          with c0 have c: "compr = WriteVarInt (5 :: u32) @ ?x" by (simp add: tags)
          show ?thesis by (rule that [OF c]) (use 2 dec \<open>pk ! 64 AND 0x01 = 1\<close> in \<open>simp_all add: tags\<close>)
        next
          case False
          then have "pk ! 64 AND 0x01 = 0" by (simp add: and_one_eq even_iff_mod_2_eq_zero)
          with c0 have c: "compr = WriteVarInt (4 :: u32) @ ?x" by (simp add: tags)
          show ?thesis by (rule that [OF c]) (use 2 dec \<open>pk ! 64 AND 0x01 = 0\<close> in \<open>simp_all add: tags\<close>)
        qed
      qed
    qed
  qed
qed

lemma plain_size:
  assumes "length script \<le> MAX_SCRIPT_SIZE"
  shows "\<not> (of_nat (length script) + nSpecialScripts :: u32) < nSpecialScripts"
    "unat ((of_nat (length script) + nSpecialScripts :: u32) - nSpecialScripts) = length script"
proof -
  have len: "unat (of_nat (length script) :: u32) = length script"
    using assms by (simp add: MAX_SCRIPT_SIZE_def unat_of_nat)
  have "unat (of_nat (length script) + nSpecialScripts :: u32) = length script + 6"
    using assms len by (simp add: nSpecialScripts_def MAX_SCRIPT_SIZE_def unat_word_ariths)
  then show "\<not> (of_nat (length script) + nSpecialScripts :: u32) < nSpecialScripts"
    by (simp add: word_less_nat_alt nSpecialScripts_def)
  show "unat ((of_nat (length script) + nSpecialScripts :: u32) - nSpecialScripts) = length script"
    using len by simp
qed

context byte_source
begin

lemma reads_ScriptCompression:
  assumes "secp_decompresses K" "length script \<le> MAX_SCRIPT_SIZE"
  shows "reads (ScriptCompression_Unser K rd ign script0) (ScriptCompression_Ser K script) script"
proof (cases "CompressScript K script")
  case None
  show ?thesis
    unfolding ScriptCompression_Unser_def [abs_def] ScriptCompression_Ser_def None option.case
    by (rule reads_bind [OF reads_ReadVarInt]) (use assms(2) plain_size [OF assms(2)] in \<open>simp_all add: reads_rd\<close>)
next
  case (Some compr)
  obtain sz buf where c: "compr = WriteVarInt sz @ buf" "sz < nSpecialScripts" "length buf = GetSpecialScriptSize sz"
    "DecompressScript K sz buf = Inr (Some script)"
    using CompressScript_cases [OF Some assms(1)] by blast
  have "reads (\<lambda>s. res_bind (rd (GetSpecialScriptSize sz) s) (\<lambda>(buf, s2).
      res_bind (DecompressScript K sz buf) (\<lambda>r. Inr (case r of Some script \<Rightarrow> script | None \<Rightarrow> script0, s2)))) (buf @ []) script"
    by (rule reads_bind [OF reads_rd [OF c(3)]]) (use c(4) in \<open>simp add: reads_return\<close>)
  then show ?thesis
    unfolding ScriptCompression_Unser_def [abs_def] ScriptCompression_Ser_def Some option.case c(1)
    by (intro reads_bind [OF reads_ReadVarInt]) (use c(2) in simp_all)
qed

lemma reads_TxOutCompression:
  assumes "secp_decompresses K" "length (scriptPubKey txo) \<le> MAX_SCRIPT_SIZE" "MoneyRange (nValue txo)"
  shows "\<exists>bs. TxOutCompression_Ser K txo = Inr bs \<and> reads (TxOutCompression_Unser K rd ign script0) bs txo"
proof -
  let ?n = "of_int (nValue txo) :: u64"
  have range: "0 \<le> nValue txo" "nValue txo < 2 ^ 60"
    using assms(3) by (simp_all add: MoneyRange_def MAX_MONEY_value)
  then have u: "uint ?n = nValue txo" "sint ?n = nValue txo"
    by (simp_all add: unsigned_of_int take_bit_int_eq_self signed_of_int signed_take_bit_int_eq_self)
  have "unat ?n < 2 ^ 60" using range u(1) by (simp add: unat_eq_nat_uint nat_less_iff)
  then obtain x where x: "CompressAmount ?n = Inr x" "DecompressAmount x = ?n" using amount_roundtrip by blast
  have "reads (TxOutCompression_Unser K rd ign script0) (WriteVarInt x @ ScriptCompression_Ser K (scriptPubKey txo)) txo"
    unfolding TxOutCompression_Unser_def [abs_def]
    by (rule reads_bind [OF reads_ReadVarInt], simp, rule reads_map [OF reads_ScriptCompression [OF assms(1,2)]])
      (simp add: x(2) u(2))
  with x(1) show ?thesis by (simp add: TxOutCompression_Ser_def)
qed

lemma height_code:
  fixes h :: "31 word"
  shows "ucast (drop_bit 1 (ucast h * 2 + (if b then 1 else 0) :: u32)) = h"
    "(ucast h * 2 + (if b then 1 else 0) :: u32) AND 1 \<noteq> 0 \<longleftrightarrow> b"
proof -
  let ?c = "ucast h * 2 + (if b then 1 else 0) :: u32"
  have h: "unat h < 2 ^ 31" using unsigned_less [of h] by simp
  then have "unat (ucast h :: u32) = unat h" by (simp add: unsigned_ucast_eq take_bit_nat_eq_self)
  then have c: "unat ?c = unat h * 2 + (if b then 1 else 0)" using h by (cases b) (simp_all add: unat_word_ariths)
  have "unat (drop_bit 1 w) = unat w div 2" for w :: u32 by (simp add: drop_bit_eq_div unat_div_distrib)
  then have "unat (drop_bit 1 ?c) = unat h" by (simp only: c) (cases b; simp)
  then show "ucast (drop_bit 1 ?c) = h"
    using h by (simp add: word_unat_eq_iff unsigned_ucast_eq take_bit_nat_eq_self)
  have "w AND 1 \<noteq> 0 \<longleftrightarrow> odd (unat w)" for w :: u32
    by (simp add: and_one_eq word_unat_eq_iff unat_mod_distrib odd_iff_mod_2_eq_one)
  then show "?c AND 1 \<noteq> 0 \<longleftrightarrow> b" by (simp only: c) (cases b; simp)
qed

lemma reads_Coin:
  assumes "secp_decompresses K" "length (scriptPubKey (coin_out cn)) \<le> MAX_SCRIPT_SIZE" "MoneyRange (nValue (coin_out cn))"
  shows "\<exists>bs. Coin_Serialize K cn = Inr bs \<and> reads (Coin_Unserialize K rd ign cn0) bs cn"
proof -
  have "\<not> Coin_IsSpent cn" using assms(3) by (simp add: Coin_IsSpent_def CTxOut_IsNull_def MoneyRange_def)
  moreover obtain bs where bs: "TxOutCompression_Ser K (coin_out cn) = Inr bs"
    "reads (TxOutCompression_Unser K rd ign (scriptPubKey (coin_out cn0))) bs (coin_out cn)"
    using reads_TxOutCompression [OF assms] by blast
  let ?code = "ucast (coin_nHeight cn) * 2 + (if coin_fCoinBase cn then 1 else 0) :: u32"
  have "reads (Coin_Unserialize K rd ign cn0) (WriteVarInt ?code @ bs) cn"
    unfolding Coin_Unserialize_def [abs_def]
    by (rule reads_bind [OF reads_ReadVarInt], simp, rule reads_map [OF bs(2)])
      (simp only: height_code, simp)
  ultimately show ?thesis using bs(1) by (simp add: Coin_Serialize_def Let_def)
qed

end

text \<open>
  C38: a coin of the UTXO set survives its compact format on disk: with an amount in the money range
  and a script that \<open>AddCoin\<close> would not drop as too long, \<open>Serialize\<close> does not fail and \<open>Unserialize\<close>
  gives the coin back, height and coinbase flag included, and leaves the rest of the stream. Of
  libsecp256k1 it assumes that decompressing a valid key's compressed form gives the key.
\<close>

theorem coin_roundtrip:
  assumes "secp_decompresses K" "MoneyRange (nValue (coin_out cn))" "length (scriptPubKey (coin_out cn)) \<le> MAX_SCRIPT_SIZE"
  shows "\<exists>bs. Coin_Serialize K cn = Inr bs \<and> (\<forall>s rest. ds_inv s \<and> ds_contents s = bs @ rest \<longrightarrow>
    (\<exists>s'. Coin_Unserialize K ds_read ds_ignore cn0 s = Inr (cn, s') \<and> ds_contents s' = rest))"
proof -
  obtain bs where bs: "Coin_Serialize K cn = Inr bs" "ds.reads (Coin_Unserialize K ds_read ds_ignore cn0) bs cn"
    using ds.reads_Coin [OF assms(1,3,2)] by blast
  with ds.readsD [OF bs(2)] show ?thesis by blast
qed

definition sample_secp :: secp_pubkey where
  "sample_secp =
     \<lparr>IsFullyValid = (\<lambda>pk. length pk = 65 \<and> pk ! 0 = 4 \<and> drop 33 pk = replicate 31 0 @ [pk ! 64 AND 1]),
      Decompress = (\<lambda>c. if length c = 33 then Some (4 # drop 1 c @ replicate 31 0 @ [c ! 0 AND 1]) else None)\<rparr>"

theorem coin_roundtrip_witness:
  "secp_decompresses sample_secp \<and> MoneyRange (nValue (coin_out sample_coin))
   \<and> (\<exists>bs. Coin_Serialize sample_secp sample_coin = Inr bs \<and> (\<forall>s rest. ds_inv s \<and> ds_contents s = bs @ rest \<longrightarrow>
    (\<exists>s'. Coin_Unserialize sample_secp ds_read ds_ignore coinEmpty s = Inr (sample_coin, s') \<and> ds_contents s' = rest)))"
proof -
  have "secp_decompresses sample_secp"
    unfolding secp_decompresses_def
  proof (intro allI impI)
    fix pk :: bytes
    assume pk: "length pk = 65" "pk ! 0 = 4" "IsFullyValid sample_secp pk"
    then have y: "drop 33 pk = replicate 31 0 @ [pk ! 64 AND 1]" by (simp add: sample_secp_def)
    have b: "(2 OR (pk ! 64 AND 1)) AND 1 = pk ! 64 AND 1" by (rule bit_word_eqI) (auto simp: bit_simps bit_1_iff)
    have "pk = take 1 pk @ take 32 (drop 1 pk) @ drop (1 + 32) pk" by (rule split_middle [of _ _ _ 32]) (simp add: pk(1))
    also have "\<dots> = 4 # take 32 (drop 1 pk) @ replicate 31 0 @ [pk ! 64 AND 1]"
      using take_nths(1) [of pk] pk y by simp
    finally show "Decompress sample_secp ((2 OR (pk ! 64 AND 1)) # take 32 (drop 1 pk)) = Some pk"
      using pk(1) b by (simp add: sample_secp_def)
  qed
  moreover have "MoneyRange (nValue (coin_out sample_coin))" "length (scriptPubKey (coin_out sample_coin)) \<le> MAX_SCRIPT_SIZE"
    by code_simp+
  ultimately show ?thesis using coin_roundtrip [of sample_secp sample_coin coinEmpty] by simp
qed

text \<open>
  \<open>DecompressAmount\<close> inverts \<open>CompressAmount\<close>, whose assertion holds and whose arithmetic does not wrap,
  for every amount below \<open>2 ^ 60\<close>, which includes the money range the comment asks for.
\<close>

lemma amount_compression_roundtrip:
  assumes "unat n < 2 ^ 60"
  shows "\<exists>x. CompressAmount n = Inr x \<and> DecompressAmount x = n"
  using amount_roundtrip [OF assms] .

end
