(* ===== verification/Chain.thy ===== *)
theory Chain
  imports Prelude
begin

unbundle bit_operations_syntax

text \<open>
  The block index (\<open>src/chain.h\<close>, \<open>src/chain.cpp\<close>): index entries linked by \<open>pprev\<close> and \<open>pskip\<close>, the walk
  \<open>GetAncestor\<close> over the skip list, \<open>BuildSkip\<close>, \<open>LastCommonAncestor\<close>, the median time, and the
  in-memory chain \<open>CChain\<close>. Entries live in a heap, a function from pointers to entries; a null pointer
  is \<open>None\<close>.
\<close>

section \<open>Index entries\<close>

type_synonym ptr = nat

text \<open>The fields the modelled code reads. Heights start at 0 for the genesis block; \<open>nVersion\<close> is only read bitwise.\<close>

record block_index =
  phashBlock :: uint256
  pprev :: "ptr option"
  pskip :: "ptr option"
  bi_height :: nat
  nChainWork :: uint256
  bi_nVersion :: u32
  bi_nTime :: u32
  bi_nBits :: u32

type_synonym heap = "ptr \<Rightarrow> block_index"

definition GetBlockTime :: "block_index \<Rightarrow> int" where
  "GetBlockTime b = uint (bi_nTime b)"

definition nMedianTimeSpan :: nat where
  "nMedianTimeSpan = 11"

fun median_times :: "heap \<Rightarrow> nat \<Rightarrow> ptr option \<Rightarrow> int list" where
  "median_times H 0 pindex = []"
| "median_times H (Suc i) None = []"
| "median_times H (Suc i) (Some p) = median_times H i (pprev (H p)) @ [GetBlockTime (H p)]"

lemma median_times_code [code]:
  "median_times H i pindex =
     (if i = 0 then [] else case pindex of None \<Rightarrow> [] | Some p \<Rightarrow> median_times H (i - 1) (pprev (H p)) @ [GetBlockTime (H p)])"
  by (cases i; cases pindex) simp_all

definition GetMedianTimePast :: "heap \<Rightarrow> ptr \<Rightarrow> int" where
  "GetMedianTimePast H p =
     (let times = sort (median_times H nMedianTimeSpan (Some p)) in times ! (length times div 2))"

section \<open>The skip list\<close>

definition InvertLowestOne :: "nat \<Rightarrow> nat" where
  "InvertLowestOne n = n AND (n - 1)"

definition GetSkipHeight :: "nat \<Rightarrow> nat" where
  "GetSkipHeight height =
     (if height < 2 then 0
      else if height AND 1 \<noteq> 0 then InvertLowestOne (InvertLowestOne (height - 1)) + 1
      else InvertLowestOne height)"

lemma and_le_nat: "m AND n \<le> n" for m n :: nat
  by (simp add: and_nat_def nat_le_iff AND_upper2)

lemma InvertLowestOne_less: "0 < n \<Longrightarrow> InvertLowestOne n < n"
  using and_le_nat [of n "n - 1"] by (simp add: InvertLowestOne_def)

lemma GetSkipHeight_less: "0 < h \<Longrightarrow> GetSkipHeight h < h"
proof -
  assume "0 < h"
  have le: "InvertLowestOne n \<le> n" for n using InvertLowestOne_less [of n] by (cases "n = 0") (simp_all add: InvertLowestOne_def)
  have "InvertLowestOne (InvertLowestOne (h - 1)) + 1 < h" if "2 \<le> h"
  proof -
    have "InvertLowestOne (InvertLowestOne (h - 1)) \<le> InvertLowestOne (h - 1)" by (rule le)
    also have "\<dots> < h - 1" using that by (intro InvertLowestOne_less) simp
    finally show ?thesis by simp
  qed
  with \<open>0 < h\<close> InvertLowestOne_less [of h] show ?thesis by (auto simp: GetSkipHeight_def)
qed

text \<open>
  \<open>GetAncestor\<close>. The loop runs while \<open>heightWalk > height\<close>; the test whether to follow \<open>pskip\<close> is the
  source's.
\<close>

definition follow_skip :: "heap \<Rightarrow> ptr \<Rightarrow> nat \<Rightarrow> nat \<Rightarrow> bool" where
  "follow_skip H walk heightWalk height =
     (let heightSkip = GetSkipHeight heightWalk;
          heightSkipPrev = GetSkipHeight (heightWalk - 1) in
      pskip (H walk) \<noteq> None
      \<and> (heightSkip = height
         \<or> (heightSkip > height \<and> \<not> (int heightSkipPrev < int heightSkip - 2 \<and> heightSkipPrev \<ge> height))))"

function GetAncestor_loop :: "heap \<Rightarrow> ptr \<Rightarrow> nat \<Rightarrow> nat \<Rightarrow> ptr res" where
  "GetAncestor_loop H walk heightWalk height =
     (if heightWalk > height then
        if follow_skip H walk heightWalk height
        then GetAncestor_loop H (the (pskip (H walk))) (GetSkipHeight heightWalk) height
        else
          case pprev (H walk) of
            None \<Rightarrow> Inl ''assert(pindexWalk->pprev)''
          | Some prev \<Rightarrow> GetAncestor_loop H prev (heightWalk - 1) height
      else Inr walk)"
  by pat_completeness auto
termination
  by (relation "measure (\<lambda>(H, walk, heightWalk, height). heightWalk)") (auto intro: GetSkipHeight_less)

declare GetAncestor_loop.simps [simp del]

definition GetAncestor :: "heap \<Rightarrow> ptr \<Rightarrow> int \<Rightarrow> ptr option res" where
  "GetAncestor H p height =
     (if height > int (bi_height (H p)) \<or> height < 0 then Inr None
      else res_bind (GetAncestor_loop H p (bi_height (H p)) (nat height)) (\<lambda>q. Inr (Some q)))"

definition BuildSkip :: "ptr \<Rightarrow> heap \<Rightarrow> heap res" where
  "BuildSkip p H =
     (case pprev (H p) of
        None \<Rightarrow> Inr H
      | Some prev \<Rightarrow>
          res_bind (GetAncestor H prev (int (GetSkipHeight (bi_height (H p))))) (\<lambda>r.
            Inr (H(p := (H p)\<lparr>pskip := r\<rparr>))))"

text \<open>
  The loop of \<open>LastCommonAncestor\<close> follows both \<open>pprev\<close> chains; the first argument bounds the
  iterations, and the height of the two blocks is enough.
\<close>

fun common_loop :: "nat \<Rightarrow> heap \<Rightarrow> ptr option \<Rightarrow> ptr option \<Rightarrow> ptr option res" where
  "common_loop fuel H pa pb =
     (if pa \<noteq> pb \<and> pa \<noteq> None \<and> pb \<noteq> None then
        case fuel of
          0 \<Rightarrow> Inl ''out of fuel''
        | Suc k \<Rightarrow> common_loop k H (pprev (H (the pa))) (pprev (H (the pb)))
      else if pa \<noteq> pb then Inl ''assert(pa == pb)''
      else Inr pa)"

declare common_loop.simps [simp del]

definition LastCommonAncestor :: "heap \<Rightarrow> ptr \<Rightarrow> ptr \<Rightarrow> ptr option res" where
  "LastCommonAncestor H pa pb =
     (let ha = bi_height (H pa); hb = bi_height (H pb) in
      res_bind (if ha > hb then GetAncestor H pa (int hb) else Inr (Some pa)) (\<lambda>pa'.
      res_bind (if hb > ha then GetAncestor H pb (int ha) else Inr (Some pb)) (\<lambda>pb'.
        common_loop (Suc (min ha hb)) H pa' pb')))"

section \<open>CChain\<close>

type_synonym CChain = "ptr option list"

definition chain_Genesis :: "CChain \<Rightarrow> ptr option" where
  "chain_Genesis vChain = (if length vChain > 0 then vChain ! 0 else None)"

definition chain_Tip :: "CChain \<Rightarrow> ptr option" where
  "chain_Tip vChain = (if length vChain > 0 then vChain ! (length vChain - 1) else None)"

definition chain_at :: "CChain \<Rightarrow> int \<Rightarrow> ptr option" where
  "chain_at vChain h = (if h < 0 \<or> h \<ge> int (length vChain) then None else vChain ! nat h)"

definition chain_Contains :: "heap \<Rightarrow> CChain \<Rightarrow> ptr \<Rightarrow> bool" where
  "chain_Contains H vChain p \<longleftrightarrow> chain_at vChain (int (bi_height (H p))) = Some p"

definition chain_Next :: "heap \<Rightarrow> CChain \<Rightarrow> ptr \<Rightarrow> ptr option" where
  "chain_Next H vChain p = (if chain_Contains H vChain p then chain_at vChain (int (bi_height (H p)) + 1) else None)"

definition chain_Height :: "CChain \<Rightarrow> int" where
  "chain_Height vChain = int (length vChain) - 1"

text \<open>\<open>resize\<close> fills with null pointers. The loop visits heights going down: the fuel is the height.\<close>

definition resize_chain :: "nat \<Rightarrow> CChain \<Rightarrow> CChain" where
  "resize_chain n vChain = take n vChain @ replicate (n - length vChain) None"

fun SetTip_loop :: "nat \<Rightarrow> heap \<Rightarrow> CChain \<Rightarrow> ptr option \<Rightarrow> CChain res" where
  "SetTip_loop fuel H vChain None = Inr vChain"
| "SetTip_loop fuel H vChain (Some p) =
     (let h = bi_height (H p) in
      if h \<ge> length vChain then Inl ''undefined behaviour: vChain[h]''
      else if vChain ! h \<noteq> Some p then
        case fuel of
          0 \<Rightarrow> Inl ''out of fuel''
        | Suc k \<Rightarrow> SetTip_loop k H (vChain[h := Some p]) (pprev (H p))
      else Inr vChain)"

definition SetTip :: "heap \<Rightarrow> ptr option \<Rightarrow> CChain \<Rightarrow> CChain res" where
  "SetTip H pindex vChain =
     (case pindex of
        None \<Rightarrow> Inr []
      | Some p \<Rightarrow> SetTip_loop (Suc (bi_height (H p))) H (resize_chain (Suc (bi_height (H p))) vChain) (Some p))"

fun FindFork_loop :: "nat \<Rightarrow> heap \<Rightarrow> CChain \<Rightarrow> ptr option \<Rightarrow> ptr option res" where
  "FindFork_loop fuel H vChain None = Inr None"
| "FindFork_loop fuel H vChain (Some p) =
     (if chain_Contains H vChain p then Inr (Some p)
      else case fuel of 0 \<Rightarrow> Inl ''out of fuel'' | Suc k \<Rightarrow> FindFork_loop k H vChain (pprev (H p)))"

definition FindFork :: "heap \<Rightarrow> CChain \<Rightarrow> ptr option \<Rightarrow> ptr option res" where
  "FindFork H vChain pindex =
     (case pindex of
        None \<Rightarrow> Inr None
      | Some p \<Rightarrow>
          res_bind (if int (bi_height (H p)) > chain_Height vChain then GetAncestor H p (chain_Height vChain) else Inr (Some p))
            (FindFork_loop (Suc (bi_height (H p))) H vChain))"

fun GetLocator_loop :: "nat \<Rightarrow> heap \<Rightarrow> CChain \<Rightarrow> nat \<Rightarrow> uint256 list \<Rightarrow> ptr option \<Rightarrow> uint256 list res" where
  "GetLocator_loop fuel H vChain nStep vHave None = Inr vHave"
| "GetLocator_loop fuel H vChain nStep vHave (Some p) =
     (let vHave' = vHave @ [phashBlock (H p)] in
      if bi_height (H p) = 0 then Inr vHave'
      else
        let h = bi_height (H p) - nStep in
        res_bind (if chain_Contains H vChain p then Inr (chain_at vChain (int h)) else GetAncestor H p (int h)) (\<lambda>q.
          case fuel of
            0 \<Rightarrow> Inl ''out of fuel''
          | Suc k \<Rightarrow> GetLocator_loop k H vChain (if length vHave' > 10 then nStep * 2 else nStep) vHave' q))"

definition GetLocator :: "heap \<Rightarrow> CChain \<Rightarrow> ptr option \<Rightarrow> uint256 list res" where
  "GetLocator H vChain pindex =
     (let p = (case pindex of None \<Rightarrow> chain_Tip vChain | Some p \<Rightarrow> Some p) in
      GetLocator_loop (case p of None \<Rightarrow> 0 | Some q \<Rightarrow> bi_height (H q)) H vChain 1 [] p)"

declare SetTip_loop.simps(2) [simp del] FindFork_loop.simps(2) [simp del] GetLocator_loop.simps(2) [simp del]

section \<open>Well-formed indexes\<close>

text \<open>\<open>prevs H p n\<close>: \<open>pprev\<close> followed \<open>n\<close> times. \<open>ancestor H p h\<close>: the ancestor of \<open>p\<close> at height \<open>h\<close>.\<close>

fun prevs :: "heap \<Rightarrow> ptr \<Rightarrow> nat \<Rightarrow> ptr option" where
  "prevs H p 0 = Some p"
| "prevs H p (Suc n) = (case pprev (H p) of None \<Rightarrow> None | Some q \<Rightarrow> prevs H q n)"

definition ancestor :: "heap \<Rightarrow> ptr \<Rightarrow> nat \<Rightarrow> ptr option" where
  "ancestor H p h = (if h \<le> bi_height (H p) then prevs H p (bi_height (H p) - h) else None)"

definition linked :: "heap \<Rightarrow> bool" where
  "linked H \<longleftrightarrow> (\<forall>p. case pprev (H p) of None \<Rightarrow> bi_height (H p) = 0 | Some q \<Rightarrow> bi_height (H p) = Suc (bi_height (H q)))"

definition wf_index :: "heap \<Rightarrow> bool" where
  "wf_index H \<longleftrightarrow> linked H \<and> (\<forall>p r. pskip (H p) = Some r \<longrightarrow> ancestor H p (GetSkipHeight (bi_height (H p))) = Some r)"

lemma linkedD: "linked H \<Longrightarrow> pprev (H p) = Some q \<Longrightarrow> bi_height (H p) = Suc (bi_height (H q))"
  "linked H \<Longrightarrow> pprev (H p) = None \<Longrightarrow> bi_height (H p) = 0"
  by (auto simp: linked_def split: option.splits dest: spec [of _ p])

lemma linked_prev: "linked H \<Longrightarrow> 0 < bi_height (H p) \<Longrightarrow> \<exists>q. pprev (H p) = Some q"
  using linkedD(2) [of H p] by (cases "pprev (H p)") auto

lemma prevs_height:
  "linked H \<Longrightarrow> n \<le> bi_height (H p) \<Longrightarrow> \<exists>q. prevs H p n = Some q \<and> bi_height (H q) = bi_height (H p) - n"
proof (induction n arbitrary: p)
  case (Suc n)
  obtain q where q: "pprev (H p) = Some q" using linked_prev [OF Suc.prems(1), of p] Suc.prems(2) by auto
  then have "bi_height (H p) = Suc (bi_height (H q))" using linkedD(1) [OF Suc.prems(1)] by simp
  with Suc.IH [of q] Suc.prems q show ?case by auto
qed simp

lemma prevs_add: "prevs H p (m + n) = Option.bind (prevs H p m) (\<lambda>q. prevs H q n)"
  by (induction m arbitrary: p) (auto split: option.splits)

lemma ancestor_Some:
  "linked H \<Longrightarrow> h \<le> bi_height (H p) \<Longrightarrow> \<exists>q. ancestor H p h = Some q \<and> bi_height (H q) = h"
  using prevs_height [of H "bi_height (H p) - h" p] by (auto simp: ancestor_def)

lemma ancestor_height: "linked H \<Longrightarrow> ancestor H p h = Some q \<Longrightarrow> bi_height (H q) = h"
  using ancestor_Some [of H h p] by (auto simp: ancestor_def split: if_splits)

lemma ancestor_self [simp]: "ancestor H p (bi_height (H p)) = Some p"
  by (simp add: ancestor_def)

text \<open>An ancestor's ancestor.\<close>

lemma ancestor_trans:
  assumes "linked H" "ancestor H p h = Some q" "k \<le> h"
  shows "ancestor H q k = ancestor H p k"
proof -
  have h: "h \<le> bi_height (H p)" "prevs H p (bi_height (H p) - h) = Some q"
    using assms(2) by (auto simp: ancestor_def split: if_splits)
  have "prevs H p ((bi_height (H p) - h) + (h - k)) = prevs H q (h - k)" by (simp only: prevs_add h(2)) simp
  moreover have "(bi_height (H p) - h) + (h - k) = bi_height (H p) - k" using h(1) assms(3) by simp
  ultimately show ?thesis using h(1) assms(3) ancestor_height [OF assms(1,2)] by (simp add: ancestor_def)
qed

lemma ancestor_prev:
  assumes "linked H" "pprev (H p) = Some q"
  shows "ancestor H p (bi_height (H q)) = Some q"
  using assms linkedD(1) [OF assms] by (simp add: ancestor_def)

section \<open>GetAncestor\<close>

lemma GetAncestor_loop_correct:
  assumes "wf_index H" "height \<le> bi_height (H walk)"
  shows "\<exists>q. GetAncestor_loop H walk (bi_height (H walk)) height = Inr q \<and> ancestor H walk height = Some q"
  using assms(2)
proof (induction "bi_height (H walk)" arbitrary: walk rule: less_induct)
  case less
  have wf: "linked H" using assms(1) by (simp add: wf_index_def)
  show ?case
  proof (cases "bi_height (H walk) > height")
    case False
    with less.prems show ?thesis by (simp add: GetAncestor_loop.simps ancestor_def)
  next
    case True
    show ?thesis
    proof (cases "follow_skip H walk (bi_height (H walk)) height")
      case skip: True
      let ?s = "GetSkipHeight (bi_height (H walk))"
      obtain r where r: "pskip (H walk) = Some r" using skip by (auto simp: follow_skip_def Let_def)
      then have anc: "ancestor H walk ?s = Some r" using assms(1) by (simp add: wf_index_def)
      then have hr: "bi_height (H r) = ?s" by (rule ancestor_height [OF wf])
      have "?s < bi_height (H walk)" using True by (intro GetSkipHeight_less) simp
      moreover have "height \<le> ?s" using skip by (auto simp: follow_skip_def Let_def)
      ultimately obtain q where "GetAncestor_loop H r (bi_height (H r)) height = Inr q" "ancestor H r height = Some q"
        using less.hyps [of r] hr by auto
      with True skip r hr ancestor_trans [OF wf anc \<open>height \<le> ?s\<close>] show ?thesis
        by (simp add: GetAncestor_loop.simps [of H walk])
    next
      case walk: False
      obtain q where q: "pprev (H walk) = Some q" using linked_prev [OF wf, of walk] True by auto
      have hq: "bi_height (H walk) = Suc (bi_height (H q))" by (rule linkedD(1) [OF wf q])
      then obtain r where "GetAncestor_loop H q (bi_height (H q)) height = Inr r" "ancestor H q height = Some r"
        using less.hyps [of q] True by auto
      with True walk q hq ancestor_trans [OF wf ancestor_prev [OF wf q], of height] show ?thesis
        by (simp add: GetAncestor_loop.simps [of H walk])
    qed
  qed
qed

lemma GetAncestor_correct:
  assumes "wf_index H"
  shows "GetAncestor H p h = Inr (if h < 0 then None else ancestor H p (nat h))"
  using GetAncestor_loop_correct [OF assms, of "nat h" p]
  by (cases "h < 0 \<or> h > int (bi_height (H p))") (auto simp: GetAncestor_def ancestor_def)

text \<open>\<open>BuildSkip\<close> on a new entry: its links are set, nobody points to it yet.\<close>

lemma prevs_upd_skip: "prevs (H(p := (H p)\<lparr>pskip := r\<rparr>)) x n = prevs H x n"
  by (induction n arbitrary: x) (auto split: option.split)

lemma ancestor_upd_skip: "ancestor (H(p := (H p)\<lparr>pskip := r\<rparr>)) x h = ancestor H x h"
  by (simp add: ancestor_def prevs_upd_skip)

lemma linked_upd_skip: "linked (H(p := (H p)\<lparr>pskip := r\<rparr>)) = linked H"
proof -
  have "pprev ((H(p := (H p)\<lparr>pskip := r\<rparr>)) x) = pprev (H x)" "bi_height ((H(p := (H p)\<lparr>pskip := r\<rparr>)) x) = bi_height (H x)" for x
    by simp_all
  then show ?thesis by (simp only: linked_def)
qed

lemma BuildSkip_correct:
  assumes "wf_index H"
  shows "\<exists>H'. BuildSkip p H = Inr H' \<and> wf_index H' \<and> (\<forall>x h. ancestor H' x h = ancestor H x h)
    \<and> (0 < bi_height (H p) \<longrightarrow> pskip (H' p) = ancestor H p (GetSkipHeight (bi_height (H p))))"
proof (cases "pprev (H p)")
  case None
  with assms linkedD(2) [of H p] show ?thesis by (simp add: BuildSkip_def wf_index_def)
next
  case (Some q)
  have wf: "linked H" using assms by (simp add: wf_index_def)
  let ?k = "GetSkipHeight (bi_height (H p))"
  have hp: "bi_height (H p) = Suc (bi_height (H q))" by (rule linkedD(1) [OF wf Some])
  then have "?k \<le> bi_height (H q)" using GetSkipHeight_less [of "bi_height (H p)"] by simp
  then have anc: "ancestor H q ?k = ancestor H p ?k" by (rule ancestor_trans [OF wf ancestor_prev [OF wf Some]])
  let ?H = "H(p := (H p)\<lparr>pskip := ancestor H p ?k\<rparr>)"
  have "BuildSkip p H = Inr ?H" using Some by (simp add: BuildSkip_def GetAncestor_correct [OF assms] anc)
  moreover have "wf_index ?H" using assms by (simp add: wf_index_def ancestor_upd_skip linked_upd_skip)
  ultimately show ?thesis by (simp add: ancestor_upd_skip)
qed

section \<open>The in-memory chain\<close>

text \<open>\<open>is_chain H v p\<close>: \<open>v\<close> lists the ancestors of \<open>p\<close> by height, up to \<open>p\<close>.\<close>

definition is_chain :: "heap \<Rightarrow> CChain \<Rightarrow> ptr \<Rightarrow> bool" where
  "is_chain H v p \<longleftrightarrow> length v = Suc (bi_height (H p)) \<and> (\<forall>h\<le>bi_height (H p). v ! h = ancestor H p h)"

definition valid_chain :: "heap \<Rightarrow> CChain \<Rightarrow> bool" where
  "valid_chain H v \<longleftrightarrow> v = [] \<or> (\<exists>p. is_chain H v p)"

text \<open>Below height \<open>n\<close>, every entry has its own ancestors under it.\<close>

definition closed_below :: "heap \<Rightarrow> CChain \<Rightarrow> nat \<Rightarrow> bool" where
  "closed_below H v n \<longleftrightarrow> (\<forall>j x. j \<le> n \<longrightarrow> v ! j = Some x \<longrightarrow> bi_height (H x) = j \<and> (\<forall>i\<le>j. v ! i = ancestor H x i))"

lemma closed_belowD:
  "closed_below H v n \<Longrightarrow> j \<le> n \<Longrightarrow> v ! j = Some x \<Longrightarrow> bi_height (H x) = j \<and> (\<forall>i\<le>j. v ! i = ancestor H x i)"
  unfolding closed_below_def by blast

lemma closed_below_update:
  assumes "closed_below H v n" "m \<le> n" "m < k"
  shows "closed_below H (v[k := y]) m"
  unfolding closed_below_def
proof (intro allI impI)
  fix j x
  assume j: "j \<le> m" "v[k := y] ! j = Some x"
  have same: "v[k := y] ! i = v ! i" if "i \<le> j" for i using that j(1) assms(3) by (intro nth_list_update_neq) linarith
  have "bi_height (H x) = j \<and> (\<forall>i\<le>j. v ! i = ancestor H x i)"
    by (rule closed_belowD [OF assms(1)]) (use j assms(2) same [of j] in simp_all)
  with same show "bi_height (H x) = j \<and> (\<forall>i\<le>j. v[k := y] ! i = ancestor H x i)" by simp
qed

lemma SetTip_loop_correct:
  assumes "linked H" "bi_height (H q) < length v" "bi_height (H q) < fuel" "closed_below H v (bi_height (H q))"
  shows "\<exists>v'. SetTip_loop fuel H v (Some q) = Inr v' \<and> length v' = length v
    \<and> (\<forall>i\<le>bi_height (H q). v' ! i = ancestor H q i) \<and> (\<forall>i. bi_height (H q) < i \<longrightarrow> v' ! i = v ! i)"
  using assms(2-4)
proof (induction "bi_height (H q)" arbitrary: q v fuel rule: less_induct)
  case less
  let ?h = "bi_height (H q)"
  obtain k where k: "fuel = Suc k" using less.prems(2) by (cases fuel) auto
  show ?case
  proof (cases "v ! ?h = Some q")
    case True
    then have "SetTip_loop fuel H v (Some q) = Inr v"
      using less.prems(1) by (simp add: SetTip_loop.simps(2) [of fuel] Let_def)
    moreover have "\<forall>i\<le>?h. v ! i = ancestor H q i" using closed_belowD [OF less.prems(3) le_refl True] by blast
    ultimately show ?thesis by simp
  next
    case False
    let ?v = "v[?h := Some q]"
    have step: "SetTip_loop fuel H v (Some q) = SetTip_loop k H ?v (pprev (H q))"
      using False less.prems(1) by (simp add: k SetTip_loop.simps(2) [of "Suc k"] Let_def)
    show ?thesis
    proof (cases "pprev (H q)")
      case None
      then have "?h = 0" by (rule linkedD(2) [OF assms(1)])
      with None step less.prems(1) show ?thesis by (simp add: ancestor_def)
    next
      case (Some r)
      have hr: "?h = Suc (bi_height (H r))" by (rule linkedD(1) [OF assms(1) Some])
      have "closed_below H ?v (bi_height (H r))"
        by (rule closed_below_update [OF less.prems(3)]) (use hr in simp_all)
      then have "\<exists>v'. SetTip_loop k H ?v (Some r) = Inr v' \<and> length v' = length ?v
        \<and> (\<forall>i\<le>bi_height (H r). v' ! i = ancestor H r i) \<and> (\<forall>i. bi_height (H r) < i \<longrightarrow> v' ! i = ?v ! i)"
        by (intro less.hyps) (use hr less.prems(1,2) k in simp_all)
      then obtain v' where v': "SetTip_loop k H ?v (Some r) = Inr v'" "length v' = length ?v"
        "\<forall>i\<le>bi_height (H r). v' ! i = ancestor H r i" "\<forall>i. bi_height (H r) < i \<longrightarrow> v' ! i = ?v ! i" by blast
      have "v' ! i = ancestor H q i" if "i \<le> ?h" for i
      proof (cases "i = ?h")
        case True
        then show ?thesis using v'(4) hr less.prems(1) ancestor_self [of H q] by simp
      next
        case False
        with that hr v'(3) ancestor_trans [OF assms(1) ancestor_prev [OF assms(1) Some], of i] show ?thesis by simp
      qed
      moreover have "v' ! i = v ! i" if "?h < i" for i using v'(4) hr that by simp
      ultimately show ?thesis using v'(1,2) step Some by (intro exI [of _ v']) simp
    qed
  qed
qed

lemma closed_below_resize:
  assumes "linked H" "valid_chain H v"
  shows "closed_below H (resize_chain (Suc n) v) n"
  unfolding closed_below_def
proof (intro allI impI)
  fix j x
  assume j: "j \<le> n" and x: "resize_chain (Suc n) v ! j = Some x"
  have jv: "j < length v" using x j by (auto simp: resize_chain_def nth_append split: if_splits)
  with assms(2) obtain p where p: "is_chain H v p" by (auto simp: valid_chain_def)
  have same: "resize_chain (Suc n) v ! i = v ! i" if "i \<le> j" for i
    using that j jv by (simp add: resize_chain_def nth_append)
  have anc: "ancestor H p j = Some x" using x jv p same [of j] by (simp add: is_chain_def)
  then show "bi_height (H x) = j \<and> (\<forall>i\<le>j. resize_chain (Suc n) v ! i = ancestor H x i)"
    using ancestor_height [OF assms(1) anc] ancestor_trans [OF assms(1) anc] p jv same by (simp add: is_chain_def)
qed

lemma SetTip_correct:
  assumes "linked H" "valid_chain H v"
  shows "\<exists>v'. SetTip H (Some p) v = Inr v' \<and> is_chain H v' p"
proof -
  let ?n = "bi_height (H p)"
  have len: "length (resize_chain (Suc ?n) v) = Suc ?n" by (simp add: resize_chain_def)
  then show ?thesis
    using SetTip_loop_correct [OF assms(1) _ _ closed_below_resize [OF assms], of p "Suc ?n"]
    by (auto simp: SetTip_def is_chain_def)
qed

lemma is_chain_Contains:
  assumes "linked H" "is_chain H v t"
  shows "chain_Contains H v q \<longleftrightarrow> ancestor H t (bi_height (H q)) = Some q"
  using assms(2) by (auto simp: chain_Contains_def chain_at_def is_chain_def ancestor_def)

lemma valid_chain_below:
  assumes "linked H" "valid_chain H v" "chain_Contains H v q" "h \<le> bi_height (H q)"
  shows "chain_at v (int h) = ancestor H q h"
proof -
  have "v \<noteq> []" using assms(3) by (auto simp: chain_Contains_def chain_at_def)
  with assms(2) obtain t where t: "is_chain H v t" by (auto simp: valid_chain_def)
  have q: "ancestor H t (bi_height (H q)) = Some q" using is_chain_Contains [OF assms(1) t] assms(3) by simp
  then have "bi_height (H q) \<le> bi_height (H t)" by (auto simp: ancestor_def split: if_splits)
  with t assms(4) ancestor_trans [OF assms(1) q assms(4)] show ?thesis by (simp add: chain_at_def is_chain_def)
qed

text \<open>\<open>fork H v p q\<close>: \<open>q\<close> is the highest ancestor of \<open>p\<close> on the chain; there is none for \<open>None\<close>.\<close>

definition on_chain_at :: "heap \<Rightarrow> CChain \<Rightarrow> ptr \<Rightarrow> nat \<Rightarrow> bool" where
  "on_chain_at H v p h \<longleftrightarrow> (\<exists>x. ancestor H p h = Some x \<and> chain_Contains H v x)"

definition is_fork :: "heap \<Rightarrow> CChain \<Rightarrow> ptr \<Rightarrow> ptr option \<Rightarrow> bool" where
  "is_fork H v p r \<longleftrightarrow>
     (case r of
        None \<Rightarrow> \<forall>h. \<not> on_chain_at H v p h
      | Some q \<Rightarrow> ancestor H p (bi_height (H q)) = Some q \<and> chain_Contains H v q
          \<and> (\<forall>h>bi_height (H q). \<not> on_chain_at H v p h))"

lemma on_chain_above: "bi_height (H p) < h \<Longrightarrow> \<not> on_chain_at H v p h"
  by (simp add: on_chain_at_def ancestor_def)

lemma FindFork_loop_correct:
  assumes "linked H" "bi_height (H p) < fuel"
  shows "\<exists>r. FindFork_loop fuel H v (Some p) = Inr r \<and> is_fork H v p r"
  using assms(2)
proof (induction "bi_height (H p)" arbitrary: p fuel rule: less_induct)
  case less
  obtain k where k: "fuel = Suc k" using less.prems by (cases fuel) auto
  show ?case
  proof (cases "chain_Contains H v p")
    case True
    then show ?thesis using on_chain_above [of H p _ v] by (simp add: is_fork_def FindFork_loop.simps(2))
  next
    case out: False
    show ?thesis
    proof (cases "pprev (H p)")
      case None
      have "\<not> on_chain_at H v p h" for h
        using linkedD(2) [OF assms(1) None] out by (auto simp: on_chain_at_def ancestor_def split: if_splits)
      with None out show ?thesis by (simp add: k is_fork_def FindFork_loop.simps(2))
    next
      case (Some q)
      have hq: "bi_height (H p) = Suc (bi_height (H q))" by (rule linkedD(1) [OF assms(1) Some])
      have same: "on_chain_at H v p h = on_chain_at H v q h" for h
      proof (cases "h \<le> bi_height (H q)")
        case True
        then show ?thesis using ancestor_trans [OF assms(1) ancestor_prev [OF assms(1) Some] True] by (simp add: on_chain_at_def)
      next
        case False
        have "ancestor H p (Suc (bi_height (H q))) = Some p" using ancestor_self [of H p] by (simp only: hq)
        with False hq out on_chain_above [of H q h v] on_chain_above [of H p h v] show ?thesis
          by (cases "h = Suc (bi_height (H q))") (auto simp: on_chain_at_def)
      qed
      obtain r where r: "FindFork_loop k H v (Some q) = Inr r" "is_fork H v q r"
        using less.hyps [of q k] hq less.prems k by auto
      have "is_fork H v p r"
      proof (cases r)
        case None
        with r(2) same show ?thesis by (simp add: is_fork_def)
      next
        case (Some x)
        with r(2) have x: "ancestor H q (bi_height (H x)) = Some x" by (simp add: is_fork_def)
        then have "bi_height (H x) \<le> bi_height (H q)" by (auto simp: ancestor_def split: if_splits)
        with x ancestor_trans [OF assms(1) ancestor_prev [OF assms(1) \<open>pprev (H p) = Some q\<close>]]
        have "ancestor H p (bi_height (H x)) = Some x" by simp
        with Some r(2) same show ?thesis by (simp add: is_fork_def)
      qed
      with r(1) Some out show ?thesis by (simp add: k FindFork_loop.simps(2) [of "Suc k"])
    qed
  qed
qed

lemma FindFork_correct:
  assumes "wf_index H" "valid_chain H v"
  shows "\<exists>r. FindFork H v (Some p) = Inr r \<and> is_fork H v p r"
proof -
  have wf: "linked H" using assms(1) by (simp add: wf_index_def)
  let ?h = "bi_height (H p)"
  show ?thesis
  proof (cases "int ?h > chain_Height v")
    case False
    then show ?thesis using FindFork_loop_correct [OF wf, of p "Suc ?h" v] by (simp add: FindFork_def)
  next
    case True
    have high: "\<not> on_chain_at H v p h" if "length v \<le> h" for h
      using that ancestor_height [OF wf] by (auto simp: on_chain_at_def chain_Contains_def chain_at_def)
    show ?thesis
    proof (cases "v = []")
      case Nil: True
      then have "FindFork H v (Some p) = Inr None"
        using True by (simp add: FindFork_def chain_Height_def GetAncestor_def)
      with Nil high show ?thesis by (simp add: is_fork_def)
    next
      case False
      let ?k = "length v - 1"
      have k: "nat (chain_Height v) = ?k" "\<not> chain_Height v < 0" "?k \<le> ?h" using True False by (auto simp: chain_Height_def)
      obtain q where q: "ancestor H p ?k = Some q" "bi_height (H q) = ?k" using ancestor_Some [OF wf k(3)] by blast
      obtain r where r: "FindFork_loop (Suc ?h) H v (Some q) = Inr r" "is_fork H v q r"
        using FindFork_loop_correct [OF wf, of q "Suc ?h" v] q(2) k(3) by auto
      have same: "on_chain_at H v p h = on_chain_at H v q h" for h
      proof (cases "h \<le> ?k")
        case True
        then show ?thesis using ancestor_trans [OF wf q(1)] by (simp add: on_chain_at_def)
      next
        case above: False
        then have "length v \<le> h" using False by (cases v) auto
        then show ?thesis using high on_chain_above [of H q h v] q(2) above by simp
      qed
      have "ancestor H p (bi_height (H x)) = Some x" if "ancestor H q (bi_height (H x)) = Some x" for x
        using that ancestor_trans [OF wf q(1), of "bi_height (H x)"] q(2) by (auto simp: ancestor_def split: if_splits)
      with r(2) same have "is_fork H v p r" by (auto simp: is_fork_def split: option.splits)
      moreover have "FindFork H v (Some p) = Inr r"
        using True r(1) q(1) k by (simp add: FindFork_def GetAncestor_correct [OF assms(1)])
      ultimately show ?thesis by blast
    qed
  qed
qed

section \<open>Common ancestors\<close>

definition is_common :: "heap \<Rightarrow> ptr \<Rightarrow> ptr \<Rightarrow> ptr \<Rightarrow> bool" where
  "is_common H pa pb q \<longleftrightarrow> ancestor H pa (bi_height (H q)) = Some q \<and> ancestor H pb (bi_height (H q)) = Some q
     \<and> (\<forall>h>bi_height (H q). ancestor H pa h = ancestor H pb h \<longrightarrow> ancestor H pa h = None)"

lemma common_loop_correct:
  assumes "linked H" "bi_height (H pa) = bi_height (H pb)" "bi_height (H pa) < fuel" "ancestor H pa 0 = ancestor H pb 0"
  shows "\<exists>q. common_loop fuel H (Some pa) (Some pb) = Inr (Some q) \<and> is_common H pa pb q"
  using assms(2-4)
proof (induction "bi_height (H pa)" arbitrary: pa pb fuel)
  case 0
  then have "pa = pb" by (simp add: ancestor_def)
  then show ?case by (auto simp: common_loop.simps is_common_def ancestor_def)
next
  case (Suc n)
  obtain k where k: "fuel = Suc k" using Suc.prems(2) by (cases fuel) auto
  show ?case
  proof (cases "pa = pb")
    case True
    then show ?thesis by (auto simp: common_loop.simps is_common_def ancestor_def)
  next
    case False
    obtain qa qb where q: "pprev (H pa) = Some qa" "pprev (H pb) = Some qb"
      using linked_prev [OF assms(1), of pa] linked_prev [OF assms(1), of pb] Suc.hyps(2) Suc.prems(1) by auto
    have ha: "bi_height (H pa) = Suc (bi_height (H qa))" by (rule linkedD(1) [OF assms(1) q(1)])
    have hb: "bi_height (H pb) = Suc (bi_height (H qb))" by (rule linkedD(1) [OF assms(1) q(2)])
    note ta = ancestor_trans [OF assms(1) ancestor_prev [OF assms(1) q(1)]]
    note tb = ancestor_trans [OF assms(1) ancestor_prev [OF assms(1) q(2)]]
    have "\<exists>q. common_loop k H (Some qa) (Some qb) = Inr (Some q) \<and> is_common H qa qb q"
      by (rule Suc.hyps(1)) (use ha hb Suc.hyps(2) Suc.prems k ta [of 0] tb [of 0] in simp_all)
    then obtain r where r: "common_loop k H (Some qa) (Some qb) = Inr (Some r)" "is_common H qa qb r" by blast
    have low: "bi_height (H r) \<le> bi_height (H qa)" using r(2) by (auto simp: is_common_def ancestor_def split: if_splits)
    have "ancestor H pa h = None" if "bi_height (H r) < h" "ancestor H pa h = ancestor H pb h" for h
    proof (cases "h \<le> bi_height (H qa)")
      case True
      then have "ancestor H qa h = ancestor H pa h" "ancestor H qb h = ancestor H pb h"
        using ta [of h] tb [of h] ha hb Suc.prems(1) by simp_all
      with that r(2) show ?thesis unfolding is_common_def by metis
    next
      case False
      have "h \<noteq> bi_height (H pa)" using that(2) \<open>pa \<noteq> pb\<close> Suc.prems(1) ancestor_self [of H pa] ancestor_self [of H pb] by auto
      with False ha show ?thesis by (simp add: ancestor_def)
    qed
    then have "is_common H pa pb r"
      using r(2) low ta [of "bi_height (H r)"] tb [of "bi_height (H r)"] ha hb Suc.prems(1) by (auto simp: is_common_def)
    moreover have "common_loop fuel H (Some pa) (Some pb) = Inr (Some r)"
      using False r(1) q by (simp add: k common_loop.simps [of "Suc k"])
    ultimately show ?thesis by blast
  qed
qed

lemma LastCommonAncestor_correct:
  assumes "wf_index H" "ancestor H pa 0 = ancestor H pb 0"
  shows "\<exists>q. LastCommonAncestor H pa pb = Inr (Some q) \<and> is_common H pa pb q"
proof -
  have wf: "linked H" using assms(1) by (simp add: wf_index_def)
  let ?ha = "bi_height (H pa)" and ?hb = "bi_height (H pb)"
  let ?m = "min ?ha ?hb"
  obtain x where x: "ancestor H pa ?m = Some x" "bi_height (H x) = ?m" using ancestor_Some [OF wf, of ?m pa] by auto
  obtain y where y: "ancestor H pb ?m = Some y" "bi_height (H y) = ?m" using ancestor_Some [OF wf, of ?m pb] by auto
  note tx = ancestor_trans [OF wf x(1)] and ty = ancestor_trans [OF wf y(1)]
  obtain q where q: "common_loop (Suc ?m) H (Some x) (Some y) = Inr (Some q)" "is_common H x y q"
    using common_loop_correct [OF wf, of x y "Suc ?m"] x(2) y(2) tx [of 0] ty [of 0] assms(2) by auto
  have low: "bi_height (H q) \<le> ?m" using q(2) x(2) by (auto simp: is_common_def ancestor_def split: if_splits)
  have "ancestor H pa h = None" if "bi_height (H q) < h" "ancestor H pa h = ancestor H pb h" for h
    using that q(2) tx [of h] ty [of h] by (cases "h \<le> ?m") (auto simp: is_common_def ancestor_def split: if_splits)
  then have "is_common H pa pb q" using q(2) tx [OF low] ty [OF low] by (simp add: is_common_def)
  moreover have "LastCommonAncestor H pa pb = Inr (Some q)"
    using q(1) x(1) y(1) by (auto simp: LastCommonAncestor_def Let_def GetAncestor_correct [OF assms(1)] min_def split: if_splits)
  ultimately show ?thesis by blast
qed

section \<open>Locators\<close>

text \<open>A locator of \<open>p\<close>: hashes of ancestors of \<open>p\<close> at strictly falling heights, from \<open>p\<close> to the genesis block.\<close>

definition is_locator :: "heap \<Rightarrow> ptr \<Rightarrow> ptr list \<Rightarrow> bool" where
  "is_locator H p ps \<longleftrightarrow> ps \<noteq> [] \<and> hd ps = p \<and> bi_height (H (last ps)) = 0
     \<and> sorted_wrt (\<lambda>x y. bi_height (H y) < bi_height (H x)) ps
     \<and> (\<forall>x\<in>set ps. ancestor H p (bi_height (H x)) = Some x)"

lemma GetLocator_loop_correct:
  assumes "wf_index H" "valid_chain H v" "0 < nStep" "bi_height (H p) \<le> fuel"
  shows "\<exists>ps. GetLocator_loop fuel H v nStep vHave (Some p) = Inr (vHave @ map (\<lambda>x. phashBlock (H x)) ps) \<and> is_locator H p ps"
  using assms(3,4)
proof (induction "bi_height (H p)" arbitrary: p fuel nStep vHave rule: less_induct)
  case less
  have wf: "linked H" using assms(1) by (simp add: wf_index_def)
  show ?case
  proof (cases "bi_height (H p) = 0")
    case True
    have "ancestor H p (bi_height (H p)) = Some p" by simp
    then have "is_locator H p [p]" using True by (simp add: is_locator_def)
    with True show ?thesis
      by (intro exI [of _ "[p]"]) (simp add: GetLocator_loop.simps(2) [of fuel] Let_def)
  next
    case False
    let ?h = "bi_height (H p) - nStep" and ?have = "vHave @ [phashBlock (H p)]"
    let ?step = "if length ?have > 10 then nStep * 2 else nStep"
    obtain k where k: "fuel = Suc k" using less.prems(2) False by (cases fuel) auto
    have lt: "?h < bi_height (H p)" using False less.prems(1) by simp
    obtain q where q: "ancestor H p ?h = Some q" "bi_height (H q) = ?h" using ancestor_Some [OF wf, of ?h p] lt by auto
    have step: "GetLocator_loop fuel H v nStep vHave (Some p) = GetLocator_loop k H v ?step ?have (Some q)"
      using False q(1) valid_chain_below [OF wf assms(2), of p ?h] GetAncestor_correct [OF assms(1), of p "int ?h"]
      by (simp add: k GetLocator_loop.simps(2) [of "Suc k"] Let_def)
    have "\<exists>ps. GetLocator_loop k H v ?step ?have (Some q) = Inr (?have @ map (\<lambda>x. phashBlock (H x)) ps) \<and> is_locator H q ps"
      by (rule less.hyps) (use lt q(2) less.prems k in simp_all)
    then obtain ps where ps: "GetLocator_loop k H v ?step ?have (Some q) = Inr (?have @ map (\<lambda>x. phashBlock (H x)) ps)" "is_locator H q ps"
      by blast
    have below: "bi_height (H x) \<le> ?h" if "x \<in> set ps" for x
      using ps(2) that q(2) by (auto simp: is_locator_def ancestor_def split: if_splits)
    have "ancestor H p (bi_height (H x)) = Some x" if "x \<in> set ps" for x
      using ancestor_trans [OF wf q(1) below [OF that]] ps(2) that by (simp add: is_locator_def)
    moreover have "bi_height (H x) < bi_height (H p)" if "x \<in> set ps" for x using below [OF that] lt by simp
    ultimately have "is_locator H p (p # ps)" using ps(2) by (simp add: is_locator_def)
    with ps(1) step show ?thesis by (intro exI [of _ "p # ps"]) simp
  qed
qed

section \<open>Properties\<close>

text \<open>A chain with all skip pointers, for the witnesses: block \<open>n\<close> has height \<open>n\<close>.\<close>

definition sample_heap :: heap where
  "sample_heap n =
     \<lparr>phashBlock = of_nat n, pprev = (if n = 0 then None else Some (n - 1)), pskip = (if n = 0 then None else Some (GetSkipHeight n)),
      bi_height = n, nChainWork = 0, bi_nVersion = 0x20000002, bi_nTime = of_nat n, bi_nBits = 0\<rparr>"

lemma sample_heap_prevs: "k \<le> n \<Longrightarrow> prevs sample_heap n k = Some (n - k)"
  by (induction k arbitrary: n) (auto simp: sample_heap_def)

lemma sample_heap_ancestor: "ancestor sample_heap n h = (if h \<le> n then Some h else None)"
  using sample_heap_prevs [of "n - h" n] by (simp add: ancestor_def) (simp add: sample_heap_def)

lemma sample_heap_wf: "wf_index sample_heap"
proof -
  have "GetSkipHeight p \<le> p" for p using GetSkipHeight_less [of p] by (cases "p = 0") (simp_all add: GetSkipHeight_def)
  then show ?thesis
    by (auto simp: wf_index_def linked_def sample_heap_ancestor) (auto simp: sample_heap_def split: if_splits)
qed

text \<open>
  C25: \<open>GetAncestor\<close>, which jumps over the skip list, returns the block that following \<open>pprev\<close> step by
  step reaches, for every block and every height of a well-formed index; a height out of range gives
  a null pointer, and the assertion inside the loop never fails.
\<close>

theorem GetAncestor_equivalence:
  assumes "wf_index H"
  shows "GetAncestor H p h = Inr (if h < 0 then None else ancestor H p (nat h))"
  by (rule GetAncestor_correct [OF assms])

theorem GetAncestor_equivalence_witness:
  "wf_index sample_heap \<and> GetAncestor sample_heap 1000 333 = Inr (Some 333)"
  using GetAncestor_equivalence [OF sample_heap_wf, of 1000 333] sample_heap_wf by (simp add: sample_heap_ancestor)

text \<open>
  \<open>BuildSkip\<close> keeps the index well formed, changes no ancestor of any block, and sets the skip
  pointer of the block to its ancestor at \<open>GetSkipHeight\<close>.
\<close>

lemma BuildSkip_invariant:
  assumes "wf_index H"
  shows "\<exists>H'. BuildSkip p H = Inr H' \<and> wf_index H' \<and> (\<forall>x h. ancestor H' x h = ancestor H x h)
    \<and> (0 < bi_height (H p) \<longrightarrow> pskip (H' p) = ancestor H p (GetSkipHeight (bi_height (H p))))"
  by (rule BuildSkip_correct [OF assms])

text \<open>
  C30: \<open>SetTip\<close> turns any valid chain into the chain of the new tip, whatever branch the old one was on:
  entry \<open>h\<close> is the ancestor of the tip at height \<open>h\<close>. Stopping at the first entry already in place is
  sound, and the loop stays within the vector.
\<close>

theorem SetTip_reorganizes:
  assumes "wf_index H" "valid_chain H v"
  shows "\<exists>v'. SetTip H (Some p) v = Inr v' \<and> length v' = Suc (bi_height (H p))
    \<and> (\<forall>h\<le>bi_height (H p). v' ! h = ancestor H p h) \<and> valid_chain H v'"
  using SetTip_correct [of H v p] assms by (auto simp: wf_index_def is_chain_def valid_chain_def)

theorem SetTip_reorganizes_witness:
  "wf_index sample_heap \<and> valid_chain sample_heap []
   \<and> (\<exists>v'. SetTip sample_heap (Some 3) [] = Inr v' \<and> length v' = 4 \<and> valid_chain sample_heap v')"
proof -
  have "bi_height (sample_heap 3) = 3" by (simp add: sample_heap_def)
  then show ?thesis
    using SetTip_reorganizes [OF sample_heap_wf, of "[]" 3] sample_heap_wf by (auto simp: valid_chain_def)
qed

text \<open>
  \<open>FindFork\<close> returns the highest ancestor of a block that is on the chain (and a null pointer if
  there is none), and always terminates.
\<close>

lemma FindFork_highest:
  assumes "wf_index H" "valid_chain H v"
  shows "\<exists>r. FindFork H v (Some p) = Inr r \<and> is_fork H v p r"
  by (rule FindFork_correct [OF assms])

text \<open>
  \<open>LastCommonAncestor\<close> of two blocks with the same genesis block does not fail its assertion and
  returns their common ancestor of greatest height.
\<close>

lemma LastCommonAncestor_greatest:
  assumes "wf_index H" "ancestor H pa 0 = ancestor H pb 0"
  shows "\<exists>q. LastCommonAncestor H pa pb = Inr (Some q) \<and> is_common H pa pb q"
  by (rule LastCommonAncestor_correct [OF assms])

text \<open>
  C40: \<open>GetLocator\<close> terminates and lists block hashes of ancestors at strictly falling heights, from the
  given block down to the genesis block, whether it reads them from the chain or from the skip list.
\<close>

theorem GetLocator_complete:
  assumes "wf_index H" "valid_chain H v"
  shows "\<exists>ps. GetLocator H v (Some p) = Inr (map (\<lambda>x. phashBlock (H x)) ps) \<and> is_locator H p ps"
  using GetLocator_loop_correct [OF assms, of 1 p "bi_height (H p)" "[]"] by (simp add: GetLocator_def Let_def)

theorem GetLocator_complete_witness:
  "wf_index sample_heap \<and> valid_chain sample_heap []
   \<and> (\<exists>ps. GetLocator sample_heap [] (Some 100) = Inr (map (\<lambda>x. phashBlock (sample_heap x)) ps) \<and> is_locator sample_heap 100 ps)"
  using GetLocator_complete [OF sample_heap_wf, of "[]" 100] sample_heap_wf by (simp add: valid_chain_def)

end
