(* ===== verification/RangesSet.thy ===== *)
theory RangesSet
  imports Prelude
begin

text \<open>
  \<open>CRangesSet\<close> of \<open>src/util/ranges_set.h\<close> and \<open>src/util/ranges_set.cpp\<close>: a set of 64-bit numbers kept as
  a \<open>std::set\<close> of half-open ranges. The lemmas show that it refines the set of its elements, for every
  number but the largest.
\<close>

section \<open>Model\<close>

record range =
  rg_begin :: u64
  rg_end :: u64

definition Range :: "u64 \<Rightarrow> u64 \<Rightarrow> range" where
  "Range b e = \<lparr>rg_begin = b, rg_end = e\<rparr>"

definition Range_less :: "range \<Rightarrow> range \<Rightarrow> bool" where
  "Range_less r s = (if rg_begin r \<noteq> rg_begin s then rg_begin r < rg_begin s else rg_end r < rg_end s)"

text \<open>A \<open>std::set\<close> is the list of its elements in order; an iterator splits it in two.\<close>

type_synonym CRangesSet = "range list"

definition lower_bound :: "CRangesSet \<Rightarrow> range \<Rightarrow> range list \<times> range list" where
  "lower_bound ranges x = (takeWhile (\<lambda>r. Range_less r x) ranges, dropWhile (\<lambda>r. Range_less r x) ranges)"

definition ranges_insert :: "range \<Rightarrow> CRangesSet \<Rightarrow> bool \<times> CRangesSet" where
  "ranges_insert x ranges =
     (case lower_bound ranges x of (before, after) \<Rightarrow>
        if after \<noteq> [] \<and> \<not> Range_less x (hd after) then (False, ranges) else (True, before @ x # after))"

definition ranges_Contains :: "u64 \<Rightarrow> CRangesSet \<Rightarrow> bool" where
  "ranges_Contains val ranges =
     (case lower_bound ranges (Range val val) of (before, after) \<Rightarrow>
        if after \<noteq> [] \<and> rg_begin (hd after) = val then True
        else if before = [] then False
        else rg_begin (last before) \<le> val \<and> rg_end (last before) > val)"

definition ranges_Add :: "u64 \<Rightarrow> CRangesSet \<Rightarrow> (bool \<times> CRangesSet) res" where
  "ranges_Add val ranges =
     (if ranges_Contains val ranges then Inr (False, ranges)
      else
        case lower_bound ranges (Range val val) of (before, after) \<Rightarrow>
        let merge_prev = (before \<noteq> [] \<and> rg_end (last before) = val);
            new_begin = (if merge_prev then rg_begin (last before) else val);
            before' = (if merge_prev then butlast before else before);
            merge_next = (after \<noteq> [] \<and> rg_begin (hd after) = val + 1);
            new_end = (if merge_next then rg_end (hd after) else val + 1);
            after' = (if merge_next then tl after else after) in
        case ranges_insert (Range new_begin new_end) (before' @ after') of (inserted, ranges') \<Rightarrow>
          if inserted then Inr (True, ranges') else Inl ''assert(ret.second)'')"

definition insert_asserted :: "range \<Rightarrow> CRangesSet \<Rightarrow> CRangesSet res" where
  "insert_asserted x ranges =
     (case ranges_insert x ranges of (inserted, ranges') \<Rightarrow>
        if inserted then Inr ranges' else Inl ''assert(ret.second)'')"

definition ranges_Remove :: "u64 \<Rightarrow> CRangesSet \<Rightarrow> (bool \<times> CRangesSet) res" where
  "ranges_Remove val ranges =
     (if \<not> ranges_Contains val ranges then Inr (False, ranges)
      else
        case lower_bound ranges (Range val val) of (before, after) \<Rightarrow>
        let step_back = (after = [] \<or> rg_begin (hd after) \<noteq> val) in
        if step_back \<and> before = [] then Inl ''assert(it != ranges.begin())''
        else
          let cur = (if step_back then last before else hd after);
              ranges1 = (if step_back then butlast before @ after else before @ tl after) in
          res_bind (if rg_begin cur \<noteq> val then insert_asserted (Range (rg_begin cur) val) ranges1 else Inr ranges1) (\<lambda>ranges2.
          res_bind (if val + 1 \<noteq> rg_end cur then insert_asserted (Range (val + 1) (rg_end cur)) ranges2 else Inr ranges2) (\<lambda>ranges3.
            Inr (True, ranges3))))"

definition ranges_IsEmpty :: "CRangesSet \<Rightarrow> bool" where
  "ranges_IsEmpty ranges \<longleftrightarrow> ranges = []"

definition ranges_Size :: "CRangesSet \<Rightarrow> u64" where
  "ranges_Size ranges = fold (\<lambda>i result. result + (rg_end i - rg_begin i)) ranges 0"

section \<open>Abstraction\<close>

text \<open>Ranges are not empty, and neither overlap nor touch.\<close>

definition range_elems :: "range \<Rightarrow> u64 set" where
  "range_elems r = {rg_begin r..<rg_end r}"

definition elems :: "CRangesSet \<Rightarrow> u64 set" where
  "elems ranges = (\<Union>r\<in>set ranges. range_elems r)"

definition ranges_inv :: "CRangesSet \<Rightarrow> bool" where
  "ranges_inv ranges \<longleftrightarrow> (\<forall>r\<in>set ranges. rg_begin r < rg_end r) \<and> sorted_wrt (\<lambda>r s. rg_end r < rg_begin s) ranges"

lemma unat_Suc: "v \<noteq> - 1 \<Longrightarrow> unat (v + 1) = Suc (unat v)" for v :: "'a::len word"
proof -
  assume "v \<noteq> - 1"
  then have "unat v \<noteq> unat (- 1 :: 'a word)" by (simp add: word_unat_eq_iff)
  then have "unat v \<noteq> 2 ^ LENGTH('a) - 1" by (simp add: unsigned_minus_1_eq_mask mask_eq_exp_minus_1)
  moreover have "unat v < 2 ^ LENGTH('a)" by (rule unsigned_less)
  ultimately have "Suc (unat v) < 2 ^ LENGTH('a)" by linarith
  then show ?thesis by (simp add: unat_word_ariths)
qed

lemma word_less_Suc: "v \<noteq> - 1 \<Longrightarrow> x < v + 1 \<longleftrightarrow> x \<le> v" for x v :: "'a::len word"
  by (simp add: word_less_nat_alt word_le_nat_alt unat_Suc less_Suc_eq_le)

lemma word_Suc_le_iff: "v \<noteq> - 1 \<Longrightarrow> v + 1 \<le> x \<longleftrightarrow> v < x" for x v :: "'a::len word"
  using word_less_Suc [of v x] by (metis not_le)

lemma card_word_range: "a \<le> b \<Longrightarrow> card {a..<b} = unat (b - a)" for a b :: "'a::len word"
proof -
  assume ab: "a \<le> b"
  have "unat ` {a..<b} = {unat a..<unat b}"
  proof (rule set_eqI)
    fix k
    show "k \<in> unat ` {a..<b} \<longleftrightarrow> k \<in> {unat a..<unat b}"
    proof
      assume k: "k \<in> {unat a..<unat b}"
      have "unat b < 2 ^ LENGTH('a)" by (rule unsigned_less)
      with k have "k < 2 ^ LENGTH('a)" by (simp only: atLeastLessThan_iff) linarith
      then have "unat (of_nat k :: 'a word) = k" by (simp add: unat_of_nat)
      with k have "of_nat k \<in> {a..<b}" by (simp add: word_less_nat_alt word_le_nat_alt)
      then show "k \<in> unat ` {a..<b}" using \<open>unat (of_nat k :: 'a word) = k\<close> by (metis image_eqI)
    qed (auto simp: word_less_nat_alt word_le_nat_alt)
  qed
  moreover have "inj_on unat {a..<b}" by (rule inj_onI) (simp add: word_unat_eq_iff)
  ultimately have "card {a..<b} = unat b - unat a" by (metis card_image card_atLeastLessThan)
  also have "\<dots> = unat (b - a)"
    using ab by (simp add: unat_sub_if' word_le_nat_alt)
  finally show ?thesis .
qed

lemma ranges_inv_append:
  "ranges_inv (xs @ ys) \<longleftrightarrow> ranges_inv xs \<and> ranges_inv ys \<and> (\<forall>r\<in>set xs. \<forall>s\<in>set ys. rg_end r < rg_begin s)"
  by (auto simp: ranges_inv_def sorted_wrt_append)

lemma ranges_inv_Cons:
  "ranges_inv (x # xs) \<longleftrightarrow> rg_begin x < rg_end x \<and> (\<forall>s\<in>set xs. rg_end x < rg_begin s) \<and> ranges_inv xs"
  by (auto simp: ranges_inv_def)

lemma ranges_inv_Nil [simp]: "ranges_inv []"
  by (simp add: ranges_inv_def)

lemma elems_simps [simp]:
  "elems [] = {}" "elems (x # xs) = range_elems x \<union> elems xs" "elems (xs @ ys) = elems xs \<union> elems ys"
  by (auto simp: elems_def)

text \<open>Where the lower bound of \<open>[v, v)\<close> splits the set.\<close>

definition split_at :: "u64 \<Rightarrow> CRangesSet \<Rightarrow> range list \<Rightarrow> range list \<Rightarrow> bool" where
  "split_at v ranges before after \<longleftrightarrow> ranges = before @ after
     \<and> (\<forall>r\<in>set before. rg_begin r < v) \<and> (\<forall>r\<in>set after. v \<le> rg_begin r)"

lemma lower_bound_split:
  assumes "ranges_inv ranges" "lower_bound ranges (Range v v) = (before, after)"
  shows "split_at v ranges before after"
proof -
  have ord: "Range_less r (Range v v) \<longleftrightarrow> rg_begin r < v" if "r \<in> set ranges" for r
  proof -
    have "rg_begin r < rg_end r" using assms(1) that by (simp add: ranges_inv_def)
    then show ?thesis by (auto simp: Range_less_def Range_def)
  qed
  have tw: "before = takeWhile (\<lambda>r. rg_begin r < v) ranges" and dw: "after = dropWhile (\<lambda>r. rg_begin r < v) ranges"
    using assms(2) ord by (auto simp: lower_bound_def intro: takeWhile_cong dropWhile_cong)
  have "v \<le> rg_begin r" if r: "r \<in> set after" for r
  proof -
    have ne: "after \<noteq> []" using r by auto
    then have "\<not> rg_begin (hd after) < v" using hd_dropWhile [of "\<lambda>r. rg_begin r < v" ranges] dw by simp
    moreover have "ranges_inv after" using assms(1) unfolding tw dw
      by (metis takeWhile_dropWhile_id ranges_inv_append)
    ultimately show ?thesis using r ne by (cases after) (auto simp: ranges_inv_Cons ranges_inv_def intro: less_imp_le less_trans le_less_trans)
  qed
  then show ?thesis using tw dw by (auto simp: split_at_def dest: set_takeWhileD)
qed

lemma ranges_insert_mid:
  assumes "\<And>r. r \<in> set pre \<Longrightarrow> rg_begin r < rg_begin x" "\<And>r. r \<in> set suf \<Longrightarrow> rg_begin x < rg_begin r"
  shows "ranges_insert x (pre @ suf) = (True, pre @ x # suf)"
proof -
  have pre: "Range_less r x" if "r \<in> set pre" for r using assms(1) [OF that] by (auto simp: Range_less_def)
  have suf: "\<not> Range_less r x" "Range_less x r" if "r \<in> set suf" for r
    using assms(2) [OF that] by (auto simp: Range_less_def)
  have "takeWhile (\<lambda>r. Range_less r x) (pre @ suf) = pre" "dropWhile (\<lambda>r. Range_less r x) (pre @ suf) = suf"
    using pre suf(1) by (auto simp: takeWhile_append dropWhile_append takeWhile_eq_Nil_iff dropWhile_eq_self_iff)
  then show ?thesis using suf(2) by (cases suf) (simp_all add: ranges_insert_def lower_bound_def)
qed

lemma elems_after:
  assumes "ranges_inv after" "\<And>r. r \<in> set after \<Longrightarrow> v \<le> rg_begin r"
  shows "v \<in> elems after \<longleftrightarrow> after \<noteq> [] \<and> rg_begin (hd after) = v"
proof (cases after)
  case (Cons n a)
  have "v \<notin> range_elems r" if "r \<in> set a" for r
  proof -
    have "v \<le> rg_begin n" "rg_begin n < rg_end n" "rg_end n < rg_begin r"
      using assms that Cons by (auto simp: ranges_inv_Cons)
    then show ?thesis by (auto simp: range_elems_def)
  qed
  moreover have "v \<le> rg_begin n" "rg_begin n < rg_end n" using assms Cons by (auto simp: ranges_inv_Cons)
  ultimately show ?thesis using Cons by (auto simp: elems_def range_elems_def)
qed simp

lemma elems_before:
  assumes "ranges_inv before" "\<And>r. r \<in> set before \<Longrightarrow> rg_begin r < v"
  shows "v \<in> elems before \<longleftrightarrow> before \<noteq> [] \<and> v < rg_end (last before)"
proof (cases before rule: rev_cases)
  case (snoc b p)
  have "v \<notin> range_elems r" if "r \<in> set b" for r
  proof -
    have "rg_end r < rg_begin p" "rg_begin p < v" using assms that snoc by (auto simp: ranges_inv_append)
    then show ?thesis by (auto simp: range_elems_def)
  qed
  then show ?thesis using assms snoc by (auto simp: elems_def range_elems_def intro: less_imp_le)
qed simp

lemma ranges_Contains_iff:
  assumes "ranges_inv ranges"
  shows "ranges_Contains v ranges \<longleftrightarrow> v \<in> elems ranges"
proof -
  obtain before after where lb: "lower_bound ranges (Range v v) = (before, after)" by fastforce
  have sp: "split_at v ranges before after" by (rule lower_bound_split [OF assms lb])
  have "v \<in> elems ranges \<longleftrightarrow> v \<in> elems before \<or> v \<in> elems after" using sp by (simp add: split_at_def)
  also have "v \<in> elems before \<longleftrightarrow> before \<noteq> [] \<and> v < rg_end (last before)"
    using sp assms by (intro elems_before) (auto simp: split_at_def ranges_inv_append)
  also have "v \<in> elems after \<longleftrightarrow> after \<noteq> [] \<and> rg_begin (hd after) = v"
    using sp assms by (intro elems_after) (auto simp: split_at_def ranges_inv_append)
  finally show ?thesis using sp lb by (auto simp: ranges_Contains_def split_at_def less_imp_le)
qed

text \<open>A value that is not in the set and the ranges around it.\<close>

lemma absent_split:
  assumes "ranges_inv ranges" "split_at v ranges before after" "v \<notin> elems ranges" "v \<noteq> - 1"
  shows "ranges_inv before" "ranges_inv after" "\<forall>r\<in>set before. rg_end r \<le> v" "\<forall>r\<in>set after. v + 1 \<le> rg_begin r"
    "\<And>r s. r \<in> set before \<Longrightarrow> s \<in> set after \<Longrightarrow> rg_end r < rg_begin s"
proof -
  show "ranges_inv before" "ranges_inv after" "\<And>r s. r \<in> set before \<Longrightarrow> s \<in> set after \<Longrightarrow> rg_end r < rg_begin s"
    using assms(1,2) by (auto simp: split_at_def ranges_inv_append)
  show "\<forall>r\<in>set before. rg_end r \<le> v"
    using assms(2,3) by (auto simp: split_at_def elems_def range_elems_def not_less less_imp_le)
  show "\<forall>r\<in>set after. v + 1 \<le> rg_begin r"
  proof
    fix r
    assume that: "r \<in> set after"
    have "v \<notin> range_elems r" "v \<le> rg_begin r" "rg_begin r < rg_end r"
      using assms(1,2,3) that by (auto simp: split_at_def elems_def ranges_inv_def)
    then show "v + 1 \<le> rg_begin r" using assms(4) by (auto simp: range_elems_def word_Suc_le_iff)
  qed
qed

lemma range_elems_Range [simp]: "range_elems (Range b e) = {b..<e}" "rg_begin (Range b e) = b" "rg_end (Range b e) = e"
  by (simp_all add: range_elems_def Range_def)

lemma Suc_range [simp]: "v \<noteq> - 1 \<Longrightarrow> {v..<v + 1} = {v}" for v :: "'a::len word"
  by (auto simp: word_less_Suc)

lemma range_union: "a \<le> b \<Longrightarrow> b \<le> c \<Longrightarrow> {a..<c} = {a..<b} \<union> {b..<c}" for a b c :: "'a::len word"
  by auto

lemma merge_prev:
  assumes "ranges_inv before" "\<forall>r\<in>set before. rg_end r \<le> v" "v \<noteq> - 1"
  defines "mp \<equiv> before \<noteq> [] \<and> rg_end (last before) = v"
  defines "nb \<equiv> (if mp then rg_begin (last before) else v)" and "b \<equiv> (if mp then butlast before else before)"
  shows "ranges_inv b" "nb \<le> v" "\<And>r. r \<in> set b \<Longrightarrow> rg_end r < nb" "set b \<subseteq> set before"
    "insert v (elems before) = elems b \<union> {nb..<v + 1}"
proof -
  show sub: "set b \<subseteq> set before" by (auto simp: b_def dest: in_set_butlastD)
  have "ranges_inv b \<and> nb \<le> v \<and> (\<forall>r\<in>set b. rg_end r < nb) \<and> insert v (elems before) = elems b \<union> {nb..<v + 1}"
  proof (cases before rule: rev_cases)
    case Nil
    then show ?thesis using assms(3) by (simp add: b_def nb_def mp_def)
  next
    case (snoc bb p)
    have p: "rg_begin p < rg_end p" "ranges_inv bb" "\<And>r. r \<in> set bb \<Longrightarrow> rg_end r < rg_begin p" "rg_end p \<le> v"
      using assms(1,2) snoc by (auto simp: ranges_inv_append ranges_inv_Cons)
    show ?thesis
    proof (cases "rg_end p = v")
      case True
      then have "b = bb" "nb = rg_begin p" using snoc by (simp_all add: b_def nb_def mp_def)
      moreover have "{rg_begin p..<v + 1} = insert v {rg_begin p..<v}"
        using range_union [of "rg_begin p" v "v + 1"] p(1) True assms(3) by (auto simp: word_less_Suc)
      ultimately show ?thesis using snoc p True by (auto simp: range_elems_def)
    next
      case False
      then have "b = before" "nb = v" using snoc by (simp_all add: b_def nb_def mp_def)
      moreover have "rg_end r < v" if "r \<in> set before" for r
        using that p False snoc by (auto dest!: p(3))
      ultimately show ?thesis using assms(1,3) by auto
    qed
  qed
  then show "ranges_inv b" "nb \<le> v" "\<And>r. r \<in> set b \<Longrightarrow> rg_end r < nb" "insert v (elems before) = elems b \<union> {nb..<v + 1}"
    by blast+
qed

lemma merge_next:
  assumes "ranges_inv after" "\<forall>r\<in>set after. v + 1 \<le> rg_begin r"
  defines "mn \<equiv> after \<noteq> [] \<and> rg_begin (hd after) = v + 1"
  defines "ne \<equiv> (if mn then rg_end (hd after) else v + 1)" and "a \<equiv> (if mn then tl after else after)"
  shows "ranges_inv a" "v + 1 \<le> ne" "\<And>r. r \<in> set a \<Longrightarrow> ne < rg_begin r" "elems after = {v + 1..<ne} \<union> elems a"
proof -
  have "ranges_inv a \<and> v + 1 \<le> ne \<and> (\<forall>r\<in>set a. ne < rg_begin r) \<and> elems after = {v + 1..<ne} \<union> elems a"
  proof (cases after)
    case (Cons n aa)
    have n: "rg_begin n < rg_end n" "ranges_inv aa" "\<And>r. r \<in> set aa \<Longrightarrow> rg_end n < rg_begin r" "v + 1 \<le> rg_begin n"
      using assms(1,2) Cons by (auto simp: ranges_inv_Cons)
    show ?thesis
    proof (cases "rg_begin n = v + 1")
      case True
      then have "a = aa" "ne = rg_end n" using Cons by (simp_all add: a_def ne_def mn_def)
      then show ?thesis using Cons n True by (auto simp: range_elems_def)
    next
      case False
      then have "a = after" "ne = v + 1" using Cons by (simp_all add: a_def ne_def mn_def)
      moreover have "v + 1 < rg_begin r" if "r \<in> set after" for r
        using that n False Cons by (auto dest!: n(3))
      ultimately show ?thesis using assms(1) by auto
    qed
  qed (simp add: a_def ne_def mn_def)
  then show "ranges_inv a" "v + 1 \<le> ne" "\<And>r. r \<in> set a \<Longrightarrow> ne < rg_begin r" "elems after = {v + 1..<ne} \<union> elems a"
    by blast+
qed

lemma ranges_Add_refines:
  assumes inv: "ranges_inv ranges" and v: "v \<noteq> - 1"
  shows "\<exists>ranges'. ranges_Add v ranges = Inr (v \<notin> elems ranges, ranges') \<and> ranges_inv ranges' \<and> elems ranges' = insert v (elems ranges)"
proof (cases "v \<in> elems ranges")
  case True
  then show ?thesis using inv by (auto simp: ranges_Add_def ranges_Contains_iff)
next
  case False
  obtain before after where lb: "lower_bound ranges (Range v v) = (before, after)" by fastforce
  note sp = lower_bound_split [OF inv lb]
  note ab = absent_split [OF inv sp False v]
  define nb where "nb = (if before \<noteq> [] \<and> rg_end (last before) = v then rg_begin (last before) else v)"
  define b where "b = (if before \<noteq> [] \<and> rg_end (last before) = v then butlast before else before)"
  define ne where "ne = (if after \<noteq> [] \<and> rg_begin (hd after) = v + 1 then rg_end (hd after) else v + 1)"
  define a where "a = (if after \<noteq> [] \<and> rg_begin (hd after) = v + 1 then tl after else after)"
  note B = merge_prev [OF ab(1,3) v, folded nb_def b_def] and A = merge_next [OF ab(2,4), folded ne_def a_def]
  have lt: "nb < ne" using B(2) A(2) word_less_Suc [OF v, of v] by (meson le_less_trans less_le_trans order_refl)
  have begins: "rg_begin r < nb" if "r \<in> set b" for r
    using B(1,3) that by (meson less_trans ranges_inv_def)
  have "ranges_insert (Range nb ne) (b @ a) = (True, b @ Range nb ne # a)"
    using begins A(3) lt by (intro ranges_insert_mid) (auto intro: less_trans)
  then have add: "ranges_Add v ranges = Inr (True, b @ Range nb ne # a)"
    using False inv lb by (simp add: ranges_Add_def ranges_Contains_iff Let_def nb_def b_def ne_def a_def)
  have "rg_end r < rg_begin s" if "r \<in> set b" "s \<in> set a" for r s
    using B(3) [OF that(1)] A(3) [OF that(2)] lt by order
  then have "ranges_inv (b @ Range nb ne # a)"
    using B(1,3) A(1,3) lt by (simp add: ranges_inv_append ranges_inv_Cons)
  moreover have "{nb..<ne} = {nb..<v + 1} \<union> {v + 1..<ne}"
    using B(2) A(2) v by (intro range_union) (auto simp: word_less_Suc less_imp_le)
  then have "elems (b @ Range nb ne # a) = insert v (elems ranges)"
    using B(5) A(4) sp by (auto simp: split_at_def)
  ultimately show ?thesis using add False by simp
qed

lemma insert_asserted_mid:
  assumes "\<And>r. r \<in> set pre \<Longrightarrow> rg_begin r < rg_begin x" "\<And>r. r \<in> set suf \<Longrightarrow> rg_begin x < rg_begin r"
  shows "insert_asserted x (pre @ suf) = Inr (pre @ x # suf)"
  using ranges_insert_mid [of pre x suf] assms by (simp add: insert_asserted_def)

lemma present_split:
  assumes "ranges_inv ranges" "split_at v ranges before after" "v \<in> elems ranges"
  shows "\<exists>b cur a. ranges = b @ cur # a \<and> v \<in> range_elems cur \<and>
    (if after = [] \<or> rg_begin (hd after) \<noteq> v then before = b @ [cur] \<and> after = a else before = b \<and> after = cur # a)"
proof (cases "after = [] \<or> rg_begin (hd after) \<noteq> v")
  case True
  have "v \<notin> elems after" using True assms(1,2) elems_after [of after v] by (auto simp: split_at_def ranges_inv_append)
  then have "v \<in> elems before" using assms(2,3) by (simp add: split_at_def)
  then have ne: "before \<noteq> []" and e: "v < rg_end (last before)"
    using assms(1,2) elems_before [of before v] by (auto simp: split_at_def ranges_inv_append)
  have "rg_begin (last before) < v" using ne assms(2) by (simp add: split_at_def)
  then have "v \<in> range_elems (last before)" using e by (simp add: range_elems_def less_imp_le)
  then show ?thesis using True assms(2) ne
    by (intro exI [of _ "butlast before"] exI [of _ "last before"] exI [of _ after]) (simp add: split_at_def)
next
  case False
  then have "v \<in> range_elems (hd after)"
    using assms(1,2) by (auto simp: split_at_def ranges_inv_def range_elems_def)
  then show ?thesis using False assms(2)
    by (intro exI [of _ before] exI [of _ "hd after"] exI [of _ "tl after"]) (simp add: split_at_def)
qed

lemma ranges_Remove_refines:
  assumes inv: "ranges_inv ranges" and v: "v \<noteq> - 1"
  shows "\<exists>ranges'. ranges_Remove v ranges = Inr (v \<in> elems ranges, ranges') \<and> ranges_inv ranges' \<and> elems ranges' = elems ranges - {v}"
proof (cases "v \<in> elems ranges")
  case False
  then show ?thesis using inv by (auto simp: ranges_Remove_def ranges_Contains_iff)
next
  case True
  obtain before after where lb: "lower_bound ranges (Range v v) = (before, after)" by fastforce
  note sp = lower_bound_split [OF inv lb]
  obtain b cur a where cur: "ranges = b @ cur # a" "v \<in> range_elems cur"
    "if after = [] \<or> rg_begin (hd after) \<noteq> v then before = b @ [cur] \<and> after = a else before = b \<and> after = cur # a"
    using present_split [OF inv sp True] by blast
  define lo where "lo = (if rg_begin cur \<noteq> v then [Range (rg_begin cur) v] else [])"
  define hi where "hi = (if v + 1 \<noteq> rg_end cur then [Range (v + 1) (rg_end cur)] else [])"
  have c: "rg_begin cur \<le> v" "v < rg_end cur" "v + 1 \<le> rg_end cur" using cur(2) v by (auto simp: range_elems_def word_Suc_le_iff)
  have b: "rg_begin r < rg_end r \<and> rg_end r < rg_begin cur" if "r \<in> set b" for r
    using inv that unfolding cur(1) by (auto simp: ranges_inv_def sorted_wrt_append)
  have a: "rg_end cur < rg_begin r" if "r \<in> set a" for r using inv that unfolding cur(1) by (auto simp: ranges_inv_append ranges_inv_Cons)
  have v1: "v < v + 1" using word_less_Suc [OF v] by simp
  have "(if rg_begin cur \<noteq> v then insert_asserted (Range (rg_begin cur) v) (b @ a) else Inr (b @ a)) = Inr (b @ lo @ a)"
    unfolding lo_def using c by (auto intro!: insert_asserted_mid dest!: b a)
  moreover have "insert_asserted (Range (v + 1) (rg_end cur)) ((b @ lo) @ a) = Inr ((b @ lo) @ Range (v + 1) (rg_end cur) # a)"
  proof (rule insert_asserted_mid)
    show "rg_begin r < rg_begin (Range (v + 1) (rg_end cur))" if "r \<in> set (b @ lo)" for r
      using that c(1) v1 by (auto simp: lo_def split: if_splits dest!: b)
    show "rg_begin (Range (v + 1) (rg_end cur)) < rg_begin r" if "r \<in> set a" for r
      using a [OF that] c(3) by simp
  qed
  ultimately have rem: "ranges_Remove v ranges = Inr (True, b @ lo @ hi @ a)"
    using True inv lb cur(3) by (auto simp: ranges_Remove_def ranges_Contains_iff Let_def hi_def)
  have "{rg_begin cur..<rg_end cur} = {rg_begin cur..<v} \<union> {v..<v + 1} \<union> {v + 1..<rg_end cur}"
    using range_union [of "rg_begin cur" v "rg_end cur"] range_union [of v "v + 1" "rg_end cur"] c v1 by (simp add: less_imp_le Un_assoc)
  then have "range_elems cur - {v} = elems lo \<union> elems hi"
    using v v1 by (auto simp: range_elems_def lo_def hi_def)
  moreover have "v \<notin> elems b" "v \<notin> elems a"
    using c(1,2) by (auto simp: elems_def range_elems_def dest!: b a)
  ultimately have "elems (b @ lo @ hi @ a) = elems ranges - {v}" unfolding cur(1) by auto
  moreover have "ranges_inv (b @ lo @ hi @ a)"
    using inv c v1 unfolding cur(1) lo_def hi_def
    by (auto simp: ranges_inv_append ranges_inv_Cons dest!: b a)
  ultimately show ?thesis using rem True by simp
qed

lemma ranges_Size_card:
  assumes "ranges_inv ranges"
  shows "ranges_Size ranges = of_nat (card (elems ranges))"
proof -
  have "fold (\<lambda>i result. result + (rg_end i - rg_begin i)) xs acc = acc + of_nat (card (elems xs))" if "ranges_inv xs" for xs acc
    using that
  proof (induction xs arbitrary: acc)
    case (Cons x xs)
    have x: "rg_begin x < rg_end x" "\<And>r. r \<in> set xs \<Longrightarrow> rg_end x < rg_begin r" "ranges_inv xs"
      using Cons(2) by (auto simp: ranges_inv_Cons)
    have "range_elems x \<inter> elems xs = {}" by (auto simp: elems_def range_elems_def dest!: x(2))
    then have "card (elems (x # xs)) = unat (rg_end x - rg_begin x) + card (elems xs)"
      using x(1) by (simp add: card_Un_disjoint card_word_range range_elems_def less_imp_le)
    then show ?case using Cons(1) [OF x(3)] by (simp add: algebra_simps)
  qed simp
  then show ?thesis using assms by (simp add: ranges_Size_def)
qed

section \<open>The interface\<close>

text \<open>
  What the clients of the set rely on: a state with an abstract set, where adding and removing report whether
  they changed it. \<open>ok\<close> says which values may be used.
\<close>

locale number_set =
  fixes add :: "'v \<Rightarrow> 's \<Rightarrow> (bool \<times> 's) res" and remove :: "'v \<Rightarrow> 's \<Rightarrow> (bool \<times> 's) res"
    and contains :: "'v \<Rightarrow> 's \<Rightarrow> bool" and inv :: "'s \<Rightarrow> bool" and abs :: "'s \<Rightarrow> 'v set" and ok :: "'v \<Rightarrow> bool"
  assumes contains_law: "inv s \<Longrightarrow> contains v s \<longleftrightarrow> v \<in> abs s"
    and add_law: "inv s \<Longrightarrow> ok v \<Longrightarrow> \<exists>s'. add v s = Inr (v \<notin> abs s, s') \<and> inv s' \<and> abs s' = insert v (abs s)"
    and remove_law: "inv s \<Longrightarrow> ok v \<Longrightarrow> \<exists>s'. remove v s = Inr (v \<in> abs s, s') \<and> inv s' \<and> abs s' = abs s - {v}"

datatype 'v set_op = Add_op 'v | Remove_op 'v | Contains_op 'v

fun op_value :: "'v set_op \<Rightarrow> 'v" where
  "op_value (Add_op v) = v"
| "op_value (Remove_op v) = v"
| "op_value (Contains_op v) = v"

text \<open>A run of operations, with what each returns; and the same on a mathematical set.\<close>

fun run_set_ops ::
    "('v \<Rightarrow> 's \<Rightarrow> (bool \<times> 's) res) \<Rightarrow> ('v \<Rightarrow> 's \<Rightarrow> (bool \<times> 's) res) \<Rightarrow> ('v \<Rightarrow> 's \<Rightarrow> bool) \<Rightarrow> 'v set_op list \<Rightarrow> 's \<Rightarrow> (bool list \<times> 's) res" where
  "run_set_ops add remove contains [] s = Inr ([], s)"
| "run_set_ops add remove contains (x # xs) s =
     res_bind (case x of Add_op v \<Rightarrow> add v s | Remove_op v \<Rightarrow> remove v s | Contains_op v \<Rightarrow> Inr (contains v s, s)) (\<lambda>(r, s1).
     res_bind (run_set_ops add remove contains xs s1) (\<lambda>(rs, s2). Inr (r # rs, s2)))"

fun spec_set_ops :: "'v set_op list \<Rightarrow> 'v set \<Rightarrow> bool list \<times> 'v set" where
  "spec_set_ops [] A = ([], A)"
| "spec_set_ops (Add_op v # xs) A = (case spec_set_ops xs (insert v A) of (rs, B) \<Rightarrow> ((v \<notin> A) # rs, B))"
| "spec_set_ops (Remove_op v # xs) A = (case spec_set_ops xs (A - {v}) of (rs, B) \<Rightarrow> ((v \<in> A) # rs, B))"
| "spec_set_ops (Contains_op v # xs) A = (case spec_set_ops xs A of (rs, B) \<Rightarrow> ((v \<in> A) # rs, B))"

text \<open>\<open>std::any_of\<close> over values, stopping at the first that was there already.\<close>

fun any_not_added :: "('v \<Rightarrow> 's \<Rightarrow> (bool \<times> 's) res) \<Rightarrow> 'v list \<Rightarrow> 's \<Rightarrow> (bool \<times> 's) res" where
  "any_not_added add [] s = Inr (False, s)"
| "any_not_added add (v # vs) s =
     res_bind (add v s) (\<lambda>(added, s'). if \<not> added then Inr (True, s') else any_not_added add vs s')"

context number_set
begin

lemma run_set_ops_refines:
  assumes "inv s" "\<forall>x\<in>set xs. ok (op_value x)"
  shows "\<exists>s'. run_set_ops add remove contains xs s = Inr (fst (spec_set_ops xs (abs s)), s') \<and> inv s' \<and> abs s' = snd (spec_set_ops xs (abs s))"
  using assms
proof (induction xs arbitrary: s)
  case (Cons x xs)
  show ?case
  proof (cases x)
    case (Add_op v)
    then obtain s1 where s1: "add v s = Inr (v \<notin> abs s, s1)" "inv s1" "abs s1 = insert v (abs s)"
      using add_law [of s v] Cons.prems by (simp, blast)
    then show ?thesis using Cons.IH [OF s1(2)] Cons.prems(2) Add_op by (auto split: prod.split)
  next
    case (Remove_op v)
    then obtain s1 where s1: "remove v s = Inr (v \<in> abs s, s1)" "inv s1" "abs s1 = abs s - {v}"
      using remove_law [of s v] Cons.prems by (simp, blast)
    then show ?thesis using Cons.IH [OF s1(2)] Cons.prems(2) Remove_op by (auto split: prod.split)
  next
    case (Contains_op v)
    then show ?thesis using Cons.IH [OF Cons.prems(1)] Cons.prems contains_law by (auto split: prod.split)
  qed
qed simp

lemma any_not_added_spec:
  assumes "inv s" "\<forall>v\<in>set vs. ok v" "distinct vs"
  shows "\<exists>s'. any_not_added add vs s = Inr (set vs \<inter> abs s \<noteq> {}, s') \<and> inv s' \<and> (set vs \<inter> abs s = {} \<longrightarrow> abs s' = abs s \<union> set vs)"
  using assms
proof (induction vs arbitrary: s)
  case (Cons v vs)
  then obtain s1 where s1: "add v s = Inr (v \<notin> abs s, s1)" "inv s1" "abs s1 = insert v (abs s)"
    using add_law [of s v] Cons.prems by (simp, blast)
  show ?case
  proof (cases "v \<in> abs s")
    case False
    have "set vs \<inter> abs s1 = set vs \<inter> abs s" using s1(3) Cons.prems(3) by auto
    then show ?thesis using Cons.IH [OF s1(2)] Cons.prems s1 False by auto
  qed (use s1 in auto)
qed simp

end

interpretation ranges: number_set ranges_Add ranges_Remove ranges_Contains ranges_inv elems "\<lambda>v. v \<noteq> - 1"
  by unfold_locales (use ranges_Contains_iff ranges_Add_refines ranges_Remove_refines in auto)

text \<open>
  C33: \<open>CRangesSet\<close> refines a set of numbers. From any well-formed set of ranges, a sequence of \<open>Add\<close>, \<open>Remove\<close>
  and \<open>Contains\<close> on numbers below the largest fails no assertion and returns what the same operations on the
  set return; the ranges stay non-empty, disjoint and apart, stand for the resulting set, and \<open>Size\<close> and
  \<open>IsEmpty\<close> are its cardinality and emptiness.
\<close>

theorem ranges_set_refines:
  assumes "ranges_inv ranges" "\<forall>x\<in>set xs. op_value x \<noteq> - 1"
  shows "\<exists>ranges'. run_set_ops ranges_Add ranges_Remove ranges_Contains xs ranges = Inr (fst (spec_set_ops xs (elems ranges)), ranges')
    \<and> ranges_inv ranges' \<and> elems ranges' = snd (spec_set_ops xs (elems ranges))
    \<and> ranges_Size ranges' = of_nat (card (elems ranges')) \<and> (ranges_IsEmpty ranges' \<longleftrightarrow> elems ranges' = {})"
proof -
  obtain ranges' where r: "run_set_ops ranges_Add ranges_Remove ranges_Contains xs ranges = Inr (fst (spec_set_ops xs (elems ranges)), ranges')"
    "ranges_inv ranges'" "elems ranges' = snd (spec_set_ops xs (elems ranges))"
    using ranges.run_set_ops_refines [OF assms] by blast
  moreover have "ranges_IsEmpty ranges' \<longleftrightarrow> elems ranges' = {}"
    using r(2) by (cases ranges') (auto simp: ranges_IsEmpty_def ranges_inv_Cons range_elems_def)
  ultimately show ?thesis using ranges_Size_card by blast
qed

theorem ranges_set_refines_witness:
  "ranges_inv [Range 1 4] \<and> (\<exists>ranges'. run_set_ops ranges_Add ranges_Remove ranges_Contains [Add_op 5, Add_op 4, Remove_op 2, Contains_op 2] [Range 1 4]
     = Inr ([True, True, True, False], ranges') \<and> ranges_inv ranges')"
proof -
  let ?xs = "[Add_op 5, Add_op 4, Remove_op 2, Contains_op 2] :: u64 set_op list"
  have inv: "ranges_inv [Range 1 4]" and ok: "\<forall>x\<in>set ?xs. op_value x \<noteq> - 1" by code_simp+
  have "elems [Range 1 4] = {1..<4}" by simp
  then have "fst (spec_set_ops ?xs (elems [Range 1 4])) = [True, True, True, False]" by simp
  then show ?thesis using ranges_set_refines [OF inv ok] inv by (simp only:) blast
qed

text \<open>
  The largest number cannot be handled: its range \<open>[2 ^ 64 - 1, 0)\<close> contains nothing, and adding the number
  again fails the assertion.
\<close>

lemma Add_largest_twice:
  "ranges_Add (- 1) [] = Inr (True, [Range (- 1) 0])" "\<not> ranges_Contains (- 1) [Range (- 1) 0]"
  "ranges_Add (- 1) [Range (- 1) 0] = Inl ''assert(ret.second)''"
  by code_simp+

end
