(* ===== verification/AssetLock.thy ===== *)
theory AssetLock
  imports TxCheck Script Hashing Chain RangesSet
begin

text \<open>
  Asset lock and unlock transactions, \<open>src/evo/assetlocktx.h\<close> and \<open>src/evo/assetlocktx.cpp\<close>, with
  the payload helpers of \<open>src/evo/specialtx.h\<close> and the serialization of BLS objects of \<open>src/bls/bls.h\<close>.
  The BLS library, the quorum manager and the block index lookup are parameters (\<open>quorum_context\<close>).
\<close>

section \<open>BLS objects\<close>

text \<open>
  The operations of the library on signatures \<open>'g\<close> and keys \<open>'k\<close>; the first argument is the legacy scheme flag.
  \<open>FromBytes\<close> may throw. A \<open>CBLSWrapper\<close> is the object, or \<open>None\<close> when \<open>fValid\<close> is false.
\<close>

record ('g, 'k) bls_library =
  FromBytes :: "bool \<Rightarrow> bytes \<Rightarrow> 'g option"
  impl_Serialize :: "bool \<Rightarrow> 'g \<Rightarrow> bytes"
  impl_Verify :: "bool \<Rightarrow> 'k \<Rightarrow> uint256 \<Rightarrow> 'g \<Rightarrow> bool"

definition BLS_CURVE_SIG_SIZE :: nat where
  "BLS_CURVE_SIG_SIZE = 96"

definition SetByteVector :: "('g, 'k) bls_library \<Rightarrow> nat \<Rightarrow> bytes \<Rightarrow> bool \<Rightarrow> 'g option" where
  "SetByteVector B SerSize vecBytes legacy =
     (if length vecBytes \<noteq> SerSize then None
      else if list_all (\<lambda>c. c = 0) vecBytes then None
      else FromBytes B legacy vecBytes)"

definition ToByteVector :: "('g, 'k) bls_library \<Rightarrow> nat \<Rightarrow> 'g option \<Rightarrow> bool \<Rightarrow> bytes" where
  "ToByteVector B SerSize w legacy = (case w of None \<Rightarrow> replicate SerSize 0 | Some g \<Rightarrow> impl_Serialize B legacy g)"

definition CBLSWrapper_Serialize :: "('g, 'k) bls_library \<Rightarrow> bool \<Rightarrow> nat \<Rightarrow> 'g option \<Rightarrow> bytes" where
  "CBLSWrapper_Serialize B legacy SerSize w = take SerSize (ToByteVector B SerSize w legacy)"

definition CheckMalleable :: "('g, 'k) bls_library \<Rightarrow> nat \<Rightarrow> 'g option \<Rightarrow> bytes \<Rightarrow> bool \<Rightarrow> bool" where
  "CheckMalleable B SerSize w vecBytes legacy \<longleftrightarrow> vecBytes = take SerSize (ToByteVector B SerSize w legacy)"

definition CBLSWrapper_Unserialize ::
    "('g, 'k) bls_library \<Rightarrow> bool \<Rightarrow> nat \<Rightarrow> (nat \<Rightarrow> 's \<Rightarrow> string + bytes \<times> 's) \<Rightarrow> 's \<Rightarrow> string + 'g option \<times> 's" where
  "CBLSWrapper_Unserialize B legacy SerSize rd s =
     res_bind (rd SerSize s) (\<lambda>(vecBytes, s1).
       let w = SetByteVector B SerSize vecBytes legacy in
       if \<not> CheckMalleable B SerSize w vecBytes legacy then
         if \<not> CheckMalleable B SerSize (SetByteVector B SerSize vecBytes (\<not> legacy)) vecBytes (\<not> legacy)
         then Inl ''malleable BLS object'' else Inr (None, s1)
       else Inr (w, s1))"

definition VerifyInsecure :: "('g, 'k) bls_library \<Rightarrow> bool \<Rightarrow> 'g option \<Rightarrow> 'k option \<Rightarrow> uint256 \<Rightarrow> bool" where
  "VerifyInsecure B legacy sig pubKey h =
     (case sig of None \<Rightarrow> False
      | Some g \<Rightarrow> (case pubKey of None \<Rightarrow> False | Some k \<Rightarrow> impl_Verify B legacy k h g))"

section \<open>Payloads\<close>

record asset_lock_payload =
  lock_nVersion :: byte
  creditOutputs :: "ctxout list"

record 'g asset_unlock_payload =
  unlock_nVersion :: byte
  index :: u64
  fee :: u32
  requestedHeight :: u32
  quorumHash :: uint256
  quorumSig :: "'g option"

definition CAssetLockPayload_CURRENT_VERSION :: byte where
  "CAssetLockPayload_CURRENT_VERSION = 1"

definition CAssetUnlockPayload_CURRENT_VERSION :: byte where
  "CAssetUnlockPayload_CURRENT_VERSION = 1"

definition MAXIMUM_WITHDRAWALS :: nat where
  "MAXIMUM_WITHDRAWALS = 32"

definition HEIGHT_DIFF_EXPIRING :: u32 where
  "HEIGHT_DIFF_EXPIRING = 48"

definition getHeightToExpiry :: "'g asset_unlock_payload \<Rightarrow> int" where
  "getHeightToExpiry p = sint (requestedHeight p + HEIGHT_DIFF_EXPIRING)"

definition CAssetLockPayload_Ser :: "asset_lock_payload \<Rightarrow> bytes" where
  "CAssetLockPayload_Ser p = ser_writedata8 (lock_nVersion p) @ VectorFormatter_Ser CTxOut_Ser (creditOutputs p)"

definition CAssetLockPayload_Unser ::
    "(nat \<Rightarrow> 's \<Rightarrow> string + bytes \<times> 's) \<Rightarrow> 's \<Rightarrow> string + asset_lock_payload \<times> 's" where
  "CAssetLockPayload_Unser rd s =
     res_bind (ser_readdata8 rd s) (\<lambda>(ver, s1).
     res_bind (VectorFormatter_Unser rd sizeof_CTxOut (CTxOut_Unser rd) s1) (\<lambda>(outs, s2).
       Inr (\<lparr>lock_nVersion = ver, creditOutputs = outs\<rparr>, s2)))"

definition CAssetUnlockPayload_Ser :: "('g, 'k) bls_library \<Rightarrow> bool \<Rightarrow> 'g asset_unlock_payload \<Rightarrow> bytes" where
  "CAssetUnlockPayload_Ser B legacy p =
     ser_writedata8 (unlock_nVersion p) @ ser_writedata64 (index p) @ ser_writedata32 (fee p)
     @ ser_writedata32 (requestedHeight p) @ word_to_le 32 (quorumHash p)
     @ CBLSWrapper_Serialize B legacy BLS_CURVE_SIG_SIZE (quorumSig p)"

definition CAssetUnlockPayload_Unser ::
    "('g, 'k) bls_library \<Rightarrow> bool \<Rightarrow> (nat \<Rightarrow> 's \<Rightarrow> string + bytes \<times> 's) \<Rightarrow> 's \<Rightarrow> string + 'g asset_unlock_payload \<times> 's" where
  "CAssetUnlockPayload_Unser B legacy rd s =
     res_bind (ser_readdata8 rd s) (\<lambda>(ver, s1).
     res_bind (ser_readdata64 rd s1) (\<lambda>(ix, s2).
     res_bind (ser_readdata32 rd s2) (\<lambda>(f, s3).
     res_bind (ser_readdata32 rd s3) (\<lambda>(ht, s4).
     res_bind (rd 32 s4) (\<lambda>(qh, s5).
     res_bind (CBLSWrapper_Unserialize B legacy BLS_CURVE_SIG_SIZE rd s5) (\<lambda>(sig, s6).
       Inr (\<lparr>unlock_nVersion = ver, index = ix, fee = f, requestedHeight = ht, quorumHash = word_of_le qh, quorumSig = sig\<rparr>, s6)))))))"

definition GetTxPayload_bytes :: "(data_stream \<Rightarrow> string + 'p \<times> data_stream) \<Rightarrow> bytes \<Rightarrow> 'p option" where
  "GetTxPayload_bytes unser payload =
     (case unser (ds_of payload) of
        Inl e \<Rightarrow> None
      | Inr (obj, ds) \<Rightarrow> if ds_empty ds then Some obj else None)"

definition GetTxPayload :: "u16 \<Rightarrow> (data_stream \<Rightarrow> string + 'p \<times> data_stream) \<Rightarrow> 'a mutable_transaction_scheme \<Rightarrow> 'p option" where
  "GetTxPayload SPECIALTX_TYPE unser tx =
     (if nType tx \<noteq> SPECIALTX_TYPE then None else GetTxPayload_bytes unser (vExtraPayload tx))"

definition SetTxPayload :: "bytes \<Rightarrow> 'a mutable_transaction_scheme \<Rightarrow> 'a mutable_transaction_scheme" where
  "SetTxPayload ser_payload tx = tx\<lparr>vExtraPayload := ser_payload\<rparr>"

definition get_asset_lock :: "'a mutable_transaction_scheme \<Rightarrow> asset_lock_payload option" where
  "get_asset_lock tx = GetTxPayload TRANSACTION_ASSET_LOCK (CAssetLockPayload_Unser ds_read) tx"

definition get_asset_unlock ::
    "('g, 'k) bls_library \<Rightarrow> bool \<Rightarrow> 'a mutable_transaction_scheme \<Rightarrow> 'g asset_unlock_payload option" where
  "get_asset_unlock B legacy tx = GetTxPayload TRANSACTION_ASSET_UNLOCK (CAssetUnlockPayload_Unser B legacy ds_read) tx"

section \<open>Asset locks\<close>

text \<open>The loop over the outputs: the amount of the \<open>OP_RETURN\<close> output, or the reject reason.\<close>

fun lock_return_amount :: "CAmount \<Rightarrow> ctxout list \<Rightarrow> string + CAmount" where
  "lock_return_amount returnAmount [] = Inr returnAmount"
| "lock_return_amount returnAmount (txout # outs) =
     (let script = scriptPubKey txout in
      if script = [] \<or> hd script \<noteq> OP_RETURN then lock_return_amount returnAmount outs
      else if length script \<noteq> 2 \<or> script ! 1 \<noteq> 0 then Inl ''bad-assetlocktx-non-empty-return''
      else if nValue txout = 0 \<or> \<not> MoneyRange (nValue txout) then Inl ''bad-assetlocktx-opreturn-outofrange''
      else if returnAmount > 0 then Inl ''bad-assetlocktx-multiple-return''
      else lock_return_amount (nValue txout) outs)"

fun credit_outputs_amount :: "CAmount \<Rightarrow> ctxout list \<Rightarrow> string + CAmount" where
  "credit_outputs_amount creditOutputsAmount [] = Inr creditOutputsAmount"
| "credit_outputs_amount creditOutputsAmount (out # outs) =
     (if nValue out = 0 \<or> \<not> MoneyRange (nValue out) \<or> \<not> MoneyRange (creditOutputsAmount + nValue out)
      then Inl ''bad-assetlocktx-credit-outofrange''
      else if \<not> IsPayToPublicKeyHash (scriptPubKey out) then Inl ''bad-assetlocktx-pubKeyHash''
      else credit_outputs_amount (creditOutputsAmount + nValue out) outs)"

definition CheckAssetLockTx :: "'a mutable_transaction_scheme \<Rightarrow> TxValidationState \<Rightarrow> bool \<times> TxValidationState" where
  "CheckAssetLockTx tx st =
     (let bad = (\<lambda>reason. Invalid TX_BAD_SPECIAL reason [] st) in
      if nType tx \<noteq> TRANSACTION_ASSET_LOCK then bad ''bad-assetlocktx-type''
      else
        case lock_return_amount 0 (vout tx) of
          Inl reason \<Rightarrow> bad reason
        | Inr returnAmount \<Rightarrow>
            if returnAmount = 0 then bad ''bad-assetlocktx-no-return''
            else
              case get_asset_lock tx of
                None \<Rightarrow> bad ''bad-assetlocktx-payload''
              | Some assetLockTx \<Rightarrow>
                  if lock_nVersion assetLockTx = 0 \<or> lock_nVersion assetLockTx > CAssetLockPayload_CURRENT_VERSION
                  then bad ''bad-assetlocktx-version''
                  else if creditOutputs assetLockTx = [] then bad ''bad-assetlocktx-emptycreditoutputs''
                  else
                    case credit_outputs_amount 0 (creditOutputs assetLockTx) of
                      Inl reason \<Rightarrow> bad reason
                    | Inr creditOutputsAmount \<Rightarrow>
                        if creditOutputsAmount \<noteq> returnAmount then bad ''bad-assetlocktx-creditamount'' else (True, st))"

section \<open>Asset unlocks\<close>

record ('g, 'k) quorum_context =
  bls :: "('g, 'k) bls_library"
  bls_legacy_scheme :: bool
  llmqTypePlatform :: byte
  signingActiveQuorumCount :: int
  withdrawals_active :: "ptr \<Rightarrow> bool"
  ScanQuorums :: "ptr \<Rightarrow> int \<Rightarrow> uint256 list"
  GetQuorum :: "uint256 \<Rightarrow> (uint256 \<times> 'k option) option"
  LookupBlockIndex :: "uint256 \<Rightarrow> ptr option"

definition ASSETUNLOCK_REQUESTID_PREFIX :: bytes where
  "ASSETUNLOCK_REQUESTID_PREFIX = [0x70, 0x6c, 0x77, 0x64, 0x74, 0x78]"

definition BuildSignHash :: "byte \<Rightarrow> uint256 \<Rightarrow> uint256 \<Rightarrow> uint256 \<Rightarrow> uint256" where
  "BuildSignHash llmqType qhash i msgHash =
     word_of_le (Hash256 (ser_writedata8 llmqType @ word_to_le 32 qhash @ word_to_le 32 i @ word_to_le 32 msgHash))"

definition VerifySig ::
    "('g, 'k) quorum_context \<Rightarrow> heap \<Rightarrow> 'g asset_unlock_payload \<Rightarrow> uint256 \<Rightarrow> ptr \<Rightarrow> TxValidationState \<Rightarrow> bool \<times> TxValidationState" where
  "VerifySig Q H p msgHash pindexTip st =
     (let quorums_to_scan = (if withdrawals_active Q pindexTip then signingActiveQuorumCount Q + 1 else 2);
          quorums = ScanQuorums Q pindexTip quorums_to_scan;
          height = bi_height (H pindexTip) in
      if \<not> list_ex (\<lambda>q. q = quorumHash p) quorums then Invalid TX_CONSENSUS ''bad-assetunlock-too-old-quorum'' [] st
      else if (of_nat height :: u32) < requestedHeight p \<or> int height \<ge> getHeightToExpiry p
        then Invalid TX_CONSENSUS ''bad-assetunlock-too-late'' [] st
      else
        case GetQuorum Q (quorumHash p) of
          None \<Rightarrow> Invalid TX_CONSENSUS ''bad-assetunlock-quorum-internal-error'' [] st
        | Some (qhash, quorumPublicKey) \<Rightarrow>
            let requestId = word_of_le (Hash256 (WriteBytes ASSETUNLOCK_REQUESTID_PREFIX @ ser_writedata64 (index p)));
                signHash = BuildSignHash (llmqTypePlatform Q) qhash requestId msgHash in
            if VerifyInsecure (bls Q) (bls_legacy_scheme Q) (quorumSig p) quorumPublicKey signHash then (True, st)
            else Invalid TX_CONSENSUS ''bad-assetunlock-not-verified'' [] st)"

definition CheckAssetUnlockTx ::
    "('g, 'k) quorum_context \<Rightarrow> heap \<Rightarrow> 'a mutable_transaction_scheme \<Rightarrow> ptr \<Rightarrow> CRangesSet option \<Rightarrow> TxValidationState \<Rightarrow> bool \<times> TxValidationState" where
  "CheckAssetUnlockTx Q H tx pindexPrev indexes st =
     (if nType tx \<noteq> TRANSACTION_ASSET_UNLOCK then Invalid TX_BAD_SPECIAL ''bad-assetunlocktx-type'' [] st
      else if vin tx \<noteq> [] then Invalid TX_BAD_SPECIAL ''bad-assetunlocktx-have-input'' [] st
      else if length (vout tx) > MAXIMUM_WITHDRAWALS then Invalid TX_BAD_SPECIAL ''bad-assetunlocktx-too-many-outs'' [] st
      else
        case get_asset_unlock (bls Q) (bls_legacy_scheme Q) tx of
          None \<Rightarrow> Invalid TX_BAD_SPECIAL ''bad-assetunlocktx-payload'' [] st
        | Some p \<Rightarrow>
            if unlock_nVersion p = 0 \<or> unlock_nVersion p > CAssetUnlockPayload_CURRENT_VERSION
            then Invalid TX_BAD_SPECIAL ''bad-assetunlocktx-version'' [] st
            else if (case indexes of None \<Rightarrow> False | Some ixs \<Rightarrow> ranges_Contains (index p) ixs)
            then Invalid TX_CONSENSUS ''bad-assetunlock-duplicated-index'' [] st
            else if LookupBlockIndex Q (quorumHash p) = None
            then Invalid TX_CONSENSUS ''bad-assetunlock-quorum-hash'' [] st
            else
              let payload_copy = p\<lparr>quorumSig := None\<rparr>;
                  tx_copy = SetTxPayload (CAssetUnlockPayload_Ser (bls Q) (bls_legacy_scheme Q) payload_copy) tx;
                  msgHash = word_of_le (Hash256 (CTransaction_Serialize tx_copy)) in
              VerifySig Q H p msgHash pindexPrev st)"

definition CheckAssetLockUnlockTx ::
    "('g, 'k) quorum_context \<Rightarrow> heap \<Rightarrow> 'a mutable_transaction_scheme \<Rightarrow> ptr \<Rightarrow> CRangesSet option \<Rightarrow> TxValidationState \<Rightarrow> bool \<times> TxValidationState" where
  "CheckAssetLockUnlockTx Q H tx pindexPrev indexes st =
     (if nType tx = TRANSACTION_ASSET_LOCK then CheckAssetLockTx tx st
      else if nType tx = TRANSACTION_ASSET_UNLOCK then CheckAssetUnlockTx Q H tx pindexPrev indexes st
      else Invalid TX_BAD_SPECIAL ''bad-not-asset-locks-at-all'' [] st)"

definition GetAssetUnlockFee ::
    "('g, 'k) bls_library \<Rightarrow> bool \<Rightarrow> 'a mutable_transaction_scheme \<Rightarrow> CAmount \<Rightarrow> TxValidationState \<Rightarrow> bool \<times> CAmount \<times> TxValidationState" where
  "GetAssetUnlockFee B legacy tx txfee st =
     (case get_asset_unlock B legacy tx of
        None \<Rightarrow> (False, txfee, snd (Invalid TX_BAD_SPECIAL ''bad-assetunlocktx-payload'' [] st))
      | Some p \<Rightarrow>
          let txfee_aux = uint (fee p) in
          if txfee_aux = 0 \<or> \<not> MoneyRange txfee_aux
          then (False, txfee, snd (Invalid TX_CONSENSUS ''bad-txns-assetunlock-fee-outofrange'' [] st))
          else (True, txfee_aux, st))"

section \<open>What CheckAssetLockTx accepts\<close>

definition is_return :: "ctxout \<Rightarrow> bool" where
  "is_return out \<longleftrightarrow> scriptPubKey out \<noteq> [] \<and> hd (scriptPubKey out) = OP_RETURN"

definition good_return :: "ctxout \<Rightarrow> bool" where
  "good_return out \<longleftrightarrow> scriptPubKey out = [OP_RETURN, 0] \<and> 0 < nValue out \<and> nValue out \<le> MAX_MONEY"

text \<open>The rules: one \<open>OP_RETURN\<close> output, whose amount the credit outputs of the payload share out.\<close>

definition valid_asset_lock :: "'a mutable_transaction_scheme \<Rightarrow> bool" where
  "valid_asset_lock tx \<longleftrightarrow> nType tx = TRANSACTION_ASSET_LOCK \<and>
     (\<exists>ret p. filter is_return (vout tx) = [ret] \<and> good_return ret \<and> get_asset_lock tx = Some p
        \<and> lock_nVersion p = 1 \<and> creditOutputs p \<noteq> []
        \<and> (\<forall>out\<in>set (creditOutputs p). 0 < nValue out \<and> IsPayToPublicKeyHash (scriptPubKey out))
        \<and> sum_list (map nValue (creditOutputs p)) = nValue ret)"

lemma lock_return_amount_Inr:
  "0 \<le> r \<Longrightarrow> lock_return_amount r outs = Inr v \<longleftrightarrow>
     (filter is_return outs = [] \<and> v = r) \<or> (r = 0 \<and> (\<exists>ret. filter is_return outs = [ret] \<and> good_return ret \<and> v = nValue ret))"
proof (induction outs arbitrary: r)
  case (Cons out outs)
  show ?case
  proof (cases "is_return out")
    case True
    have sc: "length (scriptPubKey out) = 2 \<and> scriptPubKey out ! 1 = 0 \<longleftrightarrow> scriptPubKey out = [OP_RETURN, 0]"
      using True by (auto simp: is_return_def length_Suc_conv numeral_2_eq_2)
    show ?thesis
    proof (cases "good_return out \<and> r = 0")
      case good: True
      then have "lock_return_amount r (out # outs) = lock_return_amount (nValue out) outs"
        using True by (auto simp: is_return_def good_return_def MoneyRange_def)
      then show ?thesis using Cons.IH [of "nValue out"] good True by (auto simp: good_return_def)
    next
      case False
      then have "lock_return_amount r (out # outs) \<noteq> Inr v"
        using True sc Cons.prems by (auto simp: is_return_def good_return_def MoneyRange_def Let_def)
      then show ?thesis using False True by auto
    qed
  next
    case False
    then have "lock_return_amount r (out # outs) = lock_return_amount r outs" by (auto simp: is_return_def Let_def)
    then show ?thesis using Cons False by simp
  qed
qed auto

lemma credit_outputs_amount_Inr:
  "0 \<le> a \<Longrightarrow> credit_outputs_amount a outs = Inr v \<longleftrightarrow>
     (\<forall>out\<in>set outs. 0 < nValue out \<and> IsPayToPublicKeyHash (scriptPubKey out))
     \<and> v = a + sum_list (map nValue outs) \<and> (outs = [] \<or> v \<le> MAX_MONEY)"
proof (induction outs arbitrary: a)
  case (Cons out outs)
  have nonneg: "0 \<le> sum_list (map nValue outs)" if "\<forall>out\<in>set outs. 0 < nValue out"
    using that by (intro sum_list_nonneg) (auto intro: less_imp_le)
  show ?case
  proof (cases "0 < nValue out \<and> a + nValue out \<le> MAX_MONEY \<and> IsPayToPublicKeyHash (scriptPubKey out)")
    case True
    then have "credit_outputs_amount a (out # outs) = credit_outputs_amount (a + nValue out) outs"
      using Cons.prems by (simp add: MoneyRange_def)
    then show ?thesis using Cons.IH [of "a + nValue out"] Cons.prems True by (auto simp: add.assoc)
  next
    case False
    then have "credit_outputs_amount a (out # outs) \<noteq> Inr v" using Cons.prems by (auto simp: MoneyRange_def)
    then show ?thesis using False nonneg Cons.prems by (auto simp del: credit_outputs_amount.simps)
  qed
qed auto

lemma CheckAssetLockTx_accepts: "fst (CheckAssetLockTx tx st) \<longleftrightarrow> valid_asset_lock tx"
proof (cases "lock_return_amount 0 (vout tx)")
  case (Inl e)
  then have "\<nexists>ret. filter is_return (vout tx) = [ret] \<and> good_return ret"
    using lock_return_amount_Inr [of 0 "vout tx"] by auto
  then show ?thesis using Inl by (auto simp: CheckAssetLockTx_def valid_asset_lock_def Let_def)
next
  case (Inr r)
  then have r: "(filter is_return (vout tx) = [] \<and> r = 0) \<or> (\<exists>ret. filter is_return (vout tx) = [ret] \<and> good_return ret \<and> r = nValue ret)"
    using lock_return_amount_Inr [of 0 "vout tx" r] by auto
  have v1: "\<not> (v = 0 \<or> v > CAssetLockPayload_CURRENT_VERSION) \<longleftrightarrow> v = 1" for v :: byte
    unfolding CAssetLockPayload_CURRENT_VERSION_def by (metis not_less word_le_less_eq word_less_1 zero_neq_one)
  show ?thesis
  proof (cases "get_asset_lock tx")
    case None
    then show ?thesis using Inr by (auto simp: CheckAssetLockTx_def valid_asset_lock_def Let_def)
  next
    case (Some p)
    have "fst (CheckAssetLockTx tx st) \<longleftrightarrow> nType tx = TRANSACTION_ASSET_LOCK \<and> r \<noteq> 0 \<and> lock_nVersion p = 1
        \<and> creditOutputs p \<noteq> [] \<and> credit_outputs_amount 0 (creditOutputs p) = Inr r"
      using Inr Some v1 [of "lock_nVersion p"]
      by (auto simp: CheckAssetLockTx_def Let_def split: sum.splits)
    then show ?thesis using r Some credit_outputs_amount_Inr [of 0 "creditOutputs p" r]
      by (auto simp: valid_asset_lock_def good_return_def)
  qed
qed

lemma CheckAssetLockTx_outcome:
  "CheckAssetLockTx tx st = (True, st) \<or> (\<exists>reason. CheckAssetLockTx tx st = Invalid TX_BAD_SPECIAL reason [] st)"
  by (auto simp: CheckAssetLockTx_def Let_def split: sum.splits option.splits)

text \<open>
  C36: \<open>CheckAssetLockTx\<close> accepts exactly the transactions of the type with one \<open>OP_RETURN\<close> output, of a positive
  amount in the money range and no data, and a payload of version 1 whose credit outputs are positive, pay to
  public key hashes and sum up to that amount: the credits created are the coins locked. It then leaves the
  state unchanged, and otherwise marks it invalid with \<open>TX_BAD_SPECIAL\<close>.
\<close>

theorem CheckAssetLockTx_correct:
  "\<exists>reason. CheckAssetLockTx tx st = (if valid_asset_lock tx then (True, st) else Invalid TX_BAD_SPECIAL reason [] st)"
  using CheckAssetLockTx_accepts [of tx st] CheckAssetLockTx_outcome [of tx st] by auto

section \<open>Payloads round-trip\<close>

text \<open>What is assumed of the library: a signature's encoding is not all zeros and decodes to it.\<close>

definition bls_canonical :: "('g, 'k) bls_library \<Rightarrow> bool \<Rightarrow> bool" where
  "bls_canonical B legacy \<longleftrightarrow> (\<forall>g. length (impl_Serialize B legacy g) = BLS_CURVE_SIG_SIZE
     \<and> \<not> list_all (\<lambda>c. c = 0) (impl_Serialize B legacy g) \<and> FromBytes B legacy (impl_Serialize B legacy g) = Some g)"

definition wf_lock_payload :: "asset_lock_payload \<Rightarrow> bool" where
  "wf_lock_payload p \<longleftrightarrow> length (creditOutputs p) \<le> unat MAX_SIZE \<and> (\<forall>out\<in>set (creditOutputs p). wf_txout out)"

context byte_source
begin

lemma reads_CBLSWrapper:
  assumes "bls_canonical B legacy"
  shows "reads (CBLSWrapper_Unserialize B legacy BLS_CURVE_SIG_SIZE rd) (CBLSWrapper_Serialize B legacy BLS_CURVE_SIG_SIZE w) w"
proof -
  let ?bs = "CBLSWrapper_Serialize B legacy BLS_CURVE_SIG_SIZE w"
  have bs: "length ?bs = BLS_CURVE_SIG_SIZE" "?bs = ToByteVector B BLS_CURVE_SIG_SIZE w legacy"
    "SetByteVector B BLS_CURVE_SIG_SIZE ?bs legacy = w"
    using assms by (cases w; simp add: CBLSWrapper_Serialize_def ToByteVector_def SetByteVector_def bls_canonical_def list_all_iff)+
  then have "CheckMalleable B BLS_CURVE_SIG_SIZE w ?bs legacy" by (simp add: CheckMalleable_def CBLSWrapper_Serialize_def)
  then show ?thesis
    unfolding CBLSWrapper_Unserialize_def [abs_def]
    using reads_bind [OF reads_rd [OF bs(1)], of _ "[]" w] reads_return [of w] bs(3) by (simp add: Let_def)
qed

lemma reads_CAssetLockPayload:
  assumes "wf_lock_payload p"
  shows "reads (CAssetLockPayload_Unser rd) (CAssetLockPayload_Ser p) p"
proof -
  have sizes: "length (creditOutputs p) \<le> unat MAX_SIZE" "0 < sizeof_CTxOut" "sizeof_CTxOut \<le> MAX_VECTOR_ALLOCATE"
    and wf: "\<And>out. out \<in> set (creditOutputs p) \<Longrightarrow> wf_txout out"
    using assms by (auto simp: wf_lock_payload_def sizeof_CTxOut_def MAX_VECTOR_ALLOCATE_def)
  show ?thesis
    unfolding CAssetLockPayload_Unser_def [abs_def] CAssetLockPayload_Ser_def
    apply (rule reads_bind [OF reads_ser_readdata8])
    apply (rule reads_map [OF reads_VectorFormatter])
    using sizes wf reads_CTxOut apply auto
    done
qed

lemma reads_CAssetUnlockPayload:
  assumes "bls_canonical B legacy"
  shows "reads (CAssetUnlockPayload_Unser B legacy rd) (CAssetUnlockPayload_Ser B legacy p) p"
  unfolding CAssetUnlockPayload_Unser_def [abs_def] CAssetUnlockPayload_Ser_def
  apply (rule reads_bind [OF reads_ser_readdata8])
  apply (rule reads_bind [OF reads_ser_readdata64])
  apply (rule reads_bind [OF reads_ser_readdata32])
  apply (rule reads_bind [OF reads_ser_readdata32])
  apply (rule reads_bind [OF reads_rd])
   apply simp
  apply (rule reads_map [OF reads_CBLSWrapper [OF assms]])
  apply (simp add: le_simps)
  done

end

lemma GetTxPayload_reads:
  assumes "ds.reads unser bs p" "length bs < 2 ^ 64" "nType tx = t"
  shows "GetTxPayload t unser (SetTxPayload bs tx) = Some p"
proof -
  obtain s' where s': "unser (ds_of bs) = Inr (p, s')" "ds_inv s'" "ds_contents s' = []"
    using ds.readsD [OF assms(1), of "ds_of bs" "[]"] assms(2) by auto
  then have "ds_empty s'" by (auto simp: ds_empty_def ds_inv_def ds_contents_def)
  then show ?thesis using s' assms(3) by (simp add: GetTxPayload_def GetTxPayload_bytes_def SetTxPayload_def)
qed

text \<open>
  The payload of an asset lock or unlock transaction that \<open>SetTxPayload\<close> stores is the one \<open>GetTxPayload\<close>
  returns. Of the BLS library it assumes that the encoding of a signature is not all zeros and decodes to it; an
  invalid signature is stored as zeros and comes back invalid.
\<close>

lemma asset_payload_roundtrip:
  assumes "bls_canonical B legacy" "wf_lock_payload p" "length (CAssetLockPayload_Ser p) < 2 ^ 64"
  shows "(nType tx = TRANSACTION_ASSET_LOCK \<longrightarrow> get_asset_lock (SetTxPayload (CAssetLockPayload_Ser p) tx) = Some p)
    \<and> (nType tx = TRANSACTION_ASSET_UNLOCK \<longrightarrow> get_asset_unlock B legacy (SetTxPayload (CAssetUnlockPayload_Ser B legacy q) tx) = Some q)"
proof -
  have "length (CBLSWrapper_Serialize B legacy BLS_CURVE_SIG_SIZE (quorumSig q)) \<le> BLS_CURVE_SIG_SIZE"
    by (simp add: CBLSWrapper_Serialize_def)
  then have "length (CAssetUnlockPayload_Ser B legacy q) < 2 ^ 64"
    by (simp add: CAssetUnlockPayload_Ser_def ser_writedata8_def ser_writedata32_def ser_writedata64_def BLS_CURVE_SIG_SIZE_def)
  then show ?thesis
    unfolding get_asset_lock_def get_asset_unlock_def
    using GetTxPayload_reads [OF ds.reads_CAssetLockPayload [OF assms(2)] assms(3)]
      GetTxPayload_reads [OF ds.reads_CAssetUnlockPayload [OF assms(1)]] by blast
qed

text \<open>A library with one-byte signatures, to evaluate on.\<close>

definition sample_bls :: "(byte, byte) bls_library" where
  "sample_bls = \<lparr>FromBytes = (\<lambda>_ bs. if take 95 bs = replicate 95 1 then Some (last bs) else None),
     impl_Serialize = (\<lambda>_ g. replicate 95 1 @ [g]), impl_Verify = (\<lambda>_ k h g. k = g)\<rparr>"

lemma sample_bls_canonical: "bls_canonical sample_bls legacy"
  by (auto simp: bls_canonical_def sample_bls_def BLS_CURVE_SIG_SIZE_def numeral_eq_Suc)

definition sample_lock :: mutable_transaction where
  "sample_lock = \<lparr>vin = [\<lparr>prevout = \<lparr>op_hash = 7, op_n = 1\<rparr>, scriptSig = [0x51], nSequence = 0xffffffff\<rparr>],
     vout = [\<lparr>nValue = 5, scriptPubKey = [OP_RETURN, 0]\<rparr>],
     nVersion = 3, nType = TRANSACTION_ASSET_LOCK, nLockTime = 0, vExtraPayload = []\<rparr>"

definition sample_lock_payload :: asset_lock_payload where
  "sample_lock_payload = \<lparr>lock_nVersion = 1, creditOutputs =
     [\<lparr>nValue = 5, scriptPubKey = [OP_DUP, OP_HASH160, 20] @ replicate 20 9 @ [OP_EQUALVERIFY, OP_CHECKSIG]\<rparr>]\<rparr>"

end
