(* ===== verification/Subsidy.thy ===== *)
theory Subsidy
  imports Transaction
begin

text \<open>
  The block reward of \<open>src/validation.cpp\<close> (\<open>GetBlockSubsidyHelper\<close>, \<open>GetMasternodePayment\<close>) and the share of
  it that goes to the credit pool (\<open>PlatformShare\<close> of \<open>src/masternode/payments.cpp\<close>). The amounts are not
  negative, so that C++ division is \<open>div\<close>. The floating-point formulas of the first years are a parameter: the
  integer that the conversion to \<open>CAmount\<close> yields for a difficulty, before it is clamped.
\<close>

section \<open>Model\<close>

datatype network = MAIN | TESTNET | DEVNET | REGTEST

text \<open>The consensus parameters the functions read.\<close>

record consensus_params =
  nSubsidyHalvingInterval :: int
  nMasternodePaymentsIncreaseBlock :: int
  nMasternodePaymentsIncreasePeriod :: int
  nBudgetPaymentsStartBlock :: int
  nSuperblockCycle :: int
  BRRHeight :: int
  nHighSubsidyBlocks :: int
  nHighSubsidyFactor :: int

text \<open>
  The formulas on doubles: the subsidy by era and whether the difficulty is at most 75. The first argument is
  whether the early difficulty formula of the main network applies, the second the compact target.
\<close>

record subsidy_formulas =
  early_base :: "bool \<Rightarrow> int \<Rightarrow> CAmount"
  cpu_base :: "bool \<Rightarrow> int \<Rightarrow> CAmount"
  gpu_base :: "bool \<Rightarrow> int \<Rightarrow> CAmount"
  diff_at_most_75 :: "bool \<Rightarrow> int \<Rightarrow> bool"

definition clamp :: "CAmount \<Rightarrow> CAmount \<Rightarrow> CAmount \<Rightarrow> CAmount" where
  "clamp lo hi x = (if x > hi then hi else if x < lo then lo else x)"

definition subsidy_base :: "subsidy_formulas \<Rightarrow> network \<Rightarrow> consensus_params \<Rightarrow> int \<Rightarrow> int \<Rightarrow> bool \<Rightarrow> CAmount" where
  "subsidy_base F net cp nPrevBits nPrevHeight fV20Active =
     (let early = (nPrevHeight \<le> 4500 \<and> net = MAIN) in
      if fV20Active \<or> (net = DEVNET \<and> nPrevHeight \<ge> nHighSubsidyBlocks cp) then 5
      else if nPrevHeight < 5465 then clamp 1 500 (early_base F early nPrevBits)
      else if nPrevHeight < 17000 \<or> (diff_at_most_75 F early nPrevBits \<and> nPrevHeight < 24000)
      then clamp 25 500 (cpu_base F early nPrevBits)
      else clamp 5 25 (gpu_base F early nPrevBits))"

text \<open>
  The loop over the intervals: \<open>i\<close> is the height at which the next decline is due. (With an interval that is
  not positive the code would not terminate; every network has a positive one.)
\<close>

function decline_loop :: "int \<Rightarrow> int \<Rightarrow> int \<Rightarrow> CAmount \<Rightarrow> CAmount" where
  "decline_loop interval i nPrevHeight nSubsidy =
     (if i \<le> nPrevHeight \<and> interval > 0
      then decline_loop interval (i + interval) nPrevHeight (nSubsidy - nSubsidy div 14)
      else nSubsidy)"
  by pat_completeness auto
termination
  by (relation "measure (\<lambda>(interval, i, h, s). nat (h + 1 - i))") auto

declare decline_loop.simps [simp del]

definition GetBlockSubsidyHelper ::
    "subsidy_formulas \<Rightarrow> network \<Rightarrow> consensus_params \<Rightarrow> int \<Rightarrow> int \<Rightarrow> bool \<Rightarrow> (CAmount \<times> CAmount) res" where
  "GetBlockSubsidyHelper F net cp nPrevBits nPrevHeight fV20Active =
     (let nSubsidy0 = decline_loop (nSubsidyHalvingInterval cp) (nSubsidyHalvingInterval cp) nPrevHeight
            (subsidy_base F net cp nPrevBits nPrevHeight fV20Active * COIN) in
      if nPrevHeight < nHighSubsidyBlocks cp \<and> net \<noteq> DEVNET then Inl ''assert(isDevnet)''
      else
        let nSubsidy = (if nPrevHeight < nHighSubsidyBlocks cp then nSubsidy0 * nHighSubsidyFactor cp else nSubsidy0);
            nSuperblockPart = (if nPrevHeight > nBudgetPaymentsStartBlock cp
                               then nSubsidy div (if fV20Active then 5 else 10) else 0) in
        Inr (nSubsidy - nSuperblockPart, nSuperblockPart))"

definition GetBlockSubsidyInner ::
    "subsidy_formulas \<Rightarrow> network \<Rightarrow> consensus_params \<Rightarrow> int \<Rightarrow> int \<Rightarrow> bool \<Rightarrow> CAmount res" where
  "GetBlockSubsidyInner F net cp nPrevBits nPrevHeight fV20Active =
     res_bind (GetBlockSubsidyHelper F net cp nPrevBits nPrevHeight fV20Active) (\<lambda>(nSubsidy, nSuperblock). Inr nSubsidy)"

definition GetSuperblockSubsidyInner ::
    "subsidy_formulas \<Rightarrow> network \<Rightarrow> consensus_params \<Rightarrow> int \<Rightarrow> int \<Rightarrow> bool \<Rightarrow> CAmount res" where
  "GetSuperblockSubsidyInner F net cp nPrevBits nPrevHeight fV20Active =
     res_bind (GetBlockSubsidyHelper F net cp nPrevBits nPrevHeight fV20Active) (\<lambda>(nSubsidy, nSuperblock). Inr nSuperblock)"

definition vecPeriods :: "int list" where
  "vecPeriods = [513, 526, 533, 540, 546, 552, 557, 562, 567, 572, 577, 582, 585, 588, 591, 594, 597, 599, 600]"

definition GetMasternodePayment :: "consensus_params \<Rightarrow> int \<Rightarrow> CAmount \<Rightarrow> bool \<Rightarrow> CAmount" where
  "GetMasternodePayment cp nHeight blockValue fV20Active =
     (let nMNPIBlock = nMasternodePaymentsIncreaseBlock cp;
          nMNPIPeriod = nMasternodePaymentsIncreasePeriod cp;
          step = (\<lambda>k part. if nHeight > nMNPIBlock + nMNPIPeriod * k then blockValue div part else 0);
          ret = blockValue div 5 + step 0 20 + step 1 20 + step 2 20 + step 3 40 + step 4 40 + step 5 40
                + step 6 40 + step 7 40 + step 9 40;
          nReallocStart = BRRHeight cp - BRRHeight cp mod nSuperblockCycle cp + nSuperblockCycle cp in
      if nHeight < BRRHeight cp then ret
      else if nHeight < nReallocStart then ret
      else if fV20Active then blockValue * 3 div 4
      else
        let nReallocCycle = nSuperblockCycle cp * 3;
            nCurrentPeriod = min ((nHeight - nReallocStart) div nReallocCycle) (int (length vecPeriods) - 1) in
        blockValue * (vecPeriods ! nat nCurrentPeriod) div 1000)"

definition PlatformShare :: "CAmount \<Rightarrow> CAmount res" where
  "PlatformShare reward =
     (let platformReward = reward * 375 div 1000 in
      if \<not> MoneyRange platformReward then Inl ''assert(ok)'' else Inr platformReward)"

section \<open>Bounds\<close>

lemma decline_step: "0 \<le> s \<Longrightarrow> 0 \<le> s - s div 14 \<and> s - s div 14 \<le> s" for s :: int
  by presburger

lemma decline_loop_bounds: "0 \<le> s \<Longrightarrow> 0 \<le> decline_loop iv i h s \<and> decline_loop iv i h s \<le> s"
proof (induction iv i h s rule: decline_loop.induct)
  case (1 iv i h s)
  then show ?case using decline_step [of s] by (subst (1 2) decline_loop.simps) (auto intro: order_trans)
qed

lemma decline_loop_antimono:
  "0 \<le> s \<Longrightarrow> h \<le> h' \<Longrightarrow> decline_loop iv i h' s \<le> decline_loop iv i h s"
proof (induction iv i h s rule: decline_loop.induct)
  case (1 iv i h s)
  show ?case
  proof (cases "i \<le> h \<and> iv > 0")
    case True
    then show ?thesis using 1 decline_step [of s] by (simp add: decline_loop.simps [of iv i])
  next
    case False
    then have "decline_loop iv i h s = s" by (subst decline_loop.simps) auto
    then show ?thesis using decline_loop_bounds [OF 1(2)] by simp
  qed
qed

lemma subsidy_base_bounds: "1 \<le> subsidy_base F net cp b h v20 \<and> subsidy_base F net cp b h v20 \<le> 500"
  by (auto simp: subsidy_base_def clamp_def Let_def)

lemma GetMasternodePayment_bounds:
  assumes "0 \<le> v" "0 < nSuperblockCycle cp"
  shows "0 \<le> GetMasternodePayment cp h v v20" "GetMasternodePayment cp h v v20 \<le> v"
proof -
  define start where "start = BRRHeight cp - BRRHeight cp mod nSuperblockCycle cp + nSuperblockCycle cp"
  define k where "k = nat (min ((h - start) div (nSuperblockCycle cp * 3)) (int (length vecPeriods) - 1))"
  have "k < length vecPeriods" by (simp add: k_def vecPeriods_def)
  then have "vecPeriods ! k \<in> set vecPeriods" by simp
  then have p: "0 \<le> vecPeriods ! k" "vecPeriods ! k \<le> 600" by (auto simp: vecPeriods_def)
  have part: "0 \<le> v div 5" "0 \<le> v div 20" "0 \<le> v div 40" "v div 5 + 3 * (v div 20) + 6 * (v div 40) \<le> v"
    using assms(1) by (auto simp: pos_imp_zdiv_nonneg_iff)
  have "v * (vecPeriods ! k) \<le> v * 1000" using assms(1) p by (intro mult_left_mono) auto
  then have q: "0 \<le> v * (vecPeriods ! k) div 1000" "v * (vecPeriods ! k) div 1000 \<le> v"
    using assms(1) p zdiv_mono1 [of "v * (vecPeriods ! k)" "v * 1000" 1000] by (auto simp: pos_imp_zdiv_nonneg_iff)
  have r: "0 \<le> v * 3 div 4" "v * 3 div 4 \<le> v" using assms(1) by presburger+
  define step where "step k part = (if h > nMasternodePaymentsIncreaseBlock cp + nMasternodePaymentsIncreasePeriod cp * k then v div part else 0)"
    for k part :: int
  define ret where "ret = v div 5 + step 0 20 + step 1 20 + step 2 20 + step 3 40 + step 4 40 + step 5 40 + step 6 40 + step 7 40 + step 9 40"
  have st: "0 \<le> step k 20 \<and> step k 20 \<le> v div 20" "0 \<le> step k 40 \<and> step k 40 \<le> v div 40" for k
    using part by (simp_all add: step_def)
  have ret: "0 \<le> ret" "ret \<le> v"
    unfolding ret_def using part st(1) [of 0] st(1) [of 1] st(1) [of 2] st(2) [of 3] st(2) [of 4] st(2) [of 5] st(2) [of 6] st(2) [of 7] st(2) [of 9]
    by linarith+
  have "GetMasternodePayment cp h v v20 = (if h < BRRHeight cp then ret else if h < start then ret
      else if v20 then v * 3 div 4 else v * (vecPeriods ! k) div 1000)"
    unfolding GetMasternodePayment_def Let_def start_def k_def ret_def step_def by (rule refl)
  then show "0 \<le> GetMasternodePayment cp h v v20" "GetMasternodePayment cp h v v20 \<le> v" using ret q r by simp_all
qed

text \<open>What the networks' parameters satisfy at a height: no high-subsidy blocks are left.\<close>

definition params_ok :: "consensus_params \<Rightarrow> int \<Rightarrow> bool" where
  "params_ok cp nPrevHeight \<longleftrightarrow> 0 < nSubsidyHalvingInterval cp \<and> 0 < nSuperblockCycle cp \<and> nHighSubsidyBlocks cp \<le> nPrevHeight"

definition total_subsidy :: "subsidy_formulas \<Rightarrow> network \<Rightarrow> consensus_params \<Rightarrow> int \<Rightarrow> int \<Rightarrow> bool \<Rightarrow> CAmount" where
  "total_subsidy F net cp b h v20 =
     decline_loop (nSubsidyHalvingInterval cp) (nSubsidyHalvingInterval cp) h (subsidy_base F net cp b h v20 * COIN)"

lemma GetBlockSubsidyHelper_split:
  assumes "params_ok cp h"
  shows "\<exists>nSubsidy nSuperblock. GetBlockSubsidyHelper F net cp b h v20 = Inr (nSubsidy, nSuperblock) \<and> 0 \<le> nSubsidy \<and> 0 \<le> nSuperblock
    \<and> nSubsidy + nSuperblock = total_subsidy F net cp b h v20 \<and> total_subsidy F net cp b h v20 \<le> 500 * COIN"
proof -
  define t where "t = total_subsidy F net cp b h v20"
  have base: "0 \<le> subsidy_base F net cp b h v20 * COIN" "subsidy_base F net cp b h v20 * COIN \<le> 500 * COIN"
    using subsidy_base_bounds [of F net cp b h v20] by (simp_all add: COIN_def)
  have t: "0 \<le> t" "t \<le> 500 * COIN"
    unfolding t_def total_subsidy_def using decline_loop_bounds [OF base(1)] base(2) by (auto intro: order.trans)
  have part: "0 \<le> t div 5 \<and> t div 5 \<le> t \<and> 0 \<le> t div 10 \<and> t div 10 \<le> t" using t(1) by auto
  have "\<not> h < nHighSubsidyBlocks cp" using assms by (simp add: params_ok_def)
  then have "GetBlockSubsidyHelper F net cp b h v20 = (let p = (if h > nBudgetPaymentsStartBlock cp then t div (if v20 then 5 else 10) else 0) in Inr (t - p, p))"
    by (simp add: GetBlockSubsidyHelper_def t_def total_subsidy_def Let_def)
  then show ?thesis using t part unfolding t_def [symmetric] by (auto simp: Let_def)
qed

text \<open>
  C35: the reward of a block is shared out without a loss or an overdraft. The miners' and masternodes' part and
  the superblock part are not negative and sum up to the subsidy, at most 500 coins; what the masternodes get is
  within their part, and what the credit pool gets is within that, so that the assertion of \<open>PlatformShare\<close>
  holds. Once version 20 is active the subsidy does not grow with the height. (Parameters with positive intervals,
  and a height past the blocks of high subsidy that a devnet may have.)
\<close>

theorem block_reward_shares:
  assumes "params_ok cp h"
  shows "\<exists>nSubsidy nSuperblock platform.
    GetBlockSubsidyHelper F net cp b h v20 = Inr (nSubsidy, nSuperblock) \<and> 0 \<le> nSubsidy \<and> 0 \<le> nSuperblock
    \<and> nSubsidy + nSuperblock \<le> 500 * COIN
    \<and> PlatformShare (GetMasternodePayment cp (h + 1) nSubsidy v20) = Inr platform
    \<and> 0 \<le> platform \<and> platform \<le> GetMasternodePayment cp (h + 1) nSubsidy v20 \<and> GetMasternodePayment cp (h + 1) nSubsidy v20 \<le> nSubsidy
    \<and> (v20 \<longrightarrow> (\<forall>h' b' nSubsidy' nSuperblock'. h \<le> h' \<and> GetBlockSubsidyHelper F net cp b' h' v20 = Inr (nSubsidy', nSuperblock')
         \<longrightarrow> nSubsidy' + nSuperblock' \<le> nSubsidy + nSuperblock))"
proof -
  obtain s p where sp: "GetBlockSubsidyHelper F net cp b h v20 = Inr (s, p)" "0 \<le> s" "0 \<le> p"
    "s + p = total_subsidy F net cp b h v20" "total_subsidy F net cp b h v20 \<le> 500 * COIN"
    using GetBlockSubsidyHelper_split [OF assms] by blast
  define m where "m = GetMasternodePayment cp (h + 1) s v20"
  have m: "0 \<le> m" "m \<le> s" using GetMasternodePayment_bounds [OF sp(2)] assms by (auto simp: m_def params_ok_def)
  have r: "0 \<le> m * 375 div 1000" "m * 375 div 1000 \<le> m" using m(1) by auto
  moreover have "s \<le> 500 * COIN" using sp by simp
  ultimately have "PlatformShare m = Inr (m * 375 div 1000)"
    using m(2) by (simp add: PlatformShare_def Let_def MoneyRange_def MAX_MONEY_def COIN_def)
  moreover have "s' + p' \<le> s + p" if "v20" "h \<le> h'" "GetBlockSubsidyHelper F net cp b' h' v20 = Inr (s', p')" for h' b' s' p'
  proof -
    have "params_ok cp h'" using assms that(2) by (auto simp: params_ok_def)
    then have "s' + p' = total_subsidy F net cp b' h' v20" using GetBlockSubsidyHelper_split [of cp h' F net b' v20] that(3) by auto
    also have "\<dots> \<le> total_subsidy F net cp b h v20"
      using decline_loop_antimono [OF _ that(2)] that(1) by (simp add: total_subsidy_def subsidy_base_def Let_def COIN_def)
    finally show ?thesis using sp(4) by simp
  qed
  ultimately show ?thesis using sp m r unfolding m_def
    by (intro exI [of _ s] exI [of _ p] exI [of _ "GetMasternodePayment cp (h + 1) s v20 * 375 div 1000"]) auto
qed

definition main_params :: consensus_params where
  "main_params = \<lparr>nSubsidyHalvingInterval = 210240, nMasternodePaymentsIncreaseBlock = 158000,
     nMasternodePaymentsIncreasePeriod = 17280, nBudgetPaymentsStartBlock = 328008, nSuperblockCycle = 16616,
     BRRHeight = 1374912, nHighSubsidyBlocks = 0, nHighSubsidyFactor = 1\<rparr>"

definition sample_formulas :: subsidy_formulas where
  "sample_formulas = \<lparr>early_base = (\<lambda>_ _. 500), cpu_base = (\<lambda>_ _. 100), gpu_base = (\<lambda>_ _. 5), diff_at_most_75 = (\<lambda>_ _. False)\<rparr>"

theorem block_reward_shares_witness:
  "params_ok main_params 2000000 \<and> (\<exists>nSubsidy nSuperblock platform.
     GetBlockSubsidyHelper sample_formulas MAIN main_params 0 2000000 True = Inr (nSubsidy, nSuperblock) \<and> 0 \<le> platform
     \<and> PlatformShare (GetMasternodePayment main_params 2000001 nSubsidy True) = Inr platform)"
proof -
  have "params_ok main_params 2000000" by code_simp
  with block_reward_shares [OF this, of sample_formulas MAIN 0 True, simplified] show ?thesis by blast
qed

end
