(* ===== verification/LruCache.thy ===== *)
theory LruCache
  imports Prelude "HOL-Library.AList"
begin

text \<open>
  \<open>unordered_lru_cache\<close> of \<open>src/unordered_lru_cache.h\<close>: a map whose entries carry the time of their last access,
  truncated to the most recently used ones when it grows past a threshold. Clients rely on the contract of the
  locale \<open>lossy_map\<close>: a lookup returns what was stored last or nothing.
\<close>

section \<open>Model\<close>

text \<open>The \<open>unordered_map\<close> is an association list with distinct keys; entries are a value and an access time.\<close>

record ('k, 'v) lru_cache =
  cacheMap :: "('k \<times> 'v \<times> int) list"
  maxSize :: nat
  truncateThreshold :: nat
  accessCounter :: int

definition unordered_lru_cache :: "nat \<Rightarrow> nat \<Rightarrow> ('k, 'v) lru_cache res" where
  "unordered_lru_cache m t =
     (if m = 0 then Inl ''assert(_maxSize != 0)''
      else Inr \<lparr>cacheMap = [], maxSize = m, truncateThreshold = (if t = 0 then m * 2 else t), accessCounter = 0\<rparr>)"

definition truncate_if_needed :: "('k, 'v) lru_cache \<Rightarrow> ('k, 'v) lru_cache" where
  "truncate_if_needed c =
     (if length (cacheMap c) \<le> truncateThreshold c then c
      else
        let vec = sort_key (\<lambda>e. - snd (snd e)) (cacheMap c) in
        c\<lparr>cacheMap := fold (\<lambda>e m. AList.delete (fst e) m) (drop (maxSize c) vec) (cacheMap c)\<rparr>)"

definition lru_insert :: "'k \<Rightarrow> 'v \<Rightarrow> ('k, 'v) lru_cache \<Rightarrow> ('k, 'v) lru_cache" where
  "lru_insert key v c =
     truncate_if_needed (c\<lparr>cacheMap := AList.update key (v, accessCounter c) (cacheMap c), accessCounter := accessCounter c + 1\<rparr>)"

definition lru_get :: "'k \<Rightarrow> ('k, 'v) lru_cache \<Rightarrow> 'v option \<times> ('k, 'v) lru_cache" where
  "lru_get key c =
     (case map_of (cacheMap c) key of
        Some (v, t) \<Rightarrow> (Some v, c\<lparr>cacheMap := AList.update key (v, accessCounter c) (cacheMap c), accessCounter := accessCounter c + 1\<rparr>)
      | None \<Rightarrow> (None, c))"

definition lru_exists :: "'k \<Rightarrow> ('k, 'v) lru_cache \<Rightarrow> bool \<times> ('k, 'v) lru_cache" where
  "lru_exists key c =
     (case map_of (cacheMap c) key of
        Some (v, t) \<Rightarrow> (True, c\<lparr>cacheMap := AList.update key (v, accessCounter c) (cacheMap c), accessCounter := accessCounter c + 1\<rparr>)
      | None \<Rightarrow> (False, c))"

definition lru_erase :: "'k \<Rightarrow> ('k, 'v) lru_cache \<Rightarrow> ('k, 'v) lru_cache" where
  "lru_erase key c = c\<lparr>cacheMap := AList.delete key (cacheMap c)\<rparr>"

definition lru_clear :: "('k, 'v) lru_cache \<Rightarrow> ('k, 'v) lru_cache" where
  "lru_clear c = c\<lparr>cacheMap := []\<rparr>"

section \<open>Contents\<close>

text \<open>The entries of a map by key: the value, and the time of the last access.\<close>

definition lru_map :: "('k, 'v) lru_cache \<Rightarrow> 'k \<rightharpoonup> 'v" where
  "lru_map c k = map_option fst (map_of (cacheMap c) k)"

definition last_access :: "('k, 'v) lru_cache \<Rightarrow> 'k \<rightharpoonup> int" where
  "last_access c k = map_option snd (map_of (cacheMap c) k)"

definition lru_inv :: "('k, 'v) lru_cache \<Rightarrow> bool" where
  "lru_inv c \<longleftrightarrow> distinct (map fst (cacheMap c)) \<and> distinct (map (snd \<circ> snd) (cacheMap c))
     \<and> (\<forall>e\<in>set (cacheMap c). snd (snd e) < accessCounter c) \<and> 0 < maxSize c \<and> maxSize c \<le> truncateThreshold c
     \<and> length (cacheMap c) \<le> truncateThreshold c"

text \<open>Everything but the size bound holds between the update and the truncation.\<close>

definition lru_pre :: "('k, 'v) lru_cache \<Rightarrow> bool" where
  "lru_pre c \<longleftrightarrow> distinct (map fst (cacheMap c)) \<and> distinct (map (snd \<circ> snd) (cacheMap c))
     \<and> (\<forall>e\<in>set (cacheMap c). snd (snd e) < accessCounter c) \<and> 0 < maxSize c \<and> maxSize c \<le> truncateThreshold c"

lemma fold_delete: "fold (\<lambda>e m. AList.delete (fst e) m) es m = filter (\<lambda>e. fst e \<notin> fst ` set es) m"
  by (induction es arbitrary: m) (auto simp: AList.delete_eq filter_filter intro: filter_cong)

lemma distinct_times_inj: "distinct (map f xs) \<Longrightarrow> x \<in> set xs \<Longrightarrow> y \<in> set xs \<Longrightarrow> f x = f y \<Longrightarrow> x = y"
  by (metis distinct_map inj_onD)

lemma set_update_subset: "set (AList.update k v m) \<subseteq> insert (k, v) (set m)"
  by (induction m) auto

lemma update_times:
  assumes "distinct (map (snd \<circ> snd) m)" "\<forall>e\<in>set m. snd (snd e) < t"
  shows "distinct (map (snd \<circ> snd) (AList.update key (v, t :: int) m))"
  using assms
proof (induction m)
  case (Cons e m)
  have "snd (snd e) \<notin> (snd \<circ> snd) ` set (AList.update key (v, t) m)"
  proof
    assume "snd (snd e) \<in> (snd \<circ> snd) ` set (AList.update key (v, t) m)"
    then obtain x where x: "x \<in> set (AList.update key (v, t) m)" "snd (snd x) = snd (snd e)" by auto
    then have "x = (key, v, t) \<or> x \<in> set m" using set_update_subset [of key "(v, t)" m] by blast
    then show False using x(2) Cons.prems by (auto simp: image_iff)
  qed
  moreover have "t \<notin> (snd \<circ> snd) ` set m" using Cons.prems(2) by auto
  ultimately show ?case using Cons by (cases e) auto
qed simp

lemma touch_pre:
  assumes "lru_inv c"
  shows "lru_pre (c\<lparr>cacheMap := AList.update key (v, accessCounter c) (cacheMap c), accessCounter := accessCounter c + 1\<rparr>)"
proof -
  have "snd (snd e) < accessCounter c + 1" if "e \<in> set (AList.update key (v, accessCounter c) (cacheMap c))" for e
  proof -
    have "e = (key, v, accessCounter c) \<or> e \<in> set (cacheMap c)"
      using subsetD [OF set_update_subset that] by blast
    then show ?thesis using assms by (auto simp: lru_inv_def)
  qed
  then show ?thesis using assms by (auto simp: lru_inv_def lru_pre_def distinct_update update_times)
qed

lemma length_update_present: "map_of m k = Some w \<Longrightarrow> length (AList.update k v m) = length m"
  by (induction m) (auto split: if_splits)

lemma touch_inv:
  assumes "lru_inv c" "map_of (cacheMap c) key = Some w"
  shows "lru_inv (c\<lparr>cacheMap := AList.update key (v, accessCounter c) (cacheMap c), accessCounter := accessCounter c + 1\<rparr>)"
  using touch_pre [OF assms(1), of key v] assms length_update_present [OF assms(2)] by (simp add: lru_pre_def lru_inv_def)

text \<open>The truncation drops entries that were used before every entry that stays.\<close>

lemma truncate_keeps_recent:
  assumes "lru_pre c"
  defines "c' \<equiv> truncate_if_needed c"
  shows "lru_inv c'" "set (cacheMap c') \<subseteq> set (cacheMap c)"
    "\<And>e e'. e \<in> set (cacheMap c) - set (cacheMap c') \<Longrightarrow> e' \<in> set (cacheMap c') \<Longrightarrow> snd (snd e) < snd (snd e')"
    "cacheMap c' = cacheMap c \<or> length (cacheMap c') = maxSize c"
    "maxSize c' = maxSize c" "truncateThreshold c' = truncateThreshold c" "accessCounter c' = accessCounter c"
proof -
  let ?f = "\<lambda>e. - snd (snd e)"
  define vec where "vec = sort_key ?f (cacheMap c)"
  define top where "top = take (maxSize c) vec"
  define rest where "rest = drop (maxSize c) vec"
  have pre: "distinct (map fst (cacheMap c))" "distinct (map (snd \<circ> snd) (cacheMap c))" "\<forall>e\<in>set (cacheMap c). snd (snd e) < accessCounter c"
    "0 < maxSize c" "maxSize c \<le> truncateThreshold c" using assms(1) by (simp_all add: lru_pre_def)
  have vec: "vec = top @ rest" "set vec = set (cacheMap c)" "length vec = length (cacheMap c)" "distinct (cacheMap c)"
    using pre(1) by (simp_all add: top_def rest_def vec_def distinct_map)
  have "distinct vec" using vec(4) by (simp add: vec_def)
  then have disj: "set top \<inter> set rest = {}" "distinct top" using vec(1) by auto
  have "sorted (map ?f (top @ rest))" by (simp add: vec(1) [symmetric] vec_def)
  then have le: "?f e' \<le> ?f e" if "e' \<in> set top" "e \<in> set rest" for e e' using that by (auto simp: sorted_append)
  have lt: "snd (snd e) < snd (snd e')" if "e' \<in> set top" "e \<in> set rest" for e e'
  proof -
    have "e \<noteq> e'" using that disj by auto
    then have "snd (snd e) \<noteq> snd (snd e')"
      using distinct_times_inj [OF pre(2), of e e'] that vec(1,2) by fastforce
    then show ?thesis using le [OF that] by simp
  qed
  define m where "m = filter (\<lambda>e. fst e \<notin> fst ` set rest) (cacheMap c)"
  have m: "set m = set top"
  proof -
    have "fst e \<in> fst ` set rest \<longleftrightarrow> e \<in> set rest" if "e \<in> set (cacheMap c)" for e
      using distinct_times_inj [OF pre(1) that] vec(1,2) by fastforce
    then have "set m = set (cacheMap c) - set rest" by (auto simp only: m_def set_filter)
    also have "\<dots> = set top" using vec(1,2) disj(1) by auto
    finally show ?thesis .
  qed
  have c': "c' = (if length (cacheMap c) \<le> truncateThreshold c then c else c\<lparr>cacheMap := m\<rparr>)"
    by (simp add: c'_def truncate_if_needed_def fold_delete m_def rest_def vec_def Let_def)
  have "distinct m" using vec(4) by (simp add: m_def)
  then have "length m = length top" using m disj(2) by (metis distinct_card)
  then have len: "length m = maxSize c" if "\<not> length (cacheMap c) \<le> truncateThreshold c"
    using that pre(5) vec(3) by (simp add: top_def)
  show "set (cacheMap c') \<subseteq> set (cacheMap c)" by (auto simp: c' m_def)
  show "cacheMap c' = cacheMap c \<or> length (cacheMap c') = maxSize c" using len by (simp add: c')
  show "maxSize c' = maxSize c" "truncateThreshold c' = truncateThreshold c" "accessCounter c' = accessCounter c" by (simp_all add: c')
  show "snd (snd e) < snd (snd e')" if "e \<in> set (cacheMap c) - set (cacheMap c')" "e' \<in> set (cacheMap c')" for e e'
  proof -
    have "e \<in> set rest" "e' \<in> set top" using that m vec(1,2) by (auto simp: c' split: if_splits)
    then show ?thesis by (intro lt)
  qed
  have "distinct (map fst m)" "distinct (map (snd \<circ> snd) m)" using pre(1,2) by (simp_all add: m_def distinct_map_filter)
  then show "lru_inv c'" using pre len by (auto simp: c' lru_inv_def m_def)
qed

section \<open>The contract of a cache\<close>

text \<open>A map that may forget: a lookup returns what it holds, and an insertion adds one entry and may drop others.\<close>

locale lossy_map =
  fixes get :: "'k \<Rightarrow> 'c \<Rightarrow> 'v option \<times> 'c" and ins :: "'k \<Rightarrow> 'v \<Rightarrow> 'c \<Rightarrow> 'c" and inv :: "'c \<Rightarrow> bool" and abs :: "'c \<Rightarrow> 'k \<rightharpoonup> 'v"
  assumes get_law: "inv c \<Longrightarrow> fst (get k c) = abs c k \<and> inv (snd (get k c)) \<and> abs (snd (get k c)) = abs c"
    and ins_law: "inv c \<Longrightarrow> inv (ins k v c) \<and> abs (ins k v c) \<subseteq>\<^sub>m (abs c)(k \<mapsto> v)"
begin

text \<open>A cache is sound when it holds only values that are right for their keys.\<close>

definition sound :: "('k \<Rightarrow> 'v \<Rightarrow> bool) \<Rightarrow> 'c \<Rightarrow> bool" where
  "sound P c \<longleftrightarrow> inv c \<and> (\<forall>k v. abs c k = Some v \<longrightarrow> P k v)"

lemma get_sound:
  assumes "sound P c" "get k c = (r, c')"
  shows "sound P c'" "r = Some v \<Longrightarrow> P k v"
  using assms get_law [of c k] by (auto simp: sound_def)

lemma ins_sound:
  assumes "sound P c" "P k v"
  shows "sound P (ins k v c)"
proof -
  have "abs (ins k v c) \<subseteq>\<^sub>m (abs c)(k \<mapsto> v)" "inv (ins k v c)" using ins_law assms(1) by (auto simp: sound_def)
  then have "((abs c)(k \<mapsto> v)) k' = Some v'" if "abs (ins k v c) k' = Some v'" for k' v'
    using that by (metis domI map_le_def)
  then have "P k' v'" if "abs (ins k v c) k' = Some v'" for k' v'
    using that assms by (cases "k' = k") (force simp: sound_def)+
  then show ?thesis using \<open>inv (ins k v c)\<close> by (auto simp: sound_def)
qed

end

lemma lru_insert_contents:
  assumes "lru_inv c"
  shows "lru_inv (lru_insert k v c)" "lru_map (lru_insert k v c) \<subseteq>\<^sub>m (lru_map c)(k \<mapsto> v)" "lru_map (lru_insert k v c) k = Some v"
    "\<And>k1 k2 t1 t2. last_access c k1 = Some t1 \<Longrightarrow> k1 \<noteq> k \<Longrightarrow> lru_map (lru_insert k v c) k1 = None \<Longrightarrow> lru_map (lru_insert k v c) k2 \<noteq> None
       \<Longrightarrow> k2 \<noteq> k \<Longrightarrow> last_access c k2 = Some t2 \<Longrightarrow> t1 < t2"
    "length (cacheMap (lru_insert k v c)) \<le> truncateThreshold c"
proof -
  define u where "u = c\<lparr>cacheMap := AList.update k (v, accessCounter c) (cacheMap c), accessCounter := accessCounter c + 1\<rparr>"
  have pre: "lru_pre u" unfolding u_def by (rule touch_pre [OF assms])
  have ins: "lru_insert k v c = truncate_if_needed u" by (simp add: lru_insert_def u_def)
  note tr = truncate_keeps_recent [OF pre]
  have du: "distinct (map fst (cacheMap u))" using pre by (simp add: lru_pre_def)
  have dt: "distinct (map fst (cacheMap (truncate_if_needed u)))" using tr(1) by (simp add: lru_inv_def)
  have le: "map_of (cacheMap u) a = Some x" if "map_of (cacheMap (truncate_if_needed u)) a = Some x" for a x
    using map_of_SomeD [OF that] tr(2) du by (meson map_of_is_SomeI subsetD)
  have mu: "map_of (cacheMap u) = (map_of (cacheMap c))(k \<mapsto> (v, accessCounter c))" by (simp add: u_def update_conv')
  show "lru_inv (lru_insert k v c)" using tr(1) ins by simp
  show "length (cacheMap (lru_insert k v c)) \<le> truncateThreshold c"
    using tr(1,6) unfolding ins by (simp add: lru_inv_def u_def)
  show "lru_map (lru_insert k v c) \<subseteq>\<^sub>m (lru_map c)(k \<mapsto> v)"
    unfolding map_le_def
  proof
    fix a
    assume "a \<in> dom (lru_map (lru_insert k v c))"
    then obtain x where x: "map_of (cacheMap (truncate_if_needed u)) a = Some x" unfolding ins by (auto simp: lru_map_def dom_def)
    then show "lru_map (lru_insert k v c) a = ((lru_map c)(k \<mapsto> v)) a"
      using le [OF x] unfolding ins by (auto simp: lru_map_def mu split: if_splits)
  qed
  have k: "(k, v, accessCounter c) \<in> set (cacheMap (truncate_if_needed u))"
  proof (rule ccontr)
    let ?t = "truncate_if_needed u"
    assume out: "(k, v, accessCounter c) \<notin> set (cacheMap ?t)"
    moreover have inu: "(k, v, accessCounter c) \<in> set (cacheMap u)" by (rule map_of_SomeD) (simp add: mu)
    ultimately have "cacheMap ?t \<noteq> cacheMap u" by auto
    then have "length (cacheMap ?t) = maxSize u" using tr(4) by blast
    then have "cacheMap ?t \<noteq> []" using pre by (auto simp: lru_pre_def)
    then obtain e' where e': "e' \<in> set (cacheMap ?t)" by (cases "cacheMap ?t") auto
    then have "accessCounter c < snd (snd e')" using tr(3) [of "(k, v, accessCounter c)" e'] inu out by simp
    moreover have "snd (snd e') < accessCounter c + 1" using e' tr(2) pre by (auto simp: lru_pre_def u_def)
    ultimately show False by simp
  qed
  then show "lru_map (lru_insert k v c) k = Some v" unfolding ins lru_map_def by (simp add: map_of_is_SomeI [OF dt])
  show "t1 < t2" if hyp: "last_access c k1 = Some t1" "k1 \<noteq> k" "lru_map (lru_insert k v c) k1 = None" "lru_map (lru_insert k v c) k2 \<noteq> None"
    "k2 \<noteq> k" "last_access c k2 = Some t2" for k1 k2 t1 t2
  proof -
    obtain w1 where w1: "map_of (cacheMap u) k1 = Some (w1, t1)" using hyp(1,2) by (auto simp: last_access_def mu)
    have "map_of (cacheMap (truncate_if_needed u)) k1 = None" using hyp(3) unfolding ins lru_map_def by simp
    then have "(k1, w1, t1) \<notin> set (cacheMap (truncate_if_needed u))" using map_of_is_SomeI [OF dt] by fastforce
    moreover obtain x where x: "map_of (cacheMap (truncate_if_needed u)) k2 = Some x" using hyp(4) unfolding ins lru_map_def by auto
    moreover have "snd x = t2" using le [OF x] hyp(5,6) by (auto simp: last_access_def mu)
    ultimately show ?thesis using tr(3) [of "(k1, w1, t1)" "(k2, x)"] map_of_SomeD [OF w1] map_of_SomeD [OF x] by simp
  qed
qed

lemma lru_insert_times:
  assumes "lru_inv c"
  shows "last_access (lru_insert k v c) \<subseteq>\<^sub>m (last_access c)(k \<mapsto> accessCounter c)" "accessCounter (lru_insert k v c) = accessCounter c + 1"
    "maxSize (lru_insert k v c) = maxSize c" "truncateThreshold (lru_insert k v c) = truncateThreshold c"
    "lru_map (lru_insert k v c) = (lru_map c)(k \<mapsto> v) \<or> length (cacheMap (lru_insert k v c)) = maxSize c"
proof -
  define u where "u = c\<lparr>cacheMap := AList.update k (v, accessCounter c) (cacheMap c), accessCounter := accessCounter c + 1\<rparr>"
  have pre: "lru_pre u" unfolding u_def by (rule touch_pre [OF assms])
  have ins: "lru_insert k v c = truncate_if_needed u" by (simp add: lru_insert_def u_def)
  note tr = truncate_keeps_recent [OF pre]
  have mu: "map_of (cacheMap u) = (map_of (cacheMap c))(k \<mapsto> (v, accessCounter c))" by (simp add: u_def update_conv')
  have "map_of (cacheMap u) a = Some x" if "map_of (cacheMap (truncate_if_needed u)) a = Some x" for a x
    using map_of_SomeD [OF that] tr(2) pre by (meson lru_pre_def map_of_is_SomeI subsetD)
  then show "last_access (lru_insert k v c) \<subseteq>\<^sub>m (last_access c)(k \<mapsto> accessCounter c)"
    unfolding ins map_le_def by (force simp: last_access_def mu dom_def)
  show "accessCounter (lru_insert k v c) = accessCounter c + 1" "maxSize (lru_insert k v c) = maxSize c"
    "truncateThreshold (lru_insert k v c) = truncateThreshold c" using tr(5-7) by (simp_all add: ins u_def)
  show "lru_map (lru_insert k v c) = (lru_map c)(k \<mapsto> v) \<or> length (cacheMap (lru_insert k v c)) = maxSize c"
    using tr(4) unfolding ins by (auto simp: lru_map_def mu fun_eq_iff u_def [THEN arg_cong, of maxSize])
qed

lemma last_access_before: "lru_inv c \<Longrightarrow> last_access c k = Some t \<Longrightarrow> t < accessCounter c"
  by (auto simp: lru_inv_def last_access_def dest!: map_of_SomeD)

lemma lru_get_rest:
  shows "lru_map c k = None \<Longrightarrow> snd (lru_get k c) = c"
    "lru_map c k \<noteq> None \<Longrightarrow> accessCounter (snd (lru_get k c)) = accessCounter c + 1"
    "length (cacheMap (snd (lru_get k c))) = length (cacheMap c)"
  using length_update_present [of "cacheMap c" k] by (auto simp: lru_get_def lru_map_def split: option.splits)

lemma lru_get_contents:
  assumes "lru_inv c"
  shows "fst (lru_get k c) = lru_map c k" "lru_inv (snd (lru_get k c))" "lru_map (snd (lru_get k c)) = lru_map c"
    "lru_map c k \<noteq> None \<Longrightarrow> last_access (snd (lru_get k c)) = (last_access c)(k \<mapsto> accessCounter c)"
proof -
  have "fst (lru_get k c) = lru_map c k \<and> lru_inv (snd (lru_get k c)) \<and> lru_map (snd (lru_get k c)) = lru_map c
    \<and> (lru_map c k \<noteq> None \<longrightarrow> last_access (snd (lru_get k c)) = (last_access c)(k \<mapsto> accessCounter c))"
  proof (cases "map_of (cacheMap c) k")
    case (Some w)
    then show ?thesis using touch_inv [OF assms Some] by (cases w) (auto simp: lru_get_def lru_map_def last_access_def update_conv')
  qed (use assms in \<open>simp add: lru_get_def lru_map_def\<close>)
  then show "fst (lru_get k c) = lru_map c k" "lru_inv (snd (lru_get k c))" "lru_map (snd (lru_get k c)) = lru_map c"
    "lru_map c k \<noteq> None \<Longrightarrow> last_access (snd (lru_get k c)) = (last_access c)(k \<mapsto> accessCounter c)" by auto
qed

interpretation lru: lossy_map lru_get lru_insert lru_inv lru_map
  using lru_get_contents(1-3) lru_insert_contents(1,2) by unfold_locales auto

text \<open>
  C34: \<open>unordered_lru_cache\<close> is a map that forgets only what was not used recently. \<open>get\<close> returns what the
  cache holds for the key; a hit makes the time of the last access of the key the current time, which is later than
  every other one and is then advanced, and a miss changes nothing; values, size and other access times stay. After
  \<open>insert\<close> the key has the new value and the current time, every other entry is an old one with its old time, the
  size is within the threshold, nothing was dropped or exactly the maximal size was kept, and whatever was dropped
  was used before everything that was kept.
\<close>

theorem lru_cache_correct:
  assumes "lru_inv c"
  shows "fst (lru_get k c) = lru_map c k \<and> lru_inv (snd (lru_get k c)) \<and> lru_map (snd (lru_get k c)) = lru_map c
    \<and> (lru_map c k \<noteq> None \<longrightarrow> last_access (snd (lru_get k c)) = (last_access c)(k \<mapsto> accessCounter c)
         \<and> accessCounter (snd (lru_get k c)) = accessCounter c + 1)
    \<and> (lru_map c k = None \<longrightarrow> snd (lru_get k c) = c) \<and> length (cacheMap (snd (lru_get k c))) = length (cacheMap c)
    \<and> (\<forall>k' t. last_access c k' = Some t \<longrightarrow> t < accessCounter c)
    \<and> last_access (lru_insert k v c) \<subseteq>\<^sub>m (last_access c)(k \<mapsto> accessCounter c) \<and> accessCounter (lru_insert k v c) = accessCounter c + 1
    \<and> (lru_map (lru_insert k v c) = (lru_map c)(k \<mapsto> v) \<or> length (cacheMap (lru_insert k v c)) = maxSize c)
    \<and> lru_inv (lru_insert k v c) \<and> lru_map (lru_insert k v c) k = Some v \<and> lru_map (lru_insert k v c) \<subseteq>\<^sub>m (lru_map c)(k \<mapsto> v)
    \<and> length (cacheMap (lru_insert k v c)) \<le> truncateThreshold c
    \<and> (\<forall>k1 k2 t1 t2. last_access c k1 = Some t1 \<and> last_access c k2 = Some t2 \<and> k1 \<noteq> k \<and> k2 \<noteq> k
         \<and> lru_map (lru_insert k v c) k1 = None \<and> lru_map (lru_insert k v c) k2 \<noteq> None \<longrightarrow> t1 < t2)"
  using lru_get_contents [OF assms, of k] lru_get_rest [where c = c and k = k] last_access_before [OF assms] lru_insert_times [OF assms, of k v]
    lru_insert_contents [OF assms, where k = k and v = v]
  by (intro conjI impI allI) blast+

definition sample_lru :: "(nat, nat) lru_cache" where
  "sample_lru = \<lparr>cacheMap = [(1, 10, 5), (2, 20, 3), (3, 30, 4)], maxSize = 2, truncateThreshold = 3, accessCounter = 6\<rparr>"

theorem lru_cache_correct_witness:
  "lru_inv sample_lru \<and> lru_map (lru_insert 4 40 sample_lru) 4 = Some 40 \<and> lru_map (lru_insert 4 40 sample_lru) 2 = None
   \<and> last_access (snd (lru_get 2 sample_lru)) 2 = Some 6 \<and> lru_map (lru_insert 4 40 (snd (lru_get 2 sample_lru))) 2 = Some 20"
proof -
  have inv: "lru_inv sample_lru" and "lru_map (lru_insert 4 40 sample_lru) 2 = None" "lru_map sample_lru 2 = Some 20" "accessCounter sample_lru = 6"
    "lru_map (lru_insert 4 40 (snd (lru_get 2 sample_lru))) 2 = Some 20"
    by code_simp+
  then show ?thesis using lru_cache_correct [OF inv, of 4 40] lru_cache_correct [OF inv, of 2 0] by simp
qed

end
