(* ===== verification/CreditPool.thy ===== *)
theory CreditPool
  imports AssetLock LruCache Subsidy
begin

text \<open>
  The credit pool of \<open>src/evo/creditpool.h\<close> and \<open>src/evo/creditpool.cpp\<close>: the pool after a block, computed
  from its predecessors and cached, and the changes of the next block. The blocks on disk, the activation of
  deployments and the quorums are parameters (\<open>credit_env\<close>). Amounts are far within 64 bits and modelled as
  integers.
\<close>

section \<open>The coinbase payload\<close>

text \<open>\<open>CCbTx\<close> of \<open>src/evo/cbtx.h\<close>: the fields after the first three depend on the version.\<close>

record 'g cbtx =
  cb_nVersion :: u16
  cb_nHeight :: u32
  merkleRootMNList :: uint256
  merkleRootQuorums :: uint256
  bestCLHeightDiff :: u32
  bestCLSignature :: "'g option"
  creditPoolBalance :: CAmount

definition CompactSizeFormatter_Unser :: "(nat \<Rightarrow> 's \<Rightarrow> string + bytes \<times> 's) \<Rightarrow> 's \<Rightarrow> string + u32 \<times> 's" where
  "CompactSizeFormatter_Unser rd s =
     res_bind (ReadCompactSize rd True s) (\<lambda>(n, s1).
       if n > ucast (- 1 :: u32) then Inl ''CompactSize exceeds limit of type'' else Inr (ucast n, s1))"

definition CCbTx_Unser ::
    "('g, 'k) bls_library \<Rightarrow> bool \<Rightarrow> (nat \<Rightarrow> 's \<Rightarrow> string + bytes \<times> 's) \<Rightarrow> 's \<Rightarrow> string + 'g cbtx \<times> 's" where
  "CCbTx_Unser B legacy rd s =
     res_bind (ser_readdata16 rd s) (\<lambda>(ver, s1).
     res_bind (ser_readdata32 rd s1) (\<lambda>(height, s2).
     res_bind (rd 32 s2) (\<lambda>(mnlist, s3).
       let cb = \<lparr>cb_nVersion = ver, cb_nHeight = height, merkleRootMNList = word_of_le mnlist, merkleRootQuorums = 0,
                 bestCLHeightDiff = 0, bestCLSignature = None, creditPoolBalance = 0\<rparr> in
       if ver \<ge> 2 then
         res_bind (rd 32 s3) (\<lambda>(quorums, s4).
           let cb2 = cb\<lparr>merkleRootQuorums := word_of_le quorums\<rparr> in
           if ver \<ge> 3 then
             res_bind (CompactSizeFormatter_Unser rd s4) (\<lambda>(diff, s5).
             res_bind (CBLSWrapper_Unserialize B legacy BLS_CURVE_SIG_SIZE rd s5) (\<lambda>(sig, s6).
             res_bind (ser_readdata64 rd s6) (\<lambda>(balance, s7).
               Inr (cb2\<lparr>bestCLHeightDiff := diff, bestCLSignature := sig, creditPoolBalance := sint balance\<rparr>, s7))))
           else Inr (cb2, s4))
       else Inr (cb, s3))))"

section \<open>The pool\<close>

record credit_pool =
  locked :: CAmount
  currentLimit :: CAmount
  latelyUnlocked :: CAmount
  indexes :: CRangesSet

definition CCreditPool :: credit_pool where
  "CCreditPool = \<lparr>locked = 0, currentLimit = 0, latelyUnlocked = 0, indexes = []\<rparr>"

record ('g, 'k) credit_env =
  quorums :: "('g, 'k) quorum_context"
  block_heap :: heap
  dip0003_active :: "ptr \<Rightarrow> bool"
  dip0008_active :: "ptr \<Rightarrow> bool"
  v20_active :: "ptr \<Rightarrow> bool"
  mn_rr_active_after :: "ptr \<Rightarrow> bool"
  ReadBlockFromDisk :: "ptr \<Rightarrow> mutable_transaction list option"
  CreditPoolPeriodBlocks :: nat
  credit_params :: consensus_params

definition unlock_payload :: "('g, 'k) credit_env \<Rightarrow> 'a mutable_transaction_scheme \<Rightarrow> 'g asset_unlock_payload option" where
  "unlock_payload E tx = get_asset_unlock (bls (quorums E)) (bls_legacy_scheme (quorums E)) tx"

fun add_unlocked :: "CAmount \<Rightarrow> ctxout list \<Rightarrow> CAmount option" where
  "add_unlocked toUnlock [] = Some toUnlock"
| "add_unlocked toUnlock (txout # outs) =
     (if \<not> MoneyRange (nValue txout) then None else add_unlocked (toUnlock + nValue txout) outs)"

text \<open>The amount and the index of an unlock transaction, or the state with the reason it is invalid.\<close>

definition GetDataFromUnlockTx ::
    "('g, 'k) credit_env \<Rightarrow> 'a mutable_transaction_scheme \<Rightarrow> TxValidationState \<Rightarrow> TxValidationState + CAmount \<times> u64" where
  "GetDataFromUnlockTx E tx st =
     (case unlock_payload E tx of
        None \<Rightarrow> Inl (snd (Invalid TX_CONSENSUS ''failed-creditpool-unlock-payload'' [] st))
      | Some p \<Rightarrow>
          case add_unlocked (uint (fee p)) (vout tx) of
            None \<Rightarrow> Inl (snd (Invalid TX_CONSENSUS ''failed-creditpool-unlock-txout-outofrange'' [] st))
          | Some toUnlock \<Rightarrow> Inr (toUnlock, index p))"

text \<open>The unlock transactions of a block: the sum, and the set of indexes (in some order, without duplicates).\<close>

fun GetDataFromUnlockTxes ::
    "('g, 'k) credit_env \<Rightarrow> 'a mutable_transaction_scheme list \<Rightarrow> CAmount \<Rightarrow> u64 list \<Rightarrow> (CAmount \<times> u64 list) res" where
  "GetDataFromUnlockTxes E [] unlocked ixs = Inr (unlocked, ixs)"
| "GetDataFromUnlockTxes E (tx # vtx) unlocked ixs =
     (if \<not> IsSpecialTxVersion tx \<or> nType tx \<noteq> TRANSACTION_ASSET_UNLOCK then GetDataFromUnlockTxes E vtx unlocked ixs
      else
        case GetDataFromUnlockTx E tx TxValidationState_init of
          Inl st \<Rightarrow> Inl (''CCreditPoolManager::GetDataFromUnlockTxes failed: '' @ ValidationState_ToString st)
        | Inr (amount, ix) \<Rightarrow> GetDataFromUnlockTxes E vtx (unlocked + amount) (List.insert ix ixs))"

definition GetBlockForCreditPool :: "('g, 'k) credit_env \<Rightarrow> ptr \<Rightarrow> mutable_transaction list option res" where
  "GetBlockForCreditPool E p =
     (if \<not> dip0003_active E p then Inr None
      else
        case ReadBlockFromDisk E p of
          None \<Rightarrow> Inl ''failed-getcbforblock-read''
        | Some vtx \<Rightarrow>
            if vtx = [] \<or> vExtraPayload (hd vtx) = [] \<or> \<not> IsSpecialTxVersion (hd vtx) then Inr None
            else Inr (Some vtx))"

definition LimitAmountLow :: CAmount where
  "LimitAmountLow = 100 * COIN"

definition LimitAmountHigh :: CAmount where
  "LimitAmountHigh = 1000 * COIN"

definition LimitAmountV22 :: CAmount where
  "LimitAmountV22 = 2000 * COIN"

definition credit_limit :: "bool \<Rightarrow> CAmount \<Rightarrow> CAmount \<Rightarrow> CAmount" where
  "credit_limit withdrawals lockd lately =
     (if withdrawals then min lockd LimitAmountV22
      else
        let limit = (if lockd + lately > LimitAmountLow
                     then let l = max LimitAmountLow (lockd div 10) - lately in if l < 0 then 0 else l
                     else lockd) in
        min limit (LimitAmountHigh - lately))"

fun distant_block :: "heap \<Rightarrow> nat \<Rightarrow> ptr \<Rightarrow> ptr option" where
  "distant_block H 0 p = Some p"
| "distant_block H (Suc n) p = (case pprev (H p) of None \<Rightarrow> None | Some q \<Rightarrow> distant_block H n q)"

text \<open>
  The pool after a block from the pool before it, without the cache. An error is an exception, or a failing assertion
  of \<open>CRangesSet\<close>, which ends the process.
\<close>

definition construct_pool :: "('g, 'k) credit_env \<Rightarrow> ptr \<Rightarrow> credit_pool \<Rightarrow> credit_pool res" where
  "construct_pool E p prev =
     res_bind (GetBlockForCreditPool E p) (\<lambda>block.
       case block of
         None \<Rightarrow>
           if locked prev \<noteq> 0 then Inl ''Failed to create CreditPool but previous block has value''
           else if \<not> ranges_IsEmpty (indexes prev)
           then Inl ''Failed to create CreditPool but asset unlock transactions already mined''
           else Inr CCreditPool
       | Some vtx \<Rightarrow>
           case GetTxPayload_bytes (CCbTx_Unser (bls (quorums E)) (bls_legacy_scheme (quorums E)) ds_read) (vExtraPayload (hd vtx)) of
             None \<Rightarrow> Inl ''failed-getcreditpool-cbtx-payload''
           | Some cb \<Rightarrow>
               res_bind (GetDataFromUnlockTxes E vtx 0 []) (\<lambda>(unlocked, ixs).
               res_bind (any_not_added ranges_Add ixs (indexes prev)) (\<lambda>(dup, ranges).
                 if dup then Inl ''failed-getcreditpool-index-duplicated''
                 else
                   res_bind (case distant_block (block_heap E) (CreditPoolPeriodBlocks E) p of
                               None \<Rightarrow> Inr 0
                             | Some d \<Rightarrow>
                                 res_bind (GetBlockForCreditPool E d) (\<lambda>db.
                                   case db of
                                     None \<Rightarrow> Inr 0
                                   | Some dvtx \<Rightarrow> res_bind (GetDataFromUnlockTxes E dvtx 0 []) (\<lambda>(u, _). Inr u))) (\<lambda>distantUnlocked.
                   let lately = latelyUnlocked prev + unlocked - distantUnlocked;
                       limit = credit_limit (withdrawals_active (quorums E) p) (creditPoolBalance cb) lately in
                   if limit < 0 then Inl ''Negative limit for CreditPool''
                   else Inr \<lparr>locked = creditPoolBalance cb, currentLimit = limit, latelyUnlocked = lately, indexes = ranges\<rparr>))))"

section \<open>The manager\<close>

record cp_manager =
  creditPoolCache :: "(uint256, credit_pool) lru_cache"
  evoDb :: "uint256 \<rightharpoonup> credit_pool"

definition DISK_SNAPSHOT_PERIOD :: nat where
  "DISK_SNAPSHOT_PERIOD = 576"

definition GetFromCache :: "('g, 'k) credit_env \<Rightarrow> ptr \<Rightarrow> cp_manager \<Rightarrow> credit_pool option \<times> cp_manager" where
  "GetFromCache E p m =
     (if \<not> v20_active E p then (Some CCreditPool, m)
      else
        let hashBlk = phashBlock (block_heap E p) in
        case lru_get hashBlk (creditPoolCache m) of
          (Some pool, c) \<Rightarrow> (Some pool, m\<lparr>creditPoolCache := c\<rparr>)
        | (None, c) \<Rightarrow>
            if bi_height (block_heap E p) mod DISK_SNAPSHOT_PERIOD = 0 then
              case evoDb m hashBlk of
                Some pool \<Rightarrow> (Some pool, m\<lparr>creditPoolCache := lru_insert hashBlk pool c\<rparr>)
              | None \<Rightarrow> (None, m\<lparr>creditPoolCache := c\<rparr>)
            else (None, m\<lparr>creditPoolCache := c\<rparr>))"

definition AddToCache :: "uint256 \<Rightarrow> nat \<Rightarrow> credit_pool \<Rightarrow> cp_manager \<Rightarrow> cp_manager" where
  "AddToCache hashBlk height pool m =
     m\<lparr>creditPoolCache := lru_insert hashBlk pool (creditPoolCache m),
       evoDb := (if height mod DISK_SNAPSHOT_PERIOD = 0 then (evoDb m)(hashBlk \<mapsto> pool) else evoDb m)\<rparr>"

definition ConstructCreditPool :: "('g, 'k) credit_env \<Rightarrow> ptr \<Rightarrow> credit_pool \<Rightarrow> cp_manager \<Rightarrow> (credit_pool \<times> cp_manager) res" where
  "ConstructCreditPool E p prev m =
     res_bind (construct_pool E p prev) (\<lambda>pool.
       Inr (pool, AddToCache (phashBlock (block_heap E p)) (bi_height (block_heap E p)) pool m))"

text \<open>
  The first loop of \<open>GetCreditPool\<close>: the stack \<open>to_calculate\<close>, the pool to start from. The first argument bounds
  the iterations; the height of the block is enough.
\<close>

fun collect_blocks ::
    "nat \<Rightarrow> ('g, 'k) credit_env \<Rightarrow> ptr option \<Rightarrow> ptr list \<Rightarrow> cp_manager \<Rightarrow> (ptr list \<times> credit_pool \<times> cp_manager) res" where
  "collect_blocks fuel E None to_calculate m = Inr (to_calculate, CCreditPool, m)"
| "collect_blocks fuel E (Some p) to_calculate m =
     (case GetFromCache E p m of
        (Some pool, m') \<Rightarrow> Inr (to_calculate, pool, m')
      | (None, m') \<Rightarrow>
          (case fuel of
             0 \<Rightarrow> Inl ''out of fuel''
           | Suc k \<Rightarrow> collect_blocks k E (pprev (block_heap E p)) (p # to_calculate) m'))"

text \<open>The second loop; an exception leaves the manager with what was cached before it.\<close>

fun construct_blocks ::
    "('g, 'k) credit_env \<Rightarrow> ptr list \<Rightarrow> credit_pool \<Rightarrow> cp_manager \<Rightarrow> credit_pool res \<times> cp_manager" where
  "construct_blocks E [] pool m = (Inr pool, m)"
| "construct_blocks E (p # to_calculate) pool m =
     (case ConstructCreditPool E p pool m of
        Inl e \<Rightarrow> (Inl e, m)
      | Inr (pool', m') \<Rightarrow> construct_blocks E to_calculate pool' m')"

definition GetCreditPool :: "('g, 'k) credit_env \<Rightarrow> ptr option \<Rightarrow> cp_manager \<Rightarrow> credit_pool res \<times> cp_manager" where
  "GetCreditPool E block_index m =
     (case collect_blocks (case block_index of None \<Rightarrow> 0 | Some p \<Rightarrow> Suc (bi_height (block_heap E p))) E block_index [] m of
        Inl e \<Rightarrow> (Inl e, m)
      | Inr (to_calculate, pool, m') \<Rightarrow> construct_blocks E to_calculate pool m')"

section \<open>The changes of a block\<close>

record credit_pool_diff =
  pool :: credit_pool
  newIndexes :: "u64 set"
  sessionLocked :: CAmount
  sessionUnlocked :: CAmount
  platformReward :: CAmount
  diff_prev :: ptr

definition CCreditPoolDiff :: "('g, 'k) credit_env \<Rightarrow> credit_pool \<Rightarrow> ptr option \<Rightarrow> CAmount \<Rightarrow> credit_pool_diff res" where
  "CCreditPoolDiff E starter pindexPrev blockSubsidy =
     (case pindexPrev of
        None \<Rightarrow> Inl ''assert(pindexPrev)''
      | Some p \<Rightarrow>
          res_bind (if mn_rr_active_after E p
                    then PlatformShare (GetMasternodePayment (credit_params E) (int (bi_height (block_heap E p)) + 1) blockSubsidy True)
                    else Inr 0) (\<lambda>reward.
            Inr \<lparr>pool = starter, newIndexes = {}, sessionLocked = 0, sessionUnlocked = 0, platformReward = reward, diff_prev = p\<rparr>))"


fun first_return :: "ctxout list \<Rightarrow> CAmount option" where
  "first_return [] = None"
| "first_return (txout # outs) =
     (if scriptPubKey txout = [] \<or> hd (scriptPubKey txout) \<noteq> OP_RETURN then first_return outs else Some (nValue txout))"

definition Lock :: "'a mutable_transaction_scheme \<Rightarrow> credit_pool_diff \<Rightarrow> TxValidationState \<Rightarrow> bool \<times> credit_pool_diff \<times> TxValidationState" where
  "Lock tx d st =
     (case get_asset_lock tx of
        None \<Rightarrow> (False, d, snd (Invalid TX_CONSENSUS ''failed-creditpool-lock-payload'' [] st))
      | Some p \<Rightarrow>
          case first_return (vout tx) of
            Some v \<Rightarrow> (True, d\<lparr>sessionLocked := sessionLocked d + v\<rparr>, st)
          | None \<Rightarrow> (False, d, snd (Invalid TX_CONSENSUS ''failed-creditpool-lock-invalid'' [] st)))"

definition Unlock ::
    "('g, 'k) credit_env \<Rightarrow> 'a mutable_transaction_scheme \<Rightarrow> credit_pool_diff \<Rightarrow> TxValidationState \<Rightarrow> bool \<times> credit_pool_diff \<times> TxValidationState" where
  "Unlock E tx d st =
     (case GetDataFromUnlockTx E tx st of
        Inl st' \<Rightarrow> (False, d, st')
      | Inr (toUnlock, ix) \<Rightarrow>
          if sessionUnlocked d + toUnlock > currentLimit (pool d)
          then (False, d, snd (Invalid TX_CONSENSUS ''failed-creditpool-unlock-too-much'' [] st))
          else if ranges_Contains ix (indexes (pool d)) \<or> ix \<in> newIndexes d
          then (False, d, snd (Invalid TX_CONSENSUS ''failed-creditpool-unlock-duplicated-index'' [] st))
          else (True, d\<lparr>newIndexes := insert ix (newIndexes d), sessionUnlocked := sessionUnlocked d + toUnlock\<rparr>, st))"

definition ProcessLockUnlockTransaction ::
    "('g, 'k) credit_env \<Rightarrow> 'a mutable_transaction_scheme \<Rightarrow> credit_pool_diff \<Rightarrow> TxValidationState \<Rightarrow> bool \<times> credit_pool_diff \<times> TxValidationState" where
  "ProcessLockUnlockTransaction E tx d st =
     (if \<not> IsSpecialTxVersion tx then (True, d, st)
      else if nType tx \<noteq> TRANSACTION_ASSET_LOCK \<and> nType tx \<noteq> TRANSACTION_ASSET_UNLOCK then (True, d, st)
      else
        case CheckAssetLockUnlockTx (quorums E) (block_heap E) tx (diff_prev d) (Some (indexes (pool d))) st of
          (False, st') \<Rightarrow> (False, d, st')
        | (True, st') \<Rightarrow>
            if nType tx = TRANSACTION_ASSET_LOCK then Lock tx d st'
            else if nType tx = TRANSACTION_ASSET_UNLOCK then Unlock E tx d st'
            else (True, d, st'))"

text \<open>The hexadecimal form of a hash in log and error messages (\<open>src/util/strencodings.cpp\<close>, \<open>src/uint256.cpp\<close>).\<close>

definition HexStr :: "bytes \<Rightarrow> string" where
  "HexStr bs = concat (map (\<lambda>b. [''0123456789abcdef'' ! unat (drop_bit 4 b), ''0123456789abcdef'' ! unat (b AND 15)]) bs)"

definition uint256_GetHex :: "uint256 \<Rightarrow> string" where
  "uint256_GetHex h = HexStr (rev (word_to_le 32 h))"

type_synonym BlockValidationState = "BlockValidationResult validation_state"

text \<open>The transactions of the block after the coinbase; \<open>None\<close> stands for \<open>std::nullopt\<close>.\<close>

fun process_transactions ::
    "('g, 'k) credit_env \<Rightarrow> 'a mutable_transaction_scheme list \<Rightarrow> credit_pool_diff \<Rightarrow> BlockValidationState
      \<Rightarrow> (credit_pool_diff option \<times> BlockValidationState) res" where
  "process_transactions E [] d state = Inr (Some d, state)"
| "process_transactions E (tx # vtx) d state =
     (case ProcessLockUnlockTransaction E tx d TxValidationState_init of
        (True, d', _) \<Rightarrow> process_transactions E vtx d' state
      | (False, d', tx_state) \<Rightarrow>
          if m_result tx_state \<noteq> TX_CONSENSUS then Inl ''assert(tx_state.GetResult() == TxValidationResult::TX_CONSENSUS)''
          else Inr (None, snd (Invalid BLOCK_CONSENSUS (m_reject_reason tx_state)
                 (''Process Lock/Unlock Transaction failed at Credit Pool (tx hash '' @
                    uint256_GetHex (word_of_le (Hash256 (CTransaction_Serialize tx))) @ '') '' @ m_debug_message tx_state) state)))"

text \<open>
  A failing assertion ends the process, and running out of fuel is no result of the code at all: neither is an
  exception that a \<open>catch\<close> block could handle.
\<close>

definition aborts :: "string \<Rightarrow> bool" where
  "aborts e \<longleftrightarrow> take 7 e = ''assert('' \<or> e = ''out of fuel''"

definition GetCreditPoolDiffForBlock ::
    "('g, 'k) credit_env \<Rightarrow> mutable_transaction list \<Rightarrow> ptr option \<Rightarrow> CAmount \<Rightarrow> BlockValidationState \<Rightarrow> cp_manager
      \<Rightarrow> (credit_pool_diff option \<times> BlockValidationState) res \<times> cp_manager" where
  "GetCreditPoolDiffForBlock E vtx pindexPrev blockSubsidy state m =
     (case GetCreditPool E pindexPrev m of
        (Inl e, m') \<Rightarrow>
          (if aborts e then Inl e else Inr (None, snd (Invalid BLOCK_CONSENSUS ''failed-getcreditpooldiff'' [] state)), m')
      | (Inr creditPool, m') \<Rightarrow>
          (res_bind (CCreditPoolDiff E creditPool pindexPrev blockSubsidy) (\<lambda>d. process_transactions E (tl vtx) d state), m'))"



section \<open>Solvency\<close>


lemma add_unlocked_sum:
  "add_unlocked a outs = Some v \<longleftrightarrow> (\<forall>out\<in>set outs. MoneyRange (nValue out)) \<and> v = a + sum_list (map nValue outs)"
  by (induction outs arbitrary: a) (auto simp: add.assoc)

text \<open>What a transaction puts into the pool and takes out of it.\<close>

definition is_lock :: "'a mutable_transaction_scheme \<Rightarrow> bool" where
  "is_lock tx \<longleftrightarrow> IsSpecialTxVersion tx \<and> nType tx = TRANSACTION_ASSET_LOCK"

definition is_unlock :: "'a mutable_transaction_scheme \<Rightarrow> bool" where
  "is_unlock tx \<longleftrightarrow> IsSpecialTxVersion tx \<and> nType tx = TRANSACTION_ASSET_UNLOCK"


definition unlock_amount :: "('g, 'k) credit_env \<Rightarrow> 'a mutable_transaction_scheme \<Rightarrow> CAmount" where
  "unlock_amount E tx = (case unlock_payload E tx of None \<Rightarrow> 0 | Some p \<Rightarrow> uint (fee p)) + sum_list (map nValue (vout tx))"

definition unlock_index :: "('g, 'k) credit_env \<Rightarrow> 'a mutable_transaction_scheme \<Rightarrow> u64" where
  "unlock_index E tx = (case unlock_payload E tx of None \<Rightarrow> 0 | Some p \<Rightarrow> index p)"


lemma lock_unlock_types [simp]: "TRANSACTION_ASSET_UNLOCK \<noteq> TRANSACTION_ASSET_LOCK" "TRANSACTION_ASSET_LOCK \<noteq> TRANSACTION_ASSET_UNLOCK"
  by (simp_all add: transaction_type_defs)



section \<open>Caching is transparent\<close>

text \<open>The pool after a block, by recursion over its predecessors.\<close>

inductive pool_at :: "('g, 'k) credit_env \<Rightarrow> ptr \<Rightarrow> credit_pool \<Rightarrow> bool" for E where
  before_v20: "\<not> v20_active E p \<Longrightarrow> pool_at E p CCreditPool"
| first_block: "v20_active E p \<Longrightarrow> pprev (block_heap E p) = None \<Longrightarrow> construct_pool E p CCreditPool = Inr pl \<Longrightarrow> pool_at E p pl"
| next_block: "v20_active E p \<Longrightarrow> pprev (block_heap E p) = Some q \<Longrightarrow> pool_at E q prev \<Longrightarrow> construct_pool E p prev = Inr pl \<Longrightarrow> pool_at E p pl"

inductive_cases pool_atE: "pool_at E p pl"

lemma pool_at_deterministic: "pool_at E p pl \<Longrightarrow> pool_at E p pl' \<Longrightarrow> pl = pl'"
proof (induction arbitrary: pl' rule: pool_at.induct)
  case (before_v20 p)
  from before_v20.prems show ?case by (rule pool_atE) (use before_v20.hyps in auto)
next
  case (first_block p pl)
  from first_block.prems show ?case by (rule pool_atE) (use first_block.hyps in auto)
next
  case (next_block p q prev pl)
  from next_block.prems show ?case
  proof (rule pool_atE)
    fix q' prev' assume "pprev (block_heap E p) = Some q'" "pool_at E q' prev'" "construct_pool E p prev' = Inr pl'"
    moreover from this have "prev = prev'" using next_block.hyps(2) next_block.IH by simp
    ultimately show ?thesis using next_block.hyps(4) by simp
  qed (use next_block.hyps in auto)
qed

definition pool_before :: "('g, 'k) credit_env \<Rightarrow> ptr option \<Rightarrow> credit_pool \<Rightarrow> bool" where
  "pool_before E b pl = (case b of None \<Rightarrow> pl = CCreditPool | Some p \<Rightarrow> pool_at E p pl)"

lemma pool_at_step:
  "v20_active E p \<Longrightarrow> pool_at E p pl \<longleftrightarrow> (\<exists>prev. pool_before E (pprev (block_heap E p)) prev \<and> construct_pool E p prev = Inr pl)"
proof (intro iffI)
  assume v: "v20_active E p" and "pool_at E p pl"
  from this(2) show "\<exists>prev. pool_before E (pprev (block_heap E p)) prev \<and> construct_pool E p prev = Inr pl"
    by (rule pool_atE) (use v in \<open>auto simp: pool_before_def\<close>)
next
  assume "v20_active E p" "\<exists>prev. pool_before E (pprev (block_heap E p)) prev \<and> construct_pool E p prev = Inr pl"
  then show "pool_at E p pl"
    by (cases "pprev (block_heap E p)") (auto simp: pool_before_def intro: first_block next_block)
qed

text \<open>
  Why a block has no pool: the construction at the block, or at an earlier one whose predecessors have their pools,
  fails with the error.
\<close>

inductive pool_error :: "('g, 'k) credit_env \<Rightarrow> ptr option \<Rightarrow> string \<Rightarrow> bool" for E where
  at: "v20_active E p \<Longrightarrow> pool_before E (pprev (block_heap E p)) prev \<Longrightarrow> construct_pool E p prev = Inl e \<Longrightarrow> pool_error E (Some p) e"
| earlier: "v20_active E p \<Longrightarrow> pool_error E (pprev (block_heap E p)) e \<Longrightarrow> pool_error E (Some p) e"

text \<open>
  \<open>B\<close> is the set of blocks of the index: closed under \<open>pprev\<close>, no two with the same hash. The cache and the database
  of a right manager hold only pools that are right for their block.
\<close>

definition block_tree :: "heap \<Rightarrow> ptr set \<Rightarrow> bool" where
  "block_tree H B \<longleftrightarrow> linked H \<and> (\<forall>p\<in>B. \<forall>q. pprev (H p) = Some q \<longrightarrow> q \<in> B) \<and> inj_on (\<lambda>p. phashBlock (H p)) B"

definition right_pool :: "('g, 'k) credit_env \<Rightarrow> ptr set \<Rightarrow> uint256 \<Rightarrow> credit_pool \<Rightarrow> bool" where
  "right_pool E B h pl \<longleftrightarrow> (\<forall>p\<in>B. phashBlock (block_heap E p) = h \<longrightarrow> pool_at E p pl)"

definition manager_ok :: "('g, 'k) credit_env \<Rightarrow> ptr set \<Rightarrow> cp_manager \<Rightarrow> bool" where
  "manager_ok E B m \<longleftrightarrow> lru.sound (right_pool E B) (creditPoolCache m) \<and> (\<forall>h pl. evoDb m h = Some pl \<longrightarrow> right_pool E B h pl)"

lemma right_poolI: "block_tree (block_heap E) B \<Longrightarrow> p \<in> B \<Longrightarrow> pool_at E p pl \<Longrightarrow> right_pool E B (phashBlock (block_heap E p)) pl"
  by (auto simp: right_pool_def block_tree_def dest: inj_onD)

lemma GetFromCache_ok:
  assumes "manager_ok E B m" "p \<in> B" "GetFromCache E p m = (r, m')"
  shows "manager_ok E B m'" "r = Some pl \<Longrightarrow> pool_at E p pl" "r = None \<Longrightarrow> v20_active E p"
proof -
  have "manager_ok E B m' \<and> (\<forall>pl. r = Some pl \<longrightarrow> pool_at E p pl) \<and> (r = None \<longrightarrow> v20_active E p)"
  proof (cases "v20_active E p")
    case True
    let ?h = "phashBlock (block_heap E p)"
    obtain r1 c where g: "lru_get ?h (creditPoolCache m) = (r1, c)" by fastforce
    have s: "lru.sound (right_pool E B) (creditPoolCache m)" using assms(1) by (simp add: manager_ok_def)
    note c = lru.get_sound [OF s g]
    have db: "right_pool E B ?h pl" if "evoDb m ?h = Some pl" for pl using assms(1) that by (simp add: manager_ok_def)
    show ?thesis
    proof (cases r1)
      case (Some pl)
      then have "r = Some pl \<and> m' = m\<lparr>creditPoolCache := c\<rparr>" using assms(3) g True by (simp add: GetFromCache_def)
      then show ?thesis using assms(1,2) c Some by (simp add: manager_ok_def right_pool_def)
    next
      case None
      then have "(r = None \<and> m' = m\<lparr>creditPoolCache := c\<rparr>) \<or>
          (\<exists>pl. evoDb m ?h = Some pl \<and> r = Some pl \<and> m' = m\<lparr>creditPoolCache := lru_insert ?h pl c\<rparr>)"
        using assms(3) g True
        by (cases "evoDb m ?h"; cases "bi_height (block_heap E p) mod DISK_SNAPSHOT_PERIOD = 0")
           (simp_all add: GetFromCache_def, force)
      then show ?thesis
      proof (elim disjE exE conjE)
        fix pl assume pl: "evoDb m ?h = Some pl" and r: "r = Some pl" and m': "m' = m\<lparr>creditPoolCache := lru_insert ?h pl c\<rparr>"
        have "lru.sound (right_pool E B) (lru_insert ?h pl c)" by (rule lru.ins_sound [OF c(1) db [OF pl]])
        then show ?thesis using assms(1,2) db [OF pl] r m' by (simp add: manager_ok_def right_pool_def)
      qed (use assms(1) c True in \<open>simp add: manager_ok_def\<close>)
    qed
  next
    case False
    then show ?thesis using assms before_v20 by (auto simp: GetFromCache_def)
  qed
  then show "manager_ok E B m'" "r = Some pl \<Longrightarrow> pool_at E p pl" "r = None \<Longrightarrow> v20_active E p" by auto
qed

lemma AddToCache_ok:
  "manager_ok E B m \<Longrightarrow> right_pool E B h pl \<Longrightarrow> manager_ok E B (AddToCache h n pl m)"
  by (auto simp: manager_ok_def AddToCache_def lru.ins_sound)

lemma collect_blocks_ok:
  assumes "block_tree (block_heap E) B"
    and "manager_ok E B m" "case b of None \<Rightarrow> True | Some p \<Rightarrow> p \<in> B \<and> bi_height (block_heap E p) < k"
  shows "\<exists>todo' pl' m'. collect_blocks k E b todo m = Inr (todo', pl', m') \<and>
    ((\<exists>pl m1. pool_before E b pl \<and> manager_ok E B m1 \<and> construct_blocks E todo' pl' m' = construct_blocks E todo pl m1)
     \<or> ((\<nexists>pl. pool_before E b pl) \<and> (\<exists>e m1. construct_blocks E todo' pl' m' = (Inl e, m1) \<and> manager_ok E B m1 \<and> pool_error E b e)))"
  using assms(2,3)
proof (induction k arbitrary: b todo m)
  case 0
  then show ?case by (cases b) (auto simp: pool_before_def)
next
  case (Suc k)
  show ?case
  proof (cases b)
    case None
    then show ?thesis using Suc.prems(1) by (auto simp: pool_before_def)
  next
    case (Some p)
    let ?q = "pprev (block_heap E p)"
    obtain r m1 where g: "GetFromCache E p m = (r, m1)" by fastforce
    have p: "p \<in> B" "bi_height (block_heap E p) < Suc k" using Suc.prems(2) Some by simp_all
    note ok = GetFromCache_ok [OF Suc.prems(1) p(1) g]
    show ?thesis
    proof (cases r)
      case (Some pl)
      then show ?thesis using g ok(1) ok(2) [OF Some] \<open>b = Some p\<close> by (auto simp: pool_before_def)
    next
      case None
      have v20: "v20_active E p" by (rule ok(3) [OF None])
      have "case ?q of None \<Rightarrow> True | Some q \<Rightarrow> q \<in> B \<and> bi_height (block_heap E q) < k"
        using p assms(1) linkedD(1) [of "block_heap E" p] by (auto simp: block_tree_def split: option.splits)
      from Suc.IH [OF ok(1) this, of "p # todo"] obtain todo' pl' m' where
        c: "collect_blocks k E ?q (p # todo) m1 = Inr (todo', pl', m')"
        and d: "(\<exists>pl m1. pool_before E ?q pl \<and> manager_ok E B m1 \<and> construct_blocks E todo' pl' m' = construct_blocks E (p # todo) pl m1)
           \<or> ((\<nexists>pl. pool_before E ?q pl) \<and> (\<exists>e m1. construct_blocks E todo' pl' m' = (Inl e, m1) \<and> manager_ok E B m1 \<and> pool_error E ?q e))" by blast
      have col: "collect_blocks (Suc k) E b todo m = Inr (todo', pl', m')" using c g None \<open>b = Some p\<close> by simp
      show ?thesis
      proof (cases "\<exists>prev. pool_before E ?q prev")
        case True
        then obtain prev m2 where prev: "pool_before E ?q prev" "manager_ok E B m2"
          "construct_blocks E todo' pl' m' = construct_blocks E (p # todo) prev m2" using d by blast
        have uniq: "prev' = prev" if "pool_before E ?q prev'" for prev'
          using that prev(1) pool_at_deterministic by (auto simp: pool_before_def split: option.splits)
        show ?thesis
        proof (cases "construct_pool E p prev")
          case (Inl e)
          then have "\<nexists>pl. pool_before E b pl"
            using uniq \<open>b = Some p\<close> unfolding pool_before_def [of E b] by (simp add: pool_at_step [OF v20]) (metis Inl_Inr_False)
          moreover have "construct_blocks E todo' pl' m' = (Inl e, m2)" using prev(3) Inl by (simp add: ConstructCreditPool_def)
          moreover have "pool_error E b e" using pool_error.at [OF v20 prev(1) Inl] \<open>b = Some p\<close> by simp
          ultimately show ?thesis using col prev(2) by blast
        next
          case (Inr pl)
          have at: "pool_at E p pl" using pool_at_step [OF v20] prev(1) Inr by blast
          let ?m = "AddToCache (phashBlock (block_heap E p)) (bi_height (block_heap E p)) pl m2"
          have "manager_ok E B ?m" by (rule AddToCache_ok [OF prev(2) right_poolI [OF assms(1) p(1) at]])
          moreover have "construct_blocks E todo' pl' m' = construct_blocks E todo pl ?m"
            using prev(3) Inr by (simp add: ConstructCreditPool_def)
          moreover have "pool_before E b pl" using at \<open>b = Some p\<close> by (simp add: pool_before_def)
          ultimately show ?thesis using col by blast
        qed
      next
        case False
        then have "\<nexists>pl. pool_before E b pl" using \<open>b = Some p\<close> unfolding pool_before_def [of E b] by (simp add: pool_at_step [OF v20])
        moreover have "pool_error E b e" if "pool_error E ?q e" for e using pool_error.earlier [OF v20 that] \<open>b = Some p\<close> by simp
        ultimately show ?thesis using col d False by blast
      qed
    qed
  qed
qed

lemma GetCreditPool_pool_at_iff:
  assumes "block_tree (block_heap E) B" "manager_ok E B m" "p \<in> B"
  shows "(\<forall>pl. fst (GetCreditPool E (Some p) m) = Inr pl \<longleftrightarrow> pool_at E p pl)
    \<and> (\<forall>e. fst (GetCreditPool E (Some p) m) = Inl e \<longrightarrow> pool_error E (Some p) e) \<and> manager_ok E B (snd (GetCreditPool E (Some p) m))"
proof -
  note h = collect_blocks_ok [OF assms(1,2), where b = "Some p" and k = "Suc (bi_height (block_heap E p))" and todo = "[]",
    unfolded pool_before_def option.case construct_blocks.simps(1), OF conjI [OF assms(3) lessI]]
  obtain todo' pl' m' where c: "collect_blocks (Suc (bi_height (block_heap E p))) E (Some p) [] m = Inr (todo', pl', m')"
    and d: "(\<exists>pl m1. pool_at E p pl \<and> manager_ok E B m1 \<and> construct_blocks E todo' pl' m' = (Inr pl, m1))
     \<or> ((\<nexists>pl. pool_at E p pl) \<and> (\<exists>e m1. construct_blocks E todo' pl' m' = (Inl e, m1) \<and> manager_ok E B m1 \<and> pool_error E (Some p) e))"
    using h by (elim exE conjE) (rule that)
  have g: "GetCreditPool E (Some p) m = construct_blocks E todo' pl' m'" unfolding GetCreditPool_def option.case c sum.case prod.case ..
  from d show ?thesis
  proof (elim disjE exE conjE)
    fix pl m1 assume "pool_at E p pl" "manager_ok E B m1" "construct_blocks E todo' pl' m' = (Inr pl, m1)"
    moreover from this have "pool_at E p x \<longleftrightarrow> x = pl" for x using pool_at_deterministic by blast
    ultimately show ?thesis unfolding g by auto
  next
    fix e m1 assume "\<nexists>pl. pool_at E p pl" "construct_blocks E todo' pl' m' = (Inl e, m1)" "manager_ok E B m1" "pool_error E (Some p) e"
    then show ?thesis unfolding g by simp
  qed
qed


section \<open>The assertion of GetCreditPoolDiffForBlock\<close>

text \<open>
  \<open>GetCreditPoolDiffForBlock\<close> asserts that a rejection has the result \<open>TX_CONSENSUS\<close>, although the checks of locks
  and unlocks also reject with \<open>TX_BAD_SPECIAL\<close>. The assertion holds because \<open>CheckSpecialTx\<close> has accepted every
  transaction of the block before, in a possibly different context.
\<close>

lemma VerifySig_result: "VerifySig Q H p msg tip st = (False, st') \<Longrightarrow> m_result st' = TX_CONSENSUS"
  by (auto simp: VerifySig_def Invalid_def Let_def split: if_splits option.splits)

lemma CheckAssetUnlockTx_recheck:
  assumes "fst (CheckAssetUnlockTx Q H tx p ixs st)" "CheckAssetUnlockTx Q H tx p' ixs' st1 = (False, st')"
  shows "m_result st' = TX_CONSENSUS"
proof -
  obtain pl where pl: "nType tx = TRANSACTION_ASSET_UNLOCK" "vin tx = []" "\<not> length (vout tx) > MAXIMUM_WITHDRAWALS"
    "get_asset_unlock (bls Q) (bls_legacy_scheme Q) tx = Some pl"
    "\<not> (unlock_nVersion pl = 0 \<or> unlock_nVersion pl > CAssetUnlockPayload_CURRENT_VERSION)"
    using assms(1) by (auto simp: CheckAssetUnlockTx_def Invalid_def split: if_splits option.splits)
  then show ?thesis
    using assms(2) by (auto simp: CheckAssetUnlockTx_def Invalid_def Let_def split: if_splits option.splits dest: VerifySig_result)
qed

lemma ProcessLockUnlockTransaction_result:
  assumes "is_lock tx \<or> is_unlock tx \<Longrightarrow> \<exists>p ixs st. fst (CheckAssetLockUnlockTx (quorums E) (block_heap E) tx p ixs st)"
    and "ProcessLockUnlockTransaction E tx d st0 = (False, d', st')"
  shows "m_result st' = TX_CONSENSUS"
proof -
  have kind: "is_lock tx \<or> is_unlock tx" "IsSpecialTxVersion tx" using assms(2)
    by (auto simp: ProcessLockUnlockTransaction_def is_lock_def is_unlock_def split: if_splits)
  then obtain p ixs st where ok: "fst (CheckAssetLockUnlockTx (quorums E) (block_heap E) tx p ixs st)" using assms(1) by blast
  show ?thesis
  proof (cases "is_lock tx")
    case True
    then have t: "nType tx = TRANSACTION_ASSET_LOCK" by (simp add: is_lock_def)
    then have "fst (CheckAssetLockTx tx st0)" using ok by (simp add: CheckAssetLockUnlockTx_def CheckAssetLockTx_accepts)
    then show ?thesis using assms(2) kind(2) t
      by (auto simp: ProcessLockUnlockTransaction_def CheckAssetLockUnlockTx_def Lock_def Invalid_def split: prod.splits bool.splits option.splits)
  next
    case False
    then have t: "nType tx = TRANSACTION_ASSET_UNLOCK" using kind(1) by (simp add: is_unlock_def)
    then have "fst (CheckAssetUnlockTx (quorums E) (block_heap E) tx p ixs st)" using ok by (simp add: CheckAssetLockUnlockTx_def)
    note re = CheckAssetUnlockTx_recheck [OF this]
    show ?thesis using assms(2) kind(2) t
      by (auto simp: ProcessLockUnlockTransaction_def CheckAssetLockUnlockTx_def Unlock_def GetDataFromUnlockTx_def Invalid_def
        split: prod.splits bool.splits option.splits sum.splits if_splits dest: re)
  qed
qed

lemma process_transactions_no_assert:
  assumes "\<forall>tx\<in>set vtx. is_lock tx \<or> is_unlock tx \<longrightarrow> (\<exists>p ixs st. fst (CheckAssetLockUnlockTx (quorums E) (block_heap E) tx p ixs st))"
  shows "\<exists>r. process_transactions E vtx d state = Inr r"
  using assms
proof (induction vtx arbitrary: d)
  case (Cons tx vtx)
  obtain ok d' st where step: "ProcessLockUnlockTransaction E tx d TxValidationState_init = (ok, d', st)" by (metis prod_cases3)
  have "m_result st = TX_CONSENSUS" if "\<not> ok"
    using ProcessLockUnlockTransaction_result [of tx E d TxValidationState_init d' st] step that Cons.prems by simp
  then show ?case using step Cons.IH [of d'] Cons.prems by (cases ok) auto
qed simp

section \<open>The window of unlocks and the used indexes\<close>

text \<open>What a block on disk unlocks, the sum over a window of blocks, and the indexes used up to a block.\<close>

definition block_unlocks :: "('g, 'k) credit_env \<Rightarrow> ptr \<Rightarrow> CAmount \<times> u64 list" where
  "block_unlocks E p =
     (case GetBlockForCreditPool E p of
        Inr (Some vtx) \<Rightarrow> (case GetDataFromUnlockTxes E vtx 0 [] of Inl _ \<Rightarrow> (0, []) | Inr r \<Rightarrow> r)
      | _ \<Rightarrow> (0, []))"

fun window :: "('g, 'k) credit_env \<Rightarrow> nat \<Rightarrow> ptr \<Rightarrow> CAmount" where
  "window E 0 p = 0"
| "window E (Suc n) p = fst (block_unlocks E p) + (case pprev (block_heap E p) of None \<Rightarrow> 0 | Some q \<Rightarrow> window E n q)"

inductive used_index :: "('g, 'k) credit_env \<Rightarrow> ptr \<Rightarrow> u64 \<Rightarrow> bool" for E where
  here: "ix \<in> set (snd (block_unlocks E p)) \<Longrightarrow> used_index E p ix"
| before: "pprev (block_heap E p) = Some q \<Longrightarrow> used_index E q ix \<Longrightarrow> used_index E p ix"

text \<open>
  What the rest of block validation guarantees: V20 stays active, blocks before it have no unlocks, blocks after it
  have a coinbase payload.
\<close>

definition credit_chain :: "('g, 'k) credit_env \<Rightarrow> bool" where
  "credit_chain E \<longleftrightarrow>
     (\<forall>p. \<not> v20_active E p \<longrightarrow> block_unlocks E p = (0, []) \<and> (\<forall>q. pprev (block_heap E p) = Some q \<longrightarrow> \<not> v20_active E q))
   \<and> (\<forall>p. v20_active E p \<longrightarrow> GetBlockForCreditPool E p \<noteq> Inr None)"

inductive_simps used_index_step: "used_index E p ix"


lemma GetDataFromUnlockTxes_result:
  assumes "GetDataFromUnlockTxes E vtx u ixs = Inr (u', ixs')" "distinct ixs"
  shows "u' = u + sum_list (map (unlock_amount E) (filter is_unlock vtx))" "u \<le> u'"
    "set ixs' = set ixs \<union> unlock_index E ` set (filter is_unlock vtx)" "distinct ixs'"
proof -
  have "u' = u + sum_list (map (unlock_amount E) (filter is_unlock vtx)) \<and> u \<le> u'
    \<and> set ixs' = set ixs \<union> unlock_index E ` set (filter is_unlock vtx) \<and> distinct ixs'"
    using assms
  proof (induction vtx arbitrary: u ixs)
    case (Cons tx vtx)
    show ?case
    proof (cases "is_unlock tx")
      case True
      then obtain p where p: "unlock_payload E tx = Some p" "\<forall>out\<in>set (vout tx). MoneyRange (nValue out)"
        and rest: "GetDataFromUnlockTxes E vtx (u + (uint (fee p) + sum_list (map nValue (vout tx)))) (List.insert (index p) ixs) = Inr (u', ixs')"
        using Cons.prems(1)
        by (auto simp: is_unlock_def GetDataFromUnlockTx_def add_unlocked_sum split: option.splits sum.splits if_splits)
      have "0 \<le> sum_list (map nValue (vout tx))" using p(2) by (intro sum_list_nonneg) (auto simp: MoneyRange_def)
      moreover have "unlock_amount E tx = uint (fee p) + sum_list (map nValue (vout tx))" "unlock_index E tx = index p"
        using p(1) by (simp_all add: unlock_amount_def unlock_index_def)
      ultimately show ?thesis using Cons.IH [OF rest] Cons.prems(2) True by auto
    next
      case False
      then have "\<not> IsSpecialTxVersion tx \<or> nType tx \<noteq> TRANSACTION_ASSET_UNLOCK" by (simp add: is_unlock_def)
      then show ?thesis using Cons False by simp
    qed
  qed simp
  then show "u' = u + sum_list (map (unlock_amount E) (filter is_unlock vtx))" "u \<le> u'"
    "set ixs' = set ixs \<union> unlock_index E ` set (filter is_unlock vtx)" "distinct ixs'" by auto
qed

lemma block_unlocks_props: "0 \<le> fst (block_unlocks E p)" "distinct (snd (block_unlocks E p))"
  using GetDataFromUnlockTxes_result [where u = 0 and ixs = "[]"]
  by (auto simp: block_unlocks_def split: sum.splits option.splits)


lemma construct_pool_result:
  assumes "construct_pool E p prev = Inr pl" "GetBlockForCreditPool E p \<noteq> Inr None"
  shows "latelyUnlocked pl = latelyUnlocked prev + fst (block_unlocks E p)
      - (case distant_block (block_heap E) (CreditPoolPeriodBlocks E) p of None \<Rightarrow> 0 | Some d \<Rightarrow> fst (block_unlocks E d))"
    and "currentLimit pl = credit_limit (withdrawals_active (quorums E) p) (locked pl) (latelyUnlocked pl)" "0 \<le> currentLimit pl"
    and "any_not_added ranges_Add (snd (block_unlocks E p)) (indexes prev) = Inr (False, indexes pl)"
proof -
  obtain vtx where blk: "GetBlockForCreditPool E p = Inr (Some vtx)"
    using assms(1,2) by (cases "GetBlockForCreditPool E p") (auto simp: construct_pool_def)
  obtain cb where cb: "GetTxPayload_bytes (CCbTx_Unser (bls (quorums E)) (bls_legacy_scheme (quorums E)) ds_read) (vExtraPayload (hd vtx)) = Some cb"
    using assms(1) blk by (auto simp: construct_pool_def split: option.splits)
  obtain u ixs where dat: "GetDataFromUnlockTxes E vtx 0 [] = Inr (u, ixs)"
    using assms(1) blk cb by (cases "GetDataFromUnlockTxes E vtx 0 []") (auto simp: construct_pool_def)
  have bu: "block_unlocks E p = (u, ixs)" by (simp add: block_unlocks_def blk dat)
  obtain dup s' where add': "any_not_added ranges_Add ixs (indexes prev) = Inr (dup, s')"
    using assms(1) blk cb dat by (cases "any_not_added ranges_Add ixs (indexes prev)") (auto simp: construct_pool_def)
  then have "\<not> dup" using assms(1) blk cb dat by (auto simp: construct_pool_def split: if_splits)
  with add' have add: "any_not_added ranges_Add ixs (indexes prev) = Inr (False, s')" by simp
  define far where "far = (case distant_block (block_heap E) (CreditPoolPeriodBlocks E) p of
      None \<Rightarrow> Inr 0
    | Some d \<Rightarrow> res_bind (GetBlockForCreditPool E d) (\<lambda>db. case db of None \<Rightarrow> Inr 0
        | Some dvtx \<Rightarrow> res_bind (GetDataFromUnlockTxes E dvtx 0 []) (\<lambda>(u, _). Inr u)))"
  have r: "res_bind far (\<lambda>distantUnlocked.
       let lately = latelyUnlocked prev + u - distantUnlocked;
           limit = credit_limit (withdrawals_active (quorums E) p) (creditPoolBalance cb) lately in
       if limit < 0 then Inl ''Negative limit for CreditPool''
       else Inr \<lparr>locked = creditPoolBalance cb, currentLimit = limit, latelyUnlocked = lately, indexes = s'\<rparr>) = Inr pl"
    using assms(1) unfolding construct_pool_def far_def by (simp add: blk cb dat add)
  then obtain x where x: "far = Inr x" by (cases far) auto
  have "x = (case distant_block (block_heap E) (CreditPoolPeriodBlocks E) p of None \<Rightarrow> 0 | Some d \<Rightarrow> fst (block_unlocks E d))"
    using x unfolding far_def
    by (auto simp: block_unlocks_def res_bind_def split: option.splits sum.splits)
  then show "latelyUnlocked pl = latelyUnlocked prev + fst (block_unlocks E p)
      - (case distant_block (block_heap E) (CreditPoolPeriodBlocks E) p of None \<Rightarrow> 0 | Some d \<Rightarrow> fst (block_unlocks E d))"
    "currentLimit pl = credit_limit (withdrawals_active (quorums E) p) (locked pl) (latelyUnlocked pl)" "0 \<le> currentLimit pl"
    "any_not_added ranges_Add (snd (block_unlocks E p)) (indexes prev) = Inr (False, indexes pl)"
    using r x bu add by (auto simp: Let_def split: if_splits)
qed

lemma before_v20_nothing:
  assumes "credit_chain E"
  shows "\<not> v20_active E p \<Longrightarrow> window E n p = 0" "used_index E p ix \<Longrightarrow> v20_active E p"
proof -
  show "\<not> v20_active E p \<Longrightarrow> window E n p = 0"
    using assms by (induction n arbitrary: p) (auto simp: credit_chain_def split: option.splits)
  show "used_index E p ix \<Longrightarrow> v20_active E p"
    by (induction rule: used_index.induct) (use assms in \<open>force simp: credit_chain_def\<close>)+
qed


definition indexes_fit :: "('g, 'k) credit_env \<Rightarrow> ptr \<Rightarrow> credit_pool \<Rightarrow> bool" where
  "indexes_fit E p pl \<longleftrightarrow> ranges_inv (indexes pl) \<and> elems (indexes pl) = {ix. used_index E p ix}"



lemma add_block_indexes:
  assumes "ranges_inv (indexes prev)" "\<not> used_index E p (- 1)"
  shows "\<exists>dup s'. any_not_added ranges_Add (snd (block_unlocks E p)) (indexes prev) = Inr (dup, s') \<and> ranges_inv s'
    \<and> (\<not> dup \<longrightarrow> elems s' = elems (indexes prev) \<union> set (snd (block_unlocks E p)))"
proof -
  have "\<forall>v\<in>set (snd (block_unlocks E p)). v \<noteq> - 1" using assms(2) used_index.here by blast
  from ranges.any_not_added_spec [OF assms(1) this block_unlocks_props(2)] show ?thesis by blast
qed

lemma construct_pool_indexes:
  assumes "credit_chain E" "v20_active E p" "construct_pool E p prev = Inr pl" "\<not> used_index E p (- 1)"
    and "case pprev (block_heap E p) of None \<Rightarrow> indexes prev = [] | Some q \<Rightarrow> indexes_fit E q prev"
  shows "indexes_fit E p pl"
proof -
  have "GetBlockForCreditPool E p \<noteq> Inr None" using assms(1,2) by (auto simp: credit_chain_def)
  note r = construct_pool_result(4) [OF assms(3) this]
  have "ranges_inv (indexes prev)" using assms(5) by (auto simp: indexes_fit_def split: option.splits)
  from add_block_indexes [OF this assms(4)] r have "ranges_inv (indexes pl)"
    "elems (indexes pl) = elems (indexes prev) \<union> set (snd (block_unlocks E p))" by auto
  then show ?thesis using assms(5) by (auto simp: indexes_fit_def used_index_step [of E p] split: option.splits)
qed

lemma pool_at_indexes:
  assumes "pool_at E p pl" "credit_chain E" "\<not> used_index E p (- 1)"
  shows "indexes_fit E p pl"
  using assms(1,3)
proof (induction rule: pool_at.induct)
  case (before_v20 p)
  then have "\<not> used_index E p ix" for ix using before_v20_nothing(2) [OF assms(2)] by blast
  then show ?case by (simp add: indexes_fit_def CCreditPool_def)
next
  case (first_block p pl)
  then show ?case by (intro construct_pool_indexes [OF assms(2)]) (auto simp: CCreditPool_def)
next
  case (next_block p q prev pl)
  then show ?case by (intro construct_pool_indexes [OF assms(2)]) (auto intro: used_index.before)
qed

text \<open>Without the largest index, the construction of a pool throws but fails no assertion.\<close>

lemma GetDataFromUnlockTxes_throws: "GetDataFromUnlockTxes E vtx u ixs = Inl e \<Longrightarrow> \<not> aborts e"
  by (induction vtx arbitrary: u ixs) (auto simp: aborts_def split: if_splits sum.splits)

lemma GetBlockForCreditPool_throws: "GetBlockForCreditPool E p = Inl e \<Longrightarrow> \<not> aborts e"
  by (auto simp: GetBlockForCreditPool_def aborts_def split: if_splits option.splits)

lemma construct_pool_throws:
  assumes "construct_pool E p prev = Inl e" "ranges_inv (indexes prev)" "\<not> used_index E p (- 1)"
  shows "\<not> aborts e"
proof (cases "GetBlockForCreditPool E p")
  case (Inl e')
  then show ?thesis using assms(1) GetBlockForCreditPool_throws [OF Inl] by (simp add: construct_pool_def)
next
  case (Inr block)
  show ?thesis
  proof (cases "\<exists>vtx u ixs. block = Some vtx \<and> GetDataFromUnlockTxes E vtx 0 [] = Inr (u, ixs)")
    case False
    then show ?thesis using assms(1) Inr
      by (auto simp: construct_pool_def res_bind_def aborts_def split: option.splits if_splits sum.splits dest!: GetDataFromUnlockTxes_throws)
  next
    case True
    then obtain vtx u ixs where b: "block = Some vtx" "GetDataFromUnlockTxes E vtx 0 [] = Inr (u, ixs)" by blast
    then have "block_unlocks E p = (u, ixs)" by (simp add: block_unlocks_def Inr)
    then obtain dup s' where add: "any_not_added ranges_Add ixs (indexes prev) = Inr (dup, s')"
      using add_block_indexes [OF assms(2,3)] by auto
    show ?thesis using assms(1) Inr b add
      by (auto simp: construct_pool_def res_bind_def aborts_def Let_def split: option.splits if_splits sum.splits
        dest!: GetDataFromUnlockTxes_throws GetBlockForCreditPool_throws)
  qed
qed

lemma pool_error_throws:
  assumes "pool_error E b e" "credit_chain E" "case b of None \<Rightarrow> True | Some p \<Rightarrow> \<not> used_index E p (- 1)"
  shows "\<not> aborts e"
  using assms(1,3)
proof (induction rule: pool_error.induct)
  case (at p prev e)
  have "ranges_inv (indexes prev)"
  proof (cases "pprev (block_heap E p)")
    case None
    then show ?thesis using at by (simp add: pool_before_def CCreditPool_def)
  next
    case (Some q)
    then have "\<not> used_index E q (- 1)" using at used_index.before by fastforce
    then show ?thesis using pool_at_indexes [OF _ assms(2)] at Some by (simp add: pool_before_def indexes_fit_def)
  qed
  then show ?case using construct_pool_throws [OF at(3)] at by simp
next
  case (earlier p e)
  have "case pprev (block_heap E p) of None \<Rightarrow> True | Some q \<Rightarrow> \<not> used_index E q (- 1)"
    using earlier.prems used_index.before by (fastforce split: option.splits)
  then show ?case by (rule earlier.IH)
qed

section \<open>Accepted blocks\<close>






text \<open>
  Once withdrawals are active the limit of a block does not depend on what the window has unlocked: with 2000 DASH
  unlocked within the last 576 blocks the next block may unlock 2000 DASH more, where the rule before would have
  allowed nothing.
\<close>

lemma withdrawals_limit_per_block:
  "credit_limit True (10000 * COIN) (2000 * COIN) = 2000 * COIN \<and> credit_limit False (10000 * COIN) (1000 * COIN) = 0"
  by (simp add: credit_limit_def LimitAmountV22_def LimitAmountLow_def LimitAmountHigh_def COIN_def)

lemma CCreditPoolDiff_total:
  assumes "0 \<le> blockSubsidy" "blockSubsidy \<le> MAX_MONEY" "0 < nSuperblockCycle (credit_params E)"
  shows "\<exists>d. CCreditPoolDiff E prev (Some q) blockSubsidy = Inr d"
proof -
  define v where "v = GetMasternodePayment (credit_params E) (int (bi_height (block_heap E q)) + 1) blockSubsidy True"
  have "0 \<le> v" "v \<le> blockSubsidy" using GetMasternodePayment_bounds [OF assms(1,3)] by (simp_all add: v_def)
  then have "MoneyRange (v * 375 div 1000)" using assms(2) by (auto simp: MoneyRange_def)
  then show ?thesis unfolding CCreditPoolDiff_def option.case v_def [symmetric] by (auto simp: PlatformShare_def Let_def)
qed

lemma process_transactions_state:
  assumes "process_transactions E vtx d state = Inr (r, st)"
  shows "(r \<noteq> None \<longrightarrow> st = state) \<and> (r = None \<longrightarrow> m_result st = BLOCK_CONSENSUS \<and> \<not> IsValid st)"
  using assms by (induction vtx arbitrary: d) (auto simp: Invalid_def IsValid_def split: prod.splits bool.splits if_splits)

text \<open>
  The largest index can be unlocked again: the pool that has just recorded it accepts a second unlock, and the pool
  after the block of the second one cannot be constructed, because the assertion in \<open>CRangesSet::Add\<close> fails.
\<close>

lemma largest_index_unlocks_again:
  assumes "any_not_added ranges_Add [- 1] [] = Inr (False, ixs)" "indexes (pool d) = ixs" "newIndexes d = {}"
    and "GetDataFromUnlockTx E tx st = Inr (v, - 1)" "sessionUnlocked d + v \<le> currentLimit (pool d)"
  shows "fst (Unlock E tx d st)" "any_not_added ranges_Add [- 1] ixs = Inl ''assert(ret.second)''"
  using assms Add_largest_twice by (auto simp: Unlock_def)

section \<open>Properties\<close>



text \<open>
  C20: the caches of \<open>CCreditPoolManager\<close> are transparent. With any cache and database that hold only right
  pools, whatever was evicted, \<open>GetCreditPool\<close> terminates (it never runs out of fuel), returns exactly the pool that
  the recursion over all predecessors defines and leaves the cache and the database right. Where that recursion has no
  value it fails with the error of the first block whose pool cannot be constructed: an exception, or a failed
  assertion of \<open>CRangesSet\<close>.
\<close>

theorem GetCreditPool_transparent:
  assumes "block_tree (block_heap E) B" "manager_ok E B m" "p \<in> B"
  shows "(\<forall>pl. fst (GetCreditPool E (Some p) m) = Inr pl \<longleftrightarrow> pool_at E p pl)
    \<and> (\<forall>e. fst (GetCreditPool E (Some p) m) = Inl e \<longrightarrow> pool_error E (Some p) e) \<and> manager_ok E B (snd (GetCreditPool E (Some p) m))"
  by (rule GetCreditPool_pool_at_iff [OF assms])

text \<open>
  C32: rejections of the credit pool are errors of the block and never a failed assertion. When every lock and unlock
  transaction has passed \<open>CheckAssetLockUnlockTx\<close>, in whatever context, and no block up to the previous one used the
  index 2^64 - 1 (with which \<open>CRangesSet\<close> can fail an assertion), \<open>GetCreditPoolDiffForBlock\<close> fails no assertion,
  its own or one of \<open>CRangesSet\<close>, and terminates: it returns the changes and leaves the validation state alone, or
  returns nothing and marks the block as violating consensus.
\<close>

theorem credit_pool_errors:
  assumes "block_tree (block_heap E) B" "manager_ok E B m" "q \<in> B" "credit_chain E" "\<not> used_index E q (- 1)"
    and "\<forall>tx\<in>set (tl vtx). is_lock tx \<or> is_unlock tx \<longrightarrow> (\<exists>p ixs st. fst (CheckAssetLockUnlockTx (quorums E) (block_heap E) tx p ixs st))"
    and "0 \<le> blockSubsidy" "blockSubsidy \<le> MAX_MONEY" "0 < nSuperblockCycle (credit_params E)"
  shows "\<exists>r st. fst (GetCreditPoolDiffForBlock E vtx (Some q) blockSubsidy state m) = Inr (r, st)
    \<and> (r \<noteq> None \<longrightarrow> st = state) \<and> (r = None \<longrightarrow> m_result st = BLOCK_CONSENSUS \<and> \<not> IsValid st)"
proof (cases "GetCreditPool E (Some q) m")
  case (Pair r m')
  show ?thesis
  proof (cases r)
    case (Inl e)
    then have "pool_error E (Some q) e" using GetCreditPool_pool_at_iff [OF assms(1-3)] Pair by simp
    then have "\<not> aborts e" using pool_error_throws [of E "Some q" e] assms(4,5) by simp
    then show ?thesis using Pair Inl by (simp add: GetCreditPoolDiffForBlock_def Invalid_def IsValid_def)
  next
    case (Inr prev)
    obtain d where "CCreditPoolDiff E prev (Some q) blockSubsidy = Inr d" using CCreditPoolDiff_total [OF assms(7-9)] by blast
    moreover obtain x st where "process_transactions E (tl vtx) d state = Inr (x, st)" using process_transactions_no_assert [OF assms(6)] by fast
    ultimately show ?thesis using Pair Inr process_transactions_state [of E "tl vtx" d state x st] by (auto simp: GetCreditPoolDiffForBlock_def)
  qed
qed

section \<open>Witnesses\<close>

text \<open>
  A chain in which block 1 locks five duffs and block 2 unlocks three of them and adds the platform's share, with
  one-byte signatures that a quorum verifies.
\<close>

definition sample_cbtx :: "u64 \<Rightarrow> mutable_transaction" where
  "sample_cbtx balance = \<lparr>vin = [\<lparr>prevout = \<lparr>op_hash = 0, op_n = 0xffffffff\<rparr>, scriptSig = [], nSequence = 0xffffffff\<rparr>],
     vout = [], nVersion = 3, nType = TRANSACTION_COINBASE, nLockTime = 0,
     vExtraPayload = [3, 0, 1, 0, 0, 0] @ replicate 64 0 @ [0] @ replicate 95 1 @ [7] @ ser_writedata64 balance\<rparr>"

definition sample_locking :: mutable_transaction where
  "sample_locking = SetTxPayload (CAssetLockPayload_Ser sample_lock_payload) sample_lock"

definition sample_unlock_payload :: "byte asset_unlock_payload" where
  "sample_unlock_payload = \<lparr>unlock_nVersion = 1, index = 8, fee = 1, requestedHeight = 1, quorumHash = 5, quorumSig = Some 7\<rparr>"

definition sample_unlocking :: mutable_transaction where
  "sample_unlocking = \<lparr>vin = [], vout = [\<lparr>nValue = 2, scriptPubKey = [OP_RETURN]\<rparr>], nVersion = 3, nType = TRANSACTION_ASSET_UNLOCK,
     nLockTime = 0, vExtraPayload = CAssetUnlockPayload_Ser sample_bls False sample_unlock_payload\<rparr>"

definition sample_quorums :: "(byte, byte) quorum_context" where
  "sample_quorums = \<lparr>bls = sample_bls, bls_legacy_scheme = False, llmqTypePlatform = 4, signingActiveQuorumCount = 24,
     withdrawals_active = (\<lambda>_. False), ScanQuorums = (\<lambda>_ _. [5]), GetQuorum = (\<lambda>_. Some (5, Some 7)), LookupBlockIndex = (\<lambda>_. Some 0)\<rparr>"

definition sample_env :: "(byte, byte) credit_env" where
  "sample_env = \<lparr>quorums = sample_quorums, block_heap = sample_heap, dip0003_active = (\<lambda>_. True), dip0008_active = (\<lambda>_. True),
     v20_active = (\<lambda>p. p > 0), mn_rr_active_after = (\<lambda>p. p > 0),
     ReadBlockFromDisk = (\<lambda>p. if p = 0 then Some [] else Some [sample_cbtx 5, sample_locking]),
     CreditPoolPeriodBlocks = 576, credit_params = main_params\<rparr>"

definition sample_state :: BlockValidationState where
  "sample_state = \<lparr>m_mode = M_VALID, m_result = BLOCK_RESULT_UNSET, m_reject_reason = [], m_debug_message = []\<rparr>"

definition sample_manager :: cp_manager where
  "sample_manager = \<lparr>creditPoolCache = \<lparr>cacheMap = [], maxSize = 10, truncateThreshold = 20, accessCounter = 0\<rparr>, evoDb = Map.empty\<rparr>"

lemma sample_payload: "get_asset_unlock sample_bls False sample_unlocking = Some sample_unlock_payload" by code_simp

lemma sample_unlock_checks: "CheckAssetUnlockTx sample_quorums sample_heap sample_unlocking 1 (Some []) st = (True, st)"
proof -
  have "VerifySig sample_quorums sample_heap sample_unlock_payload msg 1 st = (True, st)" for msg
    by (simp add: VerifySig_def VerifyInsecure_def sample_quorums_def sample_unlock_payload_def sample_bls_def sample_heap_def
      getHeightToExpiry_def HEIGHT_DIFF_EXPIRING_def)
  moreover have "bls sample_quorums = sample_bls" "\<not> bls_legacy_scheme sample_quorums" "LookupBlockIndex sample_quorums h = Some 0" for h
    by (simp_all add: sample_quorums_def)
  moreover have "\<not> (unlock_nVersion sample_unlock_payload = 0 \<or> unlock_nVersion sample_unlock_payload > CAssetUnlockPayload_CURRENT_VERSION)"
    by code_simp
  moreover have "nType sample_unlocking = TRANSACTION_ASSET_UNLOCK" "vin sample_unlocking = []" "length (vout sample_unlocking) \<le> MAXIMUM_WITHDRAWALS"
    "\<not> ranges_Contains ix []" for ix
    by (simp_all add: sample_unlocking_def MAXIMUM_WITHDRAWALS_def ranges_Contains_iff)
  ultimately show ?thesis by (simp add: CheckAssetUnlockTx_def sample_payload Let_def)
qed

lemma sample_pool: "fst (GetCreditPool sample_env (Some 1) sample_manager) = Inr \<lparr>locked = 5, currentLimit = 5, latelyUnlocked = 0, indexes = []\<rparr>"
  by code_simp


lemma sample_kind: "IsSpecialTxVersion sample_unlocking" "nType sample_unlocking = TRANSACTION_ASSET_UNLOCK" by code_simp+



lemma sample_chain: "credit_chain sample_env" "\<not> used_index sample_env p ix"
proof -
  have d: "GetDataFromUnlockTxes sample_env [sample_cbtx 5, sample_locking] 0 [] = Inr (0, [])" by code_simp
  have b: "vExtraPayload (sample_cbtx 5) \<noteq> []" "IsSpecialTxVersion (sample_cbtx 5)" by code_simp+
  have g: "GetBlockForCreditPool sample_env p = (if p = 0 then Inr None else Inr (Some [sample_cbtx 5, sample_locking]))" for p
    using b by (simp add: GetBlockForCreditPool_def sample_env_def)
  have b: "block_unlocks sample_env p = (0, [])" for p by (simp add: block_unlocks_def g d del: GetDataFromUnlockTxes.simps)
  moreover have "v20_active sample_env p \<longleftrightarrow> p > 0" "pprev (block_heap sample_env p) = (if p = 0 then None else Some (p - 1))" for p
    by (simp_all add: sample_env_def sample_heap_def)
  ultimately show "credit_chain sample_env" by (simp add: credit_chain_def g)
  have "used_index sample_env p ix \<Longrightarrow> False" by (induction rule: used_index.induct) (simp_all add: b)
  then show "\<not> used_index sample_env p ix" by blast
qed

lemma sample_tree: "block_tree (block_heap sample_env) {0, 1, 2}"
  using sample_heap_wf by (auto simp: block_tree_def wf_index_def sample_env_def) (auto simp: sample_heap_def split: if_splits)

lemma sample_manager_ok: "manager_ok sample_env B sample_manager"
  by (simp add: manager_ok_def sample_manager_def lru.sound_def lru_inv_def lru_map_def)

lemma sample_cycle: "0 < nSuperblockCycle (credit_params sample_env)" by code_simp



theorem GetCreditPool_transparent_witness:
  "pool_at sample_env 1 \<lparr>locked = 5, currentLimit = 5, latelyUnlocked = 0, indexes = []\<rparr>"
  using GetCreditPool_transparent [OF sample_tree sample_manager_ok, of 1] sample_pool by auto

theorem credit_pool_errors_witness:
  "\<exists>r st. fst (GetCreditPoolDiffForBlock sample_env [sample_cbtx 9, sample_unlocking] (Some 1) 100 sample_state sample_manager) = Inr (r, st)"
proof -
  have "fst (CheckAssetLockUnlockTx (quorums sample_env) (block_heap sample_env) sample_unlocking 1 (Some []) TxValidationState_init)"
    using sample_unlock_checks by (simp add: sample_env_def CheckAssetLockUnlockTx_def sample_kind)
  then show ?thesis
    using credit_pool_errors [OF sample_tree sample_manager_ok _ sample_chain(1,2), of 1 "[sample_cbtx 9, sample_unlocking]" 100 sample_state] sample_cycle
    by (auto simp: MAX_MONEY_def COIN_def)
qed

end
