(* ===== verification/MoneyStr.thy ===== *)
theory MoneyStr
  imports Transaction
begin

text \<open>
  Amounts as text, \<open>src/util/moneystr.cpp\<close>, with the helpers it uses from \<open>src/util/strencodings.h\<close> and
  \<open>src/util/string.h\<close>. What \<open>FormatMoney\<close> prints \<open>ParseMoney\<close> reads back.
\<close>

section \<open>Characters and strings\<close>

definition IsDigit :: "char \<Rightarrow> bool" where
  "IsDigit c \<longleftrightarrow> 48 \<le> (of_char c :: nat) \<and> (of_char c :: nat) \<le> 57"

definition IsSpace :: "char \<Rightarrow> bool" where
  "IsSpace c \<longleftrightarrow> c = CHR '' '' \<or> c = CHR 0x0C \<or> c = CHR 0x0A \<or> c = CHR 0x0D \<or> c = CHR 0x09 \<or> c = CHR 0x0B"

definition TrimString :: "string \<Rightarrow> string" where
  "TrimString str = rev (dropWhile IsSpace (rev (dropWhile IsSpace str)))"

definition ValidAsCString :: "string \<Rightarrow> bool" where
  "ValidAsCString str \<longleftrightarrow> CHR 0x00 \<notin> set str"

definition digit_value :: "char \<Rightarrow> int" where
  "digit_value c = int (of_char c) - 48"

definition digit_char :: "nat \<Rightarrow> char" where
  "digit_char d = char_of (48 + d)"

text \<open>The conversions of the standard library: \<open>%d\<close> and \<open>%08d\<close> of numbers that are not negative, and \<open>from_chars\<close>.\<close>

fun decimal :: "nat \<Rightarrow> string" where
  "decimal n = (if n < 10 then [digit_char n] else decimal (n div 10) @ [digit_char (n mod 10)])"

declare decimal.simps [simp del]

definition padded :: "nat \<Rightarrow> nat \<Rightarrow> string" where
  "padded w n = replicate (w - length (decimal n)) (CHR ''0'') @ decimal n"

definition digits_value :: "string \<Rightarrow> int" where
  "digits_value ds = foldl (\<lambda>v d. 10 * v + digit_value d) 0 ds"

definition from_chars_int64 :: "string \<Rightarrow> int option" where
  "from_chars_int64 s =
     (let neg = (s \<noteq> [] \<and> hd s = CHR ''-''); ds = takeWhile IsDigit (if neg then tl s else s);
          v = (if neg then - digits_value ds else digits_value ds) in
      if ds = [] \<or> v < - (2 ^ 63) \<or> v \<ge> 2 ^ 63 then None else Some v)"

definition LocaleIndependentAtoi_int64 :: "string \<Rightarrow> int" where
  "LocaleIndependentAtoi_int64 str =
     (let s = TrimString str in
      if s \<noteq> [] \<and> hd s = CHR ''+'' then
        if length s \<ge> 2 \<and> s ! 1 = CHR ''-'' then 0
        else (case from_chars_int64 (tl s) of None \<Rightarrow> 0 | Some v \<Rightarrow> v)
      else (case from_chars_int64 s of None \<Rightarrow> 0 | Some v \<Rightarrow> v))"

section \<open>Printing and parsing\<close>

text \<open>The loop that trims zeros from the end of the string, here from the front of the reversed string.\<close>

fun trim_zeros :: "string \<Rightarrow> string" where
  "trim_zeros (a # b # c # rest) = (if a = CHR ''0'' \<and> IsDigit c then trim_zeros (b # c # rest) else a # b # c # rest)"
| "trim_zeros s = s"

definition FormatMoney :: "CAmount \<Rightarrow> string" where
  "FormatMoney n =
     (let quotient = \<bar>n\<bar> div COIN; remainder = \<bar>n\<bar> mod COIN;
          str = decimal (nat quotient) @ ''.'' @ padded 8 (nat remainder);
          str = rev (trim_zeros (rev str)) in
      if n < 0 then ''-'' @ str else str)"

text \<open>The inner loop over the decimals: \<open>nUnits\<close> and what is left of the string.\<close>

fun parse_units :: "int \<Rightarrow> int \<Rightarrow> string \<Rightarrow> int \<times> string" where
  "parse_units nMult nUnits [] = (nUnits, [])"
| "parse_units nMult nUnits (c # p) =
     (if IsDigit c \<and> nMult > 0 then parse_units (nMult div 10) (nUnits + nMult * digit_value c) p else (nUnits, c # p))"

fun ParseMoney_loop :: "string \<Rightarrow> string \<Rightarrow> (string \<times> int \<times> string) option" where
  "ParseMoney_loop strWhole [] = Some (strWhole, 0, [])"
| "ParseMoney_loop strWhole (c # p) =
     (if c = CHR ''.'' then (case parse_units (COIN div 10) 0 p of (nUnits, p') \<Rightarrow> Some (strWhole, nUnits, p'))
      else if IsSpace c then None
      else if \<not> IsDigit c then None
      else ParseMoney_loop (strWhole @ [c]) p)"

definition ParseMoney :: "string \<Rightarrow> CAmount option" where
  "ParseMoney money_string =
     (if \<not> ValidAsCString money_string then None
      else
        let str = TrimString money_string in
        if str = [] then None
        else
          case ParseMoney_loop [] str of
            None \<Rightarrow> None
          | Some (strWhole, nUnits, p) \<Rightarrow>
              if p \<noteq> [] then None
              else if length strWhole > 10 then None
              else if nUnits < 0 \<or> nUnits > COIN then None
              else
                let value = LocaleIndependentAtoi_int64 strWhole * COIN + nUnits in
                if MoneyRange value then Some value else None)"

section \<open>Decimal digits\<close>

lemma digit_char_props:
  assumes "d < 10"
  shows "IsDigit (digit_char d)" "digit_value (digit_char d) = int d"
proof -
  have "(of_char (digit_char d) :: nat) = 48 + d" using assms by (simp add: digit_char_def)
  then show "IsDigit (digit_char d)" "digit_value (digit_char d) = int d" using assms by (auto simp: IsDigit_def digit_value_def)
qed

lemma digits_value_simps [simp]: "digits_value [] = 0" "digits_value (ds @ [d]) = 10 * digits_value ds + digit_value d"
  by (simp_all add: digits_value_def)

lemma decimal_props:
  "list_all IsDigit (decimal n)" "decimal n \<noteq> []" "digits_value (decimal n) = int n"
proof -
  have "list_all IsDigit (decimal n) \<and> decimal n \<noteq> [] \<and> digits_value (decimal n) = int n"
  proof (induction n rule: decimal.induct)
    case (1 n)
    show ?case
    proof (cases "n < 10")
      case True
      then show ?thesis using digit_char_props [of n] digits_value_simps(2) [of "[]"] by (simp add: decimal.simps [of n])
    next
      case False
      moreover have "10 * int (n div 10) + int (n mod 10) = int n" by presburger
      ultimately show ?thesis using 1 digit_char_props [of "n mod 10"] by (simp add: decimal.simps [of n])
    qed
  qed
  then show "list_all IsDigit (decimal n)" "decimal n \<noteq> []" "digits_value (decimal n) = int n" by auto
qed

lemma decimal_length: "n < 10 ^ Suc k \<Longrightarrow> length (decimal n) \<le> Suc k"
proof (induction k arbitrary: n)
  case 0
  then show ?case by (simp add: decimal.simps [of n])
next
  case (Suc k)
  then have "n div 10 < 10 ^ Suc k" by (simp add: less_mult_imp_div_less)
  then show ?case using Suc.IH by (subst decimal.simps) auto
qed

lemma digits_value_zeros: "digits_value (replicate k (CHR ''0'') @ ds) = digits_value ds"
proof -
  have "foldl (\<lambda>v d. 10 * v + digit_value d) 0 (replicate k (CHR ''0'')) = 0"
    by (induction k) (simp_all add: digit_value_def)
  then show ?thesis by (simp add: digits_value_def)
qed

lemma padded_props:
  assumes "n < 10 ^ Suc k"
  shows "length (padded (Suc k) n) = Suc k" "list_all IsDigit (padded (Suc k) n)" "digits_value (padded (Suc k) n) = int n"
  using decimal_length [OF assms] decimal_props [of n]
  by (auto simp: padded_def digits_value_zeros list_all_iff IsDigit_def)

text \<open>The value of decimals after the point, where the first counts \<open>m\<close>.\<close>

fun frac :: "int \<Rightarrow> string \<Rightarrow> int" where
  "frac m [] = 0"
| "frac m (d # ds) = m * digit_value d + frac (m div 10) ds"

lemma parse_units_frac: "list_all IsDigit ds \<Longrightarrow> length ds \<le> Suc k \<Longrightarrow> parse_units (10 ^ k) u ds = (u + frac (10 ^ k) ds, [])"
proof (induction ds arbitrary: k u)
  case (Cons d ds)
  then show ?case
  proof (cases k)
    case 0
    with Cons.prems have "ds = []" by simp
    with Cons.prems 0 show ?thesis by simp
  next
    case (Suc j)
    then have "(10 ^ k :: int) div 10 = 10 ^ j" by simp
    with Cons Suc show ?thesis by simp
  qed
qed simp

lemma frac_zeros: "frac m (ds @ replicate j (CHR ''0'')) = frac m ds"
proof (induction ds arbitrary: m)
  case Nil
  have "frac m (replicate j (CHR ''0'')) = 0" for m by (induction j arbitrary: m) (simp_all add: digit_value_def)
  then show ?case by simp
qed simp

lemma frac_value: "length ds = Suc k \<Longrightarrow> frac (10 ^ k) ds = digits_value ds"
proof -
  have gen: "foldl (\<lambda>v d. 10 * v + digit_value d) v ds = v * 10 ^ length ds + frac (10 ^ (length ds - 1)) ds" for v
  proof (induction ds arbitrary: v)
    case (Cons d ds)
    show ?case
    proof (cases ds)
      case (Cons e es)
      then have "(10 ^ length ds :: int) div 10 = 10 ^ (length ds - 1)" by simp
      then show ?thesis using Cons.IH by (simp add: algebra_simps)
    qed simp
  qed simp
  show "length ds = Suc k \<Longrightarrow> ?thesis" using gen [of 0] by (simp add: digits_value_def)
qed

section \<open>The round trip\<close>

lemma trim_zeros_decimals:
  assumes "list_all IsDigit ts" "2 \<le> length ts"
  shows "\<exists>j ts'. ts = replicate j (CHR ''0'') @ ts' \<and> trim_zeros (ts @ CHR ''.'' # w) = ts' @ CHR ''.'' # w \<and> 2 \<le> length ts'"
  using assms
proof (induction ts)
  case (Cons a ts)
  then obtain b r where r: "ts = b # r" by (cases ts) auto
  show ?case
  proof (cases "a = CHR ''0'' \<and> r \<noteq> []")
    case True
    then obtain c r' where r': "r = c # r'" by (cases r) auto
    have "list_all IsDigit ts" "2 \<le> length ts" using Cons.prems r r' by simp_all
    then obtain j ts' where j: "ts = replicate j (CHR ''0'') @ ts'" "trim_zeros (ts @ CHR ''.'' # w) = ts' @ CHR ''.'' # w" "2 \<le> length ts'"
      using Cons.IH by metis
    have "trim_zeros ((a # ts) @ CHR ''.'' # w) = ts' @ CHR ''.'' # w" using True Cons.prems j(2) unfolding r r' by simp
    then show ?thesis using True j(1,3) by (intro exI [of _ "Suc j"] exI [of _ ts']) simp
  next
    case False
    then have "trim_zeros ((a # ts) @ CHR ''.'' # w) = (a # ts) @ CHR ''.'' # w"
      using r by (cases r) (auto simp: IsDigit_def)
    then show ?thesis using Cons.prems by (intro exI [of _ 0] exI [of _ "a # ts"]) simp
  qed
qed simp

lemma not_space: "IsDigit c \<Longrightarrow> \<not> IsSpace c \<and> c \<noteq> CHR ''.'' \<and> c \<noteq> CHR ''+'' \<and> c \<noteq> CHR ''-'' \<and> c \<noteq> CHR 0x00"
  by (auto simp: IsDigit_def IsSpace_def)

lemma TrimString_id: "s \<noteq> [] \<Longrightarrow> \<not> IsSpace (hd s) \<Longrightarrow> \<not> IsSpace (last s) \<Longrightarrow> TrimString s = s"
proof -
  assume s: "s \<noteq> []" "\<not> IsSpace (hd s)" "\<not> IsSpace (last s)"
  have "dropWhile IsSpace s = s" using s by (cases s) simp_all
  moreover have "dropWhile IsSpace (rev s) = rev s" using s by (cases s rule: rev_cases) simp_all
  ultimately show ?thesis by (simp add: TrimString_def)
qed

lemma Atoi_decimal:
  assumes "n < 10 ^ 10"
  shows "LocaleIndependentAtoi_int64 (decimal n) = int n"
proof -
  note d = decimal_props [of n]
  have all: "\<forall>c\<in>set (decimal n). IsDigit c" using d(1) by (simp add: list_all_iff)
  then have hl: "IsDigit (hd (decimal n))" "IsDigit (last (decimal n))" using d(2) by simp_all
  then have "TrimString (decimal n) = decimal n" using not_space d(2) by (intro TrimString_id) auto
  moreover have tw: "takeWhile IsDigit (decimal n) = decimal n" using all by (simp only: takeWhile_eq_all_conv)
  ultimately show ?thesis
    using d(2,3) assms not_space [OF hl(1)] by (simp add: LocaleIndependentAtoi_int64_def from_chars_int64_def Let_def tw)
qed

lemma ParseMoney_loop_digits:
  "list_all IsDigit ds \<Longrightarrow> ParseMoney_loop w (ds @ CHR ''.'' # p) = (case parse_units (COIN div 10) 0 p of (u, p') \<Rightarrow> Some (w @ ds, u, p'))"
  by (induction ds arbitrary: w) (auto simp: not_space)

text \<open>
  What \<open>FormatMoney\<close> prints for an amount in the money range, \<open>ParseMoney\<close> reads back as the same amount.
\<close>

lemma money_roundtrip:
  assumes "MoneyRange n"
  shows "ParseMoney (FormatMoney n) = Some n"
proof -
  define q r where "q = nat (n div COIN)" and "r = nat (n mod COIN)"
  have n: "0 \<le> n" "n \<le> 21000000 * COIN" "n = int q * COIN + int r" and r8: "r < 10 ^ Suc 7" and q10: "q < 10 ^ 10"
    using assms by (auto simp: q_def r_def MoneyRange_def MAX_MONEY_def COIN_def)
  define ds where "ds = padded 8 r"
  have ds: "length ds = 8" "list_all IsDigit ds" "digits_value ds = int r" using padded_props [OF r8] by (simp_all add: ds_def)
  obtain j ts where ts: "rev ds = replicate j (CHR ''0'') @ ts" "2 \<le> length ts"
    and trim: "trim_zeros (rev ds @ CHR ''.'' # rev (decimal q)) = ts @ CHR ''.'' # rev (decimal q)"
    using trim_zeros_decimals [of "rev ds"] ds by fastforce
  have split: "ds = rev ts @ replicate j (CHR ''0'')" using arg_cong [OF ts(1), of rev] by simp
  have fmt: "FormatMoney n = decimal q @ CHR ''.'' # rev ts"
    using n(1) trim by (simp add: FormatMoney_def Let_def q_def r_def ds_def)
  note d = decimal_props [of q]
  have t: "list_all IsDigit (rev ts)" "length (rev ts) \<le> Suc 7" "rev ts \<noteq> []" using ds(1,2) ts(2) unfolding split by (auto simp: list_all_iff)
  have chars: "\<forall>c\<in>set (FormatMoney n). IsDigit c \<or> c = CHR ''.''" using d(1) t(1) by (auto simp: fmt list_all_iff)
  have ends: "IsDigit (hd (FormatMoney n))" "IsDigit (last (FormatMoney n))" "FormatMoney n \<noteq> []"
    using d(1,2) t(1,3) by (auto simp: fmt list_all_iff hd_append last_rev)
  have trimmed: "TrimString (FormatMoney n) = FormatMoney n" using ends not_space by (intro TrimString_id) auto
  have valid: "ValidAsCString (FormatMoney n)" using chars not_space by (auto simp: ValidAsCString_def)
  have units: "parse_units (COIN div 10) 0 (rev ts) = (int r, [])"
    using parse_units_frac [OF t(1,2), of 0] frac_zeros [of "10 ^ 7" "rev ts" j] frac_value [of ds 7] ds(1,3)
    by (simp add: split COIN_def)
  have loop: "ParseMoney_loop [] (FormatMoney n) = Some (decimal q, int r, [])"
    using ParseMoney_loop_digits [OF d(1), of "[]" "rev ts"] units by (simp add: fmt)
  have "length (decimal q) \<le> 10" using decimal_length [of q 9] q10 by simp
  moreover have "\<not> int r > COIN" using r8 by (simp add: COIN_def)
  moreover have "LocaleIndependentAtoi_int64 (decimal q) * COIN + int r = n" using Atoi_decimal [OF q10] n(3) by simp
  ultimately show ?thesis using valid trimmed ends(3) loop assms by (simp add: ParseMoney_def)
qed

end
