(* ===== verification/TxVerify.thy ===== *)
theory TxVerify
  imports AssetLock SignatureHash Coins MoneyStr
begin

text \<open>
  The checks of a transaction against the coins it spends and the block it is in, \<open>src/consensus/tx_verify.cpp\<close>:
  absolute and relative lock times, signature operation counts and \<open>CheckTxInputs\<close>. The coins come from a
  \<open>CCoinsViewCache\<close> over any view that honours the contract \<open>coins_view\<close>.
\<close>

section \<open>Lock times\<close>

definition IsFinalTx :: "'a mutable_transaction_scheme \<Rightarrow> int \<Rightarrow> int \<Rightarrow> bool" where
  "IsFinalTx tx nBlockHeight nBlockTime =
     (let lock = uint (nLockTime tx) in
      if lock = 0 then True
      else if lock < (if lock < LOCKTIME_THRESHOLD then nBlockHeight else nBlockTime) then True
      else list_all (\<lambda>txin. nSequence txin = SEQUENCE_FINAL) (vin tx))"

definition LOCKTIME_VERIFY_SEQUENCE :: int where
  "LOCKTIME_VERIFY_SEQUENCE = 1"

text \<open>
  The loop over the inputs: the height and time reached so far, and \<open>prevHeights\<close>, which the code overwrites. A
  null result of \<open>GetAncestor\<close> is dereferenced.
\<close>

fun sequence_locks :: "heap \<Rightarrow> ptr \<Rightarrow> ctxin list \<Rightarrow> int list \<Rightarrow> int \<Rightarrow> int \<Rightarrow> ((int \<times> int) \<times> int list) res" where
  "sequence_locks H block (txin # ins) (nCoinHeight # prevHeights) nMinHeight nMinTime =
     (let rest = (\<lambda>x h t. res_bind (sequence_locks H block ins prevHeights h t) (\<lambda>(lockPair, phs). Inr (lockPair, x # phs)));
          seq = nSequence txin in
      if seq AND SEQUENCE_LOCKTIME_DISABLE_FLAG \<noteq> 0 then rest 0 nMinHeight nMinTime
      else if seq AND SEQUENCE_LOCKTIME_TYPE_FLAG \<noteq> 0 then
        res_bind (GetAncestor H block (max (nCoinHeight - 1) 0)) (\<lambda>anc.
          case anc of
            None \<Rightarrow> Inl ''undefined behaviour: null dereference''
          | Some q \<Rightarrow>
              rest nCoinHeight nMinHeight
                (max nMinTime (GetMedianTimePast H q
                   + uint (push_bit SEQUENCE_LOCKTIME_GRANULARITY (seq AND SEQUENCE_LOCKTIME_MASK)) - 1)))
      else rest nCoinHeight (max nMinHeight (nCoinHeight + uint (seq AND SEQUENCE_LOCKTIME_MASK) - 1)) nMinTime)"
| "sequence_locks H block _ prevHeights nMinHeight nMinTime = Inr ((nMinHeight, nMinTime), prevHeights)"

definition CalculateSequenceLocks ::
    "heap \<Rightarrow> 'a mutable_transaction_scheme \<Rightarrow> int \<Rightarrow> int list \<Rightarrow> ptr \<Rightarrow> ((int \<times> int) \<times> int list) res" where
  "CalculateSequenceLocks H tx lockFlags prevHeights block =
     (if length prevHeights \<noteq> length (vin tx) then Inl ''assert(prevHeights.size() == tx.vin.size())''
      else
        let fEnforceBIP68 = ((scast (nVersion tx) :: u32) \<ge> 2 \<and> lockFlags AND LOCKTIME_VERIFY_SEQUENCE \<noteq> 0) in
        if \<not> fEnforceBIP68 then Inr ((- 1, - 1), prevHeights)
        else sequence_locks H block (vin tx) prevHeights (- 1) (- 1))"

definition EvaluateSequenceLocks :: "heap \<Rightarrow> ptr \<Rightarrow> int \<times> int \<Rightarrow> bool res" where
  "EvaluateSequenceLocks H block lockPair =
     (case pprev (H block) of
        None \<Rightarrow> Inl ''assert(block.pprev)''
      | Some q \<Rightarrow>
          let nBlockTime = GetMedianTimePast H q in
          Inr (\<not> (fst lockPair \<ge> int (bi_height (H block)) \<or> snd lockPair \<ge> nBlockTime)))"

definition SequenceLocks ::
    "heap \<Rightarrow> 'a mutable_transaction_scheme \<Rightarrow> int \<Rightarrow> int list \<Rightarrow> ptr \<Rightarrow> (bool \<times> int list) res" where
  "SequenceLocks H tx lockFlags prevHeights block =
     res_bind (CalculateSequenceLocks H tx lockFlags prevHeights block) (\<lambda>(lockPair, phs).
       res_bind (EvaluateSequenceLocks H block lockPair) (\<lambda>ok. Inr (ok, phs)))"

section \<open>Signature operations\<close>

fun sum_sigops :: "CScript list \<Rightarrow> u32 \<Rightarrow> u32 res" where
  "sum_sigops [] nSigOps = Inr nSigOps"
| "sum_sigops (s # scripts) nSigOps = res_bind (GetSigOpCount False s) (\<lambda>n. sum_sigops scripts (nSigOps + n))"

definition GetLegacySigOpCount :: "'a mutable_transaction_scheme \<Rightarrow> u32 res" where
  "GetLegacySigOpCount tx =
     res_bind (sum_sigops (map scriptSig (vin tx)) 0) (\<lambda>n. sum_sigops (map scriptPubKey (vout tx)) n)"

fun p2sh_sigops ::
    "(coin \<Rightarrow> u64) \<Rightarrow> 'b coins_view_ops \<Rightarrow> ctxin list \<Rightarrow> u32 \<Rightarrow> 'b coins_cache \<Rightarrow> u32 res \<times> 'b coins_cache" where
  "p2sh_sigops mu V [] nSigOps inputs = (Inr nSigOps, inputs)"
| "p2sh_sigops mu V (txin # ins) nSigOps inputs =
     (case AccessCoin mu V (prevout txin) inputs of (cn, inputs') \<Rightarrow>
        if Coin_IsSpent cn then (Inl ''assert(!coin.IsSpent())'', inputs')
        else
          let spk = scriptPubKey (coin_out cn) in
          if IsPayToScriptHash spk then
            case GetSigOpCount_P2SH spk (scriptSig txin) of
              Inl e \<Rightarrow> (Inl e, inputs')
            | Inr n \<Rightarrow> p2sh_sigops mu V ins (nSigOps + n) inputs'
          else p2sh_sigops mu V ins nSigOps inputs')"

definition GetP2SHSigOpCount ::
    "(coin \<Rightarrow> u64) \<Rightarrow> 'b coins_view_ops \<Rightarrow> 'a mutable_transaction_scheme \<Rightarrow> 'b coins_cache \<Rightarrow> u32 res \<times> 'b coins_cache" where
  "GetP2SHSigOpCount mu V tx inputs = (if IsCoinBase tx then (Inr 0, inputs) else p2sh_sigops mu V (vin tx) 0 inputs)"

definition GetTransactionSigOpCount ::
    "(coin \<Rightarrow> u64) \<Rightarrow> 'b coins_view_ops \<Rightarrow> 'a mutable_transaction_scheme \<Rightarrow> script_flags \<Rightarrow> 'b coins_cache \<Rightarrow> u32 res \<times> 'b coins_cache" where
  "GetTransactionSigOpCount mu V tx f inputs =
     (case GetLegacySigOpCount tx of
        Inl e \<Rightarrow> (Inl e, inputs)
      | Inr nSigOps \<Rightarrow>
          if IsCoinBase tx then (Inr nSigOps, inputs)
          else if flag f SCRIPT_VERIFY_P2SH then
            case GetP2SHSigOpCount mu V tx inputs of (r, inputs') \<Rightarrow> (res_bind r (\<lambda>n. Inr (nSigOps + n)), inputs')
          else (Inr nSigOps, inputs))"

section \<open>CheckTxInputs\<close>

text \<open>The decimal form of a signed number in a message.\<close>

definition decimal_int :: "int \<Rightarrow> string" where
  "decimal_int n = (if n < 0 then ''-'' else []) @ decimal (nat \<bar>n\<bar>)"

text \<open>The loop over the inputs: a rejection with the state it leaves, or the sum of the values.\<close>

fun inputs_value ::
    "(coin \<Rightarrow> u64) \<Rightarrow> 'b coins_view_ops \<Rightarrow> int \<Rightarrow> ctxin list \<Rightarrow> CAmount \<Rightarrow> TxValidationState \<Rightarrow> 'b coins_cache
      \<Rightarrow> (TxValidationState + CAmount) res \<times> 'b coins_cache" where
  "inputs_value mu V nSpendHeight [] nValueIn st inputs = (Inr (Inr nValueIn), inputs)"
| "inputs_value mu V nSpendHeight (txin # ins) nValueIn st inputs =
     (case AccessCoin mu V (prevout txin) inputs of (cn, inputs') \<Rightarrow>
        if Coin_IsSpent cn then (Inl ''assert(!coin.IsSpent())'', inputs')
        else if coin_fCoinBase cn \<and> nSpendHeight - uint (coin_nHeight cn) < COINBASE_MATURITY
        then (Inr (Inl (snd (Invalid TX_PREMATURE_SPEND ''bad-txns-premature-spend-of-coinbase''
                (''tried to spend coinbase at depth '' @ decimal_int (nSpendHeight - uint (coin_nHeight cn))) st))), inputs')
        else
          let nValueIn' = nValueIn + nValue (coin_out cn) in
          if \<not> MoneyRange (nValue (coin_out cn)) \<or> \<not> MoneyRange nValueIn'
          then (Inr (Inl (snd (Invalid TX_CONSENSUS ''bad-txns-inputvalues-outofrange'' [] st))), inputs')
          else inputs_value mu V nSpendHeight ins nValueIn' st inputs')"

definition CheckTxInputs ::
    "(coin \<Rightarrow> u64) \<Rightarrow> 'b coins_view_ops \<Rightarrow> ('g, 'k) bls_library \<Rightarrow> bool \<Rightarrow> 'a mutable_transaction_scheme \<Rightarrow> TxValidationState
      \<Rightarrow> 'b coins_cache \<Rightarrow> int \<Rightarrow> CAmount \<Rightarrow> (bool \<times> TxValidationState \<times> CAmount) res \<times> 'b coins_cache" where
  "CheckTxInputs mu V B legacy tx st inputs nSpendHeight txfee =
     (if IsSpecialTxVersion tx \<and> nType tx = TRANSACTION_ASSET_UNLOCK
      then (case GetAssetUnlockFee B legacy tx txfee st of (ok, feeRet, st') \<Rightarrow> (Inr (ok, st', feeRet), inputs))
      else
        case HaveInputs mu V tx inputs of
          (False, inputs1) \<Rightarrow>
            (Inr (False, snd (Invalid TX_MISSING_INPUTS ''bad-txns-inputs-missingorspent'' ''CheckTxInputs: inputs missing/spent'' st), txfee), inputs1)
        | (True, inputs1) \<Rightarrow>
            case inputs_value mu V nSpendHeight (vin tx) 0 st inputs1 of
              (Inl e, inputs2) \<Rightarrow> (Inl e, inputs2)
            | (Inr (Inl st'), inputs2) \<Rightarrow> (Inr (False, st', txfee), inputs2)
            | (Inr (Inr nValueIn), inputs2) \<Rightarrow>
                case GetValueOut tx of
                  Inl e \<Rightarrow> (Inl e, inputs2)
                | Inr value_out \<Rightarrow>
                    if nValueIn < value_out
                    then (Inr (False, snd (Invalid TX_CONSENSUS ''bad-txns-in-belowout''
                            (''value in ('' @ FormatMoney nValueIn @ '') < value out ('' @ FormatMoney value_out @ '')'') st), txfee), inputs2)
                    else
                      let txfee_aux = nValueIn - value_out in
                      if \<not> MoneyRange txfee_aux
                      then (Inr (False, snd (Invalid TX_CONSENSUS ''bad-txns-fee-outofrange'' [] st), txfee), inputs2)
                      else (Inr (True, st, txfee_aux), inputs2))"

section \<open>What CheckTxInputs accepts\<close>

text \<open>An input that may be spent at a height, and the value of the inputs of a transaction.\<close>

definition spendable :: "utxos \<Rightarrow> int \<Rightarrow> ctxin \<Rightarrow> bool" where
  "spendable u h txin \<longleftrightarrow> (\<exists>cn. u (prevout txin) = Some cn \<and> MoneyRange (nValue (coin_out cn))
     \<and> (coin_fCoinBase cn \<longrightarrow> h - uint (coin_nHeight cn) \<ge> COINBASE_MATURITY))"

definition input_value :: "utxos \<Rightarrow> ctxin \<Rightarrow> CAmount" where
  "input_value u txin = (case u (prevout txin) of None \<Rightarrow> 0 | Some cn \<Rightarrow> nValue (coin_out cn))"

definition value_in :: "utxos \<Rightarrow> ctxin list \<Rightarrow> CAmount" where
  "value_in u ins = sum_list (map (input_value u) ins)"

definition inputs_ok :: "utxos \<Rightarrow> int \<Rightarrow> 'a mutable_transaction_scheme \<Rightarrow> bool" where
  "inputs_ok u h tx \<longleftrightarrow> (\<forall>txin\<in>set (vin tx). spendable u h txin) \<and> value_in u (vin tx) \<le> MAX_MONEY
     \<and> sum_list (map nValue (vout tx)) \<le> value_in u (vin tx)"

lemma value_in_nonneg: "\<forall>txin\<in>set ins. spendable u h txin \<Longrightarrow> 0 \<le> value_in u ins"
  unfolding value_in_def by (intro sum_list_nonneg) (fastforce simp: spendable_def input_value_def MoneyRange_def)

context coins_view
begin

lemma inputs_value_spec:
  assumes "cache_inv utxo vinv c" "\<forall>txin\<in>set ins. cache_utxo utxo c (prevout txin) \<noteq> None" "MoneyRange a" "IsValid st"
  shows "\<exists>r c'. inputs_value mu V h ins a st c = (Inr r, c') \<and> cache_inv utxo vinv c' \<and> cache_utxo utxo c' = cache_utxo utxo c
    \<and> (if (\<forall>txin\<in>set ins. spendable (cache_utxo utxo c) h txin) \<and> a + value_in (cache_utxo utxo c) ins \<le> MAX_MONEY
       then r = Inr (a + value_in (cache_utxo utxo c) ins) else \<exists>st'. r = Inl st' \<and> \<not> IsValid st')"
  using assms
proof (induction ins arbitrary: a c)
  case Nil
  then show ?case by (simp add: value_in_def MoneyRange_def)
next
  case (Cons txin ins)
  obtain cn c1 where acc: "AccessCoin mu V (prevout txin) c = (cn, c1)" by fastforce
  note u = AccessCoin_refines [OF Cons.prems(1) acc]
  have cn: "cache_utxo utxo c (prevout txin) = Some cn" "\<not> Coin_IsSpent cn" using u Cons.prems(2) by (auto split: if_splits)
  have v: "value_in (cache_utxo utxo c) (txin # ins) = nValue (coin_out cn) + value_in (cache_utxo utxo c) ins"
    using cn(1) by (simp add: value_in_def input_value_def)
  show ?case
  proof (cases "spendable (cache_utxo utxo c) h txin \<and> MoneyRange (a + nValue (coin_out cn))")
    case True
    then have step: "inputs_value mu V h (txin # ins) a st c = inputs_value mu V h ins (a + nValue (coin_out cn)) st c1"
      using acc cn by (auto simp: spendable_def Let_def)
    have eqv: "(\<forall>i\<in>set (txin # ins). spendable (cache_utxo utxo c) h i) \<and> a + value_in (cache_utxo utxo c) (txin # ins) \<le> MAX_MONEY \<longleftrightarrow>
        (\<forall>i\<in>set ins. spendable (cache_utxo utxo c) h i) \<and> (a + nValue (coin_out cn)) + value_in (cache_utxo utxo c) ins \<le> MAX_MONEY"
      "a + value_in (cache_utxo utxo c) (txin # ins) = (a + nValue (coin_out cn)) + value_in (cache_utxo utxo c) ins"
      using True v by auto
    have c1: "cache_inv utxo vinv c1" "cache_utxo utxo c1 = cache_utxo utxo c" using u by auto
    show ?thesis using Cons.IH [of c1 "a + nValue (coin_out cn)"] True c1 Cons.prems(2,4) unfolding step eqv c1(2) by simp
  next
    case False
    have bad: "\<not> ((\<forall>i\<in>set (txin # ins). spendable (cache_utxo utxo c) h i) \<and> a + value_in (cache_utxo utxo c) (txin # ins) \<le> MAX_MONEY)"
    proof
      assume *: "(\<forall>i\<in>set (txin # ins). spendable (cache_utxo utxo c) h i) \<and> a + value_in (cache_utxo utxo c) (txin # ins) \<le> MAX_MONEY"
      then have "0 \<le> value_in (cache_utxo utxo c) ins" by (intro value_in_nonneg [of _ _ h]) simp
      moreover have "0 \<le> nValue (coin_out cn)" using * cn(1) by (auto simp: spendable_def MoneyRange_def)
      ultimately have "MoneyRange (a + nValue (coin_out cn))" using * Cons.prems(3) v by (auto simp: MoneyRange_def)
      with * False show False by simp
    qed
    have "\<exists>st'. inputs_value mu V h (txin # ins) a st c = (Inr (Inl st'), c1) \<and> \<not> IsValid st'"
      using False acc cn Cons.prems(4) by (auto simp: spendable_def Let_def Invalid_def IsValid_def)
    then show ?thesis using u bad by auto
  qed
qed

lemma CheckTxInputs_spec:
  assumes "cache_inv utxo vinv c" "fst (CheckTransaction tx st0)" "\<not> IsCoinBase tx"
    and "\<not> (IsSpecialTxVersion tx \<and> nType tx = TRANSACTION_ASSET_UNLOCK)" "IsValid st"
  shows "\<exists>ok st' feeRet c'. CheckTxInputs mu V B legacy tx st c h txfee = (Inr (ok, st', feeRet), c')
    \<and> cache_inv utxo vinv c' \<and> cache_utxo utxo c' = cache_utxo utxo c \<and> ok = inputs_ok (cache_utxo utxo c) h tx
    \<and> (if ok then st' = st \<and> feeRet = value_in (cache_utxo utxo c) (vin tx) - sum_list (map nValue (vout tx)) \<and> MoneyRange feeRet
       else \<not> IsValid st' \<and> feeRet = txfee)"
proof -
  let ?u = "cache_utxo utxo c"
  obtain c1 where have_in: "HaveInputs mu V tx c = ((\<forall>i\<in>set (vin tx). ?u (prevout i) \<noteq> None), c1)"
    and c1: "cache_inv utxo vinv c1" "cache_utxo utxo c1 = ?u"
    using HaveInputs_refines [OF assms(1), of mu tx] assms(3) by auto
  note out = accepted_GetValueOut [OF assms(2)]
  show ?thesis
  proof (cases "\<forall>i\<in>set (vin tx). ?u (prevout i) \<noteq> None")
    case True
    then have hv: "HaveInputs mu V tx c = (True, c1)" using have_in by simp
    obtain r c2 where r: "inputs_value mu V h (vin tx) 0 st c1 = (Inr r, c2)" "cache_inv utxo vinv c2" "cache_utxo utxo c2 = ?u"
      and rr: "if (\<forall>i\<in>set (vin tx). spendable ?u h i) \<and> value_in ?u (vin tx) \<le> MAX_MONEY
          then r = Inr (value_in ?u (vin tx)) else \<exists>st'. r = Inl st' \<and> \<not> IsValid st'"
      using inputs_value_spec [OF c1(1), of "vin tx" 0 st mu h] True c1(2) assms(5) by (auto simp: MoneyRange_def MAX_MONEY_def COIN_def)
    show ?thesis
    proof (cases "(\<forall>i\<in>set (vin tx). spendable ?u h i) \<and> value_in ?u (vin tx) \<le> MAX_MONEY")
      case good: True
      then have "r = Inr (value_in ?u (vin tx))" "0 \<le> value_in ?u (vin tx)" using rr value_in_nonneg by auto
      then show ?thesis using hv r out good assms(4,5)
        by (auto simp: CheckTxInputs_def inputs_ok_def Let_def Invalid_def IsValid_def MoneyRange_def)
    next
      case False
      then obtain st' where "r = Inl st'" "\<not> IsValid st'" using rr unfolding if_not_P [OF False] by blast
      then show ?thesis using hv r False assms(4) by (auto simp: CheckTxInputs_def inputs_ok_def)
    qed
  next
    case False
    then have "\<not> inputs_ok ?u h tx" unfolding inputs_ok_def spendable_def by (metis option.distinct(1))
    moreover have "HaveInputs mu V tx c = (False, c1)" using have_in False by simp
    then have "CheckTxInputs mu V B legacy tx st c h txfee =
        (Inr (False, snd (Invalid TX_MISSING_INPUTS ''bad-txns-inputs-missingorspent'' ''CheckTxInputs: inputs missing/spent'' st), txfee), c1)"
      unfolding CheckTxInputs_def if_not_P [OF assms(4)] by simp
    moreover have "\<not> IsValid (snd (Invalid TX_MISSING_INPUTS reason msg st))" for reason msg by (simp add: Invalid_def IsValid_def)
    ultimately show ?thesis using c1 by (intro exI conjI) (assumption | simp)+
  qed
qed

end


section \<open>Lock times are enforced\<close>

lemma seq_flags:
  "uint SEQUENCE_LOCKTIME_TYPE_FLAG = 4194304" "uint SEQUENCE_LOCKTIME_MASK = 65535"
  "uint (SEQUENCE_LOCKTIME_TYPE_FLAG OR SEQUENCE_LOCKTIME_MASK) = 4259839" "uint SEQUENCE_LOCKTIME_DISABLE_FLAG = 2147483648"
  by (simp_all add: SEQUENCE_LOCKTIME_TYPE_FLAG_def SEQUENCE_LOCKTIME_MASK_def SEQUENCE_LOCKTIME_DISABLE_FLAG_def)

lemma and_exp: "n AND 2 ^ k = (if bit n k then 2 ^ k else 0)" for n :: int
  by (rule bit_eqI) (auto simp: bit_simps)

text \<open>The masked sequence number is the type flag plus the value.\<close>

lemma masked_sequence:
  fixes n :: int
  shows "n AND 4259839 = (n AND 4194304) + (n AND 65535)" "n AND 4194304 = 0 \<or> n AND 4194304 = 4194304"
    "0 \<le> n AND 65535" "n AND 65535 < 65536"
proof -
  have "n AND 4259839 = (n AND 4194304) OR (n AND 65535)"
    using bit.conj_disj_distrib [of n 4194304 65535] by simp
  moreover have "(n AND 4194304) AND (n AND 65535) = n AND (4194304 AND 65535)" by (simp only: ac_simps and.left_idem)
  ultimately show "n AND 4259839 = (n AND 4194304) + (n AND 65535)" by (simp add: disjunctive_add_eq_or)
  show "n AND 4194304 = 0 \<or> n AND 4194304 = 4194304" using and_exp [of n 22] by (auto split: if_splits)
  have "n AND 65535 = take_bit 16 n" by (simp add: take_bit_eq_mask mask_eq_exp_minus_1)
  then show "0 \<le> n AND 65535" "n AND 65535 < 65536" using take_bit_int_less_exp [of 16 n] by simp_all
qed

text \<open>A relative lock: the type flag and the value of a sequence number, at a coin height, in a block.\<close>

definition relative_lock_satisfied :: "heap \<Rightarrow> ptr \<Rightarrow> int \<Rightarrow> int \<Rightarrow> bool" where
  "relative_lock_satisfied H block nCoinHeight n \<longleftrightarrow>
     (if n AND uint SEQUENCE_LOCKTIME_TYPE_FLAG \<noteq> 0
      then \<exists>anc prev. GetAncestor H block (max (nCoinHeight - 1) 0) = Inr (Some anc) \<and> pprev (H block) = Some prev
        \<and> GetMedianTimePast H anc + (n AND uint SEQUENCE_LOCKTIME_MASK) * 512 \<le> GetMedianTimePast H prev
      else nCoinHeight + (n AND uint SEQUENCE_LOCKTIME_MASK) \<le> int (bi_height (H block)))"

definition lock_below :: "heap \<Rightarrow> ptr \<Rightarrow> int \<times> int \<Rightarrow> u32 \<Rightarrow> int \<Rightarrow> bool" where
  "lock_below H block lockPair seq nCoinHeight \<longleftrightarrow>
     (if seq AND SEQUENCE_LOCKTIME_TYPE_FLAG \<noteq> 0
      then \<exists>anc. GetAncestor H block (max (nCoinHeight - 1) 0) = Inr (Some anc)
        \<and> GetMedianTimePast H anc + uint (push_bit SEQUENCE_LOCKTIME_GRANULARITY (seq AND SEQUENCE_LOCKTIME_MASK)) - 1 \<le> snd lockPair
      else nCoinHeight + uint (seq AND SEQUENCE_LOCKTIME_MASK) - 1 \<le> fst lockPair)"

lemma sequence_locks_bounds:
  assumes "sequence_locks H block ins prevHeights h t = Inr (lockPair, phs)" "length prevHeights = length ins"
  shows "h \<le> fst lockPair \<and> t \<le> snd lockPair \<and> (\<forall>i<length ins. nSequence (ins ! i) AND SEQUENCE_LOCKTIME_DISABLE_FLAG = 0
    \<longrightarrow> lock_below H block lockPair (nSequence (ins ! i)) (prevHeights ! i))"
  using assms(2,1)
proof (induction prevHeights ins arbitrary: h t lockPair phs rule: list_induct2)
  case Nil
  then show ?case by auto
next
  case (Cons nCoinHeight prevHeights txin ins)
  define seq where "seq = nSequence txin"
  have "\<exists>h' t' phs'. sequence_locks H block ins prevHeights h' t' = Inr (lockPair, phs') \<and> h \<le> h' \<and> t \<le> t'
    \<and> (seq AND SEQUENCE_LOCKTIME_DISABLE_FLAG = 0 \<longrightarrow> lock_below H block (h', t') seq nCoinHeight)"
  proof (cases "seq AND SEQUENCE_LOCKTIME_DISABLE_FLAG \<noteq> 0 \<or> seq AND SEQUENCE_LOCKTIME_TYPE_FLAG = 0")
    case True
    then show ?thesis using Cons.prems by (fastforce simp: seq_def [symmetric] lock_below_def Let_def res_bind_Inr_iff split: if_splits)
  next
    case False
    then obtain anc where "GetAncestor H block (max (nCoinHeight - 1) 0) = Inr (Some anc)"
      using Cons.prems by (auto simp: seq_def [symmetric] Let_def res_bind_Inr_iff split: option.splits)
    then show ?thesis using False Cons.prems by (fastforce simp: seq_def [symmetric] lock_below_def Let_def res_bind_Inr_iff)
  qed
  then obtain h' t' phs' where rest: "sequence_locks H block ins prevHeights h' t' = Inr (lockPair, phs')" "h \<le> h'" "t \<le> t'"
    and here: "seq AND SEQUENCE_LOCKTIME_DISABLE_FLAG = 0 \<Longrightarrow> lock_below H block (h', t') seq nCoinHeight" by blast
  note ih = Cons.IH [OF rest(1)]
  have "lock_below H block lockPair seq nCoinHeight" if "seq AND SEQUENCE_LOCKTIME_DISABLE_FLAG = 0"
    using here [OF that] ih by (auto simp: lock_below_def split: if_splits)
  then show ?case using ih rest(2,3) by (auto simp: seq_def nth_Cons split: nat.split)
qed

lemma shifted_sequence:
  "uint (push_bit SEQUENCE_LOCKTIME_GRANULARITY (seq AND SEQUENCE_LOCKTIME_MASK)) = (uint seq AND 65535) * 512" for seq :: u32
proof -
  have "uint (push_bit 9 (seq AND SEQUENCE_LOCKTIME_MASK)) = take_bit 32 (push_bit 9 (uint seq AND 65535))"
    by (simp add: unsigned_push_bit_eq unsigned_and_eq seq_flags)
  also have "\<dots> = (uint seq AND 65535) * 512"
    using masked_sequence(3,4) [of "uint seq"] by (simp add: push_bit_eq_mult take_bit_int_eq_self)
  finally show ?thesis by (simp add: SEQUENCE_LOCKTIME_GRANULARITY_def)
qed

lemma CheckSequence_masked:
  assumes "Generic_CheckSequence tx nIn n = Inr True"
  shows "unat nIn < length (vin tx)" "(scast (nVersion tx) :: u32) \<ge> 2"
    "nSequence (vin tx ! unat nIn) AND SEQUENCE_LOCKTIME_DISABLE_FLAG = 0"
    "(uint (nSequence (vin tx ! unat nIn)) AND 4194304 = 0) = (n AND 4194304 = 0)"
    "n AND 65535 \<le> uint (nSequence (vin tx ! unat nIn)) AND 65535"
proof -
  define s where "s = nSequence (vin tx ! unat nIn)"
  have c: "unat nIn < length (vin tx)" "\<not> (scast (nVersion tx) :: u32) < 2" "uint s AND uint SEQUENCE_LOCKTIME_DISABLE_FLAG = 0"
    "(uint s AND 4259839 < 4194304 \<and> n AND 4259839 < 4194304) \<or> (uint s AND 4259839 \<ge> 4194304 \<and> n AND 4259839 \<ge> 4194304)"
    "n AND 4259839 \<le> uint s AND 4259839"
    using assms unfolding Generic_CheckSequence_def s_def [symmetric] Let_def seq_flags by (auto split: if_splits)
  show "unat nIn < length (vin tx)" "(scast (nVersion tx) :: u32) \<ge> 2" using c by auto
  have "uint (s AND SEQUENCE_LOCKTIME_DISABLE_FLAG) = 0" using c(3) by (simp add: unsigned_and_eq)
  then show "nSequence (vin tx ! unat nIn) AND SEQUENCE_LOCKTIME_DISABLE_FLAG = 0" by (simp add: s_def unsigned_eq_0_iff)
  show "(uint (nSequence (vin tx ! unat nIn)) AND 4194304 = 0) = (n AND 4194304 = 0)"
    "n AND 65535 \<le> uint (nSequence (vin tx ! unat nIn)) AND 65535"
    using c(4,5) masked_sequence [of n] masked_sequence [of "uint s"] unfolding s_def by linarith+
qed

text \<open>
  C23: \<open>OP_CHECKLOCKTIMEVERIFY\<close> is enforced. When the opcode succeeds with the flag set, on an input of a
  transaction that \<open>IsFinalTx\<close> lets into a block, the number on the stack is a height below the height of the block
  or a time below its time (or zero, which locks nothing), and the stack is not changed.
\<close>

theorem checklocktimeverify_enforced:
  assumes "op_checklocktimeverify env st = Inr st'" "flag (flags env) SCRIPT_VERIFY_CHECKLOCKTIMEVERIFY"
    and "checker env = TransactionSignatureChecker e tx nIn" "IsFinalTx tx nBlockHeight nBlockTime"
  shows "\<exists>x rest n. stack st = x # rest \<and> scriptnum env x 5 = Inr n \<and> st' = st \<and> 0 \<le> n
    \<and> (n = 0 \<or> n < (if n < LOCKTIME_THRESHOLD then nBlockHeight else nBlockTime))"
proof -
  obtain x rest n where x: "stack st = x # rest" "scriptnum env x 5 = Inr n" "st' = st" "0 \<le> n"
    and chk: "Generic_CheckLockTime tx nIn n = Inr True"
    using assms(1-3) by (auto simp: op_checklocktimeverify_def TransactionSignatureChecker_def res_bind_Inr_iff asserting_Inr_iff
      split: list.splits if_splits)
  have lock: "(uint (nLockTime tx) < LOCKTIME_THRESHOLD) = (n < LOCKTIME_THRESHOLD)" "n \<le> uint (nLockTime tx)"
    "unat nIn < length (vin tx)" "nSequence (vin tx ! unat nIn) \<noteq> SEQUENCE_FINAL"
    using chk by (auto simp: Generic_CheckLockTime_def Let_def split: if_splits)
  have "\<not> list_all (\<lambda>i. nSequence i = SEQUENCE_FINAL) (vin tx)" using lock(3,4) by (auto simp: list_all_length)
  then have "uint (nLockTime tx) = 0 \<or> uint (nLockTime tx) < (if uint (nLockTime tx) < LOCKTIME_THRESHOLD then nBlockHeight else nBlockTime)"
    using assms(4) by (auto simp: IsFinalTx_def Let_def split: if_splits)
  then have "n = 0 \<or> n < (if n < LOCKTIME_THRESHOLD then nBlockHeight else nBlockTime)" using lock(1,2) x(4) by (auto split: if_splits)
  then show ?thesis using x by blast
qed

text \<open>
  C24: \<open>OP_CHECKSEQUENCEVERIFY\<close> is enforced. When the opcode succeeds with the flag set, on an input of a transaction
  whose \<open>SequenceLocks\<close> hold in a block, and the number on the stack does not disable the lock, then that
  many blocks, or that many times 512 seconds of median time, have passed since the block of the coin spent.
\<close>

theorem checksequenceverify_enforced:
  assumes "op_checksequenceverify env st = Inr st'" "flag (flags env) SCRIPT_VERIFY_CHECKSEQUENCEVERIFY"
    and "checker env = TransactionSignatureChecker e tx nIn"
    and "SequenceLocks H tx LOCKTIME_VERIFY_SEQUENCE prevHeights block = Inr (True, phs)"
  shows "\<exists>x rest n. stack st = x # rest \<and> scriptnum env x 5 = Inr n \<and> st' = st \<and> 0 \<le> n
    \<and> (n AND uint SEQUENCE_LOCKTIME_DISABLE_FLAG \<noteq> 0 \<or> relative_lock_satisfied H block (prevHeights ! unat nIn) n)"
proof -
  obtain x rest n where x: "stack st = x # rest" "scriptnum env x 5 = Inr n" "st' = st" "0 \<le> n"
    and chk: "n AND uint SEQUENCE_LOCKTIME_DISABLE_FLAG \<noteq> 0 \<or> Generic_CheckSequence tx nIn n = Inr True"
    using assms(1-3) by (auto simp: op_checksequenceverify_def TransactionSignatureChecker_def res_bind_Inr_iff asserting_Inr_iff
      split: list.splits if_splits)
  have "relative_lock_satisfied H block (prevHeights ! unat nIn) n" if hyp: "Generic_CheckSequence tx nIn n = Inr True"
  proof -
    note m = CheckSequence_masked [OF hyp]
    let ?s = "nSequence (vin tx ! unat nIn)" and ?h = "prevHeights ! unat nIn"
    obtain lockPair where calc: "CalculateSequenceLocks H tx LOCKTIME_VERIFY_SEQUENCE prevHeights block = Inr (lockPair, phs)"
      and ev: "EvaluateSequenceLocks H block lockPair = Inr True"
      using assms(4) by (auto simp: SequenceLocks_def res_bind_Inr_iff)
    have len: "length prevHeights = length (vin tx)"
      and locks: "sequence_locks H block (vin tx) prevHeights (- 1) (- 1) = Inr (lockPair, phs)"
      using calc m(2) by (auto simp: CalculateSequenceLocks_def LOCKTIME_VERIFY_SEQUENCE_def Let_def split: if_splits)
    have below: "lock_below H block lockPair ?s ?h" using sequence_locks_bounds [OF locks len] m(1,3) by blast
    obtain prev where prev: "pprev (H block) = Some prev" "fst lockPair < int (bi_height (H block))" "snd lockPair < GetMedianTimePast H prev"
      using ev by (auto simp: EvaluateSequenceLocks_def Let_def split: option.splits)
    have "uint (?s AND SEQUENCE_LOCKTIME_TYPE_FLAG) = uint ?s AND 4194304" by (simp add: unsigned_and_eq seq_flags)
    then have ty: "(?s AND SEQUENCE_LOCKTIME_TYPE_FLAG = 0) = (n AND 4194304 = 0)" using m(4) by (metis unsigned_eq_0_iff)
    have val: "uint (?s AND SEQUENCE_LOCKTIME_MASK) = uint ?s AND 65535" by (simp add: unsigned_and_eq seq_flags)
    show ?thesis
      using below ty val m(5) prev unfolding relative_lock_satisfied_def lock_below_def shifted_sequence seq_flags
      by (cases "n AND 4194304 = 0") force+
  qed
  then show ?thesis using x chk by blast
qed

text \<open>
  C6: \<open>CheckTxInputs\<close> lets no transaction create money. Over any base that honours the contract of a view, for a
  transaction that \<open>CheckTransaction\<close> accepts and that is neither a coinbase nor an asset unlock, no assertion fails and
  nothing is thrown; it is accepted exactly when every input is an unspent coin, matured if it is a coinbase's,
  the values are in range and the outputs are at most the inputs. The fee is then the difference and
  the state is untouched, otherwise the state is invalid; the unspent coins stay the same.
\<close>

theorem CheckTxInputs_correct:
  assumes "coins_view V utxo best vinv" "cache_inv utxo vinv c" "fst (CheckTransaction tx st0)" "\<not> IsCoinBase tx"
    and "\<not> (IsSpecialTxVersion tx \<and> nType tx = TRANSACTION_ASSET_UNLOCK)" "IsValid st"
  shows "\<exists>ok st' feeRet c'. CheckTxInputs mu V B legacy tx st c nSpendHeight txfee = (Inr (ok, st', feeRet), c')
    \<and> cache_inv utxo vinv c' \<and> cache_utxo utxo c' = cache_utxo utxo c \<and> ok = inputs_ok (cache_utxo utxo c) nSpendHeight tx
    \<and> (if ok then st' = st \<and> feeRet = value_in (cache_utxo utxo c) (vin tx) - sum_list (map nValue (vout tx)) \<and> MoneyRange feeRet
       else \<not> IsValid st' \<and> feeRet = txfee)"
  by (rule coins_view.CheckTxInputs_spec [OF assms])

section \<open>Witnesses\<close>

definition sample_inputs :: "unit coins_cache" where
  "sample_inputs = (CCoinsViewCache ())
     \<lparr>cacheCoins := [(\<lparr>op_hash = 1, op_n = 0\<rparr>, \<lparr>entry_coin = sample_coin, DIRTY = True, FRESH = True\<rparr>)]\<rparr>"

definition sample_spend :: mutable_transaction where
  "sample_spend = \<lparr>vin = [\<lparr>prevout = \<lparr>op_hash = 1, op_n = 0\<rparr>, scriptSig = [], nSequence = 10\<rparr>],
     vout = [\<lparr>nValue = 3, scriptPubKey = [0x51]\<rparr>], nVersion = 2, nType = 0, nLockTime = 200, vExtraPayload = []\<rparr>"

theorem CheckTxInputs_correct_witness:
  "\<exists>st' c'. CheckTxInputs (\<lambda>_. 0) CCoinsView_ops sample_bls False sample_spend TxValidationState_init sample_inputs 200 0 = (Inr (True, st', 2), c')
     \<and> inputs_ok (cache_utxo (\<lambda>_ _. None) sample_inputs) 200 sample_spend"
proof -
  have "\<not> Coin_IsSpent sample_coin" by code_simp
  then have inv: "cache_inv (\<lambda>_ _. None) (\<lambda>_. True) sample_inputs" and u: "cache_utxo (\<lambda>_ _. None) sample_inputs \<lparr>op_hash = 1, op_n = 0\<rparr> = Some sample_coin"
    by (simp_all add: cache_inv_def cache_utxo_def CCoinsViewCache_def sample_inputs_def entry_inv_def entry_abs_def entry_attr_ok_def)
  have tx: "fst (CheckTransaction sample_spend TxValidationState_init)" "\<not> IsCoinBase sample_spend"
    "\<not> (IsSpecialTxVersion sample_spend \<and> nType sample_spend = TRANSACTION_ASSET_UNLOCK)" "IsValid TxValidationState_init" by code_simp+
  have cn: "MoneyRange (nValue (coin_out sample_coin))" "nValue (coin_out sample_coin) = 5" "uint (coin_nHeight sample_coin) = 100" by code_simp+
  have v: "value_in (cache_utxo (\<lambda>_ _. None) sample_inputs) (vin sample_spend) = 5"
    using u cn by (simp add: value_in_def input_value_def sample_spend_def)
  have ok: "inputs_ok (cache_utxo (\<lambda>_ _. None) sample_inputs) 200 sample_spend"
    using u cn v by (simp add: inputs_ok_def spendable_def) (simp add: sample_spend_def MAX_MONEY_def COIN_def COINBASE_MATURITY_def)
  have "sum_list (map nValue (vout sample_spend)) = 3" by (simp add: sample_spend_def)
  then show ?thesis
    using CheckTxInputs_correct [OF no_coins.coins_view_axioms inv tx, of "\<lambda>_. 0" sample_bls False 200 0] ok v by auto
qed

definition sample_timelock_env :: eval_env where
  "sample_timelock_env =
     \<lparr>flags = SCRIPT_VERIFY_CHECKLOCKTIMEVERIFY OR SCRIPT_VERIFY_CHECKSEQUENCEVERIFY,
      checker = TransactionSignatureChecker \<lparr>pubkey_verify = (\<lambda>_ _ _. False), CheckLowS = (\<lambda>_. False)\<rparr> sample_spend 0,
      ec = \<lparr>pubkey_verify = (\<lambda>_ _ _. False), CheckLowS = (\<lambda>_. False)\<rparr>\<rparr>"

definition sample_timelock_state :: "bytes \<Rightarrow> eval_state" where
  "sample_timelock_state x = \<lparr>stack = [x], altstack = [], vfExec = cs_init, nOpCount = 0, pbegincodehash = []\<rparr>"

theorem checklocktimeverify_enforced_witness:
  "IsFinalTx sample_spend 201 0 \<and> (\<exists>n. scriptnum sample_timelock_env [100] 5 = Inr n \<and> n < 201)"
proof -
  have "op_checklocktimeverify sample_timelock_env (sample_timelock_state [100]) = Inr (sample_timelock_state [100])"
    "flag (flags sample_timelock_env) SCRIPT_VERIFY_CHECKLOCKTIMEVERIFY" "IsFinalTx sample_spend 201 0" by code_simp+
  moreover note checklocktimeverify_enforced [OF this(1,2) _ this(3), of "\<lparr>pubkey_verify = (\<lambda>_ _ _. False), CheckLowS = (\<lambda>_. False)\<rparr>" 0]
  moreover have "scriptnum sample_timelock_env [100] 5 = Inr 100" by code_simp
  ultimately show ?thesis by (simp add: sample_timelock_env_def sample_timelock_state_def)
qed

theorem checksequenceverify_enforced_witness:
  "SequenceLocks sample_heap sample_spend LOCKTIME_VERIFY_SEQUENCE [5] 20 = Inr (True, [5]) \<and> relative_lock_satisfied sample_heap 20 5 8"
proof -
  have c: "op_checksequenceverify sample_timelock_env (sample_timelock_state [8]) = Inr (sample_timelock_state [8])"
    "flag (flags sample_timelock_env) SCRIPT_VERIFY_CHECKSEQUENCEVERIFY"
    "SequenceLocks sample_heap sample_spend LOCKTIME_VERIFY_SEQUENCE [5] 20 = Inr (True, [5])" by code_simp+
  have "scriptnum sample_timelock_env [8] 5 = Inr 8" "(8 :: int) AND uint SEQUENCE_LOCKTIME_DISABLE_FLAG = 0" by code_simp+
  with checksequenceverify_enforced [OF c(1,2) _ c(3), of "\<lparr>pubkey_verify = (\<lambda>_ _ _. False), CheckLowS = (\<lambda>_. False)\<rparr>" 0] c(3)
  show ?thesis by (simp add: sample_timelock_env_def sample_timelock_state_def)
qed

end
