(* ===== verification/Sha256D64.thy ===== *)
theory Sha256D64
  imports Hashing
begin

text \<open>
  \<open>SHA256D64\<close> of \<open>src/crypto/sha256.cpp\<close>, the specialised double SHA-256 of 64-byte blocks that the Merkle tree
  uses: the portable \<open>TransformD64\<close> with the constants of the padding folded into the rounds. It computes the
  double hash of each block.
\<close>

section \<open>The specialised transformation\<close>

text \<open>The registers after a list of rounds, added to the initial values (\<open>t0, ..., t7\<close> of the source).\<close>

definition add_regs :: "u32 list \<Rightarrow> sha256_regs \<Rightarrow> u32 list" where
  "add_regs s r = (case r of (a, b, c, d, e, f, g, h) \<Rightarrow>
     [s ! 0 + a, s ! 1 + b, s ! 2 + c, s ! 3 + d, s ! 4 + e, s ! 5 + f, s ! 6 + g, s ! 7 + h])"

definition regs_of :: "u32 list \<Rightarrow> sha256_regs" where
  "regs_of s = (s ! 0, s ! 1, s ! 2, s ! 3, s ! 4, s ! 5, s ! 6, s ! 7)"

definition d64_transform1 :: "bytes \<Rightarrow> u32 list" where
  "d64_transform1 data =
     (let w = map (\<lambda>i. ReadBE32 (drop (4 * i) data)) [0..<16] in
      add_regs sha256_Initialize (fst (fold sha256_step [0..<64] (regs_of sha256_Initialize, w))))"

text \<open>The arguments of \<open>Round\<close> in the second transformation, and of rounds 8 to 15 of the third.\<close>

definition d64_constants :: "u32 list" where
  "d64_constants =
    [0xc28a2f98, 0x71374491, 0xb5c0fbcf, 0xe9b5dba5, 0x3956c25b, 0x59f111f1, 0x923f82a4,
     0xab1c5ed5, 0xd807aa98, 0x12835b01, 0x243185be, 0x550c7dc3, 0x72be5d74, 0x80deb1fe,
     0x9bdc06a7, 0xc19bf374, 0x649b69c1, 0xf0fe4786, 0x0fe1edc6, 0x240cf254, 0x4fe9346f,
     0x6cc984be, 0x61b9411e, 0x16f988fa, 0xf2c65152, 0xa88e5a6d, 0xb019fc65, 0xb9d99ec7,
     0x9a1231c3, 0xe70eeaa0, 0xfdb1232b, 0xc7353eb0, 0x3069bad5, 0xcb976d5f, 0x5a0f118f,
     0xdc1eeefd, 0x0a35b689, 0xde0b7a04, 0x58f4ca9d, 0xe15d5b16, 0x007f3e86, 0x37088980,
     0xa507ea32, 0x6fab9537, 0x17406110, 0x0d8cd6f1, 0xcdaa3b6d, 0xc0bbbe37, 0x83613bda,
     0xdb48a363, 0x0b02e931, 0x6fd15ca7, 0x521afaca, 0x31338431, 0x6ed41a95, 0x6d437890,
     0xc39c91f2, 0x9eccabbd, 0xb5c9a0e6, 0x532fb63c, 0xd2c741c6, 0x07237ea3, 0xa4954b68, 0x4c191d76]"

definition d64_tail :: "u32 list" where
  "d64_tail = [0x5807aa98, 0x12835b01, 0x243185be, 0x550c7dc3, 0x72be5d74, 0x80deb1fe, 0x9bdc06a7, 0xc19bf274]"

definition d64_transform2 :: "u32 list \<Rightarrow> u32 list" where
  "d64_transform2 t = add_regs t (fold sha256_Round d64_constants (regs_of t))"

text \<open>The message words in rounds 16 to 31 of the third transformation, without the words that are constant.\<close>

definition d64_schedule :: "nat \<Rightarrow> u32 list \<Rightarrow> u32 list" where
  "d64_schedule i w =
     (let j = i - 16 in
      w[j := (if i = 16 then w ! 0 + sigma0 (w ! 1)
              else if i = 17 then w ! 1 + (0xa00000 + sigma0 (w ! 2))
              else if i \<le> 21 then w ! j + (sigma1 (w ! (j - 2)) + sigma0 (w ! (j + 1)))
              else if i = 22 then w ! 6 + (sigma1 (w ! 4) + 0x100 + sigma0 (w ! 7))
              else if i = 23 then w ! 7 + (sigma1 (w ! 5) + w ! 0 + 0x11002000)
              else if i = 24 then 0x80000000 + sigma1 (w ! 6) + w ! 1
              else if i \<le> 29 then sigma1 (w ! (j - 2)) + w ! (j - 7)
              else if i = 30 then sigma1 (w ! 12) + w ! 7 + 0x400022
              else 0x100 + sigma1 (w ! 13) + w ! 8 + sigma0 (w ! 0))])"

definition d64_step :: "nat \<Rightarrow> sha256_regs \<times> u32 list \<Rightarrow> sha256_regs \<times> u32 list" where
  "d64_step i rw =
     (let w = (if i < 32 then d64_schedule i (snd rw) else sha256_schedule i (snd rw)); (k, j) = sha256_rounds ! i in
      (sha256_Round (k + w ! j) (fst rw), w))"

definition d64_transform3 :: "u32 list \<Rightarrow> u32 list" where
  "d64_transform3 w =
     (let regs1 = fold (\<lambda>i. sha256_Round (fst (sha256_rounds ! i) + w ! i)) [0..<8] (regs_of sha256_Initialize);
          regs2 = fold sha256_Round d64_tail regs1 in
      add_regs sha256_Initialize (fst (fold d64_step [16..<64] (regs2, w @ replicate 8 0))))"

definition TransformD64 :: "bytes \<Rightarrow> bytes" where
  "TransformD64 data = concat (map WriteBE32 (d64_transform3 (d64_transform2 (d64_transform1 data))))"

text \<open>
  The loop over the blocks; the variants for several blocks at once are null without SIMD. Each output lies
  behind the input that is still to be read, so that both may be the same buffer.
\<close>

fun SHA256D64 :: "bytes \<Rightarrow> nat \<Rightarrow> bytes" where
  "SHA256D64 data 0 = []"
| "SHA256D64 data (Suc blocks) = TransformD64 data @ SHA256D64 (drop 64 data) blocks"

section \<open>Rounds and message words\<close>

fun round_words :: "nat list \<Rightarrow> u32 list \<Rightarrow> u32 list" where
  "round_words [] w = []"
| "round_words (i # is) w =
     (let w' = sha256_schedule i w in (fst (sha256_rounds ! i) + w' ! snd (sha256_rounds ! i)) # round_words is w')"

lemma fold_sha256_step: "fst (fold sha256_step ixs (r, w)) = fold sha256_Round (round_words ixs w) r"
  by (induction ixs arbitrary: r w) (simp_all add: sha256_step_def Let_def split: prod.split)

lemma sha256_Transform_rounds:
  "sha256_Transform s chunk = add_regs s (fold sha256_Round (round_words [0..<64] (map (\<lambda>i. ReadBE32 (drop (4 * i) chunk)) [0..<16])) (regs_of s))"
  unfolding fold_sha256_step [symmetric] by (simp add: sha256_Transform_def add_regs_def regs_of_def Let_def split: prod.split)

lemma transform1_eq: "d64_transform1 data = sha256_Transform sha256_Initialize data"
  by (simp add: d64_transform1_def sha256_Transform_rounds fold_sha256_step Let_def)

text \<open>The padding of a message of 64 bytes, and its words.\<close>

definition padding64 :: bytes where
  "padding64 = 0x80 # replicate 55 0 @ WriteBE64 512"

text \<open>The same with the constants of the rounds as an argument, to evaluate it on the words of the padding.\<close>

fun const_words :: "(nat \<times> u32 \<times> nat) list \<Rightarrow> u32 list \<Rightarrow> u32 list"
  and const_next :: "u32 \<Rightarrow> nat \<Rightarrow> (nat \<times> u32 \<times> nat) list \<Rightarrow> u32 list \<Rightarrow> u32 list" where
  "const_words [] w = []"
| "const_words ((i, k, j) # ks) w = const_next k j ks (sha256_schedule i w)"
| "const_next k j ks [] = []"
| "const_next k j ks (x # w) = (k + (x # w) ! j) # const_words ks (x # w)"

lemma sha256_schedule_Nil [simp]: "sha256_schedule i w = [] \<longleftrightarrow> w = []"
  by (simp add: sha256_schedule_def Let_def)

lemma round_words_const: "w \<noteq> [] \<Longrightarrow> round_words ixs w = const_words (map (\<lambda>i. (i, sha256_rounds ! i)) ixs) w"
proof (induction ixs arbitrary: w)
  case (Cons i ixs)
  then have "sha256_schedule i w \<noteq> []" by simp
  then show ?case
    using Cons.IH by (cases "sha256_schedule i w"; cases "sha256_rounds ! i") (simp_all add: Let_def)
qed simp

lemma rounds_zip: "map (\<lambda>i. (i, sha256_rounds ! i)) [0..<64] = zip [0..<64] sha256_rounds"
proof -
  have "length sha256_rounds = 64" by (simp add: sha256_rounds_def)
  then show ?thesis by (intro nth_equalityI) simp_all
qed

lemma list_update_Cons: "(x # xs)[i := v] = (if i = 0 then v # xs else x # xs[i - 1 := v])"
  by (cases i) simp_all

lemma padding64_words:
  "map (\<lambda>i. ReadBE32 (drop (4 * i) padding64)) [0..<16] = [0x80000000, 0, 0, 0, 0, 0, 0, 0, 0, 0, 0, 0, 0, 0, 0, 0x200]"
  by code_simp

lemma upt_64: "[0..<64] = [0, 1, 2, 3, 4, 5, 6, 7, 8, 9, 10, 11, 12, 13, 14, 15,
    16, 17, 18, 19, 20, 21, 22, 23, 24, 25, 26, 27, 28, 29, 30, 31,
    32, 33, 34, 35, 36, 37, 38, 39, 40, 41, 42, 43, 44, 45, 46, 47,
    48, 49, 50, 51, 52, 53, 54, 55, 56, 57, 58, 59, 60, 61, 62, 63]"
  by code_simp

lemma padding64_rounds:
  "round_words [0..<64] (map (\<lambda>i. ReadBE32 (drop (4 * i) padding64)) [0..<16]) = d64_constants"
proof -
  have "const_words (zip [0..<64] sha256_rounds) [0x80000000, 0, 0, 0, 0, 0, 0, 0, 0, 0, 0, 0, 0, 0, 0, 0x200] = d64_constants"
    unfolding upt_64 d64_constants_def sha256_rounds_def
    by (simp add: list_update_Cons sha256_schedule_def sigma0_def sigma1_def rotr32_def)
  then show ?thesis by (simp add: padding64_words round_words_const rounds_zip)
qed

lemma transform2_eq: "d64_transform2 t = sha256_Transform t padding64"
  by (simp only: d64_transform2_def sha256_Transform_rounds padding64_rounds)

section \<open>The third transformation\<close>

text \<open>The words of a message of 32 bytes with its padding: the words from 8 on are constant until round 24.\<close>

definition padding32_words :: "u32 list" where
  "padding32_words = [0, 0, 0, 0, 0, 0, 0, 0, 0x80000000, 0, 0, 0, 0, 0, 0, 0x100]"

definition fill :: "nat \<Rightarrow> u32 list \<Rightarrow> u32 list" where
  "fill i w = (let n = max 8 (i - 16) in take n w @ drop n padding32_words)"

lemma list_16_cases:
  assumes "length w = 16"
  obtains x0 x1 x2 x3 x4 x5 x6 x7 x8 x9 x10 x11 x12 x13 x14 x15
  where "w = [x0, x1, x2, x3, x4, x5, x6, x7, x8, x9, x10, x11, x12, x13, x14, x15]"
  using assms by (auto simp: numeral_eq_Suc length_Suc_conv)

lemma sigma_constants:
  "sigma0 0 = 0" "sigma1 0 = 0" "sigma0 0x80000000 = 0x11002000" "sigma1 0x100 = 0xa00000" "sigma0 0x100 = 0x400022"
  by (simp_all add: sigma0_def sigma1_def rotr32_def)

lemma between_16_32:
  "16 \<le> i \<Longrightarrow> i < 32 \<Longrightarrow> i \<in> {16, 17, 18, 19, 20, 21, 22, 23, 24, 25, 26, 27, 28, 29, 30, 31 :: nat}"
  unfolding insert_iff empty_iff by presburger

lemma schedule_fill:
  assumes "16 \<le> i" "i < 32" "length w = 16"
  shows "sha256_schedule i (fill i w) = fill (Suc i) (d64_schedule i w)"
proof -
  obtain x0 x1 x2 x3 x4 x5 x6 x7 x8 x9 x10 x11 x12 x13 x14 x15
    where w: "w = [x0, x1, x2, x3, x4, x5, x6, x7, x8, x9, x10, x11, x12, x13, x14, x15]"
    using list_16_cases [OF assms(3)] by metis
  show ?thesis
    using between_16_32 [OF assms(1,2)] unfolding w
    by (auto simp: fill_def sha256_schedule_def d64_schedule_def padding32_words_def sigma_constants
        list_update_Cons Let_def)
qed

lemma rounds_index: "i < 64 \<Longrightarrow> snd (sha256_rounds ! i) = i mod 16"
proof -
  have "\<forall>i<64. snd (sha256_rounds ! i) = i mod 16" by code_simp
  then show "i < 64 \<Longrightarrow> snd (sha256_rounds ! i) = i mod 16" by blast
qed

lemma length_d64_schedule [simp]: "length (d64_schedule i w) = length w"
  by (simp add: d64_schedule_def Let_def)

lemma step_fill:
  assumes "16 \<le> i" "i < 32" "length w = 16"
  shows "sha256_step i (r, fill i w) = (fst (d64_step i (r, w)), fill (Suc i) (snd (d64_step i (r, w))))"
proof -
  have "fill (Suc i) v ! (i - 16) = v ! (i - 16)" if "length v = 16" for v
  proof -
    have "i - 16 < max 8 (Suc i - 16)" "i - 16 < 16" using assms(1,2) by (simp_all add: less_max_iff_disj) linarith+
    then show ?thesis using that by (simp add: fill_def Let_def nth_append)
  qed
  moreover have "i mod 16 = i - 16" using assms(1,2) by (simp add: le_mod_geq)
  ultimately show ?thesis
    using assms rounds_index [of i] by (simp add: sha256_step_def d64_step_def schedule_fill Let_def case_prod_unfold)
qed

lemma steps_fill:
  assumes "n \<le> 16" "length w = 16"
  shows "\<exists>r' w'. fold d64_step [16..<16 + n] (r, w) = (r', w') \<and> length w' = 16
      \<and> fold sha256_step [16..<16 + n] (r, fill 16 w) = (r', fill (16 + n) w')"
  using assms
proof (induction n)
  case 0
  then show ?case by (cases r) simp
next
  case (Suc n)
  then obtain r' w' where *: "fold d64_step [16..<16 + n] (r, w) = (r', w')" "length w' = 16"
    "fold sha256_step [16..<16 + n] (r, fill 16 w) = (r', fill (16 + n) w')" by auto
  obtain a b where ab: "d64_step (16 + n) (r', w') = (a, b)" by fastforce
  have "length (snd (d64_step (16 + n) (r', w'))) = 16"
    using * Suc.prems(1) by (simp add: d64_step_def Let_def case_prod_unfold)
  then have b: "length b = 16" by (simp add: ab)
  have "sha256_step (16 + n) (r', fill (16 + n) w') = (a, fill (16 + Suc n) b)"
    using *(2) Suc.prems(1) step_fill [of "16 + n" w' r'] by (simp add: ab)
  moreover have "[16..<16 + Suc n] = [16..<16 + n] @ [16 + n]" by (simp only: add_Suc_right upt_Suc le_add1 if_True)
  ultimately have "fold d64_step [16..<16 + Suc n] (r, w) = (a, b)"
    "fold sha256_step [16..<16 + Suc n] (r, fill 16 w) = (a, fill (16 + Suc n) b)"
    using *(1,3) ab by (simp_all only: fold_append fold_simps comp_apply)
  with b show ?case by blast
qed

lemma steps_16_64:
  assumes "length w = 16"
  shows "fold d64_step [16..<64] (r, w) = fold sha256_step [16..<64] (r, fill 16 w)"
proof -
  have upt: "[16..<64] = [16..<16 + 16] @ [32..<64 :: nat]" using upt_add_eq_append [of 16 32 32] by simp
  have "fold d64_step [32..<64] s = fold sha256_step [32..<64] s" for s
    by (rule fold_cong) (auto simp: d64_step_def sha256_step_def fun_eq_iff)
  moreover have "fill 32 w' = w'" if "length w' = 16" for w' using that by (simp add: fill_def Let_def padding32_words_def)
  ultimately show ?thesis using steps_fill [of 16 w r] assms unfolding upt by auto
qed

lemma first_steps:
  assumes "length v = 16" "n \<le> 16" "k \<le> n"
  shows "fold sha256_step [k..<n] (r, v) = (fold (\<lambda>i. sha256_Round (fst (sha256_rounds ! i) + v ! i)) [k..<n] r, v)"
  using assms(2,3)
proof (induction n)
  case (Suc n)
  then show ?case
    using rounds_index [of n]
    by (cases "k = Suc n") (simp_all add: le_Suc_eq sha256_step_def sha256_schedule_def Let_def case_prod_unfold)
qed simp

lemma upt_8_16: "[8..<16] = [8, 9, 10, 11, 12, 13, 14, 15 :: nat]"
  by code_simp

lemma tail_steps:
  assumes "length v = 16" "drop 8 v = drop 8 padding32_words"
  shows "fold (\<lambda>i. sha256_Round (fst (sha256_rounds ! i) + v ! i)) [8..<16] r = fold sha256_Round d64_tail r"
proof -
  have "v ! (8 + i) = padding32_words ! (8 + i)" if "i < 8" for i
    using assms nth_drop [of 8 v i] nth_drop [of 8 padding32_words i] by (simp add: padding32_words_def)
  from this [of 0] this [of 1] this [of 2] this [of 3] this [of 4] this [of 5] this [of 6] this [of 7]
  have v: "v ! 8 = 0x80000000" "v ! 9 = 0" "v ! 10 = 0" "v ! 11 = 0" "v ! 12 = 0" "v ! 13 = 0" "v ! 14 = 0" "v ! 15 = 0x100"
    by (simp_all add: padding32_words_def)
  have k: "(0x15807aa98 :: u32) = 0x5807aa98" by simp
  show ?thesis unfolding upt_8_16 by (simp add: v d64_tail_def sha256_rounds_def k)
qed

lemma ReadBE32_words:
  "ReadBE32 (drop (4 * i) (concat (map WriteBE32 t) @ rest)) =
     (if i < length t then t ! i else ReadBE32 (drop (4 * (i - length t)) rest))"
proof (induction t arbitrary: i)
  case (Cons x t)
  have "ReadBE32 (WriteBE32 x @ u) = x" for u
    by (simp add: ReadBE32_def WriteBE32_def word_of_le_word_to_le)
  then show ?case using Cons by (cases i) simp_all
qed simp

definition padding32 :: bytes where
  "padding32 = 0x80 # replicate 23 0 @ WriteBE64 256"

lemma padding32_read: "map (\<lambda>i. ReadBE32 (drop (4 * i) padding32)) [0..<8] = drop 8 padding32_words"
  by code_simp

lemma transform3_eq:
  assumes "length t = 8"
  shows "d64_transform3 t = sha256_Transform sha256_Initialize (concat (map WriteBE32 t) @ padding32)"
proof -
  let ?v = "t @ drop 8 padding32_words" and ?R = "regs_of sha256_Initialize"
  let ?f = "\<lambda>v i. sha256_Round (fst (sha256_rounds ! i) + v ! i)"
  let ?d = "concat (map WriteBE32 t) @ padding32"
  have "map (\<lambda>i. ReadBE32 (drop (4 * i) ?d)) [0..<8] = t"
    using assms by (intro nth_equalityI) (simp_all add: ReadBE32_words del: drop_append)
  moreover have "map (\<lambda>i. ReadBE32 (drop (4 * i) ?d)) (map ((+) 8) [0..<8]) = map (\<lambda>i. ReadBE32 (drop (4 * i) padding32)) [0..<8]"
    unfolding map_map by (rule map_cong) (simp_all add: ReadBE32_words assms del: drop_append)
  moreover have "[0..<16] = [0..<8] @ map ((+) 8) [0..<8]" by code_simp
  ultimately have words: "map (\<lambda>i. ReadBE32 (drop (4 * i) ?d)) [0..<16] = ?v"
    by (simp only: map_append padding32_read)
  have v: "length ?v = 16" "drop 8 ?v = drop 8 padding32_words" "fill 16 (t @ replicate 8 0) = ?v"
    using assms by (simp_all add: padding32_words_def fill_def)
  have "fold sha256_step [0..<64] (?R, ?v) = fold sha256_step [16..<64] (fold sha256_step [0..<16] (?R, ?v))"
    using upt_add_eq_append [of 0 16 48] by simp
  also have "fold sha256_step [0..<16] (?R, ?v) = (fold (?f ?v) [0..<16] ?R, ?v)"
    using v(1) by (rule first_steps) simp_all
  also have "fold (?f ?v) [0..<16] ?R = fold (?f ?v) [8..<16] (fold (?f ?v) [0..<8] ?R)"
    using upt_add_eq_append [of 0 8 8] by simp
  also have "fold (?f ?v) [0..<8] ?R = fold (?f t) [0..<8] ?R"
    using assms by (intro fold_cong) (simp_all add: nth_append)
  also have "fold (?f ?v) [8..<16] (fold (?f t) [0..<8] ?R) = fold sha256_Round d64_tail (fold (?f t) [0..<8] ?R)"
    using v(1,2) by (rule tail_steps)
  also have "fold sha256_step [16..<64] (fold sha256_Round d64_tail (fold (?f t) [0..<8] ?R), ?v) =
      fold d64_step [16..<64] (fold sha256_Round d64_tail (fold (?f t) [0..<8] ?R), t @ replicate 8 0)"
    using assms steps_16_64 [of "t @ replicate 8 0"] by (simp add: v(3))
  finally show ?thesis
    unfolding sha256_Transform_rounds words fold_sha256_step [symmetric] d64_transform3_def Let_def by simp
qed

section \<open>The double hash\<close>

lemma SHA256_absorb: "SHA256 m = concat (map WriteBE32 (sha256.absorb sha256_Initialize (sha256.padded WriteBE64 m)))"
  using sha256.Finalize_padded(2) [OF sha256.represents_Write [OF sha256.represents_init, of m], of WriteBE64 WriteBE32]
  by (simp add: SHA256_def CSHA256_Finalize_def)

lemma SHA256_64:
  assumes "length m = 64"
  shows "SHA256 m = concat (map WriteBE32 (sha256_Transform (sha256_Transform sha256_Initialize m) padding64))"
proof -
  have "sha256.padded WriteBE64 m = m @ padding64" and "length padding64 = 64"
    by (simp_all add: sha256.padded_def assms hash_pad_def padding64_def take_Cons' WriteBE64_def)
  then show ?thesis
    using assms sha256.absorb_append [of m sha256_Initialize padding64]
    by (simp add: SHA256_absorb sha256.absorb_one)
qed

lemma SHA256_32:
  assumes "length m = 32"
  shows "SHA256 m = concat (map WriteBE32 (sha256_Transform sha256_Initialize (m @ padding32)))"
proof -
  have "sha256.padded WriteBE64 m = m @ padding32" and "length padding32 = 32"
    by (simp_all add: sha256.padded_def assms hash_pad_def padding32_def take_Cons' WriteBE64_def)
  then show ?thesis using assms by (simp add: SHA256_absorb sha256.absorb_one)
qed

lemma length_sha256_Transform: "length (sha256_Transform s chunk) = 8"
  by (simp add: sha256_Transform_def split: prod.split)

lemma TransformD64_Hash256:
  assumes "length data \<ge> 64"
  shows "TransformD64 data = Hash256 (take 64 data)"
proof -
  let ?t = "sha256_Transform (sha256_Transform sha256_Initialize (take 64 data)) padding64"
  have "TransformD64 data = concat (map WriteBE32 (d64_transform3 ?t))"
    by (simp add: TransformD64_def transform1_eq transform2_eq sha256_Transform_take)
  also have "\<dots> = SHA256 (concat (map WriteBE32 ?t))"
    by (simp add: transform3_eq SHA256_32 length_sha256_Transform length_concat o_def sum_list_triv)
  also have "\<dots> = SHA256 (SHA256 (take 64 data))" using assms by (simp add: SHA256_64)
  finally show ?thesis by (simp add: Hash256_eq)
qed

text \<open>
  C19: the specialised routine is the double hash: on \<open>blocks\<close> consecutive inputs of 64 bytes, \<open>SHA256D64\<close> writes the
  \<open>Hash256\<close> of each, although it never builds the padded messages.
\<close>

theorem SHA256D64_correct:
  assumes "64 * blocks \<le> length data"
  shows "SHA256D64 data blocks = concat (map (\<lambda>i. Hash256 (take 64 (drop (64 * i) data))) [0..<blocks])"
  using assms
proof (induction blocks arbitrary: data)
  case (Suc blocks)
  have "[0..<Suc blocks] = 0 # map Suc [0..<blocks]" by (simp only: upt_conv_Cons map_Suc_upt zero_less_Suc)
  then show ?case using Suc by (simp add: TransformD64_Hash256 comp_def add.commute del: upt_Suc)
qed simp

theorem SHA256D64_correct_witness:
  "64 * 2 \<le> length (replicate 64 0 @ replicate 64 1 :: bytes)
   \<and> SHA256D64 (replicate 64 0 @ replicate 64 1) 2 = Hash256 (replicate 64 0) @ Hash256 (replicate 64 1)"
  using SHA256D64_correct [of 2 "replicate 64 0 @ replicate 64 1"] by (simp add: upt_rec)

end
