(* ===== verification/Merkle.thy ===== *)
theory Merkle
  imports Sha256D64 TxCheck BitSets
begin

text \<open>
  Merkle trees: \<open>ComputeMerkleRoot\<close> with its detection of duplicated branches (\<open>src/consensus/merkle.cpp\<close>) and the
  partial trees that prove which transactions of a block match a filter, built, serialized and
  extracted as in \<open>src/merkleblock.cpp\<close>.
\<close>

section \<open>The Merkle root\<close>

definition Hash_pair :: "uint256 \<Rightarrow> uint256 \<Rightarrow> uint256" where
  "Hash_pair in1 in2 = word_of_le (CHash256_Finalize
     (CSHA256_Write (word_to_le 32 in2) (CSHA256_Write (word_to_le 32 in1) (hash_init sha256_Initialize))))"

text \<open>
  One pass of the loop of \<open>ComputeMerkleRoot\<close>: the comparison of each pair, then the hashes of the pairs, written
  over the buffer of the vector and cut to half the size.
\<close>

fun merkle_mutation :: "uint256 list \<Rightarrow> bool" where
  "merkle_mutation (a # b # hashes) \<longleftrightarrow> a = b \<or> merkle_mutation hashes"
| "merkle_mutation _ \<longleftrightarrow> False"

definition merkle_level :: "uint256 list \<Rightarrow> uint256 list" where
  "merkle_level hashes =
     (let hs = (if odd (length hashes) then hashes @ [last hashes] else hashes);
          buf = SHA256D64 (concat (map (word_to_le 32) hs)) (length hs div 2) in
      map (\<lambda>i. word_of_le (take 32 (drop (32 * i) buf))) [0..<length hs div 2])"

lemma length_merkle_level: "length (merkle_level hashes) = (length hashes + 1) div 2"
  by (simp add: merkle_level_def Let_def)

function merkle_loop :: "bool \<Rightarrow> uint256 list \<Rightarrow> bool \<times> uint256 list" where
  "merkle_loop mutation hashes =
     (if length hashes > 1 then merkle_loop (mutation \<or> merkle_mutation hashes) (merkle_level hashes)
      else (mutation, hashes))"
  by pat_completeness auto
termination
  by (relation "measure (\<lambda>(mutation, hashes). length hashes)") (auto simp: length_merkle_level)

declare merkle_loop.simps [simp del]

text \<open>The root and the flag \<open>*mutated\<close>.\<close>

definition ComputeMerkleRoot :: "uint256 list \<Rightarrow> uint256 \<times> bool" where
  "ComputeMerkleRoot hashes =
     (let (mutation, hs) = merkle_loop False hashes in (if hs = [] then 0 else hs ! 0, mutation))"

definition BlockMerkleRoot :: "transaction list \<Rightarrow> uint256 \<times> bool" where
  "BlockMerkleRoot vtx = ComputeMerkleRoot (map tx_hash vtx)"

section \<open>Partial Merkle trees\<close>

text \<open>
  \<open>CPartialMerkleTree\<close>. Positions and heights are unbounded here: a position is below the width of its level, and
  \<open>ExtractMatches\<close> bounds the number of transactions before it computes any.
\<close>

record partial_merkle_tree =
  nTransactions :: u32
  vBits :: "bool list"
  vHash :: "uint256 list"
  fBad :: bool

definition CalcTreeWidth :: "u32 \<Rightarrow> nat \<Rightarrow> u32" where
  "CalcTreeWidth n height = drop_bit height (n + push_bit height 1 - 1)"

text \<open>The loop that computes the height; a width shifted by 32 or more is 0, so it ends.\<close>

lemma CalcTreeWidth_end: "CalcTreeWidth n h > 1 \<Longrightarrow> h < 32"
proof (rule ccontr)
  assume "CalcTreeWidth n h > 1" "\<not> h < 32"
  moreover have "drop_bit h w = 0" if "\<not> h < 32" for w :: u32
    using that by (intro bit_word_eqI) (auto simp: bit_simps dest: bit_imp_le_length)
  ultimately show False by (simp add: CalcTreeWidth_def)
qed

function tree_height :: "u32 \<Rightarrow> nat \<Rightarrow> nat" where
  "tree_height n nHeight = (if CalcTreeWidth n nHeight > 1 then tree_height n (nHeight + 1) else nHeight)"
  by pat_completeness auto
termination
  by (relation "measure (\<lambda>(n, h). 32 - h)") (auto dest: CalcTreeWidth_end)

declare tree_height.simps [simp del]

fun CalcHash :: "u32 \<Rightarrow> uint256 list \<Rightarrow> nat \<Rightarrow> nat \<Rightarrow> uint256 res" where
  "CalcHash n vTxid 0 pos =
     (if vTxid = [] then Inl ''assert(vTxid.size() != 0)''
      else if pos < length vTxid then Inr (vTxid ! pos) else Inl ''undefined behaviour: vTxid[pos]'')"
| "CalcHash n vTxid (Suc height) pos =
     (if vTxid = [] then Inl ''assert(vTxid.size() != 0)''
      else res_bind (CalcHash n vTxid height (pos * 2)) (\<lambda>left.
        res_bind (if pos * 2 + 1 < unat (CalcTreeWidth n height) then CalcHash n vTxid height (pos * 2 + 1) else Inr left) (\<lambda>right.
        Inr (Hash_pair left right))))"

definition parent_of_match :: "u32 \<Rightarrow> bool list \<Rightarrow> nat \<Rightarrow> nat \<Rightarrow> bool res" where
  "parent_of_match n vMatch height pos =
     (let ps = [pos * 2 ^ height..<min ((pos + 1) * 2 ^ height) (unat n)] in
      if \<exists>p\<in>set ps. length vMatch \<le> p then Inl ''undefined behaviour: vMatch[p]''
      else Inr (\<exists>p\<in>set ps. vMatch ! p))"

text \<open>\<open>TraverseAndBuild\<close> appends to \<open>vBits\<close> and \<open>vHash\<close>.\<close>

definition store_hash ::
    "u32 \<Rightarrow> uint256 list \<Rightarrow> nat \<Rightarrow> nat \<Rightarrow> bool list \<times> uint256 list \<Rightarrow> (bool list \<times> uint256 list) res" where
  "store_hash n vTxid height pos bh =
     res_bind (CalcHash n vTxid height pos) (\<lambda>h. Inr (fst bh, snd bh @ [h]))"

fun TraverseAndBuild ::
    "u32 \<Rightarrow> uint256 list \<Rightarrow> bool list \<Rightarrow> nat \<Rightarrow> nat \<Rightarrow> bool list \<times> uint256 list \<Rightarrow> (bool list \<times> uint256 list) res" where
  "TraverseAndBuild n vTxid vMatch 0 pos bh =
     res_bind (parent_of_match n vMatch 0 pos) (\<lambda>fParentOfMatch.
       store_hash n vTxid 0 pos (fst bh @ [fParentOfMatch], snd bh))"
| "TraverseAndBuild n vTxid vMatch (Suc height) pos bh =
     res_bind (parent_of_match n vMatch (Suc height) pos) (\<lambda>fParentOfMatch.
       let bh1 = (fst bh @ [fParentOfMatch], snd bh) in
       if \<not> fParentOfMatch then store_hash n vTxid (Suc height) pos bh1
       else res_bind (TraverseAndBuild n vTxid vMatch height (pos * 2) bh1) (\<lambda>bh2.
         if pos * 2 + 1 < unat (CalcTreeWidth n height) then TraverseAndBuild n vTxid vMatch height (pos * 2 + 1) bh2
         else Inr bh2))"

definition CPartialMerkleTree :: "uint256 list \<Rightarrow> bool list \<Rightarrow> partial_merkle_tree res" where
  "CPartialMerkleTree vTxid vMatch =
     (let n = of_nat (length vTxid) in
      res_bind (TraverseAndBuild n vTxid vMatch (tree_height n 0) 0 ([], [])) (\<lambda>(bits, hashes).
      Inr \<lparr>nTransactions = n, vBits = bits, vHash = hashes, fBad = False\<rparr>))"

text \<open>\<open>TraverseAndExtract\<close>: the references it updates, and the member \<open>fBad\<close>.\<close>

record extract_state =
  nBitsUsed :: nat
  nHashUsed :: nat
  es_match :: "uint256 list"
  es_index :: "nat list"
  es_bad :: bool

definition use_stored_hash :: "partial_merkle_tree \<Rightarrow> bool \<Rightarrow> nat \<Rightarrow> extract_state \<Rightarrow> uint256 \<times> extract_state" where
  "use_stored_hash T matched pos s =
     (if nHashUsed s \<ge> length (vHash T) then (0, s\<lparr>es_bad := True\<rparr>)
      else
        let h = vHash T ! nHashUsed s; s1 = s\<lparr>nHashUsed := nHashUsed s + 1\<rparr> in
        (h, if matched then s1\<lparr>es_match := es_match s @ [h], es_index := es_index s @ [pos]\<rparr> else s1))"

fun TraverseAndExtract :: "partial_merkle_tree \<Rightarrow> nat \<Rightarrow> nat \<Rightarrow> extract_state \<Rightarrow> uint256 \<times> extract_state" where
  "TraverseAndExtract T 0 pos s =
     (if nBitsUsed s \<ge> length (vBits T) then (0, s\<lparr>es_bad := True\<rparr>)
      else use_stored_hash T (vBits T ! nBitsUsed s) pos (s\<lparr>nBitsUsed := nBitsUsed s + 1\<rparr>))"
| "TraverseAndExtract T (Suc height) pos s =
     (if nBitsUsed s \<ge> length (vBits T) then (0, s\<lparr>es_bad := True\<rparr>)
      else if \<not> vBits T ! nBitsUsed s then use_stored_hash T False pos (s\<lparr>nBitsUsed := nBitsUsed s + 1\<rparr>)
      else
        let (left, s1) = TraverseAndExtract T height (pos * 2) (s\<lparr>nBitsUsed := nBitsUsed s + 1\<rparr>) in
        if pos * 2 + 1 < unat (CalcTreeWidth (nTransactions T) height) then
          let (right, s2) = TraverseAndExtract T height (pos * 2 + 1) s1 in
          (Hash_pair left right, if right = left then s2\<lparr>es_bad := True\<rparr> else s2)
        else (Hash_pair left left, s1))"

text \<open>
  \<open>ExtractMatches\<close> clears \<open>vMatch\<close> but appends to the indexes it is given, and keeps \<open>fBad\<close> in the tree. The result is the
  root, the tree, the matches and the indexes.
\<close>

definition ExtractMatches ::
    "partial_merkle_tree \<Rightarrow> nat list \<Rightarrow> uint256 \<times> partial_merkle_tree \<times> uint256 list \<times> nat list" where
  "ExtractMatches T vnIndex =
     (if nTransactions T = 0 then (0, T, [], vnIndex)
      else if unat (nTransactions T) > MaxBlockSize True div 60 then (0, T, [], vnIndex)
      else if length (vHash T) > unat (nTransactions T) then (0, T, [], vnIndex)
      else if length (vBits T) < length (vHash T) then (0, T, [], vnIndex)
      else
        let (root, s) = TraverseAndExtract T (tree_height (nTransactions T) 0) 0
              \<lparr>nBitsUsed = 0, nHashUsed = 0, es_match = [], es_index = vnIndex, es_bad = fBad T\<rparr>;
            result = (T\<lparr>fBad := es_bad s\<rparr>, es_match s, es_index s) in
        if es_bad s then (0, result)
        else if (nBitsUsed s + 7) div 8 \<noteq> (length (vBits T) + 7) div 8 then (0, result)
        else if nHashUsed s \<noteq> length (vHash T) then (0, result)
        else (root, result))"

subsection \<open>Serialization\<close>

definition BitsToBytes :: "bool list \<Rightarrow> bytes" where
  "BitsToBytes bits = fold (set_packed_bit bits) [0..<length bits] (replicate ((length bits + 7) div 8) 0)"

definition BytesToBits :: "bytes \<Rightarrow> bool list" where
  "BytesToBits bs = map (\<lambda>p. (bs ! (p div 8)) AND push_bit (p mod 8) 1 \<noteq> 0) [0..<length bs * 8]"

definition uint256_Unser :: "(nat \<Rightarrow> 's \<Rightarrow> string + bytes \<times> 's) \<Rightarrow> 's \<Rightarrow> string + uint256 \<times> 's" where
  "uint256_Unser rd s = res_bind (rd 32 s) (\<lambda>(bs, s'). Inr (word_of_le bs, s'))"

definition CPartialMerkleTree_Ser :: "partial_merkle_tree \<Rightarrow> bytes" where
  "CPartialMerkleTree_Ser T =
     ser_writedata32 (nTransactions T) @ VectorFormatter_Ser (word_to_le 32) (vHash T) @ WriteBytes (BitsToBytes (vBits T))"

definition CPartialMerkleTree_Unser ::
    "(nat \<Rightarrow> 's \<Rightarrow> string + bytes \<times> 's) \<Rightarrow> 's \<Rightarrow> string + partial_merkle_tree \<times> 's" where
  "CPartialMerkleTree_Unser rd s =
     res_bind (ser_readdata32 rd s) (\<lambda>(n, s1).
     res_bind (VectorFormatter_Unser rd 32 (uint256_Unser rd) s1) (\<lambda>(hashes, s2).
     res_bind (ReadBytes rd s2) (\<lambda>(bs, s3).
       Inr (\<lparr>nTransactions = n, vBits = BytesToBits bs, vHash = hashes, fBad = False\<rparr>, s3))))"

section \<open>The tree as a list of levels\<close>

text \<open>The reference: each level pairs the hashes of the one below, the last one with itself if it is left over.\<close>

fun pair_up :: "uint256 list \<Rightarrow> uint256 list" where
  "pair_up (a # b # xs) = Hash_pair a b # pair_up xs"
| "pair_up [a] = [Hash_pair a a]"
| "pair_up [] = []"

fun level :: "uint256 list \<Rightarrow> nat \<Rightarrow> uint256 list" where
  "level xs 0 = xs"
| "level xs (Suc h) = pair_up (level xs h)"

lemma level_pair_up: "level (pair_up xs) h = pair_up (level xs h)"
  by (induction h) simp_all

lemma length_pair_up [simp]: "length (pair_up xs) = (length xs + 1) div 2"
  by (induction xs rule: pair_up.induct) simp_all

lemma nth_pair_up:
  "i < (length xs + 1) div 2 \<Longrightarrow>
     pair_up xs ! i = Hash_pair (xs ! (2 * i)) (if 2 * i + 1 < length xs then xs ! (2 * i + 1) else xs ! (2 * i))"
proof (induction xs arbitrary: i rule: pair_up.induct)
  case (1 a b xs)
  then show ?case by (cases i) simp_all
qed simp_all

lemma length_level: "length (level xs h) = (length xs + 2 ^ h - 1) div 2 ^ h"
proof (induction h)
  case (Suc h)
  have "1 \<le> (2 :: nat) ^ h" by simp
  then have "length xs + 2 ^ Suc h - 1 = length xs + 2 ^ h - 1 + 2 ^ h" unfolding power_Suc by linarith
  then have "(length xs + 2 ^ Suc h - 1) div 2 ^ Suc h = (length xs + 2 ^ h - 1 + 2 ^ h) div 2 ^ h div 2"
    by (simp only: power_Suc2 div_mult2_eq)
  also have "\<dots> = ((length xs + 2 ^ h - 1) div 2 ^ h + 1) div 2" by (subst div_add_self2) simp_all
  finally show ?case using Suc by simp
qed simp

lemma ex_nat_0_Suc: "(\<exists>i. P i) \<longleftrightarrow> P 0 \<or> (\<exists>i. P (Suc i))"
  by (metis not0_implies_Suc)

lemma merkle_mutation_nth:
  "merkle_mutation xs \<longleftrightarrow> (\<exists>i. 2 * i + 1 < length xs \<and> xs ! (2 * i) = xs ! (2 * i + 1))"
proof (induction xs rule: merkle_mutation.induct)
  case (1 a b xs)
  have "(\<exists>i. 2 * i + 1 < length (a # b # xs) \<and> (a # b # xs) ! (2 * i) = (a # b # xs) ! (2 * i + 1))
      \<longleftrightarrow> a = b \<or> (\<exists>i. 2 * Suc i + 1 < length (a # b # xs) \<and> (a # b # xs) ! (2 * Suc i) = (a # b # xs) ! (2 * Suc i + 1))"
    by (subst ex_nat_0_Suc) simp
  with 1 show ?case by simp
qed simp_all

text \<open>The byte-level pass is the reference level.\<close>

lemma CHash256_represents:
  assumes "sha256.represents h m"
  shows "CHash256_Finalize h = SHA256 (SHA256 m)"
proof -
  have "sha256.represents (fst (CSHA256_Finalize h)) (sha256.padded WriteBE64 m)"
    using sha256.Finalize_padded(1) [OF assms] by (simp add: CSHA256_Finalize_def)
  then have "sha256.represents (hash_Reset sha256_Initialize (fst (CSHA256_Finalize h))) []"
    by (intro sha256.represents_Reset) (simp add: sha256.represents_def)
  from sha256.Finalize_padded(2) [OF sha256.represents_Write [OF this]] sha256.Finalize_padded(2) [OF assms]
  show ?thesis
    by (simp add: CHash256_Finalize_def SHA256_absorb CSHA256_Finalize_def case_prod_unfold)
qed

lemma Hash_pair_eq: "Hash_pair a b = word_of_le (Hash256 (word_to_le 32 a @ word_to_le 32 b))"
  using CHash256_represents [OF sha256.represents_Write [OF sha256.represents_Write [OF sha256.represents_init]]]
  by (simp add: Hash_pair_def Hash256_eq)

lemma concat_32: "length (concat (map (word_to_le 32) hs)) = 32 * length hs"
  by (induction hs) simp_all

lemma buffer_pairs:
  "even (length hs) \<Longrightarrow>
   map (\<lambda>i. word_of_le (take 32 (drop (32 * i) (SHA256D64 (concat (map (word_to_le 32) hs)) (length hs div 2))))) [0..<length hs div 2]
     = pair_up hs"
proof (induction hs rule: pair_up.induct)
  case (1 a b xs)
  let ?d = "concat (map (word_to_le 32) xs)" and ?n = "length xs div 2"
  have upt: "[0..<Suc ?n] = 0 # map Suc [0..<?n]" by (simp only: upt_conv_Cons map_Suc_upt zero_less_Suc)
  have "TransformD64 (word_to_le 32 a @ word_to_le 32 b @ ?d) = Hash256 (word_to_le 32 a @ word_to_le 32 b)"
    by (simp add: TransformD64_Hash256 concat_32)
  then have "SHA256D64 (word_to_le 32 a @ word_to_le 32 b @ ?d) (Suc ?n) =
      Hash256 (word_to_le 32 a @ word_to_le 32 b) @ SHA256D64 ?d ?n"
    by simp
  then show ?case
    using 1 by (simp add: upt Hash_pair_eq comp_def del: upt_Suc SHA256D64.simps)
qed simp_all

lemma pair_up_odd: "odd (length hs) \<Longrightarrow> pair_up (hs @ [last hs]) = pair_up hs"
  by (induction hs rule: pair_up.induct) auto

lemma merkle_level_eq: "merkle_level hashes = pair_up hashes"
  by (simp add: merkle_level_def Let_def buffer_pairs pair_up_odd del: concat_append map_append)

text \<open>The loop stops at the first level with at most one hash.\<close>

definition is_top :: "uint256 list \<Rightarrow> nat \<Rightarrow> bool" where
  "is_top xs H \<longleftrightarrow> length (level xs H) = 1 \<and> (\<forall>h<H. length (level xs h) > 1)"

lemma merkle_loop_top:
  "is_top xs H \<Longrightarrow> merkle_loop m xs = (m \<or> (\<exists>h<H. merkle_mutation (level xs h)), level xs H)"
proof (induction H arbitrary: xs m)
  case 0
  then show ?case by (simp add: is_top_def merkle_loop.simps)
next
  case (Suc H)
  have "is_top (pair_up xs) H" using Suc.prems unfolding is_top_def level_pair_up by (auto dest: spec [of _ "Suc _"])
  moreover have "length xs > 1" using Suc.prems by (auto simp: is_top_def dest: spec [of _ 0])
  moreover have "(\<exists>h<Suc H. merkle_mutation (level xs h)) \<longleftrightarrow> merkle_mutation xs \<or> (\<exists>h<H. merkle_mutation (level xs (Suc h)))"
    by (subst ex_nat_0_Suc) simp
  ultimately show ?case
    using Suc.IH by (simp add: merkle_loop.simps [of m xs] merkle_level_eq level_pair_up disj_assoc)
qed

lemma width_level:
  assumes "n = of_nat (length xs)" "length xs < 2 ^ 31" "h \<le> 31"
  shows "unat (CalcTreeWidth n h) = length (level xs h)"
proof -
  have h: "(2 :: nat) ^ h \<le> 2 ^ 31" using assms(3) by (intro power_increasing) simp_all
  then have "unat (of_nat (2 ^ h) :: u32) = 2 ^ h" unfolding unat_of_nat by (intro mod_less) simp
  then have "unat (push_bit h 1 :: u32) = 2 ^ h" by (simp add: push_bit_eq_mult)
  moreover have "unat n = length xs" using assms(1,2) by (simp add: unat_of_nat)
  ultimately have "unat (n + push_bit h 1) = length xs + 2 ^ h"
    using assms(2) h by (subst unat_add_lem [THEN iffD1]) simp_all
  moreover have "unat (n + push_bit h 1 - 1) = unat (n + push_bit h 1) - 1"
    using calculation by (intro unat_minus_one) auto
  ultimately have "unat (n + push_bit h 1 - 1) = length xs + 2 ^ h - 1" by simp
  then show ?thesis unfolding CalcTreeWidth_def unat_drop_bit_eq length_level drop_bit_eq_div [where 'a = nat] by (simp only:)
qed

lemma level_nonempty: "xs \<noteq> [] \<Longrightarrow> level xs h \<noteq> []"
proof (induction h)
  case (Suc h)
  then have "0 < length (level xs h)" by simp
  then have "0 < length (level xs (Suc h))" unfolding level.simps length_pair_up by linarith
  then show ?case by blast
qed simp

lemma tree_height_top:
  assumes "n = of_nat (length xs)" "xs \<noteq> []" "length xs < 2 ^ 31"
  shows "h \<le> 31 \<Longrightarrow> \<forall>k<h. length (level xs k) > 1 \<Longrightarrow> is_top xs (tree_height n h) \<and> tree_height n h \<le> 31"
proof (induction "31 - h" arbitrary: h rule: less_induct)
  case less
  have w: "unat (CalcTreeWidth n h) = length (level xs h)" using assms less.prems by (intro width_level)
  then have gt: "CalcTreeWidth n h > 1 \<longleftrightarrow> length (level xs h) > 1" by (simp add: word_less_nat_alt)
  show ?case
  proof (cases "length (level xs h) > 1")
    case True
    have "(length xs + 2 ^ 31 - 1) div 2 ^ 31 < (2 :: nat)" using assms(3) by (intro div_less_iff_less_mult [THEN iffD2]) simp_all
    then have "length (level xs 31) < 2" by (simp only: length_level)
    with True have "h \<noteq> 31" by auto
    then have "h < 31" using less.prems by simp
    then show ?thesis
      using less.hyps [of "Suc h"] less.prems True gt by (simp add: tree_height.simps [of n h] less_Suc_eq)
  next
    case False
    moreover have "length (level xs h) > 0" using level_nonempty [OF assms(2)] by simp
    ultimately have "length (level xs h) = 1" by linarith
    then show ?thesis using False gt less.prems by (simp add: tree_height.simps [of n h] is_top_def)
  qed
qed

lemma CalcHash_level:
  assumes "n = of_nat (length xs)" "xs \<noteq> []" "length xs < 2 ^ 31"
  shows "h \<le> 31 \<Longrightarrow> p < length (level xs h) \<Longrightarrow> CalcHash n xs h p = Inr (level xs h ! p)"
proof (induction h arbitrary: p)
  case (Suc h)
  have w: "unat (CalcTreeWidth n h) = length (level xs h)" using assms Suc.prems by (intro width_level) simp_all
  have p: "p < (length (level xs h) + 1) div 2" "p * 2 < length (level xs h)" using Suc.prems by auto
  have left: "CalcHash n xs h (p * 2) = Inr (level xs h ! (p * 2))" using Suc p by simp
  have right: "CalcHash n xs h (p * 2 + 1) = Inr (level xs h ! (p * 2 + 1))" if "p * 2 + 1 < length (level xs h)"
    using Suc that by simp
  show ?case
    using assms(2) right by (simp add: w left nth_pair_up [OF p(1)] mult.commute del: CalcHash.simps(1))
qed (use assms in simp)

text \<open>The root that \<open>ComputeMerkleRoot\<close> returns is the hash that \<open>CalcHash\<close> computes at the top.\<close>

lemma ComputeMerkleRoot_top:
  "is_top xs H \<Longrightarrow> ComputeMerkleRoot xs = (level xs H ! 0, \<exists>h<H. merkle_mutation (level xs h))"
  by (auto simp: ComputeMerkleRoot_def merkle_loop_top is_top_def)

section \<open>What is built\<close>

text \<open>The transactions below a node, and the bits and hashes that the traversal stores for it.\<close>

definition leaves :: "nat \<Rightarrow> nat \<Rightarrow> nat \<Rightarrow> nat list" where
  "leaves n h p = [p * 2 ^ h..<min ((p + 1) * 2 ^ h) n]"

definition matched :: "bool list \<Rightarrow> nat \<Rightarrow> nat \<Rightarrow> nat list" where
  "matched vMatch h p = filter ((!) vMatch) (leaves (length vMatch) h p)"

fun build_bits :: "uint256 list \<Rightarrow> bool list \<Rightarrow> nat \<Rightarrow> nat \<Rightarrow> bool list" where
  "build_bits xs vMatch 0 p = [matched vMatch 0 p \<noteq> []]"
| "build_bits xs vMatch (Suc h) p =
     (if matched vMatch (Suc h) p = [] then [False]
      else True # build_bits xs vMatch h (p * 2)
        @ (if p * 2 + 1 < length (level xs h) then build_bits xs vMatch h (p * 2 + 1) else []))"

fun build_hashes :: "uint256 list \<Rightarrow> bool list \<Rightarrow> nat \<Rightarrow> nat \<Rightarrow> uint256 list" where
  "build_hashes xs vMatch 0 p = [xs ! p]"
| "build_hashes xs vMatch (Suc h) p =
     (if matched vMatch (Suc h) p = [] then [level xs (Suc h) ! p]
      else build_hashes xs vMatch h (p * 2)
        @ (if p * 2 + 1 < length (level xs h) then build_hashes xs vMatch h (p * 2 + 1) else []))"

lemma leaves_Suc: "leaves n (Suc h) p = leaves n h (p * 2) @ leaves n h (p * 2 + 1)"
proof -
  have "p * 2 ^ Suc h = p * 2 * 2 ^ h" "(p + 1) * 2 ^ Suc h = p * 2 * 2 ^ h + 2 ^ h + 2 ^ h"
    "(p * 2 + 1) * 2 ^ h = p * 2 * 2 ^ h + 2 ^ h" "(p * 2 + 1 + 1) * 2 ^ h = p * 2 * 2 ^ h + 2 ^ h + (2 :: nat) ^ h"
    by (simp_all add: algebra_simps)
  moreover have "[a..<min (a + k + k) n] = [a..<min (a + k) n] @ [a + k..<min (a + k + k) n]" for a k
    using upt_add_eq_append [of a "a + k" "min (a + k + k) n - (a + k)"] by (cases "a + k \<le> n") simp_all
  ultimately show ?thesis unfolding leaves_def by (simp only:)
qed

lemma leaves_beyond: "length (level xs h) \<le> p \<Longrightarrow> leaves (length xs) h p = []"
proof -
  assume "length (level xs h) \<le> p"
  then have "(length xs + 2 ^ h - 1) div 2 ^ h < Suc p" by (simp add: length_level)
  then have "length xs + 2 ^ h - 1 < Suc p * 2 ^ h" by (simp only: div_less_iff_less_mult zero_less_power zero_less_numeral)
  then have "length xs \<le> p * 2 ^ h" by simp
  then show ?thesis by (simp add: leaves_def)
qed

lemma leaves_nonempty: "p < length (level xs h) \<Longrightarrow> leaves (length xs) h p \<noteq> []"
proof -
  assume "p < length (level xs h)"
  then have "Suc p \<le> (length xs + 2 ^ h - 1) div 2 ^ h" by (simp add: length_level)
  then have "Suc p * 2 ^ h \<le> length xs + 2 ^ h - 1" by (simp only: less_eq_div_iff_mult_less_eq zero_less_power zero_less_numeral)
  moreover have "1 \<le> (2 :: nat) ^ h" by simp
  ultimately have "p * 2 ^ h < length xs" unfolding mult_Suc by linarith
  moreover have "p * 2 ^ h < (p + 1) * 2 ^ h" by simp
  ultimately have "p * 2 ^ h < min ((p + 1) * 2 ^ h) (length xs)" by simp
  then show ?thesis unfolding leaves_def by (simp del: min_less_iff_conj)
qed

lemma matched_Suc:
  "length vMatch = length xs \<Longrightarrow>
   matched vMatch (Suc h) p = matched vMatch h (p * 2) @ (if p * 2 + 1 < length (level xs h) then matched vMatch h (p * 2 + 1) else [])"
  using leaves_beyond [of xs h "p * 2 + 1"] by (simp add: matched_def leaves_Suc)

lemma parent_of_match_eq:
  "n = of_nat (length xs) \<Longrightarrow> length xs < 2 ^ 31 \<Longrightarrow> length vMatch = length xs \<Longrightarrow>
   parent_of_match n vMatch h p = Inr (matched vMatch h p \<noteq> [])"
  by (auto simp: parent_of_match_def matched_def leaves_def unat_of_nat filter_empty_conv Let_def)

lemma TraverseAndBuild_eq:
  assumes "n = of_nat (length xs)" "xs \<noteq> []" "length xs < 2 ^ 31" "length vMatch = length xs"
  shows "h \<le> 31 \<Longrightarrow> p < length (level xs h) \<Longrightarrow>
    TraverseAndBuild n xs vMatch h p (bs, hs) = Inr (bs @ build_bits xs vMatch h p, hs @ build_hashes xs vMatch h p)"
proof (induction h arbitrary: p bs hs)
  case 0
  then show ?case
    using assms(2) by (simp add: parent_of_match_eq [OF assms(1,3,4)] store_hash_def)
next
  case (Suc h)
  have w: "unat (CalcTreeWidth n h) = length (level xs h)" using assms Suc.prems by (intro width_level) simp_all
  have p: "p * 2 < length (level xs h)" using Suc.prems by simp
  have "CalcHash n xs (Suc h) p = Inr (level xs (Suc h) ! p)" using Suc.prems by (intro CalcHash_level assms)
  then show ?case
    using Suc.prems p by (simp add: parent_of_match_eq [OF assms(1,3,4)] store_hash_def w Suc.IH Let_def del: CalcHash.simps)
qed

lemma build_counts:
  "length vMatch = length xs \<Longrightarrow> p < length (level xs h) \<Longrightarrow>
     length (build_hashes xs vMatch h p) \<le> length (build_bits xs vMatch h p)
     \<and> length (build_hashes xs vMatch h p) \<le> length (leaves (length xs) h p)"
proof (induction h arbitrary: p)
  case 0
  then show ?case using leaves_nonempty [of p xs 0] by (simp add: Suc_le_eq)
next
  case (Suc h)
  have p: "p * 2 < length (level xs h)" using Suc.prems by simp
  have "0 < length (leaves (length xs) (Suc h) p)" using Suc.prems leaves_nonempty [of p xs "Suc h"] by simp
  then show ?case
    using Suc.IH [of "p * 2"] Suc.IH [of "p * 2 + 1"] Suc.prems(1) p by (auto simp: leaves_Suc Suc_le_eq)
qed

section \<open>Extraction undoes the construction\<close>

text \<open>No two siblings are equal, which is what \<open>ComputeMerkleRoot\<close> reports as not mutated.\<close>

definition siblings_differ :: "uint256 list \<Rightarrow> nat \<Rightarrow> bool" where
  "siblings_differ xs H \<longleftrightarrow> (\<forall>h<H. \<not> merkle_mutation (level xs h))"

lemma siblings_differD:
  "siblings_differ xs H \<Longrightarrow> h < H \<Longrightarrow> p * 2 + 1 < length (level xs h) \<Longrightarrow> level xs h ! (p * 2) \<noteq> level xs h ! (p * 2 + 1)"
  by (auto simp: siblings_differ_def merkle_mutation_nth mult.commute)

lemma drop_append_next:
  assumes "drop k xs = a @ b"
  shows "drop (k + length a) xs = b" "a \<noteq> [] \<Longrightarrow> k < length xs" "a \<noteq> [] \<Longrightarrow> xs ! k = hd a"
proof -
  show "drop (k + length a) xs = b" using assms by (metis add.commute append_eq_conv_conj drop_drop)
  assume "a \<noteq> []"
  then show "k < length xs" using assms by (metis append_is_Nil_conv drop_all not_le)
  with \<open>a \<noteq> []\<close> show "xs ! k = hd a" using assms by (metis hd_append2 hd_drop_conv_nth)
qed

definition extracted :: "uint256 list \<Rightarrow> bool list \<Rightarrow> nat \<Rightarrow> nat \<Rightarrow> extract_state \<Rightarrow> extract_state" where
  "extracted xs vMatch h p s =
     s\<lparr>nBitsUsed := nBitsUsed s + length (build_bits xs vMatch h p), nHashUsed := nHashUsed s + length (build_hashes xs vMatch h p),
       es_match := es_match s @ map ((!) xs) (matched vMatch h p), es_index := es_index s @ matched vMatch h p\<rparr>"

lemma TraverseAndExtract_build:
  assumes "n = of_nat (length xs)" "length xs < 2 ^ 31" "length vMatch = length xs" "nTransactions T = n" "siblings_differ xs H" "H \<le> 31"
  shows "h \<le> H \<Longrightarrow> p < length (level xs h) \<Longrightarrow>
    drop (nBitsUsed s) (vBits T) = build_bits xs vMatch h p @ bs \<Longrightarrow> drop (nHashUsed s) (vHash T) = build_hashes xs vMatch h p @ hs \<Longrightarrow>
    TraverseAndExtract T h p s = (level xs h ! p, extracted xs vMatch h p s)"
proof (induction h arbitrary: p s bs hs)
  case 0
  have "leaves (length xs) 0 p = [p]" using 0 by (simp add: leaves_def)
  then show ?case
    using drop_append_next [OF 0(3)] drop_append_next [OF 0(4)] assms(3)
    by (simp add: use_stored_hash_def Let_def extracted_def matched_def)
next
  case (Suc h)
  have w: "unat (CalcTreeWidth n h) = length (level xs h)" using assms Suc.prems by (intro width_level) simp_all
  have p: "p < (length (level xs h) + 1) div 2" "p * 2 < length (level xs h)" using Suc.prems by auto
  note bits = drop_append_next [OF Suc.prems(3)] and hashes = drop_append_next [OF Suc.prems(4)]
  show ?case
  proof (cases "matched vMatch (Suc h) p = []")
    case True
    then show ?thesis using bits hashes by (simp add: use_stored_hash_def Let_def extracted_def)
  next
    case False
    let ?s = "s\<lparr>nBitsUsed := nBitsUsed s + 1\<rparr>"
    let ?right = "p * 2 + 1 < length (level xs h)"
    have first: "nBitsUsed s < length (vBits T)" "vBits T ! nBitsUsed s" using bits False by simp_all
    have "drop (nBitsUsed ?s) (vBits T) = build_bits xs vMatch h (p * 2) @ (if ?right then build_bits xs vMatch h (p * 2 + 1) else []) @ bs"
      using drop_append_next(1) [of "nBitsUsed s" "vBits T" "[True]"] Suc.prems(3) False by simp
    moreover have "drop (nHashUsed ?s) (vHash T) = build_hashes xs vMatch h (p * 2) @ (if ?right then build_hashes xs vMatch h (p * 2 + 1) else []) @ hs"
      using Suc.prems(4) False by simp
    moreover note left = Suc.IH [OF _ p(2) calculation]
    ultimately have right: "TraverseAndExtract T h (p * 2 + 1) (extracted xs vMatch h (p * 2) ?s) =
        (level xs h ! (p * 2 + 1), extracted xs vMatch h (p * 2 + 1) (extracted xs vMatch h (p * 2) ?s))" if ?right
      using that Suc.prems(1) drop_append_next(1) [of "nBitsUsed ?s"] drop_append_next(1) [of "nHashUsed ?s"]
      by (intro Suc.IH [where bs = bs and hs = hs]) (simp_all add: extracted_def)
    have "extracted xs vMatch (Suc h) p s =
        (if ?right then extracted xs vMatch h (p * 2 + 1) (extracted xs vMatch h (p * 2) ?s) else extracted xs vMatch h (p * 2) ?s)"
      using False matched_Suc [OF assms(3), of h p] by (auto simp: extracted_def)
    moreover have "level xs h ! (p * 2 + 1) \<noteq> level xs h ! (p * 2)" if ?right
      using that siblings_differD [OF assms(5), of h p] Suc.prems(1) by force
    ultimately show ?thesis
      using first left right Suc.prems(1) assms(4) p by (simp add: w nth_pair_up [OF p(1)] mult.commute)
  qed
qed

lemma BytesToBits_BitsToBytes: "\<exists>k. BytesToBits (BitsToBytes bits) = bits @ replicate k False \<and> k < 8 \<and> 8 dvd length bits + k"
proof -
  define m where "m = (length bits + 7) div 8"
  define k where "k = 8 * m - length bits"
  have m: "length bits \<le> 8 * m" "8 * m < length bits + 8" unfolding m_def by linarith+
  have len: "length (BitsToBytes bits) = m" by (simp add: BitsToBytes_def m_def)
  have "bit (BitsToBytes bits ! (p div 8)) (p mod 8) \<longleftrightarrow> p < length bits \<and> bits ! p" if "p < 8 * m" for p
    using that m(1) bit_fold_packed [of "length bits" "replicate m 0" "p div 8" "p mod 8" bits]
    by (simp add: BitsToBytes_def m_def [symmetric] div_less_iff_less_mult mult.commute)
  then have "BytesToBits (BitsToBytes bits) = bits @ replicate k False"
    using m(1) unfolding BytesToBits_def and_push_bit_1
    by (intro nth_equalityI) (auto simp: len k_def nth_append mult.commute)
  moreover have "k < 8" "8 dvd length bits + k" using m by (simp_all add: k_def)
  ultimately show ?thesis by blast
qed

context byte_source
begin

lemma reads_uint256 [wire_intros]: "reads (uint256_Unser rd) (word_to_le 32 x) x"
  unfolding uint256_Unser_def [abs_def] by (rule reads_map [OF reads_rd]) (simp_all add: word_of_le_word_to_le)

lemma reads_CPartialMerkleTree:
  assumes "length (vHash T) \<le> unat MAX_SIZE" "length (BitsToBytes (vBits T)) \<le> unat MAX_SIZE"
  shows "reads (CPartialMerkleTree_Unser rd) (CPartialMerkleTree_Ser T)
    \<lparr>nTransactions = nTransactions T, vBits = BytesToBits (BitsToBytes (vBits T)), vHash = vHash T, fBad = False\<rparr>"
  unfolding CPartialMerkleTree_Unser_def [abs_def] CPartialMerkleTree_Ser_def
  by (rule reads_bind [OF reads_ser_readdata32], rule reads_bind [OF reads_VectorFormatter],
      simp, simp add: MAX_VECTOR_ALLOCATE_def, rule assms(1), use reads_uint256 in blast,
      rule reads_map [OF reads_ReadBytes [OF assms(2)]], simp)

end

lemma top_leaves:
  assumes "is_top xs H"
  shows "leaves (length xs) H 0 = [0..<length xs]"
proof -
  have "length xs \<le> 2 ^ H"
    using leaves_beyond [of xs H 1] assms by (auto simp: is_top_def leaves_def min_def split: if_splits)
  then show ?thesis by (simp add: leaves_def)
qed

lemma padded_bytes: "k < 8 \<Longrightarrow> l + k = 8 * q \<Longrightarrow> (l + 7) div 8 = q" for k l q :: nat
  by linarith

lemma top_height:
  assumes "is_top xs H" "length xs \<le> 2 ^ k"
  shows "H \<le> k"
proof (rule ccontr)
  assume "\<not> H \<le> k"
  then have "length (level xs k) > 1" using assms(1) by (simp add: is_top_def)
  moreover have "length xs + 2 ^ k - 1 < 2 * 2 ^ k"
  proof -
    have "1 \<le> (2 :: nat) ^ k" by simp
    with assms(2) show ?thesis by linarith
  qed
  then have "(length xs + 2 ^ k - 1) div 2 ^ k < 2" by (simp add: div_less_iff_less_mult)
  ultimately show False by (simp add: length_level)
qed

lemma build_bits_bound: "length (build_bits xs vMatch h p) < 2 ^ Suc h"
proof (induction h arbitrary: p)
  case (Suc h)
  have "length (build_bits xs vMatch h (p * 2)) < 2 ^ Suc h" "length (build_bits xs vMatch h (p * 2 + 1)) < 2 ^ Suc h"
    by (rule Suc)+
  moreover have "(1 :: nat) < 2 ^ Suc (Suc h)" by (rule one_less_power) simp_all
  ultimately show ?case by auto
qed simp

text \<open>What \<open>ExtractMatches\<close> returns for the tree of a block, with the padding bits of the serialization.\<close>

lemma ExtractMatches_build:
  assumes "xs \<noteq> []" "length xs \<le> MaxBlockSize True div 60" "length vMatch = length xs" "is_top xs H" "siblings_differ xs H"
    and T: "T = \<lparr>nTransactions = of_nat (length xs), vBits = build_bits xs vMatch H 0 @ replicate k False,
      vHash = build_hashes xs vMatch H 0, fBad = False\<rparr>"
    and k: "k < 8" "8 dvd length (build_bits xs vMatch H 0) + k"
    and th: "tree_height (of_nat (length xs)) 0 = H" "H \<le> 31"
  shows "ExtractMatches T vnIndex =
    (level xs H ! 0, T, map ((!) xs) (filter ((!) vMatch) [0..<length xs]), vnIndex @ filter ((!) vMatch) [0..<length xs])"
proof -
  let ?bits = "build_bits xs vMatch H 0" and ?hashes = "build_hashes xs vMatch H 0"
  let ?s = "\<lparr>nBitsUsed = 0, nHashUsed = 0, es_match = [], es_index = vnIndex, es_bad = False\<rparr>"
  have len: "length xs \<le> 33333" using assms(2) by (simp add: MaxBlockSize_def MAX_DIP0001_BLOCK_SIZE_def)
  have top: "0 < length (level xs H)" using assms(4) by (simp add: is_top_def)
  have m: "matched vMatch H 0 = filter ((!) vMatch) [0..<length xs]"
    using top_leaves [OF assms(4)] by (simp add: matched_def assms(3))
  have counts: "length ?hashes \<le> length ?bits" "length ?hashes \<le> length xs"
    using build_counts [OF assms(3) top] top_leaves [OF assms(4)] by simp_all
  have n: "unat (nTransactions T) = length xs" "nTransactions T \<noteq> 0"
    using len assms(1) by (simp_all add: T unat_of_nat unat_eq_zero [symmetric])
  have "TraverseAndExtract T H 0 ?s = (level xs H ! 0, extracted xs vMatch H 0 ?s)"
    using len by (intro TraverseAndExtract_build [where H = H and bs = "replicate k False" and hs = "[]"] assms th top)
      (simp_all add: T)
  moreover have "(length ?bits + 7) div 8 = (length ?bits + k + 7) div 8"
    using k padded_bytes [of k "length ?bits"] by (elim dvdE) simp
  ultimately show ?thesis
    using len counts n by (simp add: ExtractMatches_def MaxBlockSize_def MAX_DIP0001_BLOCK_SIZE_def T th(1) extracted_def m Let_def)
qed

text \<open>
  C18: a partial Merkle tree proves what it was built for. For a block of at most \<open>MaxBlockSize() / 60\<close> transactions whose
  ids \<open>ComputeMerkleRoot\<close> does not report as mutated, the constructor succeeds; the tree survives serialization;
  and \<open>ExtractMatches\<close> on the received tree returns the Merkle root of the block, the matched ids
  in order, and their positions.
\<close>

theorem partial_tree_roundtrip:
  assumes "vTxid \<noteq> []" "length vTxid \<le> MaxBlockSize True div 60" "length vMatch = length vTxid" "\<not> snd (ComputeMerkleRoot vTxid)"
  shows "\<exists>T. CPartialMerkleTree vTxid vMatch = Inr T \<and>
    (\<forall>s rest. ds_inv s \<and> ds_contents s = CPartialMerkleTree_Ser T @ rest \<longrightarrow>
      (\<exists>T' s'. CPartialMerkleTree_Unser ds_read s = Inr (T', s') \<and> ds_inv s' \<and> ds_contents s' = rest
         \<and> ExtractMatches T' vnIndex =
             (let idx = filter ((!) vMatch) [0..<length vTxid] in
              (fst (ComputeMerkleRoot vTxid), T', map ((!) vTxid) idx, vnIndex @ idx))))"
proof -
  let ?n = "of_nat (length vTxid) :: u32"
  define H where "H = tree_height ?n 0"
  have len: "length vTxid \<le> 33333" using assms(2) by (simp add: MaxBlockSize_def MAX_DIP0001_BLOCK_SIZE_def)
  then have small: "length vTxid < 2 ^ 31" by simp
  have H: "is_top vTxid H" "H \<le> 31" using tree_height_top [OF refl assms(1) small, of 0] by (simp_all add: H_def)
  have root: "ComputeMerkleRoot vTxid = (level vTxid H ! 0, False)" and differ: "siblings_differ vTxid H"
    using ComputeMerkleRoot_top [OF H(1)] assms(4) by (auto simp: siblings_differ_def)
  have top: "0 < length (level vTxid H)" using H(1) by (simp add: is_top_def)
  let ?bits = "build_bits vTxid vMatch H 0" and ?hashes = "build_hashes vTxid vMatch H 0"
  let ?T = "\<lparr>nTransactions = ?n, vBits = ?bits, vHash = ?hashes, fBad = False\<rparr>"
  have T: "CPartialMerkleTree vTxid vMatch = Inr ?T"
    using TraverseAndBuild_eq [OF refl assms(1) small assms(3) H(2) top] by (simp add: CPartialMerkleTree_def H_def [symmetric] Let_def)
  obtain k where k: "BytesToBits (BitsToBytes ?bits) = ?bits @ replicate k False" "k < 8" "8 dvd length ?bits + k"
    using BytesToBits_BitsToBytes by blast
  have "H \<le> 16" using len by (intro top_height [OF H(1)]) simp
  then have "(2 :: nat) ^ Suc H \<le> 2 ^ 17" by (intro power_increasing) simp_all
  then have "length ?bits < 2 ^ 17" using build_bits_bound [of vTxid vMatch H 0] by (rule less_le_trans [rotated])
  moreover have "length ?hashes \<le> length vTxid" using build_counts [OF assms(3) top] top_leaves [OF H(1)] by simp
  ultimately have "length (vHash ?T) \<le> unat MAX_SIZE" "length (BitsToBytes (vBits ?T)) \<le> unat MAX_SIZE"
    using len by (simp_all add: MAX_SIZE_def BitsToBytes_def)
  from ds.reads_CPartialMerkleTree [OF this]
  have "\<exists>s'. CPartialMerkleTree_Unser ds_read s = Inr (?T\<lparr>vBits := ?bits @ replicate k False\<rparr>, s') \<and> ds_inv s' \<and> ds_contents s' = rest"
    if "ds_inv s" "ds_contents s = CPartialMerkleTree_Ser ?T @ rest" for s rest
    using ds.readsD that by (fastforce simp: k(1))
  moreover have "ExtractMatches (?T\<lparr>vBits := ?bits @ replicate k False\<rparr>) vnIndex =
      (level vTxid H ! 0, ?T\<lparr>vBits := ?bits @ replicate k False\<rparr>, map ((!) vTxid) (filter ((!) vMatch) [0..<length vTxid]),
       vnIndex @ filter ((!) vMatch) [0..<length vTxid])"
    by (rule ExtractMatches_build [OF assms(1-3) H(1) differ _ k(2,3) H_def [symmetric] H(2)]) simp
  ultimately show ?thesis using T unfolding root Let_def fst_conv by blast
qed

lemma sample_top: "is_top [1, 2] 1"
  by (simp add: is_top_def)

theorem partial_tree_roundtrip_witness:
  "\<not> snd (ComputeMerkleRoot [1, 2]) \<and> (\<exists>T. CPartialMerkleTree [1, 2] [False, True] = Inr T \<and>
    (\<forall>s rest. ds_inv s \<and> ds_contents s = CPartialMerkleTree_Ser T @ rest \<longrightarrow>
      (\<exists>T' s'. CPartialMerkleTree_Unser ds_read s = Inr (T', s') \<and> ds_inv s' \<and> ds_contents s' = rest
         \<and> ExtractMatches T' [5] = (Hash_pair 1 2, T', [2], [5, 1]))))"
proof -
  have "\<not> snd (ComputeMerkleRoot [1, 2])" "fst (ComputeMerkleRoot [1, 2]) = Hash_pair 1 2"
    by (simp_all add: ComputeMerkleRoot_top [OF sample_top])
  moreover have "filter ((!) [False, True]) [0..<length [1 :: uint256, 2]] = [1]" by (simp add: upt_rec)
  ultimately show ?thesis
    using partial_tree_roundtrip [of "[1, 2]" "[False, True]" "[5]"] by (simp add: MaxBlockSize_def MAX_DIP0001_BLOCK_SIZE_def Let_def)
qed

section \<open>A partial tree proves only what is in the block\<close>

text \<open>The pairs that the tree of a list hashes, and those that an extraction hashes.\<close>

fun level_pairs :: "uint256 list \<Rightarrow> (uint256 \<times> uint256) list" where
  "level_pairs (a # b # xs) = (a, b) # level_pairs xs"
| "level_pairs [a] = [(a, a)]"
| "level_pairs [] = []"

definition tree_pairs :: "uint256 list \<Rightarrow> nat \<Rightarrow> (uint256 \<times> uint256) set" where
  "tree_pairs xs H = (\<Union>h<H. set (level_pairs (level xs h)))"

fun extract_pairs :: "partial_merkle_tree \<Rightarrow> nat \<Rightarrow> nat \<Rightarrow> extract_state \<Rightarrow> (uint256 \<times> uint256) set" where
  "extract_pairs T 0 pos s = {}"
| "extract_pairs T (Suc height) pos s =
     (if nBitsUsed s \<ge> length (vBits T) \<or> \<not> vBits T ! nBitsUsed s then {}
      else
        let s0 = s\<lparr>nBitsUsed := nBitsUsed s + 1\<rparr>; (left, s1) = TraverseAndExtract T height (pos * 2) s0 in
        if pos * 2 + 1 < unat (CalcTreeWidth (nTransactions T) height) then
          insert (left, fst (TraverseAndExtract T height (pos * 2 + 1) s1))
            (extract_pairs T height (pos * 2) s0 \<union> extract_pairs T height (pos * 2 + 1) s1)
        else insert (left, left) (extract_pairs T height (pos * 2) s0))"

definition extract_start :: "partial_merkle_tree \<Rightarrow> nat list \<Rightarrow> extract_state" where
  "extract_start T vnIndex = \<lparr>nBitsUsed = 0, nHashUsed = 0, es_match = [], es_index = vnIndex, es_bad = fBad T\<rparr>"

lemma pair_up_pairs: "pair_up xs = map (\<lambda>(a, b). Hash_pair a b) (level_pairs xs)"
  by (induction xs rule: pair_up.induct) simp_all

lemma length_level_pairs [simp]: "length (level_pairs xs) = (length xs + 1) div 2"
  by (induction xs rule: level_pairs.induct) simp_all

lemma nth_level_pairs:
  "i < (length xs + 1) div 2 \<Longrightarrow>
     level_pairs xs ! i = (xs ! (i * 2), if i * 2 + 1 < length xs then xs ! (i * 2 + 1) else xs ! (i * 2))"
proof (induction xs arbitrary: i rule: level_pairs.induct)
  case (1 a b xs)
  then show ?case by (cases i) simp_all
qed simp_all

lemma tree_pairsI:
  "h < H \<Longrightarrow> p < length (level xs (Suc h)) \<Longrightarrow>
     (level xs h ! (p * 2), if p * 2 + 1 < length (level xs h) then level xs h ! (p * 2 + 1) else level xs h ! (p * 2)) \<in> tree_pairs xs H"
  unfolding tree_pairs_def using nth_level_pairs [of p "level xs h"] nth_mem [of p "level_pairs (level xs h)"] by auto

lemma use_stored_hash_bad: "es_bad s \<Longrightarrow> es_bad (snd (use_stored_hash T b p s))"
  by (simp add: use_stored_hash_def Let_def)

lemma TraverseAndExtract_bad: "es_bad s \<Longrightarrow> es_bad (snd (TraverseAndExtract T h p s))"
  by (induction h arbitrary: p s) (simp_all add: use_stored_hash_bad Let_def case_prod_unfold)

lemma leaves_less: "i \<in> set (leaves n h p) \<Longrightarrow> j \<in> set (leaves n h (Suc p)) \<Longrightarrow> i < j"
  by (auto simp: leaves_def)

text \<open>What a traversal below a node adds, when the hash it computes is the hash of that node.\<close>

definition adds_leaves :: "uint256 list \<Rightarrow> nat \<Rightarrow> nat \<Rightarrow> extract_state \<Rightarrow> extract_state \<Rightarrow> bool" where
  "adds_leaves xs h p s s' \<longleftrightarrow> (\<exists>new. es_index s' = es_index s @ new \<and> es_match s' = es_match s @ map ((!) xs) new
     \<and> set new \<subseteq> set (leaves (length xs) h p) \<and> sorted_wrt (<) new)"

lemma adds_leaves_Suc:
  assumes "adds_leaves xs h (p * 2) s s1" "adds_leaves xs h (p * 2 + 1) s1 s2"
  shows "adds_leaves xs (Suc h) p s s2"
proof -
  obtain new1 new2 where "es_index s1 = es_index s @ new1" "es_match s1 = es_match s @ map ((!) xs) new1"
    "set new1 \<subseteq> set (leaves (length xs) h (p * 2))" "sorted_wrt (<) new1"
    "es_index s2 = es_index s1 @ new2" "es_match s2 = es_match s1 @ map ((!) xs) new2"
    "set new2 \<subseteq> set (leaves (length xs) h (p * 2 + 1))" "sorted_wrt (<) new2"
    using assms unfolding adds_leaves_def by blast
  then show ?thesis
    unfolding adds_leaves_def
    by (intro exI [of _ "new1 @ new2"]) (auto simp: leaves_Suc sorted_wrt_append intro!: leaves_less [of _ _ h "p * 2"])
qed

lemma adds_leaves_left: "adds_leaves xs h (p * 2) s s1 \<Longrightarrow> adds_leaves xs (Suc h) p s s1"
  by (auto simp: adds_leaves_def leaves_Suc)

lemma use_stored_hash_leaf:
  assumes "use_stored_hash T m p s = (r, s')" "m \<Longrightarrow> r = xs ! p \<and> p \<in> set (leaves (length xs) h p')" "\<not> es_bad s'"
  shows "adds_leaves xs h p' s s'"
proof (cases m)
  case True
  then show ?thesis
    using assms by (auto simp: use_stored_hash_def Let_def adds_leaves_def split: if_splits intro!: exI [of _ "[p]"])
next
  case False
  then show ?thesis
    using assms by (auto simp: use_stored_hash_def Let_def adds_leaves_def split: if_splits intro!: exI [of _ "[]"])
qed

lemma adds_leaves_bits: "adds_leaves xs h p (s\<lparr>nBitsUsed := k\<rparr>) s' \<longleftrightarrow> adds_leaves xs h p s s'"
  "adds_leaves xs h p s (s'\<lparr>es_bad := b\<rparr>) \<longleftrightarrow> adds_leaves xs h p s s'"
  by (simp_all add: adds_leaves_def)

lemma TraverseAndExtract_sound:
  assumes "nTransactions T = of_nat (length xs)" "length xs < 2 ^ 31" "H \<le> 31"
    and inj: "inj_on (\<lambda>(a, b). Hash_pair a b) A" "tree_pairs xs H \<subseteq> A"
  shows "h \<le> H \<Longrightarrow> p < length (level xs h) \<Longrightarrow> extract_pairs T h p s \<subseteq> A \<Longrightarrow>
    TraverseAndExtract T h p s = (level xs h ! p, s') \<Longrightarrow> \<not> es_bad s' \<Longrightarrow> adds_leaves xs h p s s'"
proof (induction h arbitrary: p s s')
  case 0
  then have "p \<in> set (leaves (length xs) 0 p)" by (simp add: leaves_def)
  with 0 show ?case
    by (auto simp: adds_leaves_bits split: if_splits dest!: use_stored_hash_leaf [where h = 0 and xs = xs and p' = p])
next
  case (Suc h)
  have w: "unat (CalcTreeWidth (nTransactions T) h) = length (level xs h)" using assms Suc.prems by (intro width_level) simp_all
  have p: "p < (length (level xs h) + 1) div 2" "p * 2 < length (level xs h)" using Suc.prems by auto
  show ?case
  proof (cases "nBitsUsed s < length (vBits T) \<and> vBits T ! nBitsUsed s")
    case False
    then show ?thesis
      using Suc.prems by (auto simp: adds_leaves_bits split: if_splits dest!: use_stored_hash_leaf [where h = "Suc h" and xs = xs and p' = p])
  next
    case True
    let ?s = "s\<lparr>nBitsUsed := nBitsUsed s + 1\<rparr>" and ?right = "p * 2 + 1 < length (level xs h)"
    obtain left s1 where l: "TraverseAndExtract T h (p * 2) ?s = (left, s1)" by fastforce
    obtain right s2 where r: "TraverseAndExtract T h (p * 2 + 1) s1 = (right, s2)" by fastforce
    let ?pair = "if ?right then (left, right) else (left, left)"
    let ?node = "(level xs h ! (p * 2), if ?right then level xs h ! (p * 2 + 1) else level xs h ! (p * 2))"
    have sub: "extract_pairs T h (p * 2) ?s \<subseteq> A" "?right \<Longrightarrow> extract_pairs T h (p * 2 + 1) s1 \<subseteq> A" "?pair \<in> A"
      using Suc.prems(3) True l r by (auto simp: w Let_def split: if_splits)
    have "?node \<in> A" using tree_pairsI [of h H p xs] Suc.prems(1,2) inj(2) by (auto simp del: level.simps)
    moreover have "(\<lambda>(a, b). Hash_pair a b) ?pair = (\<lambda>(a, b). Hash_pair a b) ?node"
      using Suc.prems(4) True l r nth_pair_up [OF p(1)] by (auto simp: w mult.commute Let_def split: if_splits)
    ultimately have eq: "?pair = ?node" using inj_onD [OF inj(1)] sub(3) by blast
    have bad: "\<not> es_bad s1" "?right \<Longrightarrow> \<not> es_bad s2"
      using Suc.prems(4,5) True l r TraverseAndExtract_bad [of s1 T h "p * 2 + 1"]
      by (auto simp: w Let_def split: if_splits)
    have "left = level xs h ! (p * 2)" using eq by (simp split: if_splits)
    then have left: "adds_leaves xs h (p * 2) s s1"
      using Suc.IH [of "p * 2" ?s s1] Suc.prems(1) p(2) sub(1) l bad(1) by (simp add: adds_leaves_bits)
    show ?thesis
    proof (cases ?right)
      case True2: True
      then have "right = level xs h ! (p * 2 + 1)" using eq by simp
      then have "adds_leaves xs h (p * 2 + 1) s1 s2"
        using Suc.IH [of "p * 2 + 1" s1 s2] Suc.prems(1) True2 sub(2) r bad(2) by simp
      then have "adds_leaves xs (Suc h) p s s2" using left by (intro adds_leaves_Suc)
      moreover have "s' = s2 \<or> s' = s2\<lparr>es_bad := True\<rparr>"
        using Suc.prems(4) True True2 l r by (auto simp: w split: if_splits)
      ultimately show ?thesis by (auto simp: adds_leaves_bits)
    next
      case False
      then have "s' = s1" using Suc.prems(4) True l by (auto simp: w)
      then show ?thesis using left by (simp add: adds_leaves_left)
    qed
  qed
qed

text \<open>
  \<open>ExtractMatches\<close> reports an error by returning zero; a result other than zero, or one that no check turned into
  zero, is the hash that the traversal computed.
\<close>

definition extract_succeeds :: "partial_merkle_tree \<Rightarrow> nat list \<Rightarrow> bool" where
  "extract_succeeds T vnIndex \<longleftrightarrow>
     nTransactions T \<noteq> 0 \<and> unat (nTransactions T) \<le> MaxBlockSize True div 60
   \<and> length (vHash T) \<le> unat (nTransactions T) \<and> length (vHash T) \<le> length (vBits T)
   \<and> (let s = snd (TraverseAndExtract T (tree_height (nTransactions T) 0) 0 (extract_start T vnIndex)) in
      \<not> es_bad s \<and> (nBitsUsed s + 7) div 8 = (length (vBits T) + 7) div 8 \<and> nHashUsed s = length (vHash T))"

lemma ExtractMatches_succeeds:
  assumes "ExtractMatches T vnIndex = (root, T', ms, idx)"
  shows "root \<noteq> 0 \<Longrightarrow> extract_succeeds T vnIndex"
    and "extract_succeeds T vnIndex \<Longrightarrow> \<exists>s. TraverseAndExtract T (tree_height (nTransactions T) 0) 0 (extract_start T vnIndex) = (root, s)
      \<and> \<not> es_bad s \<and> ms = es_match s \<and> idx = es_index s"
proof -
  obtain r s where rs: "TraverseAndExtract T (tree_height (nTransactions T) 0) 0 (extract_start T vnIndex) = (r, s)" by fastforce
  show "root \<noteq> 0 \<Longrightarrow> extract_succeeds T vnIndex"
    using assms rs by (auto simp: ExtractMatches_def extract_succeeds_def extract_start_def Let_def split: if_splits)
  show "\<exists>s. TraverseAndExtract T (tree_height (nTransactions T) 0) 0 (extract_start T vnIndex) = (root, s)
      \<and> \<not> es_bad s \<and> ms = es_match s \<and> idx = es_index s" if "extract_succeeds T vnIndex"
    using assms rs that by (auto simp: ExtractMatches_def extract_succeeds_def extract_start_def Let_def split: if_splits)
qed

text \<open>
  C7: a partial Merkle tree cannot prove a transaction that is not in the block. Whatever tree was received, if \<open>ExtractMatches\<close>
  returns the Merkle root of a block and no error (zero stands for an error), and the block has exactly the number of
  transactions that the tree claims, then each id it reports is the id at the reported position of that block, and
  the positions are increasing. The pair hash is only assumed to be without collisions among the pairs that the
  block's tree and the extraction hash. (Without the condition on the number of transactions the inner hashes of a
  block could be passed off as its transactions.)
\<close>

theorem partial_tree_sound:
  assumes "ExtractMatches T vnIndex = (root, T', ms, idx)" "root \<noteq> 0 \<or> extract_succeeds T vnIndex" "root = fst (ComputeMerkleRoot vTxid)"
    "length vTxid = unat (nTransactions T)"
    "inj_on (\<lambda>(a, b). Hash_pair a b) (tree_pairs vTxid (tree_height (nTransactions T) 0)
       \<union> extract_pairs T (tree_height (nTransactions T) 0) 0 (extract_start T vnIndex))"
  shows "\<exists>new. idx = vnIndex @ new \<and> ms = map ((!) vTxid) new \<and> sorted_wrt (<) new \<and> set new \<subseteq> {..<length vTxid}"
proof -
  define H where "H = tree_height (nTransactions T) 0"
  have ok: "extract_succeeds T vnIndex" using assms(2) ExtractMatches_succeeds(1) [OF assms(1)] by blast
  obtain s where rs: "TraverseAndExtract T H 0 (extract_start T vnIndex) = (root, s)"
    and s: "\<not> es_bad s" "ms = es_match s" "idx = es_index s"
    using ExtractMatches_succeeds(2) [OF assms(1) ok] unfolding H_def by blast
  have x: "unat (nTransactions T) \<le> MaxBlockSize True div 60" "nTransactions T \<noteq> 0"
    using ok unfolding extract_succeeds_def by blast+
  have small: "length vTxid < 2 ^ 31" using x(1) assms(4) by (simp add: MaxBlockSize_def MAX_DIP0001_BLOCK_SIZE_def)
  have n: "nTransactions T = of_nat (length vTxid)" "vTxid \<noteq> []"
    using assms(4) x(2) by (auto simp: unat_eq_zero)
  have H: "is_top vTxid H" "H \<le> 31" using tree_height_top [OF n small, of 0] by (simp_all add: H_def)
  then have "root = level vTxid H ! 0" "0 < length (level vTxid H)"
    using assms(3) by (simp_all add: ComputeMerkleRoot_top is_top_def)
  then have "adds_leaves vTxid H 0 (extract_start T vnIndex) s"
    using TraverseAndExtract_sound [OF n(1) small H(2) assms(5), of H 0 "extract_start T vnIndex" s] rs s(1)
    by (simp add: H_def)
  then show ?thesis
    using s top_leaves [OF H(1)] by (auto simp: adds_leaves_def extract_start_def atLeast0LessThan)
qed

text \<open>A block of two transactions, of which the proof reports the second; the pair of ids is hashed.\<close>

definition sample_proof :: partial_merkle_tree where
  "sample_proof = \<lparr>nTransactions = 2, vBits = [True, False, True, False, False, False, False, False], vHash = [1, 2], fBad = False\<rparr>"

theorem partial_tree_sound_witness:
  "ExtractMatches sample_proof [] = (Hash_pair 1 2, sample_proof, [2], [1]) \<and> Hash_pair 1 2 = fst (ComputeMerkleRoot [1, 2])
   \<and> (1, 2) \<in> tree_pairs [1, 2] 1 \<inter> extract_pairs sample_proof 1 0 (extract_start sample_proof [])
   \<and> (\<exists>new. [1] = [] @ new \<and> [2] = map ((!) [1 :: uint256, 2]) new \<and> sorted_wrt (<) new \<and> set new \<subseteq> {..<length [1 :: uint256, 2]})"
proof -
  have h: "tree_height 2 0 = Suc 0" by (simp add: tree_height.simps CalcTreeWidth_def)
  have w: "CalcTreeWidth 2 0 = 2" by (simp add: CalcTreeWidth_def)
  have e: "ExtractMatches sample_proof [] = (Hash_pair 1 2, sample_proof, [2], [1])"
    by (simp add: ExtractMatches_def sample_proof_def MaxBlockSize_def MAX_DIP0001_BLOCK_SIZE_def h w use_stored_hash_def)
  have ok: "extract_succeeds sample_proof []"
    by (simp add: extract_succeeds_def extract_start_def sample_proof_def MaxBlockSize_def MAX_DIP0001_BLOCK_SIZE_def h w use_stored_hash_def)
  have r: "Hash_pair 1 2 = fst (ComputeMerkleRoot [1, 2])" by (simp add: ComputeMerkleRoot_top [OF sample_top])
  have p: "extract_pairs sample_proof (Suc 0) 0 (extract_start sample_proof []) = {(1, 2)}"
    by (simp add: sample_proof_def extract_start_def w use_stored_hash_def)
  have t: "tree_pairs [1, 2] (Suc 0) = {(1, 2)}" by (simp add: tree_pairs_def lessThan_Suc)
  have n: "nTransactions sample_proof = 2" by (simp add: sample_proof_def)
  have "\<exists>new. [1] = [] @ new \<and> [2] = map ((!) [1 :: uint256, 2]) new \<and> sorted_wrt (<) new \<and> set new \<subseteq> {..<length [1 :: uint256, 2]}"
    using ok by (intro partial_tree_sound [OF e _ r]) (simp_all add: n h p t del: extract_pairs.simps)
  with e r show ?thesis by (simp add: p t del: extract_pairs.simps)
qed

section \<open>The root determines the transactions\<close>

lemma level_pairs_inject:
  "\<not> merkle_mutation xs \<Longrightarrow> \<not> merkle_mutation ys \<Longrightarrow> level_pairs xs = level_pairs ys \<Longrightarrow> xs = ys"
proof (induction xs arbitrary: ys rule: level_pairs.induct)
  case (1 a b xs)
  show ?case
  proof (cases ys rule: level_pairs.cases)
    case (1 c d zs)
    then have "xs = zs" using 1 "1.prems" by (intro "1.IH") simp_all
    with 1 "1.prems" show ?thesis by simp
  qed (use "1.prems" in auto)
next
  case (2 a)
  then show ?case by (cases ys rule: level_pairs.cases) auto
next
  case 3
  then show ?case by (cases ys rule: level_pairs.cases) auto
qed

lemma pair_up_inject:
  assumes "inj_on (\<lambda>(a, b). Hash_pair a b) A" "set (level_pairs xs) \<subseteq> A" "set (level_pairs ys) \<subseteq> A"
    "\<not> merkle_mutation xs" "\<not> merkle_mutation ys" "pair_up xs = pair_up ys"
  shows "xs = ys"
proof -
  have "inj_on (\<lambda>(a, b). Hash_pair a b) (set (level_pairs xs) \<union> set (level_pairs ys))"
    using assms(1-3) by (blast intro: inj_on_subset)
  then have "level_pairs xs = level_pairs ys" using assms(6) unfolding pair_up_pairs by (simp add: inj_on_map_eq_map)
  with assms(4,5) show ?thesis by (rule level_pairs_inject)
qed

text \<open>Going down from equal levels.\<close>

lemma levels_down:
  assumes "inj_on (\<lambda>(a, b). Hash_pair a b) (tree_pairs xs Hx \<union> tree_pairs ys Hy)" "siblings_differ xs Hx" "siblings_differ ys Hy"
    "level xs Hx = level ys Hy"
  shows "k \<le> Hx \<Longrightarrow> k \<le> Hy \<Longrightarrow> level xs (Hx - k) = level ys (Hy - k)"
proof (induction k)
  case (Suc k)
  then have "pair_up (level xs (Hx - Suc k)) = pair_up (level ys (Hy - Suc k))"
    by (simp flip: level.simps(2) add: Suc_diff_Suc)
  moreover have "\<not> merkle_mutation (level xs (Hx - Suc k))" "\<not> merkle_mutation (level ys (Hy - Suc k))"
    using assms(2,3) Suc.prems by (simp_all add: siblings_differ_def)
  moreover have "set (level_pairs (level xs (Hx - Suc k))) \<subseteq> tree_pairs xs Hx \<union> tree_pairs ys Hy"
    "set (level_pairs (level ys (Hy - Suc k))) \<subseteq> tree_pairs xs Hx \<union> tree_pairs ys Hy"
    using Suc.prems by (auto simp: tree_pairs_def)
  ultimately show ?case using pair_up_inject [OF assms(1)] by blast
qed (use assms(4) in simp)

text \<open>No id of one list is an inner hash of the tree of the other, which only matters for trees of different height.\<close>

definition leaves_apart :: "uint256 list \<Rightarrow> nat \<Rightarrow> uint256 list \<Rightarrow> nat \<Rightarrow> bool" where
  "leaves_apart xs Hx ys Hy \<longleftrightarrow> Hx = Hy
     \<or> (set xs \<inter> (\<lambda>(a, b). Hash_pair a b) ` tree_pairs ys Hy = {} \<and> set ys \<inter> (\<lambda>(a, b). Hash_pair a b) ` tree_pairs xs Hx = {})"

lemma level_hashes: "0 < h \<Longrightarrow> h \<le> H \<Longrightarrow> set (level ys h) \<subseteq> (\<lambda>(a, b). Hash_pair a b) ` tree_pairs ys H"
proof -
  assume "0 < h" "h \<le> H"
  then obtain k where k: "h = Suc k" "k < H" by (cases h) simp_all
  then have "set (level_pairs (level ys k)) \<subseteq> tree_pairs ys H" by (auto simp: tree_pairs_def)
  then show ?thesis by (simp add: k(1) pair_up_pairs image_mono)
qed

lemma same_list:
  assumes "inj_on (\<lambda>(a, b). Hash_pair a b) (tree_pairs xs Hx \<union> tree_pairs ys Hy)" "siblings_differ xs Hx" "siblings_differ ys Hy"
    "level xs Hx = level ys Hy" "Hx \<le> Hy" "xs \<noteq> []" "leaves_apart xs Hx ys Hy"
  shows "xs = ys"
proof -
  have eq: "xs = level ys (Hy - Hx)" using levels_down [OF assms(1-4), of Hx] assms(5) by simp
  show ?thesis
  proof (cases "Hx = Hy")
    case False
    then have "set xs \<subseteq> (\<lambda>(a, b). Hash_pair a b) ` tree_pairs ys Hy"
      using eq assms(5) level_hashes [of "Hy - Hx" Hy ys] by simp
    moreover have "set xs \<inter> (\<lambda>(a, b). Hash_pair a b) ` tree_pairs ys Hy = {}"
      using assms(7) False by (simp add: leaves_apart_def)
    ultimately show ?thesis using assms(6) by (metis inf.absorb_iff1 set_empty)
  qed (use eq in simp)
qed

text \<open>
  C8: the Merkle root binds the transactions of a block (the defence against CVE-2012-2459): two lists with the same root that
  \<open>ComputeMerkleRoot\<close> does not report as mutated are equal, in particular neither is the other with
  branches repeated. The pair hash is only assumed to be without collisions among the pairs hashed for the two
  lists, and, if the two trees differ in height, no id of one list to be an inner hash of the other (otherwise four
  ids and the two inner hashes above them have the same root).
\<close>

theorem merkle_root_binding:
  assumes "xs \<noteq> []" "ys \<noteq> []" "length xs < 2 ^ 31" "length ys < 2 ^ 31"
    "Hx = tree_height (of_nat (length xs)) 0" "Hy = tree_height (of_nat (length ys)) 0"
    "inj_on (\<lambda>(a, b). Hash_pair a b) (tree_pairs xs Hx \<union> tree_pairs ys Hy)" "leaves_apart xs Hx ys Hy"
    "ComputeMerkleRoot xs = (root, False)" "ComputeMerkleRoot ys = (root, False)"
  shows "xs = ys"
proof -
  have x: "is_top xs Hx" and y: "is_top ys Hy"
    using tree_height_top [OF refl assms(1,3), of 0] tree_height_top [OF refl assms(2,4), of 0] by (simp_all add: assms(5,6))
  then have "length (level xs Hx) = 1" "length (level ys Hy) = 1" by (simp_all add: is_top_def)
  then have eq: "level xs Hx = level ys Hy"
    using assms(9,10) ComputeMerkleRoot_top [OF x] ComputeMerkleRoot_top [OF y] by (auto simp: length_Suc_conv)
  have sd: "siblings_differ xs Hx" "siblings_differ ys Hy"
    using assms(9,10) ComputeMerkleRoot_top [OF x] ComputeMerkleRoot_top [OF y] by (auto simp: siblings_differ_def)
  show ?thesis
  proof (cases "Hx \<le> Hy")
    case True
    then show ?thesis using same_list [OF assms(7) sd eq] assms(1,8) by simp
  next
    case False
    have "leaves_apart ys Hy xs Hx" using assms(8) by (auto simp: leaves_apart_def)
    then show ?thesis
      using same_list [OF _ sd(2,1) eq [symmetric]] assms(2,7) False by (simp add: Un_commute)
  qed
qed

theorem merkle_root_binding_witness:
  "inj_on (\<lambda>(a, b). Hash_pair a b) (tree_pairs [1, 2] 1 \<union> tree_pairs [1, 2] 1) \<and> leaves_apart [1, 2] 1 [1, 2] 1
   \<and> ComputeMerkleRoot [1, 2] = (Hash_pair 1 2, False) \<and> [1, 2] = [1, 2 :: uint256]"
proof -
  have h: "tree_height 2 0 = 1" by (simp add: tree_height.simps CalcTreeWidth_def)
  have r: "ComputeMerkleRoot [1, 2] = (Hash_pair 1 2, False)" by (simp add: ComputeMerkleRoot_top [OF sample_top])
  have i: "inj_on (\<lambda>(a, b). Hash_pair a b) (tree_pairs [1, 2] 1 \<union> tree_pairs [1, 2] 1)" "leaves_apart [1, 2] 1 [1, 2] 1"
    by (simp_all add: tree_pairs_def leaves_apart_def lessThan_Suc)
  have "[1, 2] = [1, 2 :: uint256]"
    by (rule merkle_root_binding [OF _ _ _ _ _ _ i r r]) (simp_all add: h)
  with r i show ?thesis by blast
qed

text \<open>The mutation of the comment in \<open>merkle.cpp\<close>: repeating the last two of six ids keeps the root, and is reported.\<close>

lemma duplicated_branch:
  "fst (ComputeMerkleRoot [t1, t2, t3, t4, t5, t6, t5, t6]) = fst (ComputeMerkleRoot [t1, t2, t3, t4, t5, t6])
   \<and> snd (ComputeMerkleRoot [t1, t2, t3, t4, t5, t6, t5, t6])"
  by (simp add: ComputeMerkleRoot_def merkle_loop.simps merkle_level_eq)

end
