(* ===== verification/VersionBits.thy ===== *)
theory VersionBits
  imports Chain "HOL-Library.Signed_Division"
begin

text \<open>
  The deployment of soft forks (\<open>src/versionbits.h\<close>, \<open>src/versionbits.cpp\<close>): the state machine of a
  deployment, its state for every block with the cache that avoids recomputing it, and the version a new
  block signals. The height at which masternodes signalled a deployment comes from the manager of
  hard-fork signals and is a parameter.
\<close>

section \<open>States and checkers\<close>

datatype ThresholdState = DEFINED | STARTED | LOCKED_IN | ACTIVE | FAILED

type_synonym cond_cache = "ptr option \<Rightarrow> ThresholdState option"

text \<open>The virtual functions of \<open>AbstractThresholdConditionChecker\<close>.\<close>

record threshold_checker =
  ck_Condition :: "ptr \<Rightarrow> bool"
  ck_BeginTime :: int
  ck_SignalHeight :: "ptr option \<Rightarrow> int"
  ck_EndTime :: int
  ck_MinActivationHeight :: int
  ck_Period :: int
  ck_Threshold :: "int \<Rightarrow> int"

definition INT_MAX :: int where
  "INT_MAX = 2 ^ 31 - 1"

definition ALWAYS_ACTIVE :: int where
  "ALWAYS_ACTIVE = - 1"

definition NEVER_ACTIVE :: int where
  "NEVER_ACTIVE = - 2"

abbreviation height_of :: "heap \<Rightarrow> ptr \<Rightarrow> int" where
  "height_of H p \<equiv> int (bi_height (H p))"

text \<open>
  The walk back over \<open>STARTED\<close> periods; the first argument bounds the iterations, and the height of the block
  is enough.
\<close>

fun calculateStartHeight :: "nat \<Rightarrow> heap \<Rightarrow> ptr option \<Rightarrow> ThresholdState \<Rightarrow> int \<Rightarrow> cond_cache \<Rightarrow> int \<Rightarrow> int res" where
  "calculateStartHeight fuel H pindexPrev state nPeriod cache nStartHeight =
     (if state \<noteq> STARTED then Inr nStartHeight
      else case pindexPrev of
        None \<Rightarrow> Inl ''null pointer: pindexPrev->nHeight''
      | Some p \<Rightarrow>
          (case fuel of
             0 \<Rightarrow> Inl ''out of fuel''
           | Suc fuel' \<Rightarrow>
               res_bind (GetAncestor H p (height_of H p - nPeriod)) (\<lambda>q.
                 case cache q of
                   None \<Rightarrow> Inl ''assert(cache_it != cache.end())''
                 | Some st \<Rightarrow> calculateStartHeight fuel' H q st nPeriod cache (min (height_of H p + 1) nStartHeight))))"

declare calculateStartHeight.simps [simp del]

text \<open>The walk back to a block whose state is known; \<open>vToCompute\<close> is a stack, its head the back of the vector.\<close>

fun walk_back ::
    "nat \<Rightarrow> heap \<Rightarrow> threshold_checker \<Rightarrow> int \<Rightarrow> ptr option \<Rightarrow> ptr list \<Rightarrow> cond_cache \<Rightarrow> (ptr option \<times> ptr list \<times> cond_cache) res" where
  "walk_back fuel H c masternodeStartHeight pindexPrev vToCompute cache =
     (if cache pindexPrev \<noteq> None then Inr (pindexPrev, vToCompute, cache)
      else case pindexPrev of
        None \<Rightarrow> Inr (None, vToCompute, cache(None \<mapsto> DEFINED))
      | Some p \<Rightarrow>
          if GetMedianTimePast H p < ck_BeginTime c \<or> height_of H p < masternodeStartHeight
          then Inr (Some p, vToCompute, cache(Some p \<mapsto> DEFINED))
          else
            (case fuel of
               0 \<Rightarrow> Inl ''out of fuel''
             | Suc fuel' \<Rightarrow>
                 res_bind (GetAncestor H p (height_of H p - ck_Period c)) (\<lambda>q.
                   walk_back fuel' H c masternodeStartHeight q (p # vToCompute) cache)))"

declare walk_back.simps [simp del]

fun count_condition :: "heap \<Rightarrow> threshold_checker \<Rightarrow> nat \<Rightarrow> ptr option \<Rightarrow> int \<Rightarrow> (int \<times> ptr option) res" where
  "count_condition H c 0 pindexCount cnt = Inr (cnt, pindexCount)"
| "count_condition H c (Suc i) None cnt = Inl ''null pointer: pindexCount''"
| "count_condition H c (Suc i) (Some p) cnt =
     count_condition H c i (pprev (H p)) (if ck_Condition c p then cnt + 1 else cnt)"

text \<open>The body of the switch: the next state and \<open>nStartHeight\<close>.\<close>

definition compute_next ::
    "heap \<Rightarrow> threshold_checker \<Rightarrow> int \<Rightarrow> ptr \<Rightarrow> ThresholdState \<Rightarrow> int \<Rightarrow> (ThresholdState \<times> int) res" where
  "compute_next H c masternodeStartHeight p state nStartHeight =
     (case state of
        DEFINED \<Rightarrow>
          if GetMedianTimePast H p \<ge> ck_BeginTime c \<and> height_of H p \<ge> masternodeStartHeight
          then Inr (STARTED, height_of H p + 1) else Inr (state, nStartHeight)
      | STARTED \<Rightarrow>
          res_bind (count_condition H c (nat (ck_Period c)) (Some p) 0) (\<lambda>(cnt, pindexCount).
            if \<not> (nStartHeight > 0 \<and> nStartHeight < INT_MAX) then Inl ''assert(nStartHeight > 0 && nStartHeight < INT_MAX)''
            else case pindexCount of
              None \<Rightarrow> Inl ''null pointer: pindexCount->nHeight''
            | Some q \<Rightarrow>
                let nAttempt = (height_of H q + 1 - nStartHeight) sdiv ck_Period c in
                if cnt \<ge> ck_Threshold c nAttempt then Inr (LOCKED_IN, nStartHeight)
                else if GetMedianTimePast H p \<ge> ck_EndTime c then Inr (FAILED, nStartHeight)
                else Inr (state, nStartHeight))
      | LOCKED_IN \<Rightarrow> Inr (if height_of H p + 1 \<ge> ck_MinActivationHeight c then ACTIVE else state, nStartHeight)
      | FAILED \<Rightarrow> Inr (state, nStartHeight)
      | ACTIVE \<Rightarrow> Inr (state, nStartHeight))"

fun walk_forward ::
    "heap \<Rightarrow> threshold_checker \<Rightarrow> int \<Rightarrow> ptr list \<Rightarrow> ThresholdState \<Rightarrow> int \<Rightarrow> cond_cache \<Rightarrow> (ThresholdState \<times> cond_cache) res" where
  "walk_forward H c masternodeStartHeight [] state nStartHeight cache = Inr (state, cache)"
| "walk_forward H c masternodeStartHeight (p # vToCompute) state nStartHeight cache =
     res_bind (compute_next H c masternodeStartHeight p state nStartHeight) (\<lambda>(stateNext, nStartHeight').
       walk_forward H c masternodeStartHeight vToCompute stateNext nStartHeight' (cache(Some p \<mapsto> stateNext)))"

text \<open>The last block of the previous period.\<close>

definition period_parent :: "heap \<Rightarrow> int \<Rightarrow> ptr option \<Rightarrow> ptr option res" where
  "period_parent H nPeriod pindexPrev =
     (case pindexPrev of
        None \<Rightarrow> Inr None
      | Some p \<Rightarrow> GetAncestor H p (height_of H p - (height_of H p + 1) mod nPeriod))"

definition walk_fuel :: "heap \<Rightarrow> ptr option \<Rightarrow> nat" where
  "walk_fuel H pindexPrev = (case pindexPrev of None \<Rightarrow> 0 | Some p \<Rightarrow> bi_height (H p) + 1)"

definition GetStateFor :: "heap \<Rightarrow> threshold_checker \<Rightarrow> ptr option \<Rightarrow> cond_cache \<Rightarrow> (ThresholdState \<times> cond_cache) res" where
  "GetStateFor H c pindexPrev cache =
     (let nPeriod = ck_Period c; masternodeStartHeight = ck_SignalHeight c pindexPrev in
      if ck_BeginTime c = ALWAYS_ACTIVE then Inr (ACTIVE, cache)
      else if ck_BeginTime c = NEVER_ACTIVE then Inr (FAILED, cache)
      else
        res_bind (period_parent H nPeriod pindexPrev) (\<lambda>start.
        res_bind (walk_back (walk_fuel H start) H c masternodeStartHeight start [] cache) (\<lambda>(known, vToCompute, cache1).
        case cache1 known of
          None \<Rightarrow> Inl ''assert(cache.count(pindexPrev))''
        | Some state \<Rightarrow>
            res_bind (calculateStartHeight (walk_fuel H known) H known state nPeriod cache1 INT_MAX) (\<lambda>nStartHeight.
            walk_forward H c masternodeStartHeight vToCompute state nStartHeight cache1))))"

text \<open>The height since which the state holds; the walk back stops at the genesis block or where the state differs.\<close>

fun since_loop ::
    "nat \<Rightarrow> heap \<Rightarrow> threshold_checker \<Rightarrow> ThresholdState \<Rightarrow> ptr \<Rightarrow> ptr option \<Rightarrow> cond_cache \<Rightarrow> (ptr \<times> cond_cache) res" where
  "since_loop fuel H c initialState pindexPrev previousPeriodParent cache =
     (case previousPeriodParent of
        None \<Rightarrow> Inr (pindexPrev, cache)
      | Some q \<Rightarrow>
          (case fuel of
             0 \<Rightarrow> Inl ''out of fuel''
           | Suc fuel' \<Rightarrow>
               res_bind (GetStateFor H c (Some q) cache) (\<lambda>(state, cache').
                 if state \<noteq> initialState then Inr (pindexPrev, cache')
                 else res_bind (GetAncestor H q (height_of H q - ck_Period c)) (\<lambda>prev.
                   since_loop fuel' H c initialState q prev cache'))))"

declare since_loop.simps [simp del]

definition GetStateSinceHeightFor :: "heap \<Rightarrow> threshold_checker \<Rightarrow> ptr option \<Rightarrow> cond_cache \<Rightarrow> (int \<times> cond_cache) res" where
  "GetStateSinceHeightFor H c pindexPrev cache =
     (if ck_BeginTime c = ALWAYS_ACTIVE \<or> ck_BeginTime c = NEVER_ACTIVE then Inr (0, cache)
      else
        res_bind (GetStateFor H c pindexPrev cache) (\<lambda>(initialState, cache1).
        if initialState = DEFINED then Inr (0, cache1)
        else res_bind (period_parent H (ck_Period c) pindexPrev) (\<lambda>start.
          case start of
            None \<Rightarrow> Inl ''null pointer: pindexPrev->nHeight''
          | Some b \<Rightarrow>
              res_bind (GetAncestor H b (height_of H b - ck_Period c)) (\<lambda>prev.
              res_bind (since_loop (walk_fuel H prev) H c initialState b prev cache1) (\<lambda>(p, cache2).
              Inr (height_of H p + 1, cache2))))))"

text \<open>Statistics of the current period.\<close>

record BIP9Stats =
  st_period :: int
  st_threshold :: int
  st_elapsed :: int
  st_count :: int
  st_possible :: bool

fun stats_count :: "nat \<Rightarrow> heap \<Rightarrow> threshold_checker \<Rightarrow> int \<Rightarrow> ptr \<Rightarrow> int \<Rightarrow> int res" where
  "stats_count fuel H c endHeight currentIndex cnt =
     (if endHeight = height_of H currentIndex then Inr cnt
      else
        let cnt' = (if ck_Condition c currentIndex then cnt + 1 else cnt) in
        (case pprev (H currentIndex) of
           None \<Rightarrow> Inl ''null pointer: currentIndex->nHeight''
         | Some q \<Rightarrow> (case fuel of 0 \<Rightarrow> Inl ''out of fuel'' | Suc fuel' \<Rightarrow> stats_count fuel' H c endHeight q cnt')))"

declare stats_count.simps [simp del]

definition GetStateStatisticsFor :: "heap \<Rightarrow> threshold_checker \<Rightarrow> ptr option \<Rightarrow> cond_cache \<Rightarrow> (BIP9Stats \<times> cond_cache) res" where
  "GetStateStatisticsFor H c pindex cache =
     (let stats = \<lparr>st_period = ck_Period c, st_threshold = ck_Threshold c 0, st_elapsed = 0, st_count = 0, st_possible = False\<rparr> in
      case pindex of
        None \<Rightarrow> Inr (stats, cache)
      | Some p \<Rightarrow>
          res_bind (GetAncestor H p (height_of H p - (height_of H p + 1) mod ck_Period c)) (\<lambda>pindexEndOfPrevPeriod.
          case pindexEndOfPrevPeriod of
            None \<Rightarrow> Inl ''null pointer: pindexEndOfPrevPeriod->nHeight''
          | Some e \<Rightarrow>
              res_bind (GetStateFor H c (Some e) cache) (\<lambda>(state, cache1).
              res_bind (if state = STARTED
                        then res_bind (GetStateSinceHeightFor H c (Some e) cache1) (\<lambda>(nStartHeight, cache2).
                          Inr ((height_of H e + 1 - nStartHeight) sdiv ck_Period c, cache2))
                        else Inr (0, cache1)) (\<lambda>(nAttempt, cache2).
              res_bind (stats_count (bi_height (H p)) H c (height_of H e) p 0) (\<lambda>cnt.
              let threshold = ck_Threshold c nAttempt; elapsed = height_of H p - height_of H e in
              Inr (\<lparr>st_period = ck_Period c, st_threshold = threshold, st_elapsed = elapsed, st_count = cnt,
                st_possible = (ck_Period c - threshold \<ge> elapsed - cnt)\<rparr>, cache2))))))"

section \<open>Version bits\<close>

record BIP9Deployment =
  dep_bit :: nat
  nStartTime :: int
  nTimeout :: int
  min_activation_height :: int
  nWindowSize :: int
  nThresholdStart :: int
  nThresholdMin :: int
  nFalloffCoeff :: int
  useEHF :: bool

text \<open>The consensus parameters the checker reads.\<close>

record vb_params =
  vDeployments :: "BIP9Deployment list"
  nMinerConfirmationWindow :: int
  nRuleChangeActivationThreshold :: int

definition VERSIONBITS_TOP_BITS :: u32 where
  "VERSIONBITS_TOP_BITS = 0x20000000"

definition VERSIONBITS_TOP_MASK :: u32 where
  "VERSIONBITS_TOP_MASK = 0xE0000000"

definition vb_Mask :: "BIP9Deployment \<Rightarrow> u32" where
  "vb_Mask d = push_bit (dep_bit d) 1"

definition vb_Period :: "vb_params \<Rightarrow> BIP9Deployment \<Rightarrow> int" where
  "vb_Period params d = (if nWindowSize d \<noteq> 0 then nWindowSize d else nMinerConfirmationWindow params)"

text \<open>\<open>nAttempt * nAttempt * Period\<close> is computed in \<open>int\<close>; the model is exact, as the code is while that does not overflow.\<close>

definition vb_Threshold :: "vb_params \<Rightarrow> BIP9Deployment \<Rightarrow> int \<Rightarrow> int" where
  "vb_Threshold params d nAttempt =
     (if nThresholdStart d = 0 then nRuleChangeActivationThreshold params
      else if nThresholdMin d = 0 \<or> nFalloffCoeff d = 0 then nThresholdStart d
      else
        let nThresholdCalc = nThresholdStart d - nAttempt * nAttempt * vb_Period params d sdiv 100 sdiv nFalloffCoeff d in
        max (nThresholdMin d) nThresholdCalc)"

definition vb_Condition :: "heap \<Rightarrow> BIP9Deployment \<Rightarrow> ptr \<Rightarrow> bool" where
  "vb_Condition H d p \<longleftrightarrow>
     bi_nVersion (H p) AND VERSIONBITS_TOP_MASK = VERSIONBITS_TOP_BITS \<and> bi_nVersion (H p) AND vb_Mask d \<noteq> 0"

text \<open>\<open>GetSignalsStage\<close> of the manager of hard-fork signals, a parameter, gives the heights of the signals by bit.\<close>

type_synonym ehf_signals = "ptr option \<Rightarrow> nat \<Rightarrow> int option"

definition vb_SignalHeight :: "ehf_signals \<Rightarrow> BIP9Deployment \<Rightarrow> ptr option \<Rightarrow> int" where
  "vb_SignalHeight GetSignalsStage d pindexPrev =
     (if \<not> useEHF d then 0 else case GetSignalsStage pindexPrev (dep_bit d) of None \<Rightarrow> INT_MAX | Some h \<Rightarrow> h)"

definition VersionBitsConditionChecker :: "heap \<Rightarrow> ehf_signals \<Rightarrow> vb_params \<Rightarrow> BIP9Deployment \<Rightarrow> threshold_checker" where
  "VersionBitsConditionChecker H GetSignalsStage params d =
     \<lparr>ck_Condition = vb_Condition H d, ck_BeginTime = nStartTime d, ck_SignalHeight = vb_SignalHeight GetSignalsStage d,
      ck_EndTime = nTimeout d, ck_MinActivationHeight = min_activation_height d, ck_Period = vb_Period params d,
      ck_Threshold = vb_Threshold params d\<rparr>"

text \<open>\<open>VersionBitsCache\<close>: a cache per deployment, in the order of \<open>vDeployments\<close>.\<close>

definition vb_State ::
    "heap \<Rightarrow> ehf_signals \<Rightarrow> vb_params \<Rightarrow> ptr option \<Rightarrow> nat \<Rightarrow> cond_cache list \<Rightarrow> (ThresholdState \<times> cond_cache list) res" where
  "vb_State H GetSignalsStage params pindexPrev pos m_caches =
     res_bind (GetStateFor H (VersionBitsConditionChecker H GetSignalsStage params (vDeployments params ! pos)) pindexPrev (m_caches ! pos))
       (\<lambda>(state, cache). Inr (state, m_caches[pos := cache]))"

definition vb_StateSinceHeight ::
    "heap \<Rightarrow> ehf_signals \<Rightarrow> vb_params \<Rightarrow> ptr option \<Rightarrow> nat \<Rightarrow> cond_cache list \<Rightarrow> (int \<times> cond_cache list) res" where
  "vb_StateSinceHeight H GetSignalsStage params pindexPrev pos m_caches =
     res_bind (GetStateSinceHeightFor H (VersionBitsConditionChecker H GetSignalsStage params (vDeployments params ! pos)) pindexPrev (m_caches ! pos))
       (\<lambda>(h, cache). Inr (h, m_caches[pos := cache]))"

definition vb_Statistics ::
    "heap \<Rightarrow> ehf_signals \<Rightarrow> vb_params \<Rightarrow> ptr option \<Rightarrow> nat \<Rightarrow> cond_cache list \<Rightarrow> (BIP9Stats \<times> cond_cache list) res" where
  "vb_Statistics H GetSignalsStage params pindex pos m_caches =
     res_bind (GetStateStatisticsFor H (VersionBitsConditionChecker H GetSignalsStage params (vDeployments params ! pos)) pindex (m_caches ! pos))
       (\<lambda>(stats, cache). Inr (stats, m_caches[pos := cache]))"

fun version_loop ::
    "heap \<Rightarrow> ehf_signals \<Rightarrow> vb_params \<Rightarrow> ptr option \<Rightarrow> nat list \<Rightarrow> u32 \<Rightarrow> cond_cache list \<Rightarrow> (u32 \<times> cond_cache list) res" where
  "version_loop H GetSignalsStage params pindexPrev [] nVersion m_caches = Inr (nVersion, m_caches)"
| "version_loop H GetSignalsStage params pindexPrev (pos # ps) nVersion m_caches =
     res_bind (vb_State H GetSignalsStage params pindexPrev pos m_caches) (\<lambda>(state, m_caches').
       version_loop H GetSignalsStage params pindexPrev ps
         (if state = LOCKED_IN \<or> state = STARTED then nVersion OR vb_Mask (vDeployments params ! pos) else nVersion) m_caches')"

definition ComputeBlockVersion ::
    "heap \<Rightarrow> ehf_signals \<Rightarrow> vb_params \<Rightarrow> ptr option \<Rightarrow> cond_cache list \<Rightarrow> (u32 \<times> cond_cache list) res" where
  "ComputeBlockVersion H GetSignalsStage params pindexPrev m_caches =
     version_loop H GetSignalsStage params pindexPrev [0..<length (vDeployments params)] VERSIONBITS_TOP_BITS m_caches"

definition vb_Clear :: "cond_cache list \<Rightarrow> cond_cache list" where
  "vb_Clear m_caches = map (\<lambda>_ _. None) m_caches"

section \<open>The state machine without a cache\<close>

text \<open>
  The reference: the state for the block after the last block of a period, computed from the genesis block on.
  \<open>prev_boundary\<close> is the last block of the period before.
\<close>

definition prev_boundary :: "heap \<Rightarrow> threshold_checker \<Rightarrow> ptr \<Rightarrow> ptr option" where
  "prev_boundary H c b =
     (if bi_height (H b) < nat (ck_Period c) then None else ancestor H b (bi_height (H b) - nat (ck_Period c)))"

definition signals :: "heap \<Rightarrow> threshold_checker \<Rightarrow> ptr \<Rightarrow> int" where
  "signals H c b = int (length (filter (\<lambda>i. case prevs H b i of None \<Rightarrow> False | Some q \<Rightarrow> ck_Condition c q) [0..<nat (ck_Period c)]))"

definition ready :: "heap \<Rightarrow> threshold_checker \<Rightarrow> ptr \<Rightarrow> bool" where
  "ready H c b \<longleftrightarrow> GetMedianTimePast H b \<ge> ck_BeginTime c \<and> height_of H b \<ge> ck_SignalHeight c (Some b)"

definition next_state :: "heap \<Rightarrow> threshold_checker \<Rightarrow> ptr \<Rightarrow> ThresholdState \<times> int \<Rightarrow> ThresholdState \<times> int" where
  "next_state H c b s =
     (case fst s of
        DEFINED \<Rightarrow> if ready H c b then (STARTED, height_of H b + 1) else s
      | STARTED \<Rightarrow>
          if signals H c b \<ge> ck_Threshold c ((height_of H b + 1 - ck_Period c - snd s) sdiv ck_Period c) then (LOCKED_IN, snd s)
          else if GetMedianTimePast H b \<ge> ck_EndTime c then (FAILED, snd s)
          else s
      | LOCKED_IN \<Rightarrow> if height_of H b + 1 \<ge> ck_MinActivationHeight c then (ACTIVE, snd s) else s
      | ACTIVE \<Rightarrow> s
      | FAILED \<Rightarrow> s)"

fun period_state :: "heap \<Rightarrow> threshold_checker \<Rightarrow> nat \<Rightarrow> ptr option \<Rightarrow> ThresholdState \<times> int" where
  "period_state H c (Suc k) (Some b) = next_state H c b (period_state H c k (prev_boundary H c b))"
| "period_state H c _ _ = (DEFINED, INT_MAX)"

definition period_index :: "heap \<Rightarrow> threshold_checker \<Rightarrow> ptr option \<Rightarrow> nat" where
  "period_index H c q = (case q of None \<Rightarrow> 0 | Some b \<Rightarrow> (bi_height (H b) + 1) div nat (ck_Period c))"

definition boundary_state :: "heap \<Rightarrow> threshold_checker \<Rightarrow> ptr option \<Rightarrow> ThresholdState \<times> int" where
  "boundary_state H c q = period_state H c (period_index H c q) q"

definition boundary :: "heap \<Rightarrow> threshold_checker \<Rightarrow> ptr \<Rightarrow> bool" where
  "boundary H c b \<longleftrightarrow> nat (ck_Period c) dvd bi_height (H b) + 1"

text \<open>
  What the code relies on: the index is well formed and the period positive; the median time does not fall along a
  chain, which the rule on block times ensures; and whether a block is past the height of the masternode
  signal does not depend on the descendant for which this is asked.
\<close>

definition deployment_env :: "heap \<Rightarrow> threshold_checker \<Rightarrow> bool" where
  "deployment_env H c \<longleftrightarrow> wf_index H \<and> 0 < ck_Period c
     \<and> (\<forall>p h a. ancestor H p h = Some a \<longrightarrow> GetMedianTimePast H a \<le> GetMedianTimePast H p)
     \<and> (\<forall>p h a. ancestor H p h = Some a \<longrightarrow> (int h < ck_SignalHeight c (Some p) \<longleftrightarrow> int h < ck_SignalHeight c (Some a)))
     \<and> ck_BeginTime c \<noteq> ALWAYS_ACTIVE \<and> ck_BeginTime c \<noteq> NEVER_ACTIVE"

lemma deployment_envD:
  assumes "deployment_env H c"
  shows "wf_index H" "linked H" "0 < ck_Period c" "0 < nat (ck_Period c)"
    "ck_BeginTime c \<noteq> ALWAYS_ACTIVE" "ck_BeginTime c \<noteq> NEVER_ACTIVE"
    "ancestor H p h = Some a \<Longrightarrow> GetMedianTimePast H a \<le> GetMedianTimePast H p"
    "ancestor H p h = Some a \<Longrightarrow> int h < ck_SignalHeight c (Some p) \<longleftrightarrow> int h < ck_SignalHeight c (Some a)"
  using assms unfolding deployment_env_def wf_index_def by auto

lemma prev_boundary_None: "boundary H c b \<Longrightarrow> prev_boundary H c b = None \<Longrightarrow> linked H \<Longrightarrow> 0 < nat (ck_Period c) \<Longrightarrow> bi_height (H b) + 1 = nat (ck_Period c)"
proof -
  assume b: "boundary H c b" "prev_boundary H c b = None" "linked H" "0 < nat (ck_Period c)"
  then have "bi_height (H b) < nat (ck_Period c)"
    using ancestor_Some [OF b(3), of "bi_height (H b) - nat (ck_Period c)" b] by (auto simp: prev_boundary_def split: if_splits)
  then show ?thesis using b(1) dvd_imp_le [of "nat (ck_Period c)" "bi_height (H b) + 1"] by (simp add: boundary_def)
qed

lemma prev_boundary_Some:
  assumes "boundary H c b" "prev_boundary H c b = Some a" "linked H" "0 < nat (ck_Period c)"
  shows "bi_height (H b) = bi_height (H a) + nat (ck_Period c)" "boundary H c a" "ancestor H b (bi_height (H a)) = Some a"
proof -
  have h: "nat (ck_Period c) \<le> bi_height (H b)" and a: "ancestor H b (bi_height (H b) - nat (ck_Period c)) = Some a"
    using assms(2) by (auto simp: prev_boundary_def split: if_splits)
  have ha: "bi_height (H a) = bi_height (H b) - nat (ck_Period c)" using ancestor_height [OF assms(3) a] .
  with h show eq: "bi_height (H b) = bi_height (H a) + nat (ck_Period c)" by simp
  have "nat (ck_Period c) dvd bi_height (H a) + 1 + nat (ck_Period c)" using assms(1) by (simp add: boundary_def eq ac_simps)
  then show "boundary H c a" unfolding boundary_def by (simp only: dvd_add_triv_right_iff)
  show "ancestor H b (bi_height (H a)) = Some a" using a ha by simp
qed

lemma boundary_state_None [simp]: "boundary_state H c None = (DEFINED, INT_MAX)"
  by (simp add: boundary_state_def)

lemma boundary_state_Some:
  assumes "boundary H c b" "linked H" "0 < nat (ck_Period c)"
  shows "boundary_state H c (Some b) = next_state H c b (boundary_state H c (prev_boundary H c b))"
proof (cases "prev_boundary H c b")
  case None
  then have "period_index H c (Some b) = Suc 0"
    using prev_boundary_None [OF assms(1) None assms(2,3)] assms(3) by (simp add: period_index_def)
  then show ?thesis using None by (simp add: boundary_state_def)
next
  case (Some a)
  have "bi_height (H b) + 1 = bi_height (H a) + 1 + nat (ck_Period c)"
    using prev_boundary_Some(1) [OF assms(1) Some assms(2,3)] by simp
  then have "period_index H c (Some b) = Suc (period_index H c (Some a))"
    using assms(3) unfolding period_index_def option.case by (simp only: div_add_self2)
  then show ?thesis using Some by (simp add: boundary_state_def)
qed

lemma GetAncestor_period:
  assumes "wf_index H" "0 < ck_Period c"
  shows "GetAncestor H b (height_of H b - ck_Period c) = Inr (prev_boundary H c b)"
  using assms(2) by (auto simp: GetAncestor_correct [OF assms(1)] prev_boundary_def nat_less_iff nat_diff_distrib)

section \<open>The cache\<close>

text \<open>
  A consistent cache holds the state of the reference, only for the last blocks of periods, and with an entry that is
  not \<open>DEFINED\<close> the entry of the period before.
\<close>

definition cache_ok :: "heap \<Rightarrow> threshold_checker \<Rightarrow> cond_cache \<Rightarrow> bool" where
  "cache_ok H c cache \<longleftrightarrow> (\<forall>q st. cache q = Some st \<longrightarrow> st = fst (boundary_state H c q)
     \<and> (\<forall>b. q = Some b \<longrightarrow> boundary H c b \<and> (st = DEFINED \<or> cache (prev_boundary H c b) \<noteq> None)))"

lemma cache_okD:
  assumes "cache_ok H c cache" "cache q = Some st"
  shows "st = fst (boundary_state H c q)" "q = Some b \<Longrightarrow> boundary H c b"
    "q = Some b \<Longrightarrow> st \<noteq> DEFINED \<Longrightarrow> \<exists>st'. cache (prev_boundary H c b) = Some st'"
  using assms unfolding cache_ok_def by (simp, blast, auto)

lemma cache_ok_empty: "cache_ok H c (\<lambda>_. None)"
  by (simp add: cache_ok_def)

lemma cache_ok_upd:
  assumes "cache_ok H c cache" "st = fst (boundary_state H c q)"
    "\<And>b. q = Some b \<Longrightarrow> boundary H c b \<and> (st = DEFINED \<or> cache (prev_boundary H c b) \<noteq> None)"
  shows "cache_ok H c (cache(q \<mapsto> st))"
  using assms unfolding cache_ok_def by auto

text \<open>Before it is ready a deployment is \<open>DEFINED\<close>, for all earlier periods too.\<close>

lemma not_ready_earlier:
  assumes "deployment_env H c" "boundary H c b" "\<not> ready H c b" "prev_boundary H c b = Some a"
  shows "\<not> ready H c a"
proof -
  note env = deployment_envD [OF assms(1)]
  note a = prev_boundary_Some [OF assms(2,4) env(2,4)]
  have "GetMedianTimePast H a \<le> GetMedianTimePast H b" by (rule env(7) [OF a(3)])
  moreover have "int (bi_height (H a)) < ck_SignalHeight c (Some b) \<longleftrightarrow> int (bi_height (H a)) < ck_SignalHeight c (Some a)"
    by (rule env(8) [OF a(3)])
  ultimately show ?thesis using assms(3) a(1) env(3) by (auto simp: ready_def split: if_splits)
qed

lemma not_ready_DEFINED:
  assumes "deployment_env H c"
  shows "boundary H c b \<Longrightarrow> \<not> ready H c b \<Longrightarrow> fst (boundary_state H c (Some b)) = DEFINED"
proof (induction "bi_height (H b)" arbitrary: b rule: less_induct)
  case less
  note env = deployment_envD [OF assms]
  have "fst (boundary_state H c (prev_boundary H c b)) = DEFINED"
  proof (cases "prev_boundary H c b")
    case (Some a)
    note a = prev_boundary_Some [OF less.prems(1) Some env(2,4)]
    then show ?thesis
      using less.hyps [of a] not_ready_earlier [OF assms less.prems Some] Some env(4) by simp
  qed simp
  then show ?case using boundary_state_Some [OF less.prems(1) env(2,4)] less.prems(2) by (simp add: next_state_def)
qed

text \<open>A path of periods: from \<open>q\<close> on, each block is the last of the period after.\<close>

fun period_path :: "heap \<Rightarrow> threshold_checker \<Rightarrow> ptr option \<Rightarrow> ptr list \<Rightarrow> bool" where
  "period_path H c q [] \<longleftrightarrow> True"
| "period_path H c q (b # bs) \<longleftrightarrow> boundary H c b \<and> prev_boundary H c b = q \<and> period_path H c (Some b) bs"

definition path_end :: "ptr option \<Rightarrow> ptr list \<Rightarrow> ptr option" where
  "path_end q bs = (if bs = [] then q else Some (last bs))"

lemma path_end_simps [simp]: "path_end q [] = q" "path_end q (b # bs) = path_end (Some b) bs"
  by (simp_all add: path_end_def)

text \<open>The height of the signal asked for the tip decides the same for the blocks on the way.\<close>

definition signal_agrees :: "heap \<Rightarrow> threshold_checker \<Rightarrow> int \<Rightarrow> ptr \<Rightarrow> bool" where
  "signal_agrees H c m b \<longleftrightarrow> (\<forall>h a. ancestor H b h = Some a \<longrightarrow> (int h < m \<longleftrightarrow> int h < ck_SignalHeight c (Some a)))"

lemma signal_agrees_ready: "signal_agrees H c m b \<Longrightarrow> GetMedianTimePast H b < ck_BeginTime c \<or> height_of H b < m \<longleftrightarrow> \<not> ready H c b"
  using ancestor_self [of H b] by (auto simp: signal_agrees_def ready_def)

lemma signal_agrees_prev:
  assumes "signal_agrees H c m b" "linked H" "boundary H c b" "0 < nat (ck_Period c)" "prev_boundary H c b = Some a"
  shows "signal_agrees H c m a"
proof -
  note a = prev_boundary_Some [OF assms(3,5,2,4)]
  show ?thesis
    using assms(1) ancestor_trans [OF assms(2) a(3)] unfolding signal_agrees_def
    by (metis ancestor_def option.distinct(1))
qed

lemma walk_back_ok:
  assumes "deployment_env H c" "cache_ok H c cache"
  shows "(case q of None \<Rightarrow> 0 | Some b \<Rightarrow> bi_height (H b) + 1) \<le> fuel \<Longrightarrow> (\<And>b. q = Some b \<Longrightarrow> boundary H c b \<and> signal_agrees H c m b) \<Longrightarrow>
    period_path H c q v \<Longrightarrow>
    \<exists>q' v' cache' st. walk_back fuel H c m q v cache = Inr (q', v', cache') \<and> cache_ok H c cache' \<and> cache' q' = Some st
      \<and> period_path H c q' v' \<and> path_end q' v' = path_end q v \<and> (\<forall>b \<in> set v'. b \<in> set v \<or> (\<exists>t. q = Some t \<and> ancestor H t (bi_height (H b)) = Some b))"
proof (induction fuel arbitrary: q v)
  case (0 q v)
  then have "q = None" by (cases q) simp_all
  moreover have "cache_ok H c (cache(None \<mapsto> DEFINED))" using assms(2) by (intro cache_ok_upd) simp_all
  ultimately show ?case using assms(2) 0(3) by (cases "cache None") (auto simp: walk_back.simps)
next
  case (Suc fuel q v)
  note env = deployment_envD [OF assms(1)]
  show ?case
  proof (cases q)
    case None
    moreover have "cache_ok H c (cache(None \<mapsto> DEFINED))" using assms(2) by (intro cache_ok_upd) simp_all
    ultimately show ?thesis using assms(2) Suc.prems(3) by (cases "cache None") (auto simp: walk_back.simps)
  next
    case (Some b)
    then have b: "boundary H c b" "signal_agrees H c m b" using Suc.prems(2) by auto
    show ?thesis
    proof (cases "cache q = None \<and> ready H c b")
      case False
      then consider (known) st where "cache q = Some st" | (shortcut) "cache q = None" "\<not> ready H c b" by auto
      then show ?thesis
      proof cases
        case known
        then show ?thesis using assms(2) Suc.prems(3) by (auto simp: walk_back.simps)
      next
        case shortcut
        have "cache_ok H c (cache(Some b \<mapsto> DEFINED))"
          using not_ready_DEFINED [OF assms(1) b(1) shortcut(2)] b(1) by (intro cache_ok_upd assms(2)) simp_all
        then show ?thesis
          using shortcut Some Suc.prems(3) signal_agrees_ready [OF b(2)] by (auto simp: walk_back.simps [of "Suc fuel"])
      qed
    next
      case True
      let ?q = "prev_boundary H c b"
      have step: "walk_back (Suc fuel) H c m q v cache = walk_back fuel H c m ?q (b # v) cache"
        using True Some signal_agrees_ready [OF b(2)]
        by (simp add: walk_back.simps [of "Suc fuel"] GetAncestor_period [OF env(1,3)])
      have le: "(case ?q of None \<Rightarrow> 0 | Some a \<Rightarrow> bi_height (H a) + 1) \<le> fuel"
        using Suc.prems(1) Some prev_boundary_Some(1) [OF b(1) _ env(2,4)] env(4) by (auto split: option.splits)
      have "boundary H c a \<and> signal_agrees H c m a" if "?q = Some a" for a
        using prev_boundary_Some(2) [OF b(1) that env(2,4)] signal_agrees_prev [OF b(2) env(2) b(1) env(4) that] by simp
      from Suc.IH [OF le this, of "b # v"] b(1) Suc.prems(3) Some
      obtain q' v' cache' st where ih: "walk_back fuel H c m ?q (b # v) cache = Inr (q', v', cache')" "cache_ok H c cache'"
        "cache' q' = Some st" "period_path H c q' v'" "path_end q' v' = path_end (Some b) v"
        "\<forall>x \<in> set v'. x \<in> set (b # v) \<or> (\<exists>t. ?q = Some t \<and> ancestor H t (bi_height (H x)) = Some x)"
        by auto
      have "x \<in> set v \<or> ancestor H b (bi_height (H x)) = Some x" if "x \<in> set v'" for x
      proof -
        from ih(6) that consider "x = b" | "x \<in> set v" | t where "?q = Some t" "ancestor H t (bi_height (H x)) = Some x" by auto
        then show ?thesis
        proof cases
          case 3
          note t = prev_boundary_Some [OF b(1) 3(1) env(2,4)]
          have "bi_height (H x) \<le> bi_height (H t)" using 3(2) by (auto simp: ancestor_def split: if_splits)
          then show ?thesis using 3(2) ancestor_trans [OF env(2) t(3)] by simp
        qed simp_all
      qed
      then show ?thesis using ih(1-5) step Some by auto
    qed
  qed
qed

text \<open>In a \<open>STARTED\<close> period the start height is the first height of the period in which the state became \<open>STARTED\<close>.\<close>

lemma started_height:
  assumes "deployment_env H c"
  shows "boundary H c b \<Longrightarrow> fst (boundary_state H c (Some b)) = STARTED \<Longrightarrow>
    0 < snd (boundary_state H c (Some b)) \<and> snd (boundary_state H c (Some b)) \<le> height_of H b + 1"
proof (induction "bi_height (H b)" arbitrary: b rule: less_induct)
  case less
  note env = deployment_envD [OF assms]
  note bs = boundary_state_Some [OF less.prems(1) env(2,4)]
  let ?s = "boundary_state H c (prev_boundary H c b)"
  have "fst ?s = DEFINED \<or> fst ?s = STARTED"
    using less.prems(2) bs by (auto simp: next_state_def split: ThresholdState.splits if_splits)
  then show ?case
  proof
    assume "fst ?s = DEFINED"
    then show ?thesis using less.prems(2) bs by (auto simp: next_state_def split: if_splits)
  next
    assume s: "fst ?s = STARTED"
    then obtain a where a: "prev_boundary H c b = Some a" by (cases "prev_boundary H c b") auto
    note pa = prev_boundary_Some [OF less.prems(1) a env(2,4)]
    have "snd (boundary_state H c (Some b)) = snd ?s" using less.prems(2) bs s by (auto simp: next_state_def split: if_splits)
    then show ?thesis using less.hyps [of a] pa s a env(4) by auto
  qed
qed

lemma calculateStartHeight_ok:
  assumes "deployment_env H c" "cache_ok H c cache"
  shows "cache (Some b) = Some st \<Longrightarrow> st = STARTED \<Longrightarrow> bi_height (H b) + 1 \<le> fuel \<Longrightarrow> n \<ge> snd (boundary_state H c (Some b)) \<Longrightarrow>
    calculateStartHeight fuel H (Some b) st (ck_Period c) cache n = Inr (snd (boundary_state H c (Some b)))"
proof (induction fuel arbitrary: b st n)
  case (Suc fuel b st n)
  note env = deployment_envD [OF assms(1)]
  have b: "boundary H c b" "fst (boundary_state H c (Some b)) = STARTED"
    using cache_okD [OF assms(2) Suc.prems(1)] Suc.prems(2) by simp_all
  obtain st' where st': "cache (prev_boundary H c b) = Some st'"
    using cache_okD(3) [OF assms(2) Suc.prems(1) refl] Suc.prems(2) by auto
  then have s': "st' = fst (boundary_state H c (prev_boundary H c b))" using cache_okD(1) [OF assms(2)] by simp
  have step: "calculateStartHeight (Suc fuel) H (Some b) st (ck_Period c) cache n =
      calculateStartHeight fuel H (prev_boundary H c b) st' (ck_Period c) cache (min (height_of H b + 1) n)"
    using Suc.prems(2) st' by (simp add: calculateStartHeight.simps [of "Suc fuel"] GetAncestor_period [OF env(1,3)])
  note bs = boundary_state_Some [OF b(1) env(2,4)]
  show ?case
  proof (cases "st' = STARTED")
    case False
    then have "fst (boundary_state H c (prev_boundary H c b)) = DEFINED"
      using b(2) bs s' by (auto simp: next_state_def split: ThresholdState.splits if_splits)
    then have "snd (boundary_state H c (Some b)) = height_of H b + 1"
      using b(2) bs by (auto simp: next_state_def split: if_splits)
    then show ?thesis using False step Suc.prems(4) by (simp add: calculateStartHeight.simps)
  next
    case True
    then obtain a where a: "prev_boundary H c b = Some a" using s' by (cases "prev_boundary H c b") auto
    note pa = prev_boundary_Some [OF b(1) a env(2,4)]
    have eq: "snd (boundary_state H c (Some b)) = snd (boundary_state H c (Some a))"
      using b(2) bs True s' a by (auto simp: next_state_def split: if_splits)
    have "fst (boundary_state H c (Some a)) = STARTED" using True s' a by simp
    then have "snd (boundary_state H c (Some a)) \<le> height_of H a + 1" using started_height [OF assms(1) pa(2)] by simp
    then have "snd (boundary_state H c (Some a)) \<le> min (height_of H b + 1) n" using pa(1) eq Suc.prems(4) by simp
    then show ?thesis using Suc.IH [of a st'] st' a True Suc.prems(3) pa(1) env(4) step eq by simp
  qed
qed simp

lemma count_condition_ok:
  assumes "linked H"
  shows "n \<le> bi_height (H b) \<Longrightarrow>
    \<exists>q. count_condition H c n (Some b) k = Inr (k + int (length (filter (\<lambda>i. case prevs H b i of None \<Rightarrow> False | Some q \<Rightarrow> ck_Condition c q) [0..<n])), Some q)
      \<and> bi_height (H q) = bi_height (H b) - n"
proof (induction n arbitrary: b k)
  case (Suc n)
  obtain a where a: "pprev (H b) = Some a" using linked_prev [OF assms, of b] Suc.prems by auto
  then have h: "bi_height (H b) = Suc (bi_height (H a))" by (rule linkedD(1) [OF assms])
  have "[0..<Suc n] = 0 # map Suc [0..<n]" by (simp only: upt_conv_Cons map_Suc_upt zero_less_Suc)
  then have "int (length (filter (\<lambda>i. case prevs H b i of None \<Rightarrow> False | Some q \<Rightarrow> ck_Condition c q) [0..<Suc n])) =
      (if ck_Condition c b then 1 else 0) + int (length (filter (\<lambda>i. case prevs H a i of None \<Rightarrow> False | Some q \<Rightarrow> ck_Condition c q) [0..<n]))"
    using a by (simp add: filter_map o_def del: upt_Suc)
  then show ?case using Suc.IH [of a "if ck_Condition c b then k + 1 else k"] Suc.prems a h by (auto simp del: upt_Suc)
qed simp

lemma compute_next_ok:
  assumes "deployment_env H c" "boundary H c b" "signal_agrees H c m b" "height_of H b < INT_MAX"
    "fst (boundary_state H c (prev_boundary H c b)) = STARTED \<longrightarrow> n = snd (boundary_state H c (prev_boundary H c b))"
  shows "\<exists>n'. compute_next H c m b (fst (boundary_state H c (prev_boundary H c b))) n = Inr (fst (boundary_state H c (Some b)), n')
    \<and> (fst (boundary_state H c (Some b)) = STARTED \<longrightarrow> n' = snd (boundary_state H c (Some b)))"
proof -
  note env = deployment_envD [OF assms(1)]
  note bs = boundary_state_Some [OF assms(2) env(2,4)]
  have rd: "GetMedianTimePast H b \<ge> ck_BeginTime c \<and> height_of H b \<ge> m \<longleftrightarrow> ready H c b"
    using signal_agrees_ready [OF assms(3)] by auto
  show ?thesis
  proof (cases "fst (boundary_state H c (prev_boundary H c b)) = STARTED")
    case True
    then obtain a where a: "prev_boundary H c b = Some a" by (cases "prev_boundary H c b") auto
    note pa = prev_boundary_Some [OF assms(2) a env(2,4)]
    have n: "0 < n" "n \<le> height_of H a + 1" "n = snd (boundary_state H c (Some a))"
      using started_height [OF assms(1) pa(2)] True assms(5) a by auto
    obtain q where "count_condition H c (nat (ck_Period c)) (Some b) 0 = Inr (signals H c b, Some q)" "bi_height (H q) = bi_height (H a)"
      using count_condition_ok [OF env(2), of "nat (ck_Period c)" b c 0] pa(1) by (auto simp: signals_def)
    moreover have "height_of H a = height_of H b - ck_Period c" using pa(1) env(3) by simp
    ultimately show ?thesis
      using True n a assms(4) pa(1) env(3) bs by (auto simp: compute_next_def next_state_def Let_def)
  next
    case False
    then show ?thesis
      using bs rd by (cases "fst (boundary_state H c (prev_boundary H c b))") (auto simp: compute_next_def next_state_def)
  qed
qed

lemma walk_forward_ok:
  assumes "deployment_env H c"
  shows "cache_ok H c cache \<Longrightarrow> cache q = Some st \<Longrightarrow> period_path H c q v \<Longrightarrow> (st = STARTED \<longrightarrow> n = snd (boundary_state H c q)) \<Longrightarrow>
    \<forall>b\<in>set v. signal_agrees H c m b \<and> height_of H b < INT_MAX \<Longrightarrow>
    \<exists>cache'. walk_forward H c m v st n cache = Inr (fst (boundary_state H c (path_end q v)), cache') \<and> cache_ok H c cache'
      \<and> cache' (path_end q v) = Some (fst (boundary_state H c (path_end q v)))"
proof (induction v arbitrary: q st n cache)
  case Nil
  then show ?case using cache_okD(1) [OF Nil.prems(1,2)] by simp
next
  case (Cons b v)
  have st: "st = fst (boundary_state H c (prev_boundary H c b))" using cache_okD(1) [OF Cons.prems(1,2)] Cons.prems(3) by simp
  obtain n' where n': "compute_next H c m b st n = Inr (fst (boundary_state H c (Some b)), n')"
    "fst (boundary_state H c (Some b)) = STARTED \<longrightarrow> n' = snd (boundary_state H c (Some b))"
    using compute_next_ok [OF assms, of b m n] Cons.prems(3-5) st by auto
  have "cache_ok H c (cache(Some b \<mapsto> fst (boundary_state H c (Some b))))"
    using Cons.prems(2,3) by (intro cache_ok_upd [OF Cons.prems(1)]) auto
  from Cons.IH [OF this, of "Some b" "fst (boundary_state H c (Some b))" n'] n' Cons.prems(3,5)
  show ?case by (simp add: fun_upd_def)
qed

section \<open>The state for any block\<close>

definition last_boundary :: "heap \<Rightarrow> threshold_checker \<Rightarrow> ptr option \<Rightarrow> ptr option" where
  "last_boundary H c pindexPrev =
     (case pindexPrev of
        None \<Rightarrow> None
      | Some p \<Rightarrow>
          let n = (bi_height (H p) + 1) div nat (ck_Period c) * nat (ck_Period c) in
          if n = 0 then None else ancestor H p (n - 1))"

definition deployment_state :: "heap \<Rightarrow> threshold_checker \<Rightarrow> ptr option \<Rightarrow> ThresholdState" where
  "deployment_state H c pindexPrev = fst (boundary_state H c (last_boundary H c pindexPrev))"

lemma period_parent_eq:
  assumes "deployment_env H c"
  shows "period_parent H (ck_Period c) pindexPrev = Inr (last_boundary H c pindexPrev)"
proof (cases pindexPrev)
  case (Some p)
  note env = deployment_envD [OF assms]
  let ?P = "nat (ck_Period c)" and ?h = "bi_height (H p)"
  let ?n = "(?h + 1) div ?P * ?P"
  have "(height_of H p + 1) mod ck_Period c = int ((?h + 1) mod ?P)" using env(3) by (simp add: zmod_int add.commute)
  moreover have "(?h + 1) mod ?P = ?h + 1 - ?n" by (simp add: minus_div_mult_eq_mod [symmetric])
  moreover have "?n \<le> ?h + 1" by (simp add: div_times_less_eq_dividend)
  ultimately have h: "height_of H p - (height_of H p + 1) mod ck_Period c = int ?n - 1" by (simp add: of_nat_diff)
  define n where "n = ?n"
  have "nat (int n - 1) = n - 1" "int n - 1 < 0 \<longleftrightarrow> n = 0" by auto
  then show ?thesis
    unfolding Some period_parent_def last_boundary_def GetAncestor_correct [OF env(1)] option.case h Let_def n_def [symmetric]
    by (simp only:)
qed (simp add: period_parent_def last_boundary_def)

lemma last_boundary_Some:
  assumes "deployment_env H c" "last_boundary H c (Some p) = Some b"
  shows "boundary H c b" "ancestor H p (bi_height (H b)) = Some b"
proof -
  note env = deployment_envD [OF assms(1)]
  let ?n = "(bi_height (H p) + 1) div nat (ck_Period c) * nat (ck_Period c)"
  have n: "?n \<noteq> 0" "ancestor H p (?n - 1) = Some b" using assms(2) by (simp_all add: last_boundary_def Let_def split: if_splits)
  have h: "bi_height (H b) = ?n - 1" by (rule ancestor_height [OF env(2) n(2)])
  then have "bi_height (H b) + 1 = ?n" using n(1) by linarith
  then show "boundary H c b" unfolding boundary_def by (simp only: dvd_triv_right)
  show "ancestor H p (bi_height (H b)) = Some b" using n(2) h by simp
qed

lemma GetStateFor_ok:
  assumes "deployment_env H c" "cache_ok H c cache" "\<And>p. pindexPrev = Some p \<Longrightarrow> height_of H p < INT_MAX"
  shows "\<exists>cache'. GetStateFor H c pindexPrev cache = Inr (deployment_state H c pindexPrev, cache') \<and> cache_ok H c cache'"
proof -
  note env = deployment_envD [OF assms(1)]
  let ?q = "last_boundary H c pindexPrev" and ?m = "ck_SignalHeight c pindexPrev"
  have q: "\<exists>p. pindexPrev = Some p \<and> boundary H c b \<and> ancestor H p (bi_height (H b)) = Some b" if "?q = Some b" for b
    using that last_boundary_Some [OF assms(1)] by (cases pindexPrev) (auto simp: last_boundary_def)
  have agree: "signal_agrees H c ?m b \<and> height_of H b < INT_MAX" if "ancestor H p (bi_height (H b)) = Some b" "pindexPrev = Some p" for p b
  proof -
    have le: "bi_height (H b) \<le> bi_height (H p)" using that(1) by (auto simp: ancestor_def split: if_splits)
    have "ancestor H p h = Some a" if "ancestor H b h = Some a" for h a
      using that ancestor_trans [OF env(2) \<open>ancestor H p (bi_height (H b)) = Some b\<close>, of h]
      by (auto simp: ancestor_def split: if_splits)
    then have "signal_agrees H c ?m b" using env(8) that(2) by (simp add: signal_agrees_def)
    with le assms(3) [OF that(2)] show ?thesis by simp
  qed
  have fuel: "(case ?q of None \<Rightarrow> 0 | Some b \<Rightarrow> bi_height (H b) + 1) \<le> walk_fuel H ?q" by (simp add: walk_fuel_def)
  have "boundary H c b \<and> signal_agrees H c ?m b" if "?q = Some b" for b using q [OF that] agree by blast
  from walk_back_ok [OF assms(1,2) fuel this, of "[]"]
  obtain q' v' cache1 st where wb: "walk_back (walk_fuel H ?q) H c ?m ?q [] cache = Inr (q', v', cache1)" "cache_ok H c cache1"
    "cache1 q' = Some st" "period_path H c q' v'" "path_end q' v' = ?q"
    "\<forall>b \<in> set v'. \<exists>t. ?q = Some t \<and> ancestor H t (bi_height (H b)) = Some b" by auto
  have v': "signal_agrees H c ?m b \<and> height_of H b < INT_MAX" if b: "b \<in> set v'" for b
  proof -
    obtain t where t: "?q = Some t" "ancestor H t (bi_height (H b)) = Some b" using wb(6) b by auto
    obtain p where p: "pindexPrev = Some p" "ancestor H p (bi_height (H t)) = Some t" using q [OF t(1)] by auto
    have "bi_height (H b) \<le> bi_height (H t)" using t(2) by (auto simp: ancestor_def split: if_splits)
    then have "ancestor H p (bi_height (H b)) = Some b" using t(2) ancestor_trans [OF env(2) p(2)] by simp
    then show ?thesis using agree p(1) by blast
  qed
  obtain n where n: "calculateStartHeight (walk_fuel H q') H q' st (ck_Period c) cache1 INT_MAX = Inr n"
    "st = STARTED \<longrightarrow> n = snd (boundary_state H c q')"
  proof (cases "st = STARTED")
    case True
    then obtain b where b: "q' = Some b" using cache_okD(1) [OF wb(2,3)] by (cases q') auto
    have "height_of H b < INT_MAX"
    proof (cases v')
      case Nil
      then show ?thesis using wb(5) b q [of b] agree by auto
    next
      case (Cons x xs)
      then have "boundary H c x" "prev_boundary H c x = Some b" using wb(4) b by simp_all
      from prev_boundary_Some(1) [OF this env(2,4)] show ?thesis using v' [of x] Cons env(3) by simp
    qed
    then have "snd (boundary_state H c (Some b)) \<le> INT_MAX"
      using started_height [OF assms(1), of b] cache_okD(1,2) [OF wb(2,3)] b True by force
    then show ?thesis
      using calculateStartHeight_ok [OF assms(1) wb(2), of b st "walk_fuel H q'" INT_MAX] wb(3) b True that
      by (simp add: walk_fuel_def)
  qed (use that in \<open>simp add: calculateStartHeight.simps\<close>)
  show ?thesis
    using walk_forward_ok [OF assms(1) wb(2,3,4) n(2), of ?m] v' wb(1,3,5) n(1) env(5,6)
    by (auto simp: GetStateFor_def period_parent_eq [OF assms(1)] deployment_state_def)
qed

section \<open>The periods below a block\<close>

definition period_end :: "heap \<Rightarrow> threshold_checker \<Rightarrow> ptr \<Rightarrow> nat \<Rightarrow> ptr option" where
  "period_end H c p k = (if k = 0 then None else ancestor H p (k * nat (ck_Period c) - 1))"

definition periods :: "heap \<Rightarrow> threshold_checker \<Rightarrow> ptr \<Rightarrow> nat" where
  "periods H c p = (bi_height (H p) + 1) div nat (ck_Period c)"

lemma last_boundary_period_end:
  "0 < nat (ck_Period c) \<Longrightarrow> last_boundary H c (Some p) = period_end H c p (periods H c p)"
  by (simp add: last_boundary_def period_end_def periods_def Let_def)

lemma period_end_Suc:
  assumes "linked H" "0 < nat (ck_Period c)" "Suc k \<le> periods H c p"
  obtains b where "period_end H c p (Suc k) = Some b" "bi_height (H b) + 1 = Suc k * nat (ck_Period c)" "boundary H c b"
    "prev_boundary H c b = period_end H c p k"
proof -
  let ?P = "nat (ck_Period c)"
  have "Suc k * ?P \<le> bi_height (H p) + 1" using assms(2,3) unfolding periods_def by (simp only: less_eq_div_iff_mult_less_eq)
  moreover have P: "?P \<le> Suc k * ?P" by simp
  ultimately have le: "Suc k * ?P - 1 \<le> bi_height (H p)" "0 < Suc k * ?P" using assms(2) by linarith+
  obtain b where b: "ancestor H p (Suc k * ?P - 1) = Some b" "bi_height (H b) = Suc k * ?P - 1"
    using ancestor_Some [OF assms(1) le(1)] by blast
  have h: "bi_height (H b) + 1 = Suc k * ?P" using b(2) le(2) by linarith
  have "prev_boundary H c b = period_end H c p k"
  proof (cases "k = 0")
    case True
    then show ?thesis using h assms(2) by (simp add: prev_boundary_def period_end_def)
  next
    case False
    then have "0 < k * ?P" using assms(2) by simp
    then have "?P \<le> bi_height (H b)" "bi_height (H b) - ?P = k * ?P - 1" using h unfolding mult_Suc by linarith+
    moreover have "ancestor H b (k * ?P - 1) = ancestor H p (k * ?P - 1)"
      by (rule ancestor_trans [OF assms(1) b(1)]) (simp add: diff_le_mono)
    ultimately show ?thesis using False by (simp add: prev_boundary_def period_end_def)
  qed
  moreover have "boundary H c b" unfolding boundary_def h by (rule dvd_triv_right)
  ultimately show ?thesis using that b(1) h by (simp add: period_end_def)
qed

text \<open>The states of the periods follow the state machine.\<close>

inductive deployment_step :: "ThresholdState \<Rightarrow> ThresholdState \<Rightarrow> bool" where
  start: "deployment_step DEFINED STARTED"
| lock_in: "deployment_step STARTED LOCKED_IN"
| fail: "deployment_step STARTED FAILED"
| activate: "deployment_step LOCKED_IN ACTIVE"

inductive_cases deployment_step_finalE: "deployment_step ACTIVE s" "deployment_step FAILED s"

lemma next_state_step: "deployment_step\<^sup>*\<^sup>* (fst s) (fst (next_state H c b s))"
  by (auto simp: next_state_def split: ThresholdState.splits intro: deployment_step.intros)

lemma final_states: "deployment_step\<^sup>*\<^sup>* s s' \<Longrightarrow> s = ACTIVE \<or> s = FAILED \<Longrightarrow> s' = s"
  by (induction rule: rtranclp_induct) (auto elim: deployment_step_finalE)

abbreviation state_at :: "heap \<Rightarrow> threshold_checker \<Rightarrow> ptr \<Rightarrow> nat \<Rightarrow> ThresholdState" where
  "state_at H c p k \<equiv> fst (boundary_state H c (period_end H c p k))"

lemma state_at_Suc:
  assumes "deployment_env H c" "Suc k \<le> periods H c p" "period_end H c p (Suc k) = Some b"
  shows "state_at H c p (Suc k) = fst (next_state H c b (boundary_state H c (period_end H c p k)))"
proof -
  note env = deployment_envD [OF assms(1)]
  obtain b' where "period_end H c p (Suc k) = Some b'" "boundary H c b'" "prev_boundary H c b' = period_end H c p k"
    using period_end_Suc [OF env(2,4) assms(2)] by metis
  then show ?thesis using assms(3) boundary_state_Some [OF _ env(2,4), of b] by simp
qed

lemma state_at_reach:
  assumes "deployment_env H c" "j \<le> k"
  shows "k \<le> periods H c p \<Longrightarrow> deployment_step\<^sup>*\<^sup>* (state_at H c p j) (state_at H c p k)"
  using assms(2)
proof (induction k rule: dec_induct)
  case (step k)
  note env = deployment_envD [OF assms(1)]
  obtain b where b: "period_end H c p (Suc k) = Some b" using period_end_Suc [OF env(2,4) step.prems] by metis
  have "deployment_step\<^sup>*\<^sup>* (state_at H c p j) (state_at H c p k)" using step by simp
  moreover have "deployment_step\<^sup>*\<^sup>* (state_at H c p k) (state_at H c p (Suc k))"
    unfolding state_at_Suc [OF assms(1) step.prems b] by (rule next_state_step)
  ultimately show ?case by (rule rtranclp_trans)
qed simp

lemma deployment_state_at: "deployment_env H c \<Longrightarrow> deployment_state H c (Some p) = state_at H c p (periods H c p)"
  using last_boundary_period_end [of c H p] deployment_envD(4) [of H c] by (simp add: deployment_state_def)

lemma periods_ancestor:
  assumes "deployment_env H c" "ancestor H p h = Some a"
  shows "periods H c a \<le> periods H c p" "k \<le> periods H c a \<Longrightarrow> period_end H c a k = period_end H c p k"
proof -
  note env = deployment_envD [OF assms(1)]
  have a: "bi_height (H a) = h" "h \<le> bi_height (H p)"
    using ancestor_height [OF env(2) assms(2)] assms(2) by (auto simp: ancestor_def split: if_splits)
  then show "periods H c a \<le> periods H c p" by (simp add: periods_def div_le_mono)
  assume "k \<le> periods H c a"
  then have "k * nat (ck_Period c) \<le> h + 1" using env(4) a(1) unfolding periods_def by (simp only: less_eq_div_iff_mult_less_eq)
  then have "k * nat (ck_Period c) - 1 \<le> h" by simp
  from ancestor_trans [OF env(2) assms(2) this] show "period_end H c a k = period_end H c p k" by (simp add: period_end_def)
qed

lemma deployment_state_reach:
  assumes "deployment_env H c" "ancestor H p h = Some a"
  shows "deployment_step\<^sup>*\<^sup>* (deployment_state H c (Some a)) (deployment_state H c (Some p))"
  using state_at_reach [OF assms(1) periods_ancestor(1) [OF assms] order_refl] periods_ancestor(2) [OF assms order_refl]
  by (simp add: deployment_state_at [OF assms(1)])

lemma deployment_state_period:
  assumes "deployment_env H c" "0 < k" "k \<le> periods H c p" "period_end H c p k = Some b"
  shows "deployment_state H c (Some b) = state_at H c p k" "periods H c b = k" "bi_height (H b) + 1 = k * nat (ck_Period c)"
    "ancestor H p (bi_height (H b)) = Some b"
proof -
  note env = deployment_envD [OF assms(1)]
  obtain k' where k': "k = Suc k'" using assms(2) by (cases k) simp_all
  show h: "bi_height (H b) + 1 = k * nat (ck_Period c)"
    using period_end_Suc [OF env(2,4), of k' p] assms(3,4) k' by (metis option.inject)
  then show pb: "periods H c b = k" unfolding periods_def h using env(4) by simp
  have "k * nat (ck_Period c) - 1 = bi_height (H b)" using h by linarith
  then show a: "ancestor H p (bi_height (H b)) = Some b" using assms(2,4) by (simp add: period_end_def)
  show "deployment_state H c (Some b) = state_at H c p k"
    using periods_ancestor(2) [OF assms(1) a, of k] pb by (simp add: deployment_state_at [OF assms(1)])
qed

text \<open>The order of the states: each step goes up, so no state is left and entered again.\<close>

fun state_rank :: "ThresholdState \<Rightarrow> nat" where
  "state_rank DEFINED = 0"
| "state_rank STARTED = 1"
| "state_rank LOCKED_IN = 2"
| "state_rank ACTIVE = 3"
| "state_rank FAILED = 3"

lemma step_rank: "deployment_step s s' \<Longrightarrow> state_rank s < state_rank s'"
  by (induction rule: deployment_step.induct) simp_all

lemma reach_rank: "deployment_step\<^sup>*\<^sup>* s s' \<Longrightarrow> s = s' \<or> state_rank s < state_rank s'"
  by (induction rule: rtranclp_induct) (auto dest: step_rank)

lemma reach_antisym: "deployment_step\<^sup>*\<^sup>* s s' \<Longrightarrow> deployment_step\<^sup>*\<^sup>* s' s \<Longrightarrow> s = s'"
  by (auto dest!: reach_rank)

text \<open>The first period from which on the state is the one after \<open>p\<close>.\<close>

lemma since_loop_ok:
  assumes "deployment_env H c" "height_of H p < INT_MAX"
  shows "Suc k \<le> periods H c p \<Longrightarrow> period_end H c p (Suc k) = Some b \<Longrightarrow> cache_ok H c cache \<Longrightarrow> walk_fuel H (period_end H c p k) \<le> fuel \<Longrightarrow>
    \<exists>j b' cache'. since_loop fuel H c s b (period_end H c p k) cache = Inr (b', cache') \<and> cache_ok H c cache' \<and> j \<le> k
      \<and> period_end H c p (Suc j) = Some b' \<and> (\<forall>i. j < i \<and> i \<le> k \<longrightarrow> state_at H c p i = s) \<and> (j = 0 \<or> state_at H c p j \<noteq> s)"
proof (induction k arbitrary: b cache fuel)
  case 0
  then show ?case by - (rule exI [of _ 0], rule exI [of _ b], rule exI [of _ cache], simp add: since_loop.simps period_end_def)
next
  case (Suc k)
  note env = deployment_envD [OF assms(1)]
  have le: "Suc k \<le> periods H c p" using Suc.prems(1) by simp
  obtain q where q: "period_end H c p (Suc k) = Some q" "boundary H c q" "prev_boundary H c q = period_end H c p k"
    using period_end_Suc [OF env(2,4) le] by metis
  note dq = deployment_state_period [OF assms(1) zero_less_Suc le q(1)]
  have "bi_height (H q) \<le> bi_height (H p)" using dq(4) by (auto simp: ancestor_def split: if_splits)
  then have "height_of H q < INT_MAX" using assms(2) by simp
  then obtain cache' where st: "GetStateFor H c (Some q) cache = Inr (state_at H c p (Suc k), cache')" "cache_ok H c cache'"
    using GetStateFor_ok [OF assms(1) Suc.prems(3), of "Some q"] dq(1) by auto
  obtain fuel' where fuel': "fuel = Suc fuel'" "bi_height (H q) \<le> fuel'" using Suc.prems(4) q(1) by (cases fuel) (simp_all add: walk_fuel_def)
  show ?case
  proof (cases "state_at H c p (Suc k) = s")
    case False
    then show ?thesis
      using Suc.prems(2) st q(1) fuel'(1)
      by - (rule exI [of _ "Suc k"], rule exI [of _ b], rule exI [of _ cache'], auto simp: since_loop.simps [of "Suc fuel'"])
  next
    case True
    have "walk_fuel H (period_end H c p k) \<le> fuel'"
      using fuel'(2) prev_boundary_Some(1) [OF q(2) _ env(2,4)] q(3) env(4) by (auto simp: walk_fuel_def split: option.splits)
    from Suc.IH [OF le q(1) st(2) this]
    obtain j b' cache2 where j: "since_loop fuel' H c s q (period_end H c p k) cache' = Inr (b', cache2)" "cache_ok H c cache2" "j \<le> k"
      "period_end H c p (Suc j) = Some b'" "\<forall>i. j < i \<and> i \<le> k \<longrightarrow> state_at H c p i = s" "j = 0 \<or> state_at H c p j \<noteq> s" by blast
    have "since_loop fuel H c s b (period_end H c p (Suc k)) cache = Inr (b', cache2)"
      using True j(1) st(1) q(1,3) fuel'(1) by (simp add: since_loop.simps [of "Suc fuel'"] GetAncestor_period [OF env(1,3)])
    then show ?thesis using j True by - (rule exI [of _ j], rule exI [of _ b'], rule exI [of _ cache2], auto simp: le_Suc_eq)
  qed
qed

lemma GetStateSinceHeightFor_ok:
  assumes "deployment_env H c" "cache_ok H c cache" "height_of H p < INT_MAX" "deployment_state H c (Some p) \<noteq> DEFINED"
  shows "\<exists>j cache'. GetStateSinceHeightFor H c (Some p) cache = Inr (int (Suc j * nat (ck_Period c)), cache') \<and> cache_ok H c cache'
    \<and> Suc j \<le> periods H c p \<and> (\<forall>i. j < i \<and> i \<le> periods H c p \<longrightarrow> state_at H c p i = deployment_state H c (Some p))
    \<and> state_at H c p j \<noteq> deployment_state H c (Some p)"
proof -
  note env = deployment_envD [OF assms(1)]
  let ?s = "deployment_state H c (Some p)"
  obtain cache1 where c1: "GetStateFor H c (Some p) cache = Inr (?s, cache1)" "cache_ok H c cache1"
    using GetStateFor_ok [OF assms(1,2), of "Some p"] assms(3) by auto
  have K: "periods H c p \<noteq> 0"
    using assms(4) deployment_state_at [OF assms(1), of p] by (metis boundary_state_None fst_conv period_end_def)
  then obtain k where k: "periods H c p = Suc k" by (cases "periods H c p") simp_all
  obtain b where b: "period_end H c p (Suc k) = Some b" "boundary H c b" "prev_boundary H c b = period_end H c p k"
    using period_end_Suc [OF env(2,4), of k p] k by auto
  have lb: "last_boundary H c (Some p) = Some b" using last_boundary_period_end [OF env(4), of H p] k b(1) by simp
  obtain j b' cache2 where j: "since_loop (walk_fuel H (period_end H c p k)) H c ?s b (period_end H c p k) cache1 = Inr (b', cache2)"
    "cache_ok H c cache2" "j \<le> k" "period_end H c p (Suc j) = Some b'"
    "\<forall>i. j < i \<and> i \<le> k \<longrightarrow> state_at H c p i = ?s" "j = 0 \<or> state_at H c p j \<noteq> ?s"
    using since_loop_ok [OF assms(1,3), of k b cache1 "walk_fuel H (period_end H c p k)" ?s] k b(1) c1(2) by auto
  have "bi_height (H b') + 1 = Suc j * nat (ck_Period c)"
    using deployment_state_period(3) [OF assms(1) zero_less_Suc _ j(4)] j(3) k by simp
  then have h: "height_of H b' + 1 = int (Suc j * nat (ck_Period c))" by linarith
  have "GetStateSinceHeightFor H c (Some p) cache = Inr (int (Suc j * nat (ck_Period c)), cache2)"
    using c1(1) j(1) assms(4) env(5,6) b(3) lb unfolding GetStateSinceHeightFor_def
    by (simp add: period_parent_eq [OF assms(1)] GetAncestor_period [OF env(1,3)] h)
  moreover have "state_at H c p i = ?s" if "j < i" "i \<le> periods H c p" for i
    using that j(5) k deployment_state_at [OF assms(1), of p] by (cases "i = Suc k") auto
  moreover have "state_at H c p j \<noteq> ?s" using j(6) assms(4) by (auto simp: period_end_def)
  moreover have "Suc j \<le> periods H c p" using j(3) k by simp
  ultimately show ?thesis using j(2) by blast
qed

lemma since_height_iff:
  assumes "deployment_env H c" "Suc j \<le> periods H c p" "\<forall>i. j < i \<and> i \<le> periods H c p \<longrightarrow> state_at H c p i = s"
    "state_at H c p j \<noteq> s" "ancestor H p h = Some a"
  shows "deployment_state H c (Some a) = s \<longleftrightarrow> Suc j * nat (ck_Period c) \<le> h + 1"
proof -
  note env = deployment_envD [OF assms(1)]
  have h: "bi_height (H a) = h" using ancestor_height [OF env(2) assms(5)] .
  have st: "deployment_state H c (Some a) = state_at H c p (periods H c a)"
    using deployment_state_at [OF assms(1), of a] periods_ancestor(2) [OF assms(1,5) order_refl] by simp
  have le: "Suc j \<le> periods H c a \<longleftrightarrow> Suc j * nat (ck_Period c) \<le> h + 1"
    unfolding periods_def h using env(4) by (rule less_eq_div_iff_mult_less_eq)
  show ?thesis
  proof (cases "Suc j \<le> periods H c a")
    case True
    then show ?thesis using st le assms(3) periods_ancestor(1) [OF assms(1,5)] by simp
  next
    case False
    have "state_at H c p (periods H c a) \<noteq> s"
    proof
      assume eq: "state_at H c p (periods H c a) = s"
      have "deployment_step\<^sup>*\<^sup>* s (state_at H c p j)" using state_at_reach [OF assms(1), of "periods H c a" j p] False assms(2) eq by simp
      moreover have "deployment_step\<^sup>*\<^sup>* (state_at H c p j) s"
        using state_at_reach [OF assms(1), of j "Suc j" p] assms(2,3) by simp
      ultimately show False using reach_antisym assms(4) by blast
    qed
    then show ?thesis using False le st by simp
  qed
qed

text \<open>After the timeout a deployment is decided within two periods.\<close>

lemma decided_after_timeout:
  assumes "deployment_env H c" "0 < j" "Suc (Suc j) \<le> periods H c p"
    "period_end H c p j = Some b" "ready H c b" "period_end H c p (Suc j) = Some b'" "GetMedianTimePast H b' \<ge> ck_EndTime c"
    "ck_MinActivationHeight c \<le> int (Suc (Suc j) * nat (ck_Period c))"
  shows "state_at H c p (Suc (Suc j)) = ACTIVE \<or> state_at H c p (Suc (Suc j)) = FAILED"
    and "state_at H c p j = STARTED \<Longrightarrow> \<forall>n. ck_Threshold c n \<le> signals H c b' \<Longrightarrow> state_at H c p (Suc (Suc j)) = ACTIVE"
proof -
  note env = deployment_envD [OF assms(1)]
  obtain i where i: "j = Suc i" using assms(2) by (cases j) simp_all
  obtain b2 where b2: "period_end H c p (Suc (Suc j)) = Some b2" "bi_height (H b2) + 1 = Suc (Suc j) * nat (ck_Period c)"
    using period_end_Suc [OF env(2,4) assms(3)] by metis
  have h2: "ck_MinActivationHeight c \<le> height_of H b2 + 1" using assms(8) b2(2) by linarith
  have 0: "state_at H c p j \<noteq> DEFINED"
    using state_at_Suc [OF assms(1), of i p b] assms(3-5) i
    by (auto simp: next_state_def split: ThresholdState.splits if_splits)
  have 1: "state_at H c p (Suc j) = fst (next_state H c b' (boundary_state H c (period_end H c p j)))"
    using assms(3,6) by (intro state_at_Suc [OF assms(1)]) simp_all
  then have 1: "state_at H c p (Suc j) \<in> {LOCKED_IN, ACTIVE, FAILED}"
    and lock: "state_at H c p j = STARTED \<Longrightarrow> \<forall>n. ck_Threshold c n \<le> signals H c b' \<Longrightarrow> state_at H c p (Suc j) = LOCKED_IN"
    using 0 assms(7) by (auto simp: next_state_def split: ThresholdState.splits)
  have 2: "state_at H c p (Suc (Suc j)) = fst (next_state H c b2 (boundary_state H c (period_end H c p (Suc j))))"
    by (rule state_at_Suc [OF assms(1,3) b2(1)])
  show "state_at H c p (Suc (Suc j)) = ACTIVE \<or> state_at H c p (Suc (Suc j)) = FAILED"
    using 1 2 h2 by (auto simp: next_state_def)
  show "state_at H c p (Suc (Suc j)) = ACTIVE" if "state_at H c p j = STARTED" "\<forall>n. ck_Threshold c n \<le> signals H c b'"
    using lock [OF that] 2 h2 by (auto simp: next_state_def)
qed

section \<open>Properties\<close>

text \<open>
  C21: the cache does not change the state of a deployment: with any consistent cache, in particular the empty one,
  \<open>GetStateFor\<close> fails no assertion, returns the state that the recursion over all periods from the
  genesis block gives, and leaves a consistent cache. (For a deployment with a start time: one that is always or never
  active bypasses the cache.)
\<close>

theorem GetStateFor_transparent:
  assumes "deployment_env H c" "cache_ok H c cache" "\<forall>p. pindexPrev = Some p \<longrightarrow> height_of H p < INT_MAX"
  shows "cache_ok H c (\<lambda>_. None)
    \<and> (\<exists>cache'. GetStateFor H c pindexPrev cache = Inr (deployment_state H c pindexPrev, cache') \<and> cache_ok H c cache')"
  using assms(3) by (intro conjI cache_ok_empty GetStateFor_ok [OF assms(1,2)]) simp

text \<open>
  C26: along a chain the state of a deployment only moves forward in the state machine, whatever the caches hold:
  from the state after an ancestor the state after a block is reached by steps \<open>DEFINED\<close>, \<open>STARTED\<close>,
  \<open>LOCKED_IN\<close>, \<open>ACTIVE\<close> or from \<open>STARTED\<close> to \<open>FAILED\<close>; \<open>ACTIVE\<close> and \<open>FAILED\<close> are final.
\<close>

theorem deployment_progress:
  assumes "deployment_env H c" "cache_ok H c cache1" "cache_ok H c cache2" "height_of H p < INT_MAX" "ancestor H p h = Some a"
    "GetStateFor H c (Some a) cache1 = Inr (s1, cache1')" "GetStateFor H c (Some p) cache2 = Inr (s2, cache2')"
  shows "deployment_step\<^sup>*\<^sup>* s1 s2 \<and> (s1 = ACTIVE \<or> s1 = FAILED \<longrightarrow> s2 = s1)"
proof -
  have "bi_height (H a) \<le> bi_height (H p)"
    using ancestor_height [OF deployment_envD(2) [OF assms(1)] assms(5)] assms(5) by (auto simp: ancestor_def split: if_splits)
  then have "s1 = deployment_state H c (Some a)" "s2 = deployment_state H c (Some p)"
    using GetStateFor_ok [OF assms(1,2), of "Some a"] GetStateFor_ok [OF assms(1,3), of "Some p"] assms(4,6,7) by auto
  then show ?thesis
    using deployment_state_reach [OF assms(1,5)] final_states [OF deployment_state_reach [OF assms(1,5)]] by simp
qed

text \<open>
  C22: a deployment whose signalling has been opened is decided after its timeout. Once the last block \<open>b\<close> of a period is past the start time and the masternode
  signal, the last block \<open>b'\<close> of the next period is past the timeout, and the period after that reaches the
  minimal activation height, the state is \<open>ACTIVE\<close> or \<open>FAILED\<close> for every later block; and it is \<open>ACTIVE\<close> if the
  deployment was \<open>STARTED\<close> and enough blocks signalled in that next period. (Without the masternode signal a
  deployment that needs it stays \<open>DEFINED\<close>.)
\<close>

theorem deployment_decided:
  assumes "deployment_env H c" "cache_ok H c cache" "height_of H p < INT_MAX"
    "ancestor H p h = Some b" "nat (ck_Period c) dvd h + 1" "GetMedianTimePast H b \<ge> ck_BeginTime c" "int h \<ge> ck_SignalHeight c (Some b)"
    "ancestor H p (h + nat (ck_Period c)) = Some b'" "GetMedianTimePast H b' \<ge> ck_EndTime c"
    "ck_MinActivationHeight c \<le> int h + 2 * ck_Period c + 1" "h + 2 * nat (ck_Period c) \<le> bi_height (H p)"
  shows "\<exists>s cache'. GetStateFor H c (Some p) cache = Inr (s, cache') \<and> (s = ACTIVE \<or> s = FAILED)
    \<and> (deployment_state H c (Some b) = STARTED \<and> (\<forall>n. ck_Threshold c n \<le> signals H c b') \<longrightarrow> s = ACTIVE)"
proof -
  note env = deployment_envD [OF assms(1)]
  let ?P = "nat (ck_Period c)"
  obtain j where j: "h + 1 = ?P * j" using assms(5) by (elim dvdE)
  then have j0: "0 < j" by (cases j) simp_all
  have eqs: "j * ?P - 1 = h" "Suc j * ?P - 1 = h + ?P" "Suc (Suc j) * ?P = h + 1 + 2 * ?P" using j by (simp_all add: mult.commute)
  have "Suc (Suc j) * ?P \<le> bi_height (H p) + 1" using assms(11) unfolding eqs(3) by simp
  then have le: "Suc (Suc j) \<le> periods H c p"
    unfolding periods_def using env(4) by (simp only: less_eq_div_iff_mult_less_eq)
  have pe: "period_end H c p j = Some b" "period_end H c p (Suc j) = Some b'"
    unfolding period_end_def eqs(1,2) using assms(4,8) j0 by simp_all
  have "bi_height (H b) = h" using ancestor_height [OF env(2) assms(4)] .
  then have "ready H c b" using assms(6,7) by (simp add: ready_def)
  moreover have "ck_MinActivationHeight c \<le> int (Suc (Suc j) * ?P)" using assms(10) env(3) unfolding eqs(3) by simp
  ultimately have d: "state_at H c p (Suc (Suc j)) = ACTIVE \<or> state_at H c p (Suc (Suc j)) = FAILED"
    "state_at H c p j = STARTED \<Longrightarrow> \<forall>n. ck_Threshold c n \<le> signals H c b' \<Longrightarrow> state_at H c p (Suc (Suc j)) = ACTIVE"
    using decided_after_timeout [OF assms(1) j0 le pe(1) _ pe(2) assms(9)] by blast+
  have "state_at H c p (periods H c p) = state_at H c p (Suc (Suc j))"
    using final_states [OF state_at_reach [OF assms(1) le order_refl] d(1)] .
  moreover have "deployment_state H c (Some b) = state_at H c p j"
    using le by (intro deployment_state_period(1) [OF assms(1) j0 _ pe(1)]) simp
  moreover obtain cache' where "GetStateFor H c (Some p) cache = Inr (deployment_state H c (Some p), cache')"
    using GetStateFor_ok [OF assms(1,2), of "Some p"] assms(3) by auto
  ultimately show ?thesis using d deployment_state_at [OF assms(1), of p] by auto
qed

text \<open>
  C27: \<open>GetStateSinceHeightFor\<close> returns the height of the first block with the current state: exactly the blocks after the
  ancestors of \<open>p\<close> from that height on have the state of the block after \<open>p\<close>.
\<close>

theorem state_since_height:
  assumes "deployment_env H c" "cache_ok H c cache" "height_of H p < INT_MAX"
  shows "\<exists>r cache'. GetStateSinceHeightFor H c (Some p) cache = Inr (r, cache') \<and> cache_ok H c cache'
    \<and> (\<forall>h a. ancestor H p h = Some a \<longrightarrow>
         (deployment_state H c (Some a) = deployment_state H c (Some p) \<longleftrightarrow> r \<le> int h + 1))"
proof (cases "deployment_state H c (Some p) = DEFINED")
  case True
  note env = deployment_envD [OF assms(1)]
  obtain cache1 where "GetStateFor H c (Some p) cache = Inr (DEFINED, cache1)" "cache_ok H c cache1"
    using GetStateFor_ok [OF assms(1,2), of "Some p"] assms(3) True by auto
  moreover have "deployment_state H c (Some a) = DEFINED" if "ancestor H p h = Some a" for h a
    using reach_rank [OF deployment_state_reach [OF assms(1) that]] True by simp
  ultimately show ?thesis
    using True env(5,6) by (intro exI [of _ 0] exI [of _ cache1]) (simp add: GetStateSinceHeightFor_def)
next
  case False
  obtain j cache' where j: "GetStateSinceHeightFor H c (Some p) cache = Inr (int (Suc j * nat (ck_Period c)), cache')" "cache_ok H c cache'"
    "Suc j \<le> periods H c p" "\<forall>i. j < i \<and> i \<le> periods H c p \<longrightarrow> state_at H c p i = deployment_state H c (Some p)"
    "state_at H c p j \<noteq> deployment_state H c (Some p)"
    using GetStateSinceHeightFor_ok [OF assms False] by blast
  have "deployment_state H c (Some a) = deployment_state H c (Some p) \<longleftrightarrow> int (Suc j * nat (ck_Period c)) \<le> int h + 1"
    if "ancestor H p h = Some a" for h a
    using since_height_iff [OF assms(1) j(3,4,5) that] by linarith
  with j(1,2) show ?thesis by blast
qed

text \<open>\<open>ComputeBlockVersion\<close> sets the bits of the deployments in progress.\<close>

definition checker_of :: "heap \<Rightarrow> ehf_signals \<Rightarrow> vb_params \<Rightarrow> nat \<Rightarrow> threshold_checker" where
  "checker_of H sg params pos = VersionBitsConditionChecker H sg params (vDeployments params ! pos)"

definition caches_ok :: "heap \<Rightarrow> ehf_signals \<Rightarrow> vb_params \<Rightarrow> cond_cache list \<Rightarrow> bool" where
  "caches_ok H sg params m_caches \<longleftrightarrow> length m_caches = length (vDeployments params)
     \<and> (\<forall>pos<length (vDeployments params). cache_ok H (checker_of H sg params pos) (m_caches ! pos))"

text \<open>A deployment without a start time is always or never active and never in progress.\<close>

definition fixed_deployment :: "BIP9Deployment \<Rightarrow> bool" where
  "fixed_deployment d \<longleftrightarrow> nStartTime d = ALWAYS_ACTIVE \<or> nStartTime d = NEVER_ACTIVE"

definition in_progress :: "heap \<Rightarrow> ehf_signals \<Rightarrow> vb_params \<Rightarrow> ptr option \<Rightarrow> nat \<Rightarrow> bool" where
  "in_progress H sg params pindexPrev pos \<longleftrightarrow>
     \<not> fixed_deployment (vDeployments params ! pos) \<and> deployment_state H (checker_of H sg params pos) pindexPrev \<in> {STARTED, LOCKED_IN}"

definition deployments_env :: "heap \<Rightarrow> ehf_signals \<Rightarrow> vb_params \<Rightarrow> bool" where
  "deployments_env H sg params \<longleftrightarrow> (\<forall>pos<length (vDeployments params).
     (fixed_deployment (vDeployments params ! pos) \<or> deployment_env H (checker_of H sg params pos)) \<and> dep_bit (vDeployments params ! pos) < 29)"

lemma bit_power_2: "bit (2 ^ m :: u32) i \<longleftrightarrow> i = m \<and> m < 32"
  by (auto simp: bit_exp_iff possible_bit_def)

lemma bit_TOP_BITS: "bit VERSIONBITS_TOP_BITS i \<longleftrightarrow> i = 29"
proof -
  have eq: "VERSIONBITS_TOP_BITS = 2 ^ 29" by (simp add: VERSIONBITS_TOP_BITS_def)
  show ?thesis unfolding eq bit_power_2 by simp
qed

lemma GetStateFor_progress:
  assumes "fixed_deployment (vDeployments params ! pos) \<or> deployment_env H (checker_of H sg params pos)"
    and "cache_ok H (checker_of H sg params pos) cache" "\<forall>p. pindexPrev = Some p \<longrightarrow> height_of H p < INT_MAX"
  shows "\<exists>state cache'. GetStateFor H (checker_of H sg params pos) pindexPrev cache = Inr (state, cache')
    \<and> cache_ok H (checker_of H sg params pos) cache' \<and> (state = LOCKED_IN \<or> state = STARTED \<longleftrightarrow> in_progress H sg params pindexPrev pos)"
proof (cases "fixed_deployment (vDeployments params ! pos)")
  case True
  moreover have "ck_BeginTime (checker_of H sg params pos) = nStartTime (vDeployments params ! pos)"
    by (simp add: checker_of_def VersionBitsConditionChecker_def)
  ultimately have "\<exists>state \<in> {ACTIVE, FAILED}. GetStateFor H (checker_of H sg params pos) pindexPrev cache = Inr (state, cache)"
    by (auto simp: GetStateFor_def fixed_deployment_def Let_def)
  then show ?thesis using assms(2) True by (auto simp: in_progress_def)
next
  case False
  then obtain cache' where "GetStateFor H (checker_of H sg params pos) pindexPrev cache
      = Inr (deployment_state H (checker_of H sg params pos) pindexPrev, cache')" "cache_ok H (checker_of H sg params pos) cache'"
    using GetStateFor_ok [OF _ assms(2)] assms(1,3) by blast
  then show ?thesis using False by (auto simp: in_progress_def)
qed

lemma version_loop_ok:
  assumes "deployments_env H sg params" "\<forall>p. pindexPrev = Some p \<longrightarrow> height_of H p < INT_MAX"
  shows "caches_ok H sg params m_caches \<Longrightarrow> \<forall>pos\<in>set ps. pos < length (vDeployments params) \<Longrightarrow>
    \<exists>v' m_caches'. version_loop H sg params pindexPrev ps v m_caches = Inr (v', m_caches') \<and> caches_ok H sg params m_caches'
      \<and> (\<forall>i. bit v' i \<longleftrightarrow> bit v i \<or> (\<exists>pos\<in>set ps. dep_bit (vDeployments params ! pos) = i \<and> in_progress H sg params pindexPrev pos))"
proof (induction ps arbitrary: v m_caches)
  case Nil
  then show ?case by simp
next
  case (Cons pos ps)
  let ?c = "checker_of H sg params pos" and ?d = "vDeployments params ! pos"
  have env: "fixed_deployment ?d \<or> deployment_env H ?c" "dep_bit ?d < 29" using assms(1) Cons.prems(2) by (simp_all add: deployments_env_def)
  have "cache_ok H ?c (m_caches ! pos)" using Cons.prems by (simp add: caches_ok_def)
  then obtain state cache where st: "GetStateFor H ?c pindexPrev (m_caches ! pos) = Inr (state, cache)" "cache_ok H ?c cache"
    and state: "state = LOCKED_IN \<or> state = STARTED \<longleftrightarrow> in_progress H sg params pindexPrev pos"
    using GetStateFor_progress [OF env(1) _ assms(2)] by blast
  have ok: "caches_ok H sg params (m_caches[pos := cache])"
    using Cons.prems st(2) by (auto simp: caches_ok_def nth_list_update)
  let ?v = "if in_progress H sg params pindexPrev pos then v OR vb_Mask ?d else v"
  obtain v' caches' where v': "version_loop H sg params pindexPrev ps ?v (m_caches[pos := cache]) = Inr (v', caches')"
    "caches_ok H sg params caches'"
    "\<forall>i. bit v' i \<longleftrightarrow> bit ?v i \<or> (\<exists>pos\<in>set ps. dep_bit (vDeployments params ! pos) = i \<and> in_progress H sg params pindexPrev pos)"
    using Cons.IH [OF ok, of ?v] Cons.prems(2) by auto
  have "version_loop H sg params pindexPrev (pos # ps) v m_caches = Inr (v', caches')"
    using st(1) v'(1) state by (simp add: vb_State_def checker_of_def)
  moreover have "bit ?v i \<longleftrightarrow> bit v i \<or> (dep_bit ?d = i \<and> in_progress H sg params pindexPrev pos)" for i
    using env(2) by (auto simp: vb_Mask_def bit_or_iff push_bit_eq_mult bit_power_2)
  ultimately show ?case using v'(2,3) by auto
qed

lemma top_bits:
  "v AND VERSIONBITS_TOP_MASK = VERSIONBITS_TOP_BITS \<longleftrightarrow> bit v 29 \<and> \<not> bit v 30 \<and> \<not> bit v 31" for v :: u32
proof -
  have m: "VERSIONBITS_TOP_MASK = push_bit 29 (mask 3)"
    by (simp add: VERSIONBITS_TOP_MASK_def mask_eq_exp_minus_1 push_bit_eq_mult)
  have "bit VERSIONBITS_TOP_MASK n \<longleftrightarrow> 29 \<le> n \<and> n < 32" for n
    unfolding m by (auto simp: bit_simps)
  then have "v AND VERSIONBITS_TOP_MASK = VERSIONBITS_TOP_BITS \<longleftrightarrow> (\<forall>n<32. (bit v n \<and> 29 \<le> n) \<longleftrightarrow> n = 29)"
    unfolding bit_eq_iff [where a = "v AND VERSIONBITS_TOP_MASK"] by (auto simp: bit_and_iff bit_TOP_BITS)
  also have "\<dots> \<longleftrightarrow> bit v 29 \<and> \<not> bit v 30 \<and> \<not> bit v 31"
  proof
    assume "\<forall>n<32. (bit v n \<and> 29 \<le> n) \<longleftrightarrow> n = 29"
    then have "(bit v n \<and> 29 \<le> n) \<longleftrightarrow> n = 29" if "n < 32" for n using that by blast
    from this [of 29] this [of 30] this [of 31] show "bit v 29 \<and> \<not> bit v 30 \<and> \<not> bit v 31" by simp
  next
    assume *: "bit v 29 \<and> \<not> bit v 30 \<and> \<not> bit v 31"
    have "n = 29 \<or> n = 30 \<or> n = 31" if "29 \<le> n" "n < 32" for n :: nat using that by linarith
    with * show "\<forall>n<32. (bit v n \<and> 29 \<le> n) \<longleftrightarrow> n = 29" by blast
  qed
  finally show ?thesis .
qed

text \<open>
  C28: \<open>ComputeBlockVersion\<close> makes a new block signal exactly for the deployments in progress: a block with the version it
  returns satisfies \<open>Condition\<close> of a deployment if and only if a deployment with its bit is
  \<open>STARTED\<close> or \<open>LOCKED_IN\<close>. Deployments may be always or never active, as \<open>TESTDUMMY\<close> is on the main network; their
  bits are below 29.
\<close>

theorem ComputeBlockVersion_signals:
  assumes "deployments_env H sg params" "caches_ok H sg params m_caches" "\<forall>p. pindexPrev = Some p \<longrightarrow> height_of H p < INT_MAX"
  shows "\<exists>v m_caches'. ComputeBlockVersion H sg params pindexPrev m_caches = Inr (v, m_caches') \<and> caches_ok H sg params m_caches'
    \<and> (\<forall>H' q d. bi_nVersion (H' q) = v \<and> d \<in> set (vDeployments params) \<longrightarrow>
         (vb_Condition H' d q \<longleftrightarrow>
          (\<exists>pos<length (vDeployments params). dep_bit (vDeployments params ! pos) = dep_bit d \<and> in_progress H sg params pindexPrev pos)))"
proof -
  let ?n = "length (vDeployments params)"
  obtain v m_caches' where v: "version_loop H sg params pindexPrev [0..<?n] VERSIONBITS_TOP_BITS m_caches = Inr (v, m_caches')"
    "caches_ok H sg params m_caches'"
    "\<forall>i. bit v i \<longleftrightarrow> bit VERSIONBITS_TOP_BITS i \<or> (\<exists>pos<?n. dep_bit (vDeployments params ! pos) = i \<and> in_progress H sg params pindexPrev pos)"
    using version_loop_ok [OF assms(1,3,2), of "[0..<?n]" VERSIONBITS_TOP_BITS] by (auto simp: Bex_def)
  have small: "dep_bit (vDeployments params ! pos) < 29" if "pos < ?n" for pos using assms(1) that by (simp add: deployments_env_def)
  note tb = bit_TOP_BITS
  have top: "v AND VERSIONBITS_TOP_MASK = VERSIONBITS_TOP_BITS" unfolding top_bits using v(3) tb small by fastforce
  have "v AND vb_Mask d \<noteq> 0 \<longleftrightarrow> (\<exists>pos<?n. dep_bit (vDeployments params ! pos) = dep_bit d \<and> in_progress H sg params pindexPrev pos)"
    if d: "d \<in> set (vDeployments params)" for d
  proof -
    have "dep_bit d < 29" using d small by (auto simp: in_set_conv_nth)
    then have "v AND vb_Mask d \<noteq> 0 \<longleftrightarrow> bit v (dep_bit d)"
      by (simp add: vb_Mask_def push_bit_eq_mult and_exp_eq_0_iff_not_bit)
    then show ?thesis using v(3) tb \<open>dep_bit d < 29\<close> by auto
  qed
  then have "\<forall>H' q d. bi_nVersion (H' q) = v \<and> d \<in> set (vDeployments params) \<longrightarrow>
      (vb_Condition H' d q \<longleftrightarrow>
       (\<exists>pos<?n. dep_bit (vDeployments params ! pos) = dep_bit d \<and> in_progress H sg params pindexPrev pos))"
    using top by (auto simp: vb_Condition_def)
  with v(1,2) show ?thesis by (auto simp: ComputeBlockVersion_def)
qed

section \<open>A deployment on a chain that signals it\<close>

text \<open>
  Blocks one second apart up to time 1000, all with version bit 1; periods of ten blocks, start at 10, timeout at 20;
  the second deployment is \<open>TESTDUMMY\<close> as the main network has it.
\<close>

definition vb_heap :: heap where
  "vb_heap n = (sample_heap n)\<lparr>bi_nTime := of_nat (min n 1000)\<rparr>"

definition vb_sample :: vb_params where
  "vb_sample = \<lparr>vDeployments = [\<lparr>dep_bit = 1, nStartTime = 10, nTimeout = 20, min_activation_height = 0, nWindowSize = 10,
     nThresholdStart = 8, nThresholdMin = 6, nFalloffCoeff = 5, useEHF = False\<rparr>,
    \<lparr>dep_bit = 28, nStartTime = NEVER_ACTIVE, nTimeout = 2 ^ 63 - 1, min_activation_height = 0, nWindowSize = 0,
     nThresholdStart = 0, nThresholdMin = 0, nFalloffCoeff = 0, useEHF = False\<rparr>],
     nMinerConfirmationWindow = 2016, nRuleChangeActivationThreshold = 1815\<rparr>"

abbreviation vb_checker :: threshold_checker where
  "vb_checker \<equiv> checker_of vb_heap (\<lambda>_ _. None) vb_sample 0"

lemma vb_heap_prevs: "k \<le> n \<Longrightarrow> prevs vb_heap n k = Some (n - k)"
  by (induction k arbitrary: n) (auto simp: vb_heap_def sample_heap_def)

lemma vb_heap_ancestor: "ancestor vb_heap n h = (if h \<le> n then Some h else None)"
  using vb_heap_prevs [of "n - h" n] by (simp add: ancestor_def) (simp add: vb_heap_def sample_heap_def)

lemma vb_heap_height [simp]: "bi_height (vb_heap n) = n"
  by (simp add: vb_heap_def sample_heap_def)

lemma vb_heap_wf: "wf_index vb_heap"
proof -
  have "GetSkipHeight p \<le> p" for p using GetSkipHeight_less [of p] by (cases "p = 0") (simp_all add: GetSkipHeight_def)
  then show ?thesis
    by (auto simp: wf_index_def linked_def vb_heap_ancestor) (auto simp: vb_heap_def sample_heap_def split: if_splits)
qed

lemma vb_heap_times: "median_times vb_heap k (Some n) = map (\<lambda>i. int (min i 1000)) [n + 1 - min k (n + 1)..<n + 1]"
proof (induction k arbitrary: n)
  case (Suc k)
  have t: "GetBlockTime (vb_heap n) = int (min n 1000)"
    by (simp add: GetBlockTime_def vb_heap_def uint_nat unat_of_nat)
  show ?case
  proof (cases n)
    case 0
    then show ?thesis using t by (cases k) (simp_all add: vb_heap_def sample_heap_def)
  next
    case (Suc m)
    then show ?thesis using t Suc.IH [of m] by (auto simp: vb_heap_def sample_heap_def min_def)
  qed
qed simp

lemma vb_heap_median: "GetMedianTimePast vb_heap n = int (min (if n < 11 then (n + 1) div 2 else n - 5) 1000)"
proof -
  let ?l = "[n + 1 - min 11 (n + 1)..<n + 1]"
  have "sorted (map (\<lambda>i. int (min i 1000)) ?l)" using sorted_upt by (rule sorted_map_mono) (auto simp: mono_on_def)
  then have "sort (median_times vb_heap 11 (Some n)) = map (\<lambda>i. int (min i 1000)) ?l"
    unfolding vb_heap_times by (rule sorted_sort_id)
  then show ?thesis
    by (cases "n < 11") (simp_all add: GetMedianTimePast_def nMedianTimeSpan_def min_absorb1 min_absorb2 del: upt_Suc)
qed

lemma vb_env: "deployment_env vb_heap vb_checker"
proof -
  have "GetMedianTimePast vb_heap h \<le> GetMedianTimePast vb_heap n" if "h \<le> n" for h n
    using that unfolding vb_heap_median by (auto simp: min_def)
  then show ?thesis
    using vb_heap_wf
    by (auto simp: deployment_env_def vb_heap_ancestor checker_of_def VersionBitsConditionChecker_def vb_sample_def vb_Period_def
        vb_SignalHeight_def ALWAYS_ACTIVE_def NEVER_ACTIVE_def split: if_splits)
qed

lemma prevs_code [code]:
  "prevs H p n = (if n = 0 then Some p else case pprev (H p) of None \<Rightarrow> None | Some q \<Rightarrow> prevs H q (n - 1))"
  by (cases n) (auto split: option.split)

lemma period_state_code [code]:
  "period_state H c k q =
     (if k = 0 then (DEFINED, INT_MAX)
      else case q of None \<Rightarrow> (DEFINED, INT_MAX) | Some b \<Rightarrow> next_state H c b (period_state H c (k - 1) (prev_boundary H c b)))"
  by (cases k; cases q) simp_all

lemma vb_states:
  "deployment_state vb_heap vb_checker (Some 25) = STARTED"
  "deployment_state vb_heap vb_checker (Some 45) = ACTIVE"
  "deployment_state vb_heap vb_checker (Some 19) = STARTED"
  by code_simp+

lemma vb_heights: "height_of vb_heap 19 < INT_MAX" "height_of vb_heap 25 < INT_MAX" "height_of vb_heap 45 < INT_MAX"
  by (simp_all add: INT_MAX_def)

theorem GetStateFor_transparent_witness:
  "deployment_env vb_heap vb_checker
   \<and> (\<exists>cache'. GetStateFor vb_heap vb_checker (Some 25) (\<lambda>_. None) = Inr (STARTED, cache') \<and> cache_ok vb_heap vb_checker cache')"
  using GetStateFor_transparent [OF vb_env cache_ok_empty, of "Some 25"] vb_states(1) vb_heights vb_env by simp

theorem deployment_progress_witness:
  "(\<exists>c1 c2. GetStateFor vb_heap vb_checker (Some 25) (\<lambda>_. None) = Inr (STARTED, c1)
      \<and> GetStateFor vb_heap vb_checker (Some 45) (\<lambda>_. None) = Inr (ACTIVE, c2))
   \<and> deployment_step\<^sup>*\<^sup>* STARTED ACTIVE"
proof -
  obtain c1 c2 where c: "GetStateFor vb_heap vb_checker (Some 25) (\<lambda>_. None) = Inr (STARTED, c1)"
    "GetStateFor vb_heap vb_checker (Some 45) (\<lambda>_. None) = Inr (ACTIVE, c2)"
    using GetStateFor_ok [OF vb_env cache_ok_empty, of "Some 25"] GetStateFor_ok [OF vb_env cache_ok_empty, of "Some 45"]
      vb_heights vb_states by auto
  have "ancestor vb_heap 45 25 = Some 25" by (simp add: vb_heap_ancestor)
  from deployment_progress [OF vb_env cache_ok_empty cache_ok_empty vb_heights(3) this c] c show ?thesis by blast
qed

theorem deployment_decided_witness:
  "\<exists>cache'. GetStateFor vb_heap vb_checker (Some 45) (\<lambda>_. None) = Inr (ACTIVE, cache')"
proof -
  have "signals vb_heap vb_checker 29 = 10" by code_simp
  moreover have "ck_Threshold vb_checker n \<le> 10" for n
  proof -
    have "0 \<le> n * n * 10 sdiv 100 sdiv 5" by (simp add: signed_divide_int_def sgn_if)
    then show ?thesis by (simp add: checker_of_def VersionBitsConditionChecker_def vb_sample_def vb_Threshold_def vb_Period_def)
  qed
  moreover have "ck_Period vb_checker = 10" "ck_BeginTime vb_checker = 10" "ck_EndTime vb_checker = 20" "ck_MinActivationHeight vb_checker = 0"
    "ck_SignalHeight vb_checker (Some 19) = 0"
    by (simp_all add: checker_of_def VersionBitsConditionChecker_def vb_sample_def vb_Period_def vb_SignalHeight_def)
  ultimately show ?thesis
    using deployment_decided [OF vb_env cache_ok_empty vb_heights(3), of 19 19 29] vb_states(3)
    by (auto simp: vb_heap_ancestor vb_heap_median)
qed

theorem state_since_height_witness:
  "\<exists>r cache'. GetStateSinceHeightFor vb_heap vb_checker (Some 45) (\<lambda>_. None) = Inr (r, cache')
     \<and> (deployment_state vb_heap vb_checker (Some 25) = ACTIVE \<longleftrightarrow> r \<le> 26)"
proof -
  obtain r cache' where r: "GetStateSinceHeightFor vb_heap vb_checker (Some 45) (\<lambda>_. None) = Inr (r, cache')"
    "\<forall>h a. ancestor vb_heap 45 h = Some a \<longrightarrow>
       (deployment_state vb_heap vb_checker (Some a) = deployment_state vb_heap vb_checker (Some 45) \<longleftrightarrow> r \<le> int h + 1)"
    using state_since_height [OF vb_env cache_ok_empty vb_heights(3)] by blast
  from r(2) [rule_format, of 25 25] have "deployment_state vb_heap vb_checker (Some 25) = ACTIVE \<longleftrightarrow> r \<le> 26"
    by (simp add: vb_heap_ancestor vb_states(2))
  with r(1) show ?thesis by blast
qed

theorem ComputeBlockVersion_signals_witness:
  "\<exists>v caches'. ComputeBlockVersion vb_heap (\<lambda>_ _. None) vb_sample (Some 25) [\<lambda>_. None, \<lambda>_. None] = Inr (v, caches')
     \<and> (\<forall>H' q. bi_nVersion (H' q) = v \<longrightarrow> vb_Condition H' (vDeployments vb_sample ! 0) q \<and> \<not> vb_Condition H' (vDeployments vb_sample ! 1) q)"
proof -
  have len: "length (vDeployments vb_sample) = 2"
    and d: "vDeployments vb_sample ! 0 \<in> set (vDeployments vb_sample)" "vDeployments vb_sample ! 1 \<in> set (vDeployments vb_sample)"
    and bits: "dep_bit (vDeployments vb_sample ! 0) = 1" "dep_bit (vDeployments vb_sample ! 1) = 28"
    and never: "\<not> fixed_deployment (vDeployments vb_sample ! 0)" "fixed_deployment (vDeployments vb_sample ! 1)"
    by (simp_all add: vb_sample_def fixed_deployment_def ALWAYS_ACTIVE_def NEVER_ACTIVE_def)
  have "deployments_env vb_heap (\<lambda>_ _. None) vb_sample" "caches_ok vb_heap (\<lambda>_ _. None) vb_sample [\<lambda>_. None, \<lambda>_. None]"
    using vb_env cache_ok_empty bits never by (auto simp: deployments_env_def caches_ok_def len less_2_cases_iff)
  then obtain v caches' where v: "ComputeBlockVersion vb_heap (\<lambda>_ _. None) vb_sample (Some 25) [\<lambda>_. None, \<lambda>_. None] = Inr (v, caches')"
    and c: "\<forall>H' q d. bi_nVersion (H' q) = v \<and> d \<in> set (vDeployments vb_sample) \<longrightarrow>
      (vb_Condition H' d q \<longleftrightarrow> (\<exists>pos<length (vDeployments vb_sample). dep_bit (vDeployments vb_sample ! pos) = dep_bit d
         \<and> in_progress vb_heap (\<lambda>_ _. None) vb_sample (Some 25) pos))"
    using ComputeBlockVersion_signals [of vb_heap "\<lambda>_ _. None" vb_sample "[\<lambda>_. None, \<lambda>_. None]" "Some 25"] vb_heights(2) by blast
  have p: "in_progress vb_heap (\<lambda>_ _. None) vb_sample (Some 25) 0" using never(1) vb_states(1) by (simp add: in_progress_def)
  have "vb_Condition H' (vDeployments vb_sample ! 0) q" if "bi_nVersion (H' q) = v" for H' q
    using c that d(1) p len by (metis zero_less_numeral)
  moreover have "\<not> vb_Condition H' (vDeployments vb_sample ! 1) q" if "bi_nVersion (H' q) = v" for H' q
  proof -
    have "\<not> (\<exists>pos<length (vDeployments vb_sample). dep_bit (vDeployments vb_sample ! pos) = 28 \<and> in_progress vb_heap (\<lambda>_ _. None) vb_sample (Some 25) pos)"
      using bits never(2) by (auto simp: len less_2_cases_iff in_progress_def)
    then show ?thesis using c that d(2) bits(2) by metis
  qed
  ultimately show ?thesis using v by blast
qed

end
