(* ===== verification/Arith256.thy ===== *)
theory Arith256
  imports Hashing
begin

text \<open>
  \<open>arith_uint256\<close> (\<open>src/arith_uint256.h\<close>, \<open>src/arith_uint256.cpp\<close>): 256-bit unsigned numbers as eight limbs of 32 bits, least
  significant first, with the compact encoding of difficulty targets. Each operator computes what
  arithmetic modulo \<open>2 ^ 256\<close> gives.
\<close>

section \<open>Limbs\<close>

type_synonym base_uint = "u32 list"

definition WIDTH :: nat where
  "WIDTH = 8"

definition bu_of_u64 :: "u64 \<Rightarrow> base_uint" where
  "bu_of_u64 b = ucast b # ucast (drop_bit 32 b) # replicate (WIDTH - 2) 0"

definition bu_not :: "base_uint \<Rightarrow> base_uint" where
  "bu_not a = map NOT a"

fun bu_inc :: "base_uint \<Rightarrow> base_uint" where
  "bu_inc [] = []"
| "bu_inc (x # xs) = (x + 1) # (if x + 1 = 0 then bu_inc xs else xs)"

definition bu_neg :: "base_uint \<Rightarrow> base_uint" where
  "bu_neg a = bu_inc (bu_not a)"

text \<open>The loops with a carry, from the limb at hand upwards.\<close>

fun bu_add_loop :: "u64 \<Rightarrow> base_uint \<Rightarrow> base_uint \<Rightarrow> base_uint" where
  "bu_add_loop carry (x # xs) (y # ys) =
     (let n = carry + ucast x + ucast y in ucast (n AND 0xffffffff) # bu_add_loop (drop_bit 32 n) xs ys)"
| "bu_add_loop carry _ _ = []"

definition bu_add :: "base_uint \<Rightarrow> base_uint \<Rightarrow> base_uint" where
  "bu_add a b = bu_add_loop 0 a b"

definition bu_sub :: "base_uint \<Rightarrow> base_uint \<Rightarrow> base_uint" where
  "bu_sub a b = bu_add a (bu_neg b)"

fun bu_mul32_loop :: "u64 \<Rightarrow> u32 \<Rightarrow> base_uint \<Rightarrow> base_uint" where
  "bu_mul32_loop carry b32 [] = []"
| "bu_mul32_loop carry b32 (x # xs) =
     (let n = carry + ucast b32 * ucast x in ucast (n AND 0xffffffff) # bu_mul32_loop (drop_bit 32 n) b32 xs)"

definition bu_mul32 :: "base_uint \<Rightarrow> u32 \<Rightarrow> base_uint" where
  "bu_mul32 a b32 = bu_mul32_loop 0 b32 a"

text \<open>The inner loop of the multiplication updates the limbs of the result from position \<open>j\<close> on.\<close>

fun bu_mul_inner :: "u64 \<Rightarrow> u32 \<Rightarrow> base_uint \<Rightarrow> base_uint \<Rightarrow> base_uint" where
  "bu_mul_inner carry pj (x # xs) (y # ys) =
     (let n = carry + ucast x + ucast pj * ucast y in ucast (n AND 0xffffffff) # bu_mul_inner (drop_bit 32 n) pj xs ys)"
| "bu_mul_inner carry pj xs _ = xs"

definition bu_mul :: "base_uint \<Rightarrow> base_uint \<Rightarrow> base_uint" where
  "bu_mul p b = fold (\<lambda>j a. take j a @ bu_mul_inner 0 (p ! j) (drop j a) b) [0..<length p] (replicate (length p) 0)"

text \<open>Shifts; the result starts as zero and each limb is combined into two of its limbs.\<close>

definition shl_limb :: "base_uint \<Rightarrow> nat \<Rightarrow> nat \<Rightarrow> nat \<Rightarrow> base_uint \<Rightarrow> base_uint" where
  "shl_limb a k shift i pn =
     (let pn1 = (if i + k + 1 < length a \<and> shift \<noteq> 0
                 then pn[i + k + 1 := pn ! (i + k + 1) OR drop_bit (32 - shift) (a ! i)] else pn) in
      if i + k < length a then pn1[i + k := pn1 ! (i + k) OR push_bit shift (a ! i)] else pn1)"

definition bu_shl :: "base_uint \<Rightarrow> nat \<Rightarrow> base_uint" where
  "bu_shl a shift = fold (shl_limb a (shift div 32) (shift mod 32)) [0..<length a] (replicate (length a) 0)"

definition shr_limb :: "base_uint \<Rightarrow> nat \<Rightarrow> nat \<Rightarrow> nat \<Rightarrow> base_uint \<Rightarrow> base_uint" where
  "shr_limb a k shift i pn =
     (let pn1 = (if k + 1 \<le> i \<and> shift \<noteq> 0
                 then pn[i - k - 1 := pn ! (i - k - 1) OR push_bit (32 - shift) (a ! i)] else pn) in
      if k \<le> i then pn1[i - k := pn1 ! (i - k) OR drop_bit shift (a ! i)] else pn1)"

definition bu_shr :: "base_uint \<Rightarrow> nat \<Rightarrow> base_uint" where
  "bu_shr a shift = fold (shr_limb a (shift div 32) (shift mod 32)) [0..<length a] (replicate (length a) 0)"

text \<open>Comparisons go from the most significant limb down.\<close>

fun compare_limbs :: "(u32 \<times> u32) list \<Rightarrow> int" where
  "compare_limbs [] = 0"
| "compare_limbs ((x, y) # xys) = (if x < y then - 1 else if x > y then 1 else compare_limbs xys)"

definition CompareTo :: "base_uint \<Rightarrow> base_uint \<Rightarrow> int" where
  "CompareTo a b = compare_limbs (rev (zip a b))"

definition EqualTo :: "base_uint \<Rightarrow> u64 \<Rightarrow> bool" where
  "EqualTo a b \<longleftrightarrow> (\<forall>x\<in>set (drop 2 a). x = 0) \<and> ucast (a ! 1) = drop_bit 32 b \<and> ucast (a ! 0) = b AND 0xffffffff"

text \<open>The position of the highest bit plus one.\<close>

fun limb_bits :: "nat \<Rightarrow> u32 \<Rightarrow> nat" where
  "limb_bits 0 x = 1"
| "limb_bits (Suc n) x = (if x AND push_bit (Suc n) 1 \<noteq> 0 then Suc n + 1 else limb_bits n x)"

fun bits_loop :: "nat \<Rightarrow> base_uint \<Rightarrow> nat" where
  "bits_loop 0 a = 0"
| "bits_loop (Suc p) a = (if a ! p \<noteq> 0 then 32 * p + limb_bits 31 (a ! p) else bits_loop p a)"

definition bu_bits :: "base_uint \<Rightarrow> nat" where
  "bu_bits a = bits_loop (length a) a"

definition GetLow64 :: "base_uint \<Rightarrow> u64" where
  "GetLow64 a = ucast (a ! 0) OR push_bit 32 (ucast (a ! 1))"

text \<open>Division by shifting and subtracting, from the highest bit of the quotient down.\<close>

fun bu_div_loop :: "nat \<Rightarrow> base_uint \<Rightarrow> base_uint \<Rightarrow> base_uint \<Rightarrow> base_uint" where
  "bu_div_loop shift num dv q =
     (let (num', q') = (if CompareTo num dv \<ge> 0
                        then (bu_sub num dv, q[shift div 32 := q ! (shift div 32) OR push_bit (shift mod 32) 1]) else (num, q)) in
      case shift of 0 \<Rightarrow> q' | Suc s \<Rightarrow> bu_div_loop s num' (bu_shr dv 1) q')"

declare bu_div_loop.simps [simp del]

definition bu_div :: "base_uint \<Rightarrow> base_uint \<Rightarrow> base_uint res" where
  "bu_div a b =
     (let num_bits = bu_bits a; div_bits = bu_bits b; zero = replicate (length a) 0 in
      if div_bits = 0 then Inl ''Division by zero''
      else if div_bits > num_bits then Inr zero
      else Inr (bu_div_loop (num_bits - div_bits) a (bu_shl b (num_bits - div_bits)) zero))"

section \<open>Conversions\<close>

definition ArithToUint256 :: "base_uint \<Rightarrow> uint256" where
  "ArithToUint256 a = word_of_le (concat (map WriteLE32 a))"

definition UintToArith256 :: "uint256 \<Rightarrow> base_uint" where
  "UintToArith256 a = map (\<lambda>x. ReadLE32 (drop (x * 4) (word_to_le 32 a))) [0..<WIDTH]"

section \<open>The compact encoding\<close>

text \<open>The number, \<open>*pfNegative\<close> and \<open>*pfOverflow\<close>.\<close>

definition SetCompact :: "u32 \<Rightarrow> base_uint \<times> bool \<times> bool" where
  "SetCompact nCompact =
     (let nSize = unat (drop_bit 24 nCompact);
          w = nCompact AND 0x007fffff;
          nWord = (if nSize \<le> 3 then drop_bit (8 * (3 - nSize)) w else w);
          num = (if nSize \<le> 3 then bu_of_u64 (ucast nWord) else bu_shl (bu_of_u64 (ucast nWord)) (8 * (nSize - 3))) in
      (num, nWord \<noteq> 0 \<and> nCompact AND 0x00800000 \<noteq> 0,
       nWord \<noteq> 0 \<and> (nSize > 34 \<or> (nWord > 0xff \<and> nSize > 33) \<or> (nWord > 0xffff \<and> nSize > 32))))"

definition GetCompact :: "bool \<Rightarrow> base_uint \<Rightarrow> u32 res" where
  "GetCompact fNegative a =
     (let nSize = (bu_bits a + 7) div 8;
          c0 = (if nSize \<le> 3 then ucast (push_bit (8 * (3 - nSize)) (GetLow64 a)) else ucast (GetLow64 (bu_shr a (8 * (nSize - 3))))) :: u32;
          (c1, nSize1) = (if c0 AND 0x00800000 \<noteq> 0 then (drop_bit 8 c0, nSize + 1) else (c0, nSize)) in
      if c1 AND NOT 0x007fffff \<noteq> 0 then Inl ''assert((nCompact & ~0x007fffffU) == 0)''
      else if \<not> nSize1 < 256 then Inl ''assert(nSize < 256)''
      else
        let c2 = c1 OR push_bit 24 (of_nat nSize1) in
        Inr (c2 OR (if fNegative \<and> c2 AND 0x007fffff \<noteq> 0 then 0x00800000 else 0)))"

section \<open>The number that the limbs denote\<close>

fun val :: "base_uint \<Rightarrow> nat" where
  "val [] = 0"
| "val (x # xs) = unat x + 2 ^ 32 * val xs"

lemma u32_less: "unat (x :: u32) < 2 ^ 32"
  using unsigned_less [of x, where 'a = nat] by simp

lemma u64_less: "unat (x :: u64) < 2 ^ 64"
  using unsigned_less [of x, where 'a = nat] by simp

lemma val_bound: "val xs < 2 ^ (32 * length xs)"
proof (induction xs)
  case (Cons x xs)
  have "2 ^ 32 * (val xs + 1) \<le> (2 :: nat) ^ 32 * 2 ^ (32 * length xs)" using Cons by (intro mult_left_mono) simp_all
  then have "val (x # xs) < 2 ^ 32 * 2 ^ (32 * length xs)" using u32_less [of x] by simp
  also have "(2 :: nat) ^ 32 * 2 ^ (32 * length xs) = 2 ^ (32 * length (x # xs))" by (simp only: power_add [symmetric]) simp
  finally show ?case .
qed simp

lemma val_append: "val (xs @ ys) = val xs + 2 ^ (32 * length xs) * val ys"
  by (induction xs) (simp_all add: power_add algebra_simps)

lemma val_replicate [simp]: "val (replicate n 0) = 0"
  by (induction n) simp_all

lemma val_mod: "val xs mod 2 ^ (32 * length xs) = val xs"
  using val_bound by (rule mod_less)

lemma bit_val: "bit (val xs) n \<longleftrightarrow> n div 32 < length xs \<and> bit (xs ! (n div 32)) (n mod 32)"
proof (induction xs arbitrary: n)
  case (Cons x xs)
  have "unat x AND push_bit 32 (val xs) = 0" using u32_less by (rule and_push_bit_small)
  then have "val (x # xs) = unat x OR push_bit 32 (val xs)"
    by (simp add: push_bit_eq_mult disjunctive_add_eq_or [symmetric] mult.commute)
  then have b: "bit (val (x # xs)) n \<longleftrightarrow> bit x n \<or> (32 \<le> n \<and> bit (val xs) (n - 32))"
    by (simp add: bit_or_iff bit_push_bit_iff bit_unsigned_iff)
  show ?case
  proof (cases "n < 32")
    case True
    then show ?thesis using b by simp
  next
    case False
    then have "n div 32 = Suc ((n - 32) div 32)" "n mod 32 = (n - 32) mod 32" by (simp_all add: le_div_geq le_mod_geq)
    moreover have "\<not> bit x n" using False bit_imp_le_length [of x n] by auto
    ultimately show ?thesis using b False Cons [of "n - 32"] by simp
  qed
qed simp

text \<open>A 64-bit sum splits into the limb that is stored and the carry.\<close>

lemma unat_high: "unat (drop_bit 32 (n :: u64)) = unat n div 2 ^ 32"
  unfolding unat_drop_bit_eq drop_bit_eq_div [where 'a = nat] ..

lemma unat_low: "unat (ucast (n AND 0xffffffff) :: u32) = unat (n :: u64) mod 2 ^ 32"
proof -
  have m: "(0xffffffff :: u64) = mask 32" by (simp add: mask_eq_exp_minus_1)
  have "unat (ucast (n AND 0xffffffff) :: u32) = take_bit 32 (take_bit 32 (unat n))"
    unfolding m take_bit_eq_mask [symmetric] by (simp only: unsigned_ucast_eq unsigned_take_bit_eq) simp
  then show ?thesis by (simp add: take_bit_eq_mod)
qed

lemma limb_carry: "unat (ucast (n AND 0xffffffff) :: u32) + 2 ^ 32 * unat (drop_bit 32 n) = unat n" for n :: u64
  unfolding unat_high unat_low by (rule mod_mult_div_eq)

lemma unat_ucast_u64 [simp]: "unat (ucast (x :: u32) :: u64) = unat x"
  using u32_less [of x] by (simp add: unsigned_ucast_eq take_bit_eq_mod)

lemma u32_bound: "unat (x :: u32) \<le> 2 ^ 32 - 1"
  using u32_less [of x] by simp

lemma carry_mod:
  fixes n :: u64
  assumes "unat n = s" "v = (t + unat (drop_bit 32 n)) mod 2 ^ k"
  shows "unat (ucast (n AND 0xffffffff) :: u32) + 2 ^ 32 * v = (s + 2 ^ 32 * t) mod 2 ^ (32 + k)"
proof -
  let ?l = "unat (ucast (n AND 0xffffffff) :: u32)"
  have l: "?l < 2 ^ 32" by (rule u32_less)
  have "s + 2 ^ 32 * t = ?l + 2 ^ 32 * (t + unat (drop_bit 32 n))"
    using limb_carry [of n] assms(1) by (simp only: distrib_left)
  moreover have "(?l + 2 ^ 32 * u) mod (2 ^ 32 * 2 ^ k) = ?l + 2 ^ 32 * (u mod 2 ^ k)" for u
    using l by (simp add: mod_mult2_eq)
  ultimately show ?thesis unfolding assms(2) by (simp only: power_add)
qed

lemma val_add_loop:
  "length xs = length ys \<Longrightarrow> unat carry \<le> 1 \<Longrightarrow>
     val (bu_add_loop carry xs ys) = (val xs + val ys + unat carry) mod 2 ^ (32 * length xs)"
proof (induction carry xs ys rule: bu_add_loop.induct)
  case (1 carry x xs y ys)
  let ?n = "carry + ucast x + ucast y :: u64"
  have n: "unat ?n = unat carry + unat x + unat y"
    using 1 u32_bound [of x] u32_bound [of y] by (simp add: unat_word_ariths)
  then have "unat (drop_bit 32 ?n) \<le> 1"
    using 1(3) u32_bound [of x] u32_bound [of y] unfolding unat_high n by simp
  then have "val (bu_add_loop (drop_bit 32 ?n) xs ys) = (val xs + val ys + unat (drop_bit 32 ?n)) mod 2 ^ (32 * length xs)"
    using 1 by simp
  from carry_mod [OF n this] show ?case by (simp add: Let_def algebra_simps)
qed simp_all

lemma length_add_loop [simp]: "length (bu_add_loop c xs ys) = min (length xs) (length ys)"
  by (induction c xs ys rule: bu_add_loop.induct) (simp_all add: Let_def)

lemma val_mul32_loop:
  "unat carry < 2 ^ 32 \<Longrightarrow> val (bu_mul32_loop carry b xs) = (val xs * unat b + unat carry) mod 2 ^ (32 * length xs)"
proof (induction carry b xs rule: bu_mul32_loop.induct)
  case (2 carry b x xs)
  let ?n = "carry + ucast b * ucast x :: u64"
  have p: "unat b * unat x \<le> (2 ^ 32 - 1) * (2 ^ 32 - 1)" by (rule mult_mono) (simp_all add: u32_bound [simplified])
  then have n: "unat ?n = unat carry + unat b * unat x" using 2 by (simp add: unat_word_ariths)
  have "unat (drop_bit 32 ?n) < 2 ^ 32" using u64_less [of ?n] unfolding unat_high by (simp add: div_less_iff_less_mult)
  then have "val (bu_mul32_loop (drop_bit 32 ?n) b xs) = (val xs * unat b + unat (drop_bit 32 ?n)) mod 2 ^ (32 * length xs)"
    using 2 by simp
  from carry_mod [OF n this] show ?case by (simp add: Let_def algebra_simps)
qed simp

lemma length_mul32_loop [simp]: "length (bu_mul32_loop c b xs) = length xs"
  by (induction c b xs rule: bu_mul32_loop.induct) (simp_all add: Let_def)

lemma length_inc [simp]: "length (bu_inc a) = length a"
  by (induction a) simp_all

lemma length_bu [simp]: "length (bu_not a) = length a" "length (bu_neg a) = length a"
  by (simp_all add: bu_not_def bu_neg_def)

lemma unat_max: "unat (- 1 :: u32) + 1 = 2 ^ 32"
  by (simp add: unsigned_minus_1_eq_mask mask_eq_exp_minus_1)

lemma val_not: "val (bu_not a) + val a + 1 = 2 ^ (32 * length a)"
proof (induction a)
  case (Cons x a)
  have "unat (NOT x) + unat x + 1 = 2 ^ 32"
  proof -
    have "NOT x = - 1 - x" by (simp add: not_eq_complement)
    then have "unat (NOT x) = unat (- 1 :: u32) - unat x" by (simp only: unat_sub word_order.extremum)
    then show ?thesis using u32_bound [of x] unat_max by linarith
  qed
  moreover have "2 ^ 32 * (val (bu_not a) + val a + 1) = 2 ^ 32 * 2 ^ (32 * length a)" using Cons by simp
  ultimately show ?case by (simp add: bu_not_def power_add)
qed (simp add: bu_not_def)

lemma val_inc: "val (bu_inc a) = (val a + 1) mod 2 ^ (32 * length a)"
proof (induction a)
  case (Cons x a)
  show ?case
  proof (cases "x + 1 = 0")
    case True
    then have x: "unat x + 1 = 2 ^ 32" unfolding eq_neg_iff_add_eq_0 [symmetric] using unat_max by simp
    have "(val (x # a) + 1) mod 2 ^ (32 * length (x # a)) = (2 ^ 32 * (val a + 1)) mod (2 ^ 32 * 2 ^ (32 * length a))"
      using x by (simp add: power_add algebra_simps)
    also have "\<dots> = 2 ^ 32 * ((val a + 1) mod 2 ^ (32 * length a))" by (rule mult_mod_right [symmetric])
    finally show ?thesis using True Cons by simp
  next
    case False
    then have "unat x \<noteq> unat (- 1 :: u32)" by (simp add: word_unat_eq_iff [symmetric] eq_neg_iff_add_eq_0)
    then have "unat x + 1 < 2 ^ 32" using unat_max u32_less [of x] by linarith
    then have x: "unat (x + 1) = unat x + 1" by (simp add: unat_word_ariths)
    then have "val (bu_inc (x # a)) = val (x # a) + 1" using False by simp
    moreover have "val (bu_inc (x # a)) < 2 ^ (32 * length (x # a))" using val_bound [of "bu_inc (x # a)"] by (simp only: length_inc)
    ultimately show ?thesis by simp
  qed
qed simp

lemma val_neg: "val (bu_neg a) = (2 ^ (32 * length a) - val a) mod 2 ^ (32 * length a)"
proof -
  have "val (bu_not a) + 1 = 2 ^ (32 * length a) - val a" using val_not [of a] by linarith
  then show ?thesis unfolding bu_neg_def val_inc by simp
qed

lemma val_add: "length a = length b \<Longrightarrow> val (bu_add a b) = (val a + val b) mod 2 ^ (32 * length a)"
  by (simp add: bu_add_def val_add_loop)

lemma val_sub: "length a = length b \<Longrightarrow> val (bu_sub a b) = (val a + (2 ^ (32 * length a) - val b)) mod 2 ^ (32 * length a)"
  by (simp add: bu_sub_def val_add val_neg mod_add_right_eq)

lemma val_sub_le:
  assumes "length a = length b" "val b \<le> val a"
  shows "val (bu_sub a b) = val a - val b"
proof -
  have "val a + (2 ^ (32 * length a) - val b) = val a - val b + 2 ^ (32 * length a)"
    using val_bound [of b] assms(2) unfolding assms(1) by linarith
  then have "val (bu_sub a b) = (val a - val b + 2 ^ (32 * length a)) mod 2 ^ (32 * length a)"
    using val_sub [OF assms(1)] by (simp only:)
  then show ?thesis using val_bound [of a] by (simp add: less_imp_diff_less)
qed

lemma val_mul32: "val (bu_mul32 a b) = val a * unat b mod 2 ^ (32 * length a)"
  by (simp add: bu_mul32_def val_mul32_loop)

lemma length_mul_inner [simp]: "length (bu_mul_inner c pj xs ys) = length xs"
  by (induction c pj xs ys rule: bu_mul_inner.induct) (simp_all add: Let_def)

lemma length_mul [simp]: "length (bu_mul p b) = length p" "length (bu_mul32 a b32) = length a"
proof -
  have "length (fold (\<lambda>j a. take j a @ bu_mul_inner 0 (p ! j) (drop j a) b) js a) = length a" for js a
    by (induction js arbitrary: a) simp_all
  then show "length (bu_mul p b) = length p" by (simp add: bu_mul_def)
qed (simp add: bu_mul32_def)

lemma val_mul_inner:
  "length xs \<le> length ys \<Longrightarrow> unat carry < 2 ^ 32 \<Longrightarrow>
     val (bu_mul_inner carry pj xs ys) = (val xs + unat pj * val ys + unat carry) mod 2 ^ (32 * length xs)"
proof (induction carry pj xs ys rule: bu_mul_inner.induct)
  case (1 carry pj x xs y ys)
  let ?n = "carry + ucast x + ucast pj * ucast y :: u64"
  have p: "unat pj * unat y \<le> (2 ^ 32 - 1) * (2 ^ 32 - 1)" by (rule mult_mono) (simp_all add: u32_bound [simplified])
  then have n: "unat ?n = unat carry + unat x + unat pj * unat y"
    using 1(3) u32_bound [of x] by (simp add: unat_word_ariths)
  have "unat (drop_bit 32 ?n) < 2 ^ 32" using u64_less [of ?n] unfolding unat_high by (simp add: div_less_iff_less_mult)
  then have "val (bu_mul_inner (drop_bit 32 ?n) pj xs ys) = (val xs + unat pj * val ys + unat (drop_bit 32 ?n)) mod 2 ^ (32 * length xs)"
    using 1 by simp
  from carry_mod [OF n this] show ?case by (simp add: Let_def algebra_simps)
qed simp_all

lemma val_mul:
  assumes "length p = length b"
  shows "val (bu_mul p b) = val p * val b mod 2 ^ (32 * length p)"
proof -
  let ?f = "\<lambda>j a. take j a @ bu_mul_inner 0 (p ! j) (drop j a) b" and ?W = "length p"
  have "length (fold ?f [0..<n] (replicate ?W 0)) = ?W \<and>
      val (fold ?f [0..<n] (replicate ?W 0)) = val (take n p) * val b mod 2 ^ (32 * ?W)" if "n \<le> ?W" for n
    using that
  proof (induction n)
    case (Suc n)
    define a where "a = fold ?f [0..<n] (replicate ?W 0)"
    have a: "length a = ?W" "val a = val (take n p) * val b mod 2 ^ (32 * ?W)" using Suc by (simp_all add: a_def)
    have inner: "val (bu_mul_inner 0 (p ! n) (drop n a) b) = (val (drop n a) + unat (p ! n) * val b) mod 2 ^ (32 * (?W - n))"
      using val_mul_inner [of "drop n a" b 0 "p ! n"] a(1) assms by simp
    have W: "(2 :: nat) ^ (32 * ?W) = 2 ^ (32 * n) * 2 ^ (32 * (?W - n))"
      using Suc.prems by (simp add: power_add [symmetric] algebra_simps)
    have lo: "val (take n a) < 2 ^ (32 * n)" using val_bound [of "take n a"] a(1) Suc.prems by (simp add: min_absorb2)
    have va: "val a = val (take n a) + 2 ^ (32 * n) * val (drop n a)"
      using val_append [of "take n a" "drop n a"] a(1) Suc.prems by (simp add: min_absorb2)
    have "val (?f n a) = val (take n a) + 2 ^ (32 * n) * ((val (drop n a) + unat (p ! n) * val b) mod 2 ^ (32 * (?W - n)))"
      using inner a(1) Suc.prems by (simp add: val_append min_absorb2)
    also have "\<dots> = (val (take n a) + 2 ^ (32 * n) * (val (drop n a) + unat (p ! n) * val b)) mod 2 ^ (32 * ?W)"
      unfolding W using lo by (simp add: mod_mult2_eq)
    also have "\<dots> = (val a + 2 ^ (32 * n) * (unat (p ! n) * val b)) mod 2 ^ (32 * ?W)"
      unfolding va by (simp only: distrib_left add.assoc)
    also have "\<dots> = (val (take n p) * val b + 2 ^ (32 * n) * (unat (p ! n) * val b)) mod 2 ^ (32 * ?W)"
      unfolding a(2) by (rule mod_add_left_eq)
    also have "val (take n p) * val b + 2 ^ (32 * n) * (unat (p ! n) * val b) = val (take (Suc n) p) * val b"
      using Suc.prems by (simp add: take_Suc_conv_app_nth val_append min_absorb2 algebra_simps)
    finally show ?case using a(1) Suc.prems by (simp add: a_def [symmetric])
  qed simp
  from this [of ?W] show ?thesis by (simp add: bu_mul_def)
qed

section \<open>Shifts\<close>

lemma length_shl_limb [simp]: "length (shl_limb a k t i pn) = length pn"
  by (simp add: shl_limb_def Let_def)

lemma length_shr_limb [simp]: "length (shr_limb a k t i pn) = length pn"
  by (simp add: shr_limb_def Let_def)

lemma shl_fold:
  assumes "m < length a"
  shows "n \<le> length a \<Longrightarrow> length (fold (shl_limb a k t) [0..<n] (replicate (length a) 0)) = length a \<and>
    fold (shl_limb a k t) [0..<n] (replicate (length a) 0) ! m =
      (if k \<le> m \<and> m - k < n then push_bit t (a ! (m - k)) else 0)
      OR (if t \<noteq> 0 \<and> k + 1 \<le> m \<and> m - k - 1 < n then drop_bit (32 - t) (a ! (m - k - 1)) else 0)"
proof (induction n)
  case (Suc n)
  define pn where "pn = fold (shl_limb a k t) [0..<n] (replicate (length a) 0)"
  have len: "length pn = length a" using Suc by (simp add: pn_def)
  have "shl_limb a k t n pn ! m =
      pn ! m OR (if m = n + k then push_bit t (a ! n) else 0) OR (if t \<noteq> 0 \<and> m = n + k + 1 then drop_bit (32 - t) (a ! n) else 0)"
    using assms len by (auto simp: shl_limb_def Let_def nth_list_update)
  moreover have "m = n + k \<longleftrightarrow> k \<le> m \<and> m - k = n" "m = n + k + 1 \<longleftrightarrow> k + 1 \<le> m \<and> m - k - 1 = n" by auto
  ultimately show ?case
    using Suc len by (auto simp: pn_def [symmetric] less_Suc_eq or.assoc or.commute or.left_commute)
qed (use assms in simp)

lemma bit_shl:
  "bit (val (bu_shl a s)) x \<longleftrightarrow> x < 32 * length a \<and> s \<le> x \<and> bit (val a) (x - s)"
proof (cases "x < 32 * length a")
  case False
  have "length (bu_shl a s) = length a" using shl_fold [of 0 a "length a"] by (cases a) (simp_all add: bu_shl_def)
  with False show ?thesis by (simp add: bit_val div_less_iff_less_mult mult.commute)
next
  case True
  define m j k t where d: "m = x div 32" "j = x mod 32" "k = s div 32" "t = s mod 32"
  have m: "m < length a" "j < 32" "t < 32" "x = 32 * m + j" "s = 32 * k + t"
    using True by (simp_all add: d div_less_iff_less_mult mult.commute)
  have fold: "length (bu_shl a s) = length a" "bu_shl a s ! m =
      (if k \<le> m then push_bit t (a ! (m - k)) else 0) OR (if t \<noteq> 0 \<and> k + 1 \<le> m then drop_bit (32 - t) (a ! (m - k - 1)) else 0)"
    using shl_fold [OF m(1) order_refl, of k t] m(1) by (auto simp: bu_shl_def d(3,4) [symmetric])
  have "bit (val (bu_shl a s)) x \<longleftrightarrow> bit (bu_shl a s ! m) j" using fold(1) m(1) by (simp add: bit_val d(1,2))
  also have "\<dots> \<longleftrightarrow> (k \<le> m \<and> t \<le> j \<and> bit (a ! (m - k)) (j - t)) \<or> (j < t \<and> k + 1 \<le> m \<and> bit (a ! (m - k - 1)) (32 + j - t))"
    using m(2,3) by (auto simp: fold(2) bit_simps add.commute dest: bit_imp_le_length)
  also have "\<dots> \<longleftrightarrow> s \<le> x \<and> bit (val a) (x - s)"
  proof (cases "t \<le> j")
    case True
    have le: "s \<le> x \<longleftrightarrow> k \<le> m" using True m by linarith
    have "(x - s) div 32 = m - k" "(x - s) mod 32 = j - t" if "k \<le> m"
    proof -
      have "x - s = 32 * (m - k) + (j - t)" using True that m(4,5) by (simp add: diff_mult_distrib2)
      then show "(x - s) div 32 = m - k" "(x - s) mod 32 = j - t" using m(2) by simp_all
    qed
    then show ?thesis using True le m(1) by (auto simp: bit_val)
  next
    case False
    have le: "s \<le> x \<longleftrightarrow> k + 1 \<le> m" using False m by linarith
    have "(x - s) div 32 = m - k - 1" "(x - s) mod 32 = 32 + j - t" if "k + 1 \<le> m"
    proof -
      define r where "r = 32 + j - t"
      have "x - s = 32 * (m - k - 1) + r" "r < 32" using False that m(2-5) by (simp_all add: r_def diff_mult_distrib2)
      then show "(x - s) div 32 = m - k - 1" "(x - s) mod 32 = 32 + j - t" by (simp_all add: r_def [symmetric])
    qed
    then show ?thesis using False le m(1) by (auto simp: bit_val)
  qed
  finally show ?thesis using True by simp
qed

lemma val_shl: "val (bu_shl a s) = val a * 2 ^ s mod 2 ^ (32 * length a)"
proof -
  have "val (bu_shl a s) = take_bit (32 * length a) (push_bit s (val a))"
    by (rule bit_eqI) (auto simp: bit_shl bit_simps)
  then show ?thesis by (simp add: take_bit_eq_mod push_bit_eq_mult)
qed

lemma length_shl [simp]: "length (bu_shl a s) = length a"
  using shl_fold [of 0 a "length a"] by (cases a) (simp_all add: bu_shl_def)

lemma shr_fold:
  assumes "m < length a"
  shows "n \<le> length a \<Longrightarrow> length (fold (shr_limb a k t) [0..<n] (replicate (length a) 0)) = length a \<and>
    fold (shr_limb a k t) [0..<n] (replicate (length a) 0) ! m =
      (if m + k < n then drop_bit t (a ! (m + k)) else 0)
      OR (if t \<noteq> 0 \<and> m + k + 1 < n then push_bit (32 - t) (a ! (m + k + 1)) else 0)"
proof (induction n)
  case (Suc n)
  define pn where "pn = fold (shr_limb a k t) [0..<n] (replicate (length a) 0)"
  have len: "length pn = length a" using Suc by (simp add: pn_def)
  have "shr_limb a k t n pn ! m =
      pn ! m OR (if n = m + k then drop_bit t (a ! n) else 0) OR (if t \<noteq> 0 \<and> n = m + k + 1 then push_bit (32 - t) (a ! n) else 0)"
    using assms len Suc.prems by (auto simp: shr_limb_def Let_def nth_list_update)
  moreover have "a ! n = a ! Suc (m + k)" if "m + k < n" "\<not> Suc (m + k) < n"
    using that by (intro arg_cong [where f = "(!) a"]) simp
  ultimately show ?case
    using Suc len by (auto simp: pn_def [symmetric] less_Suc_eq or.assoc or.commute or.left_commute)
qed (use assms in simp)

lemma length_shr [simp]: "length (bu_shr a s) = length a"
  using shr_fold [of 0 a "length a"] by (cases a) (simp_all add: bu_shr_def)

lemma bit_shr: "bit (val (bu_shr a s)) x \<longleftrightarrow> bit (val a) (x + s)"
proof (cases "x < 32 * length a")
  case False
  then show ?thesis by (simp add: bit_val div_less_iff_less_mult mult.commute)
next
  case True
  define m j k t where d: "m = x div 32" "j = x mod 32" "k = s div 32" "t = s mod 32"
  have m: "m < length a" "j < 32" "t < 32" "x = 32 * m + j" "s = 32 * k + t"
    using True by (simp_all add: d div_less_iff_less_mult mult.commute)
  have fold: "bu_shr a s ! m =
      (if m + k < length a then drop_bit t (a ! (m + k)) else 0)
      OR (if t \<noteq> 0 \<and> m + k + 1 < length a then push_bit (32 - t) (a ! (m + k + 1)) else 0)"
    using shr_fold [OF m(1) order_refl, of k t] m(1) by (auto simp: bu_shr_def d(3,4) [symmetric])
  have "bit (val (bu_shr a s)) x \<longleftrightarrow> bit (bu_shr a s ! m) j" using m(1) by (simp add: bit_val d(1,2))
  also have "\<dots> \<longleftrightarrow> (j + t < 32 \<and> m + k < length a \<and> bit (a ! (m + k)) (j + t))
      \<or> (32 \<le> j + t \<and> m + k + 1 < length a \<and> bit (a ! (m + k + 1)) (j + t - 32))"
    using m(2,3) by (auto simp: fold bit_simps add.commute dest: bit_imp_le_length)
  also have "\<dots> \<longleftrightarrow> bit (val a) (x + s)"
  proof (cases "j + t < 32")
    case True
    define r q where "r = j + t" "q = m + k"
    have "x + s = 32 * q + r" "r < 32" using True m(4,5) by (simp_all add: r_q_def)
    then have "(x + s) div 32 = q" "(x + s) mod 32 = r" by simp_all
    then show ?thesis using True by (simp add: bit_val r_q_def)
  next
    case False
    define r q where "r = j + t - 32" "q = m + k + 1"
    have "x + s = 32 * q + r" "r < 32" using False m by (simp_all add: r_q_def)
    then have "(x + s) div 32 = q" "(x + s) mod 32 = r" by simp_all
    then show ?thesis using False by (simp add: bit_val r_q_def)
  qed
  finally show ?thesis .
qed

lemma val_shr: "val (bu_shr a s) = val a div 2 ^ s"
proof -
  have "val (bu_shr a s) = drop_bit s (val a)"
    by (rule bit_eqI) (simp add: bit_shr bit_simps add.commute)
  then show ?thesis by (simp add: drop_bit_eq_div)
qed

section \<open>Comparisons\<close>

lemma val_nth_add: "length a = length b \<Longrightarrow> val (a @ [x]) \<le> val (b @ [y]) \<longleftrightarrow> unat x < unat y \<or> (x = y \<and> val a \<le> val b)"
proof -
  assume len: "length a = length b"
  define M where "M = (2 :: nat) ^ (32 * length b)"
  have "val a < M" "val b < M" using val_bound [of a] val_bound [of b] len by (simp_all add: M_def)
  moreover have "M * (unat x + 1) \<le> M * unat y" if "unat x < unat y" using that by (intro mult_le_mono2) simp
  moreover have "M * (unat y + 1) \<le> M * unat x" if "unat y < unat x" using that by (intro mult_le_mono2) simp
  ultimately show ?thesis
    using len by (cases "unat x" "unat y" rule: linorder_cases) (auto simp: val_append M_def [symmetric] word_unat_eq_iff)
qed

lemma CompareTo_val:
  "length a = length b \<Longrightarrow> CompareTo a b = (if val a < val b then - 1 else if val a > val b then 1 else 0)"
proof (induction a arbitrary: b rule: rev_induct)
  case (snoc x a)
  then obtain b' y where b: "b = b' @ [y]" "length a = length b'" by (cases b rule: rev_cases) simp_all
  have "CompareTo (a @ [x]) b = (if x < y then - 1 else if x > y then 1 else CompareTo a b')"
    using b by (simp add: CompareTo_def)
  then show ?case
    using b snoc.IH [OF b(2)] val_nth_add [OF b(2), of x y] val_nth_add [OF b(2) [symmetric], of y x]
    by (auto simp: not_less [symmetric] word_less_nat_alt word_unat_eq_iff split: if_splits)
qed (simp add: CompareTo_def)

lemma val_inj: "length a = length b \<Longrightarrow> val a = val b \<Longrightarrow> a = b"
proof (induction a arbitrary: b)
  case (Cons x a)
  then obtain y b' where b: "b = y # b'" "length a = length b'" by (cases b) simp_all
  have "val (x # a) mod 2 ^ 32 = unat x" "val (y # b') mod 2 ^ 32 = unat y" using u32_less by simp_all
  then have "unat x = unat y" using Cons.prems b by metis
  then show ?case using Cons b by (simp add: word_unat_eq_iff)
qed simp

lemma val_0_iff: "val a = 0 \<longleftrightarrow> (\<forall>x\<in>set a. x = 0)"
  by (induction a) (auto simp: unat_eq_0)

section \<open>The number of bits\<close>

lemma top_bit:
  assumes "unat (x :: 'a :: len word) < 2 ^ Suc k" "k < LENGTH('a)"
  shows "bit x k \<longleftrightarrow> 2 ^ k \<le> unat x"
proof -
  have "bit x k \<longleftrightarrow> bit (unat x) k" using assms(2) by (simp add: bit_unsigned_iff)
  also have "\<dots> \<longleftrightarrow> odd (unat x div 2 ^ k)" by (rule bit_iff_odd)
  also have "\<dots> \<longleftrightarrow> 2 ^ k \<le> unat x"
  proof (cases "2 ^ k \<le> unat x")
    case True
    have "unat x div 2 ^ k = 1" using True assms(1) by (intro div_nat_eqI) simp_all
    with True show ?thesis by simp
  qed simp
  finally show ?thesis .
qed

lemma limb_bits_bound:
  "x \<noteq> 0 \<Longrightarrow> unat x < 2 ^ Suc n \<Longrightarrow> n < 32 \<Longrightarrow>
     1 \<le> limb_bits n x \<and> 2 ^ (limb_bits n x - 1) \<le> unat x \<and> unat x < 2 ^ limb_bits n x"
proof (induction n)
  case 0
  then show ?case by (cases "unat x") (simp_all add: unat_eq_0)
next
  case (Suc n)
  have "x AND push_bit (Suc n) 1 \<noteq> 0 \<longleftrightarrow> bit x (Suc n)"
    by (simp add: and_exp_eq_0_iff_not_bit push_bit_eq_mult del: power_Suc)
  also have "\<dots> \<longleftrightarrow> 2 ^ Suc n \<le> unat x" using Suc.prems(2,3) by (intro top_bit) simp_all
  finally show ?case using Suc by (auto simp del: power_Suc)
qed

lemma bits_loop_bound:
  "p \<le> length a \<Longrightarrow> val (take p a) < 2 ^ bits_loop p a \<and>
     (if val (take p a) = 0 then bits_loop p a = 0 else 1 \<le> bits_loop p a \<and> 2 ^ (bits_loop p a - 1) \<le> val (take p a))"
proof (induction p)
  case (Suc p)
  have tk: "val (take (Suc p) a) = val (take p a) + 2 ^ (32 * p) * unat (a ! p)"
    using Suc.prems by (simp add: take_Suc_conv_app_nth val_append)
  show ?case
  proof (cases "a ! p = 0")
    case True
    then show ?thesis using Suc tk by (auto split: if_splits)
  next
    case False
    define l where "l = limb_bits 31 (a ! p)"
    have l: "1 \<le> l" "2 ^ (l - 1) \<le> unat (a ! p)" "unat (a ! p) < 2 ^ l"
      using limb_bits_bound [of "a ! p" 31] False u32_less [of "a ! p"] by (simp_all add: l_def)
    have "val (take p a) < 2 ^ (32 * p)" using val_bound [of "take p a"] Suc.prems by simp
    moreover have "2 ^ (32 * p) * (unat (a ! p) + 1) \<le> 2 ^ (32 * p) * 2 ^ l" using l(3) by (intro mult_le_mono2) simp
    moreover have "2 ^ (32 * p + l - 1) \<le> val (take p a) + 2 ^ (32 * p) * unat (a ! p)"
    proof -
      have "(2 :: nat) ^ (32 * p + l - 1) = 2 ^ (32 * p) * 2 ^ (l - 1)" using l(1) by (simp flip: power_add)
      also have "\<dots> \<le> 2 ^ (32 * p) * unat (a ! p)" using l(2) by (intro mult_le_mono2)
      finally show ?thesis by simp
    qed
    moreover have "bits_loop (Suc p) a = 32 * p + l" using False by (simp add: l_def)
    moreover have "0 < 2 ^ (32 * p) * unat (a ! p)" using False by (simp add: unat_gt_0)
    ultimately show ?thesis using l(1) tk by (auto simp: power_add)
  qed
qed simp

lemma bu_bits_bound: "val a < 2 ^ bu_bits a" "val a \<noteq> 0 \<Longrightarrow> 1 \<le> bu_bits a \<and> 2 ^ (bu_bits a - 1) \<le> val a"
  "bu_bits a = 0 \<longleftrightarrow> val a = 0"
  using bits_loop_bound [of "length a" a] by (auto simp: bu_bits_def split: if_splits)

lemma bu_bits_le: "val a < 2 ^ n \<Longrightarrow> bu_bits a \<le> n"
proof (cases "val a = 0")
  case False
  assume "val a < 2 ^ n"
  then have "(2 :: nat) ^ (bu_bits a - 1) < 2 ^ n" using bu_bits_bound(2) [OF False] by linarith
  then show ?thesis using power_less_imp_less_exp [of 2 "bu_bits a - 1" n] by simp
qed (metis bu_bits_bound(3) le0)

section \<open>Division\<close>

lemma val_update: "i < length a \<Longrightarrow> val (a[i := x]) + 2 ^ (32 * i) * unat (a ! i) = val a + 2 ^ (32 * i) * unat x"
proof (induction a arbitrary: i)
  case (Cons y a)
  show ?case
  proof (cases i)
    case (Suc j)
    then have "2 ^ 32 * (val (a[j := x]) + 2 ^ (32 * j) * unat (a ! j)) = 2 ^ 32 * (val a + 2 ^ (32 * j) * unat x)"
      using Cons by simp
    then show ?thesis unfolding Suc by (simp add: power_add algebra_simps)
  qed simp
qed simp

text \<open>Setting a bit that is clear adds its weight.\<close>

lemma val_set_bit:
  assumes "s div 32 < length q" "\<not> bit (val q) s"
  shows "val (q[s div 32 := q ! (s div 32) OR push_bit (s mod 32) 1]) = val q + 2 ^ s"
proof -
  define i t where "i = s div 32" "t = s mod 32"
  have t: "t < 32" "s = 32 * i + t" by (simp_all add: i_t_def)
  have "\<not> bit (q ! i) t" using assms by (simp add: bit_val i_t_def)
  have "unat (q ! i OR push_bit t 1) = unat (q ! i) OR 2 ^ t" using t(1)
    by (intro bit_eqI) (auto simp: bit_simps)
  also have "\<dots> = unat (q ! i) + 2 ^ t"
    using \<open>\<not> bit (q ! i) t\<close> t(1) by (intro disjunctive_add [symmetric]) (auto simp: bit_simps)
  finally have "val (q[i := q ! i OR push_bit t 1]) + 2 ^ (32 * i) * unat (q ! i) = val q + 2 ^ (32 * i) * (unat (q ! i) + 2 ^ t)"
    using val_update [of i q "q ! i OR push_bit t 1"] assms(1) by (simp only: i_t_def)
  then have "val (q[i := q ! i OR push_bit t 1]) = val q + 2 ^ (32 * i + t)" by (simp add: power_add add_mult_distrib2)
  then show ?thesis by (simp add: i_t_def)
qed

lemma length_sub [simp]: "length a = length b \<Longrightarrow> length (bu_sub a b) = length a"
  by (simp add: bu_sub_def bu_add_def)

lemma length_add [simp]: "length a = length b \<Longrightarrow> length (bu_add a b) = length a"
  by (simp add: bu_add_def)

lemma CompareTo_ge: "length a = length b \<Longrightarrow> CompareTo a b \<ge> 0 \<longleftrightarrow> val b \<le> val a"
  by (auto simp: CompareTo_val)

lemma val_div_loop:
  assumes "length num = length q" "length dv = length q" "shift div 32 < length q"
    and "val dv = D * 2 ^ shift" "val num < D * 2 ^ Suc shift" "2 ^ Suc shift dvd val q" "0 < D"
  shows "length (bu_div_loop shift num dv q) = length q \<and> val (bu_div_loop shift num dv q) = val q + val num div D"
  using assms
proof (induction shift arbitrary: num dv q)
  case 0
  have "\<not> bit (val q) 0" using 0 by (simp add: bit_0)
  then have q: "val (q[0 := q ! 0 OR 1]) = val q + 1" using val_set_bit [of 0 q] 0 by simp
  show ?case
  proof (cases "val dv \<le> val num")
    case True
    have "val num div D = 1" using 0 True by (intro div_nat_eqI) simp_all
    with q True 0 show ?thesis by (simp add: bu_div_loop.simps [of 0] CompareTo_ge)
  next
    case False
    with 0 show ?thesis by (simp add: bu_div_loop.simps [of 0] CompareTo_ge)
  qed
next
  case (Suc s)
  have half: "val (bu_shr dv 1) = D * 2 ^ s" using Suc.prems(4) by (simp add: val_shr)
  have s: "s div 32 < length q" using Suc.prems(3) by (auto intro: le_less_trans [OF div_le_mono])
  have even: "2 ^ Suc s dvd val q" using Suc.prems(6) by (metis dvd_trans le_imp_power_dvd le_Suc_eq order_refl)
  show ?case
  proof (cases "val dv \<le> val num")
    case True
    define num' q' where d: "num' = bu_sub num dv" "q' = q[Suc s div 32 := q ! (Suc s div 32) OR push_bit (Suc s mod 32) 1]"
    have num: "val num' = val num - D * 2 ^ Suc s" "length num' = length num"
      using True Suc.prems(1,2,4) by (simp_all add: d val_sub_le del: power_Suc)
    have "\<not> bit (val q) (Suc s)" using Suc.prems(6) by (auto simp: bit_iff_odd elim!: dvdE)
    then have q: "val q' = val q + 2 ^ Suc s" unfolding d by (intro val_set_bit Suc.prems(3))
    have "length (bu_div_loop s num' (bu_shr dv 1) q') = length q' \<and>
        val (bu_div_loop s num' (bu_shr dv 1) q') = val q' + val num' div D"
    proof (rule Suc.IH)
      show "length num' = length q'" "length (bu_shr dv 1) = length q'" "s div 32 < length q'"
        using num(2) Suc.prems(1,2) s by (simp_all add: d(2))
      show "val num' < D * 2 ^ Suc s" using Suc.prems(5) num(1) True Suc.prems(4) by simp
      show "2 ^ Suc s dvd val q'" using even q by (simp del: power_Suc)
    qed (use half Suc.prems(7) in simp_all)
    moreover have "val num div D = 2 ^ Suc s + val num' div D"
    proof -
      have "val num = val num' + D * 2 ^ Suc s" using num(1) True Suc.prems(4) by simp
      then show ?thesis using Suc.prems(7) by (simp del: power_Suc)
    qed
    moreover have "bu_div_loop (Suc s) num dv q = bu_div_loop s num' (bu_shr dv 1) q'"
      using True Suc.prems(1,2) by (simp add: bu_div_loop.simps [of "Suc s"] CompareTo_ge d)
    ultimately show ?thesis using q by (simp add: d(2))
  next
    case False
    then have "bu_div_loop (Suc s) num dv q = bu_div_loop s num (bu_shr dv 1) q"
      using Suc.prems(1,2) by (simp add: bu_div_loop.simps [of "Suc s"] CompareTo_ge)
    moreover have "val num < D * 2 ^ Suc s" using False Suc.prems(4) by simp
    ultimately show ?thesis using Suc.IH [of num q "bu_shr dv 1"] Suc.prems s half even by (simp del: power_Suc)
  qed
qed

lemma bu_div_correct:
  assumes len: "length a = length b"
  shows "if val b = 0 then bu_div a b = Inl ''Division by zero''
    else \<exists>r. bu_div a b = Inr r \<and> length r = length a \<and> val r = val a div val b"
proof (cases "val b = 0")
  case False
  define nb db where d: "nb = bu_bits a" "db = bu_bits b"
  have a: "val a < 2 ^ nb" "nb \<le> 32 * length a" using bu_bits_bound(1) [of a] bu_bits_le [OF val_bound] by (simp_all add: d)
  have b: "val b < 2 ^ db" "1 \<le> db" "2 ^ (db - 1) \<le> val b" using bu_bits_bound [of b] False by (simp_all add: d)
  show ?thesis
  proof (cases "db > nb")
    case True
    have "(2 :: nat) ^ nb \<le> 2 ^ (db - 1)" using True by (intro power_increasing) simp_all
    then have "val a < val b" using a(1) b(3) by linarith
    then have "val a div val b = 0" by simp
    then show ?thesis using True False b(2) by (simp add: bu_div_def Let_def d val_replicate)
  next
    case le: False
    define s where "s = nb - db"
    have "val b * 2 ^ s < 2 ^ db * 2 ^ s" using b(1) by simp
    also have "\<dots> = 2 ^ nb" using le by (simp add: s_def flip: power_add)
    also have "\<dots> \<le> 2 ^ (32 * length b)" using a(2) len by (intro power_increasing) simp_all
    finally have shl: "val (bu_shl b s) = val b * 2 ^ s" by (simp add: val_shl)
    have "(2 :: nat) ^ nb = 2 ^ (db - 1) * 2 ^ Suc s" using le b(2) by (simp add: s_def flip: power_add power_Suc)
    also have "\<dots> \<le> val b * 2 ^ Suc s" using b(3) by (intro mult_le_mono1)
    finally have num: "val a < val b * 2 ^ Suc s" using a(1) by simp
    have "s div 32 < length a" using a(2) b(2) le by (simp add: s_def div_less_iff_less_mult)
    then have "length (bu_div_loop s a (bu_shl b s) (replicate (length a) 0)) = length a \<and>
        val (bu_div_loop s a (bu_shl b s) (replicate (length a) 0)) = 0 + val a div val b"
      using val_div_loop [of a "replicate (length a) 0" "bu_shl b s" s "val b"] shl num len False
      by (simp add: val_replicate del: power_Suc)
    then show ?thesis using le False b(2) by (simp add: bu_div_def Let_def d s_def)
  qed
qed (simp add: bu_div_def Let_def bu_bits_bound(3))

section \<open>Conversions and the low half\<close>

lemma le_nat_limbs: "le_nat (concat (map WriteLE32 a)) = val a"
proof (induction a)
  case (Cons x a)
  have "le_nat (WriteLE32 x) = unat x" using u32_less [of x] by (simp add: WriteLE32_def word_to_le_def le_simps)
  with Cons show ?case by (simp add: le_nat_append)
qed simp

lemma unat_ArithToUint256:
  assumes "length a = WIDTH"
  shows "unat (ArithToUint256 a) = val a"
proof -
  have "length (concat (map WriteLE32 a)) = 4 * length a" by (induction a) simp_all
  then show ?thesis using assms by (simp add: ArithToUint256_def unat_word_of_le le_nat_limbs WIDTH_def)
qed

lemma concat_chunks: "concat (map (\<lambda>i. take 4 (drop (i * 4) bs)) [0..<n]) = take (n * 4) bs"
proof (induction n)
  case (Suc n)
  have "take (Suc n * 4) bs = take (n * 4) bs @ take 4 (drop (n * 4) bs)"
    using take_add [of "n * 4" 4 bs] by (simp add: add.commute)
  with Suc show ?case by simp
qed simp

lemma length_UintToArith256 [simp]: "length (UintToArith256 x) = WIDTH"
  by (simp add: UintToArith256_def)

lemma val_UintToArith256 [simp]: "val (UintToArith256 x) = unat x"
proof -
  have "map WriteLE32 (UintToArith256 x) = map (\<lambda>i. take 4 (drop (i * 4) (word_to_le 32 x))) [0..<WIDTH]"
    by (auto simp: UintToArith256_def WriteLE32_def ReadLE32_def WIDTH_def le_simps)
  then have "val (UintToArith256 x) = le_nat (word_to_le 32 x)"
    unfolding le_nat_limbs [symmetric] by (simp add: concat_chunks WIDTH_def)
  also have "\<dots> = unat x" using unsigned_less [of x, where 'a = nat] by (simp add: word_to_le_def le_simps)
  finally show ?thesis .
qed

lemma val_of_u64 [simp]: "val (bu_of_u64 b) = unat b" "length (bu_of_u64 b) = WIDTH"
proof -
  have "unat (ucast b :: u32) = unat b mod 2 ^ 32" by (simp add: unsigned_ucast_eq take_bit_eq_mod)
  moreover have "unat (ucast (drop_bit 32 b) :: u32) = unat b div 2 ^ 32"
    using u64_less [of b] by (simp add: unsigned_ucast_eq take_bit_eq_mod unat_drop_bit_eq drop_bit_eq_div [where 'a = nat] less_mult_imp_div_less)
  ultimately show "val (bu_of_u64 b) = unat b" "length (bu_of_u64 b) = WIDTH"
    by (simp_all add: bu_of_u64_def WIDTH_def val_replicate)
qed

lemma val_two: "2 \<le> length a \<Longrightarrow> val a = unat (a ! 0) + 2 ^ 32 * unat (a ! 1) + 2 ^ 64 * val (drop 2 a)"
  by (cases a; cases "tl a") auto

lemma unat_GetLow64:
  assumes "2 \<le> length a"
  shows "unat (GetLow64 a) = val a mod 2 ^ 64"
proof -
  have "unat (GetLow64 a) = unat (a ! 0) OR push_bit 32 (unat (a ! 1))"
    unfolding GetLow64_def by (rule bit_eqI) (auto simp: bit_simps dest: bit_imp_le_length)
  also have "\<dots> = unat (a ! 0) + push_bit 32 (unat (a ! 1))"
    by (rule disjunctive_add [symmetric]) (auto simp: bit_simps dest: bit_imp_le_length)
  also have "\<dots> = val a mod 2 ^ 64"
  proof -
    have "unat (a ! 0) + 2 ^ 32 * unat (a ! 1) < 2 ^ 64" using u32_less [of "a ! 0"] u32_less [of "a ! 1"] by simp
    then show ?thesis unfolding val_two [OF assms] by (simp add: push_bit_eq_mult)
  qed
  finally show ?thesis .
qed

lemma unat_and_mask: "unat (x AND mask k :: 'a :: len word) = unat x mod 2 ^ k"
  unfolding take_bit_eq_mask [symmetric] unsigned_take_bit_eq by (rule take_bit_eq_mod)

lemma EqualTo_val:
  assumes "2 \<le> length a"
  shows "EqualTo a b \<longleftrightarrow> val a = unat b"
proof -
  have b: "unat b = unat b mod 2 ^ 32 + 2 ^ 32 * (unat b div 2 ^ 32)" by simp
  have hi: "ucast (a ! 1) = drop_bit 32 b \<longleftrightarrow> unat (a ! 1) = unat b div 2 ^ 32"
    unfolding word_unat_eq_iff by (simp add: unat_ucast_u64 unat_drop_bit_eq drop_bit_eq_div [where 'a = nat])
  have lo: "ucast (a ! 0) = b AND 0xffffffff \<longleftrightarrow> unat (a ! 0) = unat b mod 2 ^ 32"
    using unat_and_mask [of b 32] unfolding word_unat_eq_iff mask_eq_exp_minus_1 by simp
  have "val a = unat b \<longleftrightarrow> val (drop 2 a) = 0 \<and> unat (a ! 1) = unat b div 2 ^ 32 \<and> unat (a ! 0) = unat b mod 2 ^ 32"
  proof
    assume v: "val a = unat b"
    have z: "val (drop 2 a) = 0" using v u64_less [of b] val_two [OF assms] by simp
    have "unat b = unat (a ! 0) + 2 ^ 32 * unat (a ! 1)" using v z val_two [OF assms] by simp
    with z show "val (drop 2 a) = 0 \<and> unat (a ! 1) = unat b div 2 ^ 32 \<and> unat (a ! 0) = unat b mod 2 ^ 32"
      using u32_less [of "a ! 0"] by simp
  next
    assume "val (drop 2 a) = 0 \<and> unat (a ! 1) = unat b div 2 ^ 32 \<and> unat (a ! 0) = unat b mod 2 ^ 32"
    then show "val a = unat b" using val_two [OF assms] b by simp
  qed
  then show ?thesis unfolding EqualTo_def val_0_iff hi lo by blast
qed

section \<open>What a compact number means\<close>

text \<open>The number that a compact encoding denotes, sign apart, before any reduction.\<close>

definition compact_num :: "u32 \<Rightarrow> nat" where
  "compact_num c = unat c mod 2 ^ 23 * 256 ^ (unat c div 2 ^ 24) div 256 ^ 3"

lemma compact_num_cases:
  "compact_num c = (let m = unat c mod 2 ^ 23; e = unat c div 2 ^ 24 in
     if e \<le> 3 then m div 2 ^ (8 * (3 - e)) else m * 2 ^ (8 * (e - 3)))"
proof (cases "unat c div 2 ^ 24 \<le> 3")
  case True
  define m e where d: "m = unat c mod 2 ^ 23" "e = unat c div 2 ^ 24"
  have "(256 :: nat) ^ 3 = 256 ^ (3 - e) * 256 ^ e" using True d(2) by (simp only: power_add [symmetric]) simp
  then have "m * 256 ^ e div 256 ^ 3 = m div 256 ^ (3 - e)" by (simp only: div_mult_mult2 power_not_zero zero_neq_numeral not_False_eq_True)
  moreover have "(256 :: nat) ^ (3 - e) = 2 ^ (8 * (3 - e))" by (simp add: power_mult)
  ultimately show ?thesis using True by (simp only: compact_num_def d [symmetric] Let_def if_True)
next
  case False
  define m e where d: "m = unat c mod 2 ^ 23" "e = unat c div 2 ^ 24"
  have "(256 :: nat) ^ e = 256 ^ (e - 3) * 256 ^ 3" using False d(2) by (simp only: power_add [symmetric]) simp
  then have "m * 256 ^ e div 256 ^ 3 = m * 256 ^ (e - 3)" by simp
  moreover have "(256 :: nat) ^ (e - 3) = 2 ^ (8 * (e - 3))" by (simp add: power_mult)
  ultimately show ?thesis using False by (simp only: compact_num_def d [symmetric] Let_def if_False)
qed

text \<open>The overflow test of \<open>SetCompact\<close> is exact.\<close>

lemma overflow_exact:
  fixes m e :: nat
  assumes "m < 2 ^ 23" "3 < e"
  shows "2 ^ 256 \<le> m * 2 ^ (8 * (e - 3)) \<longleftrightarrow>
    m \<noteq> 0 \<and> (e > 34 \<or> (m > 0xff \<and> e > 33) \<or> (m > 0xffff \<and> e > 32))"
proof -
  consider "e \<le> 32" | "e = 33" | "e = 34" | "34 < e" by linarith
  then show ?thesis
  proof cases
    case 1
    have "m * 2 ^ (8 * (e - 3)) < 2 ^ 23 * 2 ^ (8 * (e - 3))" using assms(1) by simp
    also have "\<dots> \<le> 2 ^ 23 * 2 ^ (8 * 29)" using 1 by (intro mult_le_mono2 power_increasing) simp_all
    finally have "m * 2 ^ (8 * (e - 3)) < 2 ^ 256" by simp
    with 1 show ?thesis by simp
  next
    case 4
    have "(2 :: nat) ^ 256 \<le> 2 ^ (8 * (e - 3))" using 4 by (intro power_increasing) simp_all
    then have "2 ^ 256 \<le> m * 2 ^ (8 * (e - 3))" if "m \<noteq> 0"
      using that mult_le_mono [of 1 m "2 ^ 256" "2 ^ (8 * (e - 3))"] by simp
    then show ?thesis using 4 by (cases "m = 0") simp_all
  qed auto
qed

lemma unat_drop_bit: "unat (drop_bit n x) = unat x div 2 ^ n"
  by (simp add: unat_drop_bit_eq drop_bit_eq_div [where 'a = nat])

lemma SetCompact_correct:
  obtains t where "SetCompact c = (t, compact_num c \<noteq> 0 \<and> bit c 23, 2 ^ 256 \<le> compact_num c)"
    "length t = WIDTH" "val t = compact_num c mod 2 ^ 256"
proof -
  define m e where d: "m = unat c mod 2 ^ 23" "e = unat c div 2 ^ 24"
  define w :: u32 where "w = c AND 0x007fffff"
  define nWord where "nWord = (if e \<le> 3 then drop_bit (8 * (3 - e)) w else w)"
  define t where "t = (if e \<le> 3 then bu_of_u64 (ucast nWord) else bu_shl (bu_of_u64 (ucast nWord)) (8 * (e - 3)))"
  have size: "unat (drop_bit 24 c) = e" unfolding d(2) by (rule unat_drop_bit)
  have w: "unat w = m" using unat_and_mask [of c 23] by (simp add: w_def d(1) mask_eq_exp_minus_1)
  have sign: "c AND 0x00800000 \<noteq> 0 \<longleftrightarrow> bit c 23" using and_exp_eq_0_iff_not_bit [of c 23] by simp
  have m: "m < 2 ^ 23" by (simp add: d(1))
  have num: "compact_num c = (if e \<le> 3 then unat nWord else unat nWord * 2 ^ (8 * (e - 3)))"
    by (simp only: compact_num_cases d [symmetric] Let_def nWord_def w unat_drop_bit split: if_splits) simp
  have "nWord \<noteq> 0 \<longleftrightarrow> compact_num c \<noteq> 0" using num by (auto simp: unat_gt_0)
  moreover have "nWord \<noteq> 0 \<and> (e > 34 \<or> (nWord > 0xff \<and> e > 33) \<or> (nWord > 0xffff \<and> e > 32)) \<longleftrightarrow> 2 ^ 256 \<le> compact_num c"
  proof (cases "e \<le> 3")
    case True
    have "compact_num c \<le> m" using True num by (simp add: nWord_def w unat_drop_bit)
    then show ?thesis using True m by auto
  next
    case False
    then have "unat nWord = m" by (simp add: nWord_def w)
    then show ?thesis using overflow_exact [OF m, of e] False num by (auto simp: word_less_nat_alt unat_eq_0)
  qed
  ultimately have "SetCompact c = (t, compact_num c \<noteq> 0 \<and> bit c 23, 2 ^ 256 \<le> compact_num c)"
    by (simp only: SetCompact_def Let_def size w_def [symmetric] nWord_def [symmetric] t_def [symmetric] sign)
  moreover have "length t = WIDTH" by (simp add: t_def)
  moreover have "val t = compact_num c mod 2 ^ 256"
  proof (cases "e \<le> 3")
    case True
    then show ?thesis using num u32_less [of nWord] by (simp add: t_def)
  next
    case False
    then show ?thesis using num by (simp add: t_def val_shl WIDTH_def)
  qed
  ultimately show thesis using that by blast
qed

text \<open>The number of significant bytes, and the three leading ones.\<close>

definition nbytes :: "base_uint \<Rightarrow> nat" where
  "nbytes a = (bu_bits a + 7) div 8"

definition lead3 :: "base_uint \<Rightarrow> nat" where
  "lead3 a = (if nbytes a \<le> 3 then val a * 2 ^ (8 * (3 - nbytes a)) else val a div 2 ^ (8 * (nbytes a - 3)))"

lemma nbytes_bound:
  "val a < 2 ^ (8 * nbytes a)" "val a \<noteq> 0 \<Longrightarrow> 1 \<le> nbytes a \<and> 2 ^ (8 * (nbytes a - 1)) \<le> val a" "length a = WIDTH \<Longrightarrow> nbytes a \<le> 32"
proof -
  have "(2 :: nat) ^ bu_bits a \<le> 2 ^ (8 * nbytes a)" unfolding nbytes_def by (intro power_increasing) simp_all
  then show "val a < 2 ^ (8 * nbytes a)" using bu_bits_bound(1) [of a] by linarith
  show "1 \<le> nbytes a \<and> 2 ^ (8 * (nbytes a - 1)) \<le> val a" if "val a \<noteq> 0"
  proof -
    have b: "1 \<le> bu_bits a" "2 ^ (bu_bits a - 1) \<le> val a" using bu_bits_bound(2) [OF that] by simp_all
    have "(2 :: nat) ^ (8 * (nbytes a - 1)) \<le> 2 ^ (bu_bits a - 1)" using b(1) unfolding nbytes_def by (intro power_increasing) simp_all
    then have "2 ^ (8 * (nbytes a - 1)) \<le> val a" using b(2) by linarith
    then show ?thesis using b(1) by (simp add: nbytes_def)
  qed
  show "nbytes a \<le> 32" if "length a = WIDTH"
    using bu_bits_le [OF val_bound, of a] that by (simp add: nbytes_def WIDTH_def)
qed

lemma pow_split: "i = j + k \<Longrightarrow> (2 :: nat) ^ i = 2 ^ j * 2 ^ k"
  by (simp add: power_add)

lemma lead3_bound: "lead3 a < 2 ^ 24" "val a \<noteq> 0 \<Longrightarrow> 2 ^ 16 \<le> lead3 a"
proof -
  define n where "n = nbytes a"
  have lt: "val a < 2 ^ (8 * n)" using nbytes_bound(1) by (simp add: n_def)
  show "lead3 a < 2 ^ 24"
  proof (cases "n \<le> 3")
    case True
    have "val a * 2 ^ (8 * (3 - n)) < 2 ^ (8 * n) * 2 ^ (8 * (3 - n))" using lt by simp
    also have "\<dots> = 2 ^ 24" using True by (intro pow_split [symmetric]) simp
    finally show ?thesis using True by (simp add: lead3_def n_def)
  next
    case False
    have "(2 :: nat) ^ (8 * n) = 2 ^ 24 * 2 ^ (8 * (n - 3))" using False by (intro pow_split) simp
    then have "val a div 2 ^ (8 * (n - 3)) < 2 ^ 24" using lt by (intro less_mult_imp_div_less) simp
    then show ?thesis using False by (simp add: lead3_def n_def)
  qed
  assume "val a \<noteq> 0"
  then have ge: "1 \<le> n" "2 ^ (8 * (n - 1)) \<le> val a" using nbytes_bound(2) by (simp_all add: n_def)
  show "2 ^ 16 \<le> lead3 a"
  proof (cases "n \<le> 3")
    case True
    have "(2 :: nat) ^ 16 = 2 ^ (8 * (n - 1)) * 2 ^ (8 * (3 - n))" using True ge(1) by (intro pow_split) simp
    also have "\<dots> \<le> val a * 2 ^ (8 * (3 - n))" using ge(2) by (intro mult_le_mono1)
    finally show ?thesis using True by (simp add: lead3_def n_def)
  next
    case False
    have "(2 :: nat) ^ (8 * (n - 1)) = 2 ^ 16 * 2 ^ (8 * (n - 3))" using False by (intro pow_split) simp
    then have "2 ^ 16 \<le> val a div 2 ^ (8 * (n - 3))" using ge(2) by (simp add: less_eq_div_iff_mult_less_eq)
    then show ?thesis using False by (simp add: lead3_def n_def)
  qed
qed

text \<open>The mantissa and the exponent of the encoding.\<close>

definition compact_parts :: "base_uint \<Rightarrow> nat \<times> nat" where
  "compact_parts a = (if 2 ^ 23 \<le> lead3 a then (lead3 a div 256, nbytes a + 1) else (lead3 a, nbytes a))"

lemma bit_small:
  assumes "unat (x :: 'a :: len word) < 2 ^ k" "bit x n"
  shows "n < k"
proof -
  have "take_bit k x = x" using assms(1) by (simp add: word_unat_eq_iff unsigned_take_bit_eq take_bit_nat_eq_self)
  then show ?thesis using assms(2) by (metis bit_take_bit_iff)
qed

lemma join_compact:
  fixes c1 :: u32 and b :: bool
  assumes "unat c1 < 2 ^ 23" "e < 256"
  defines "c \<equiv> c1 OR push_bit 24 (of_nat e) OR (if b then 0x00800000 else 0)"
  shows "unat c mod 2 ^ 23 = unat c1" "unat c div 2 ^ 24 = e" "bit c 23 \<longleftrightarrow> b"
proof -
  have s: "(if b then 0x00800000 else 0 :: u32) = (if b then push_bit 23 1 else 0)" by simp
  have bits: "bit c n \<longleftrightarrow> bit c1 n \<or> (24 \<le> n \<and> n < 32 \<and> bit (of_nat e :: u32) (n - 24)) \<or> (b \<and> n = 23)" for n
    using and_exp_eq_0_iff_not_bit [of "2 ^ 23 :: u32" n] unfolding c_def s
    by (simp only: bit_or_iff bit_push_bit_iff bit_1_iff if_distrib [of "\<lambda>x. bit x n"] bit_0_eq) auto
  have c1: "bit c1 n \<Longrightarrow> n < 23" for n using bit_small [OF assms(1)] .
  have e: "unat (of_nat e :: u32) = e" using assms(2) by (simp add: unat_of_nat)
  have e8: "bit (of_nat e :: u32) n \<Longrightarrow> n < 8" for n using bit_small [of "of_nat e :: u32" 8] e assms(2) by simp
  have "take_bit 23 c = c1" by (rule bit_word_eqI) (auto simp: bit_take_bit_iff bits dest: c1)
  then show "unat c mod 2 ^ 23 = unat c1" by (metis take_bit_eq_mod unsigned_take_bit_eq)
  have "drop_bit 24 c = of_nat e" by (rule bit_word_eqI) (auto simp: bit_drop_bit_eq bits dest: c1 e8)
  then show "unat c div 2 ^ 24 = e" using e unat_drop_bit [of 24 c] by simp
  show "bit c 23 \<longleftrightarrow> b" using c1 [of 23] by (auto simp: bits)
qed

lemma unat_lead3:
  assumes "length a = WIDTH"
  shows "unat (if nbytes a \<le> 3 then ucast (push_bit (8 * (3 - nbytes a)) (GetLow64 a))
    else ucast (GetLow64 (bu_shr a (8 * (nbytes a - 3)))) :: u32) = lead3 a"
proof (cases "nbytes a \<le> 3")
  case True
  have l: "val a * 2 ^ (8 * (3 - nbytes a)) < 2 ^ 24" using lead3_bound(1) [of a] True by (simp add: lead3_def)
  have "val a * 1 \<le> val a * 2 ^ (8 * (3 - nbytes a))" by (intro mult_le_mono2) simp
  then have "val a < 2 ^ 24" using l by linarith
  then have "unat (GetLow64 a) = val a" using assms by (simp add: unat_GetLow64 WIDTH_def)
  then have "unat (push_bit (8 * (3 - nbytes a)) (GetLow64 a)) = val a * 2 ^ (8 * (3 - nbytes a))"
    using l by (simp only: unsigned_push_bit_eq) (simp add: push_bit_eq_mult take_bit_eq_mod)
  then show ?thesis using l True by (simp add: unsigned_ucast_eq take_bit_eq_mod lead3_def)
next
  case False
  have l: "val a div 2 ^ (8 * (nbytes a - 3)) < 2 ^ 24" using lead3_bound(1) [of a] False by (simp add: lead3_def)
  have "unat (GetLow64 (bu_shr a (8 * (nbytes a - 3)))) = val a div 2 ^ (8 * (nbytes a - 3))"
    using l assms by (simp add: unat_GetLow64 val_shr WIDTH_def)
  then show ?thesis using l False by (simp add: unsigned_ucast_eq take_bit_eq_mod lead3_def)
qed

lemma GetCompact_parts:
  assumes "length a = WIDTH" "compact_parts a = (m, e)"
  obtains c where "GetCompact fNegative a = Inr c" "unat c mod 2 ^ 23 = m" "unat c div 2 ^ 24 = e" "bit c 23 \<longleftrightarrow> fNegative \<and> m \<noteq> 0"
proof -
  define c0 :: u32 where "c0 = (if nbytes a \<le> 3 then ucast (push_bit (8 * (3 - nbytes a)) (GetLow64 a))
    else ucast (GetLow64 (bu_shr a (8 * (nbytes a - 3)))))"
  have c0: "unat c0 = lead3 a" unfolding c0_def by (rule unat_lead3 [OF assms(1)])
  have top: "c0 AND 0x00800000 \<noteq> 0 \<longleftrightarrow> 2 ^ 23 \<le> lead3 a"
  proof -
    have "c0 AND 0x00800000 \<noteq> 0 \<longleftrightarrow> bit c0 23" using and_exp_eq_0_iff_not_bit [of c0 23] by simp
    also have "\<dots> \<longleftrightarrow> 2 ^ 23 \<le> lead3 a" using top_bit [of c0 23] lead3_bound(1) [of a] c0 by simp
    finally show ?thesis .
  qed
  define c1 where "c1 = (if 2 ^ 23 \<le> lead3 a then drop_bit 8 c0 else c0)"
  have c1: "unat c1 = m" "(if c0 AND 0x00800000 \<noteq> 0 then (drop_bit 8 c0, nbytes a + 1) else (c0, nbytes a)) = (c1, e)"
    using assms(2) c0 unfolding top by (auto simp: c1_def compact_parts_def unat_drop_bit split: if_splits)
  have m: "m < 2 ^ 23" using assms(2) lead3_bound(1) [of a] by (auto simp: compact_parts_def split: if_splits)
  have e: "e < 256" using assms nbytes_bound(3) [of a] by (auto simp: compact_parts_def split: if_splits)
  have "c1 AND NOT (mask 23) = 0"
    using bit_small [of c1 23] c1(1) m by (intro bit_word_eqI) (auto simp: bit_and_iff bit_not_iff bit_mask_iff)
  then have ok: "\<not> c1 AND NOT 0x007fffff \<noteq> 0" by (simp add: mask_eq_exp_minus_1)
  define c2 where "c2 = c1 OR push_bit 24 (of_nat e)"
  have "unat c2 mod 2 ^ 23 = m" using join_compact(1) [of c1 e False] c1(1) m e by (simp add: c2_def)
  then have c2: "c2 AND 0x007fffff \<noteq> 0 \<longleftrightarrow> m \<noteq> 0"
    using unat_and_mask [of c2 23] by (simp add: mask_eq_exp_minus_1 word_unat_eq_iff)
  have "GetCompact fNegative a = Inr (c1 OR push_bit 24 (of_nat e) OR (if fNegative \<and> m \<noteq> 0 then 0x00800000 else 0))"
    using ok e c2
    by (simp only: GetCompact_def Let_def nbytes_def [symmetric] c0_def [symmetric] c1(2) split_conv if_False not_True_eq_False c2_def simp_thms or.assoc)
  then show thesis using that join_compact [of c1 e "fNegative \<and> m \<noteq> 0"] c1(1) m e by simp
qed

lemma compact_parts_big:
  assumes parts: "compact_parts a = (m, e)" and that: "3 < e"
  shows "m = val a div 2 ^ (8 * (e - 3))"
proof -
  define n where "n = nbytes a"
  have l: "lead3 a = (if n \<le> 3 then val a * 2 ^ (8 * (3 - n)) else val a div 2 ^ (8 * (n - 3)))" by (simp add: lead3_def n_def)
  show ?thesis
  proof (cases "2 ^ 23 \<le> lead3 a")
    case True
    then have m: "m = lead3 a div 2 ^ 8" "e = n + 1" using parts by (simp_all add: compact_parts_def n_def)
    have p: "(2 :: nat) ^ (8 * (e - 3)) = 2 ^ (8 * (n - 3)) * 2 ^ 8" using that m(2) by (intro pow_split) simp
    show ?thesis
    proof (cases "n = 3")
      case False
      then show ?thesis unfolding m(1) p using l that m(2) by (simp only: div_mult2_eq) simp
    qed (use l m in simp)
  next
    case False
    then have "m = lead3 a" "e = n" using parts by (simp_all add: compact_parts_def n_def)
    then show ?thesis using l that by simp
  qed
qed

text \<open>Encoding rounds down to a multiple of the exponent's unit.\<close>

lemma compact_num_parts:
  assumes "unat c mod 2 ^ 23 = m" "unat c div 2 ^ 24 = e" "compact_parts a = (m, e)"
  shows "compact_num c = val a div 2 ^ (8 * (e - 3)) * 2 ^ (8 * (e - 3))"
proof -
  define n where "n = nbytes a"
  have c: "compact_num c = (if e \<le> 3 then m div 2 ^ (8 * (3 - e)) else m * 2 ^ (8 * (e - 3)))"
    by (simp only: compact_num_cases Let_def assms(1,2))
  have l: "lead3 a = (if n \<le> 3 then val a * 2 ^ (8 * (3 - n)) else val a div 2 ^ (8 * (n - 3)))" by (simp add: lead3_def n_def)
  have big: "m = val a div 2 ^ (8 * (e - 3))" if "3 < e" by (rule compact_parts_big [OF assms(3) that])
  have "m div 2 ^ (8 * (3 - e)) = val a" if "e \<le> 3"
  proof (cases "2 ^ 23 \<le> lead3 a")
    case True
    then have m: "m = lead3 a div 2 ^ 8" "e = n + 1" using assms(3) by (simp_all add: compact_parts_def n_def)
    have "(2 :: nat) ^ (8 * (3 - n)) = 2 ^ (8 * (3 - e)) * 2 ^ 8" using that m(2) by (intro pow_split) simp
    then have "m = val a * 2 ^ (8 * (3 - e))" using l that m by simp
    then show ?thesis by simp
  next
    case False
    then have "m = lead3 a" "e = n" using assms(3) by (simp_all add: compact_parts_def n_def)
    then show ?thesis using l that by simp
  qed
  then show "compact_num c = val a div 2 ^ (8 * (e - 3)) * 2 ^ (8 * (e - 3))" using c big by (cases "e \<le> 3") simp_all
qed

lemma compact_parts_mantissa: "compact_parts a = (m, e) \<Longrightarrow> val a \<noteq> 0 \<Longrightarrow> 2 ^ 15 \<le> m"
  using lead3_bound(2) [of a] by (auto simp: compact_parts_def split: if_splits)

lemma compact_parts_zero: "compact_parts a = (m, e) \<Longrightarrow> val a = 0 \<Longrightarrow> m = 0"
  by (auto simp: compact_parts_def lead3_def split: if_splits)

lemma round_down:
  fixes v :: nat
  assumes "0 < B" "K * B \<le> v"
  shows "K * B \<le> v div B * B" "v div B * B \<le> v" "v - v div B * B < B"
  using assms mult_le_mono1 [of K "v div B" B] by (simp_all add: less_eq_div_iff_mult_less_eq minus_div_mult_eq_mod)

lemma nbytes_unique:
  assumes "2 ^ (8 * (n - 1)) \<le> val a" "val a < 2 ^ (8 * n)" "1 \<le> n"
  shows "nbytes a = n"
proof -
  have ne: "val a \<noteq> 0" using assms(1) by (metis le_zero_eq power_not_zero zero_neq_numeral)
  note b = nbytes_bound(1) [of a] nbytes_bound(2) [OF ne]
  have "(2 :: nat) ^ (8 * (n - 1)) < 2 ^ (8 * nbytes a)" "(2 :: nat) ^ (8 * (nbytes a - 1)) < 2 ^ (8 * n)"
    using assms(1,2) b by linarith+
  then have "8 * (n - 1) < 8 * nbytes a" "8 * (nbytes a - 1) < 8 * n" by (auto dest: power_less_imp_less_exp [rotated])
  then show ?thesis using b(2) assms(3) by linarith
qed

text \<open>The rounded number has the encoding it was rounded to.\<close>

lemma compact_parts_round:
  assumes parts: "compact_parts a = (m, e)" and t: "val t = val a div 2 ^ (8 * (e - 3)) * 2 ^ (8 * (e - 3))"
  shows "compact_parts t = (m, e)"
proof (cases "val a = 0 \<or> e \<le> 3")
  case True
  then have "val t = val a" using t by auto
  moreover have "nbytes t = nbytes a"
  proof (cases "val a = 0")
    case True
    then have "bu_bits a = 0" "bu_bits t = 0" using calculation by (simp_all add: bu_bits_bound(3))
    then show ?thesis by (simp add: nbytes_def)
  next
    case False
    then show ?thesis using nbytes_bound(1) [of a] nbytes_bound(2) [OF False] calculation by (intro nbytes_unique) simp_all
  qed
  ultimately have "nbytes t = nbytes a" "lead3 t = lead3 a" by (simp_all add: lead3_def)
  then show ?thesis using parts by (simp only: compact_parts_def)
next
  case False
  define n B where d: "n = nbytes a" "B = (2 :: nat) ^ (8 * (e - 3))"
  have e: "3 < e" "e \<le> n + 1" "n \<le> e" "val a \<noteq> 0" using False parts by (auto simp: compact_parts_def d split: if_splits)
  have n: "1 \<le> n" "2 ^ (8 * (n - 1)) \<le> val a" "val a < 2 ^ (8 * n)" using nbytes_bound [of a] e(4) by (simp_all add: d)
  have pB: "(2 :: nat) ^ (8 * (n - 1)) = 2 ^ (8 * (n + 2 - e)) * B" unfolding d(2) using e by (intro pow_split) simp
  have "2 ^ (8 * (n - 1)) \<le> val t" "val t \<le> val a"
    unfolding t d(2) [symmetric] using round_down [of B "2 ^ (8 * (n + 2 - e))" "val a"] n(2) pB by (simp_all add: d(2))
  then have nt: "nbytes t = n" using n by (intro nbytes_unique) simp_all
  define q where "q = val a div B"
  have tq: "val t = q * B" using t by (simp add: q_def d)
  have m: "m = q" using compact_parts_big [OF parts e(1)] by (simp add: q_def d)
  show ?thesis
  proof (cases "2 ^ 23 \<le> lead3 a")
    case True
    then have en: "e = n + 1" using parts by (simp add: compact_parts_def d)
    have "lead3 t = q * 2 ^ 8"
    proof -
      have "B = 2 ^ 8 * 2 ^ (8 * (n - 3))" unfolding d(2) using en e(1) by (intro pow_split) simp
      then show ?thesis using tq nt en e(1) by (cases "n = 3") (simp_all add: lead3_def)
    qed
    moreover have "2 ^ 15 \<le> q" using compact_parts_mantissa [OF parts e(4)] m by simp
    ultimately show ?thesis using nt en m by (simp add: compact_parts_def)
  next
    case False
    then have "e = n" using parts by (simp add: compact_parts_def d)
    moreover have "lead3 t = q" using tq nt e(1) \<open>e = n\<close> by (simp add: lead3_def d(2))
    moreover have "m = lead3 a" using False parts by (simp add: compact_parts_def)
    ultimately show ?thesis using False nt m by (simp add: compact_parts_def)
  qed
qed

lemma compact_ext:
  assumes "unat c mod 2 ^ 23 = unat c' mod 2 ^ 23" "unat c div 2 ^ 24 = unat c' div 2 ^ 24" "bit c 23 \<longleftrightarrow> bit c' 23"
  shows "c = (c' :: u32)"
proof (rule bit_word_eqI)
  fix n :: nat
  have tk: "take_bit 23 c = take_bit 23 c'" using assms(1) unfolding word_unat_eq_iff unsigned_take_bit_eq take_bit_eq_mod [where 'a = nat] .
  have dr: "drop_bit 24 c = drop_bit 24 c'" using assms(2) unfolding word_unat_eq_iff unat_drop_bit .
  consider "n < 23" | "n = 23" | "24 \<le> n" by linarith
  then show "bit c n \<longleftrightarrow> bit c' n"
  proof cases
    case 1
    then show ?thesis using tk by (metis bit_take_bit_iff)
  next
    case 3
    then have "bit x n \<longleftrightarrow> bit (drop_bit 24 x) (n - 24)" for x :: u32 by (simp add: bit_drop_bit_eq)
    then show ?thesis using dr by simp
  qed (use assms(3) in simp)
qed

lemma GetCompact_SetCompact:
  assumes "length a = WIDTH"
  obtains c t where "GetCompact fNegative a = Inr c" "SetCompact c = (t, fNegative \<and> val a \<noteq> 0, False)" "length t = WIDTH"
    "val t = compact_num c" "val t \<le> val a" "(val a - val t) * 2 ^ 15 \<le> val a" "GetCompact fNegative t = Inr c"
proof -
  obtain m e where parts: "compact_parts a = (m, e)" by fastforce
  obtain c where c: "GetCompact fNegative a = Inr c" "unat c mod 2 ^ 23 = m" "unat c div 2 ^ 24 = e" "bit c 23 \<longleftrightarrow> fNegative \<and> m \<noteq> 0"
    using GetCompact_parts [OF assms parts] by metis
  define B where "B = (2 :: nat) ^ (8 * (e - 3))"
  have num: "compact_num c = val a div B * B" using compact_num_parts [OF c(2,3) parts] by (simp add: B_def)
  then have le: "compact_num c \<le> val a" by simp
  then have small: "compact_num c < 2 ^ 256" using val_bound [of a] assms by (simp add: WIDTH_def)
  have zero: "val a \<noteq> 0 \<longleftrightarrow> m \<noteq> 0" using compact_parts_mantissa [OF parts] compact_parts_zero [OF parts] by fastforce
  have nz: "compact_num c \<noteq> 0" if "m \<noteq> 0"
  proof (cases "3 < e")
    case True
    then show ?thesis using compact_parts_big [OF parts True] that num by (simp add: B_def)
  next
    case False
    then show ?thesis using num that zero by (simp add: B_def)
  qed
  obtain t where t: "SetCompact c = (t, compact_num c \<noteq> 0 \<and> bit c 23, 2 ^ 256 \<le> compact_num c)" "length t = WIDTH"
      "val t = compact_num c mod 2 ^ 256" by (rule SetCompact_correct)
  then have vt: "val t = compact_num c" using small by simp
  have neg: "compact_num c \<noteq> 0 \<and> bit c 23 \<longleftrightarrow> fNegative \<and> val a \<noteq> 0" using c(4) zero nz by blast
  have prec: "(val a - val t) * 2 ^ 15 \<le> val a"
  proof (cases "3 < e \<and> val a \<noteq> 0")
    case True
    then have "2 ^ 15 \<le> val a div B" using compact_parts_big [OF parts] compact_parts_mantissa [OF parts] by (simp add: B_def)
    then have "2 ^ 15 * B \<le> val a" by (simp add: B_def less_eq_div_iff_mult_less_eq)
    then show ?thesis using round_down(3) [of B "2 ^ 15" "val a"] num vt by (simp add: B_def)
  next
    case False
    then show ?thesis using num vt by (auto simp: B_def)
  qed
  have "compact_parts t = (m, e)" using compact_parts_round [OF parts, of t] vt num by (simp add: B_def)
  then obtain c' where c': "GetCompact fNegative t = Inr c'" "unat c' mod 2 ^ 23 = m" "unat c' div 2 ^ 24 = e" "bit c' 23 \<longleftrightarrow> fNegative \<and> m \<noteq> 0"
    using GetCompact_parts [OF t(2)] by metis
  have "c' = c" by (rule compact_ext) (simp_all only: c c')
  then show thesis using that [OF c(1) _ t(2) vt] t(1) small neg vt le prec c'(1) by simp
qed

text \<open>C16: every 256-bit number has a compact encoding. Decoding it gives no overflow, the sign that was asked
  for and the number rounded down by at most one part in \<open>2 ^ 15\<close>; encoding the decoded number again gives the same encoding.\<close>

theorem compact_roundtrip:
  "\<exists>c t. GetCompact fNegative (UintToArith256 x) = Inr c \<and> SetCompact c = (t, fNegative \<and> x \<noteq> 0, False)
     \<and> ArithToUint256 t \<le> x \<and> (unat x - unat (ArithToUint256 t)) * 2 ^ 15 \<le> unat x
     \<and> GetCompact fNegative t = Inr c"
proof (rule GetCompact_SetCompact [of "UintToArith256 x" fNegative])
  fix c t
  assume "GetCompact fNegative (UintToArith256 x) = Inr c" "SetCompact c = (t, fNegative \<and> val (UintToArith256 x) \<noteq> 0, False)"
    and "length t = WIDTH" "val t \<le> val (UintToArith256 x)" "(val (UintToArith256 x) - val t) * 2 ^ 15 \<le> val (UintToArith256 x)"
    and "GetCompact fNegative t = Inr c"
  then show ?thesis by (auto simp: unat_ArithToUint256 word_le_nat_alt unat_gt_0 unat_eq_0)
qed simp

section \<open>The operators are the arithmetic of 256-bit words\<close>

lemma ArithToUint256_val: "ArithToUint256 a = of_nat (val a)"
  by (simp add: ArithToUint256_def word_of_le_def le_nat_limbs)

lemma of_nat_mod_256: "(of_nat (n mod 2 ^ 256) :: uint256) = of_nat n"
  by (simp add: word_unat_eq_iff unat_of_nat take_bit_eq_mod)

lemma of_nat_unat_256: "of_nat (unat x) = (x :: uint256)"
  by simp

lemma of_nat_256: "(of_nat (2 ^ 256) :: uint256) = 0"
  using of_nat_mod_256 [of "2 ^ 256"] by simp

lemma ArithToUint256_inverse: "ArithToUint256 (UintToArith256 x) = x"
  by (simp add: ArithToUint256_val)

lemma of_nat_complement:
  "of_nat (2 ^ 256 - unat x) = - (x :: uint256)" "n + unat x + 1 = 2 ^ 256 \<Longrightarrow> of_nat n = NOT (x :: uint256)"
proof -
  have le: "unat x \<le> 2 ^ 256" using unsigned_less [of x, where 'a = nat] by simp
  then show "of_nat (2 ^ 256 - unat x) = - x" unfolding of_nat_diff [OF le] of_nat_256 by simp
  assume "n + unat x + 1 = 2 ^ 256"
  then have "of_nat (n + unat x + 1) = (0 :: uint256)" using of_nat_256 by simp
  then have "of_nat n + x + 1 = 0" by (simp only: of_nat_add of_nat_1 of_nat_unat_256)
  then show "of_nat n = NOT x" by (simp add: not_eq_complement eq_neg_iff_add_eq_0 eq_diff_eq ac_simps)
qed

lemma refine_add_sub:
  "ArithToUint256 (bu_add (UintToArith256 x) (UintToArith256 y)) = x + y"
  "ArithToUint256 (bu_sub (UintToArith256 x) (UintToArith256 y)) = x - y"
  "ArithToUint256 (bu_neg (UintToArith256 x)) = - x"
  "ArithToUint256 (bu_not (UintToArith256 x)) = NOT x"
proof -
  have n: "32 * WIDTH = 256" by (simp add: WIDTH_def)
  show "ArithToUint256 (bu_add (UintToArith256 x) (UintToArith256 y)) = x + y"
    unfolding ArithToUint256_val 
    by (simp only: val_add length_UintToArith256 n of_nat_mod_256 val_UintToArith256 of_nat_add of_nat_unat_256)
  show "ArithToUint256 (bu_sub (UintToArith256 x) (UintToArith256 y)) = x - y"
    unfolding ArithToUint256_val
    by (simp only: val_sub length_UintToArith256 n of_nat_mod_256 val_UintToArith256 of_nat_add of_nat_complement) simp
  show "ArithToUint256 (bu_neg (UintToArith256 x)) = - x"
    unfolding ArithToUint256_val
    by (simp only: val_neg length_UintToArith256 n of_nat_mod_256 val_UintToArith256 of_nat_complement)
  show "ArithToUint256 (bu_not (UintToArith256 x)) = NOT x"
    unfolding ArithToUint256_val using val_not [of "UintToArith256 x"] by (intro of_nat_complement) (simp add: n)
qed

lemma refine_mul_shift:
  "ArithToUint256 (bu_mul (UintToArith256 x) (UintToArith256 y)) = x * y"
  "ArithToUint256 (bu_mul32 (UintToArith256 x) b32) = x * ucast b32"
  "ArithToUint256 (bu_shl (UintToArith256 x) s) = push_bit s x"
  "ArithToUint256 (bu_shr (UintToArith256 x) s) = drop_bit s x"
proof -
  have n: "32 * WIDTH = 256" by (simp add: WIDTH_def)
  note simps = length_UintToArith256 n of_nat_mod_256 val_UintToArith256 of_nat_mult of_nat_unat_256
  show "ArithToUint256 (bu_mul (UintToArith256 x) (UintToArith256 y)) = x * y"
    unfolding ArithToUint256_val by (simp only: val_mul simps)
  show "ArithToUint256 (bu_mul32 (UintToArith256 x) b32) = x * ucast b32"
    unfolding ArithToUint256_val by (simp only: val_mul32 simps) simp
  show "ArithToUint256 (bu_shl (UintToArith256 x) s) = push_bit s x"
    unfolding ArithToUint256_val by (simp only: val_shl simps) (simp add: push_bit_eq_mult)
  show "ArithToUint256 (bu_shr (UintToArith256 x) s) = drop_bit s x"
    unfolding ArithToUint256_val by (simp only: val_shr val_UintToArith256 unat_drop_bit [symmetric] of_nat_unat_256)
qed

lemma refine_compare:
  "CompareTo (UintToArith256 x) (UintToArith256 y) = (if x < y then - 1 else if x > y then 1 else 0)"
  "EqualTo (UintToArith256 x) b64 \<longleftrightarrow> x = ucast b64"
proof -
  show "CompareTo (UintToArith256 x) (UintToArith256 y) = (if x < y then - 1 else if x > y then 1 else 0)"
    by (simp add: CompareTo_val word_less_nat_alt)
  have "unat (ucast b64 :: uint256) = unat b64" using u64_less [of b64] by (simp add: unsigned_ucast_eq take_bit_eq_mod)
  then show "EqualTo (UintToArith256 x) b64 \<longleftrightarrow> x = ucast b64"
    by (simp add: EqualTo_val WIDTH_def word_unat_eq_iff)
qed

lemma refine_div:
  "map_sum id ArithToUint256 (bu_div (UintToArith256 x) (UintToArith256 y)) =
     (if y = 0 then Inl ''Division by zero'' else Inr (x div y))"
proof (cases "y = 0")
  case False
  then obtain q where "bu_div (UintToArith256 x) (UintToArith256 y) = Inr q" "length q = WIDTH" "val q = unat x div unat y"
    using bu_div_correct [of "UintToArith256 x" "UintToArith256 y"] by (auto simp: unat_eq_0 split: if_splits)
  then show ?thesis using False by (simp add: unat_ArithToUint256 word_unat_eq_iff unat_div_distrib)
qed (use bu_div_correct [of "UintToArith256 x" "UintToArith256 y"] in simp)

text \<open>C15: the limb-wise operators are the arithmetic of 256-bit words: sums, differences, negation, products (by a
  32-bit factor too), complement, shifts, comparisons and the quotient, which fails exactly for a zero divisor.\<close>

theorem arith_refines:
  "ArithToUint256 (bu_add (UintToArith256 x) (UintToArith256 y)) = x + y
   \<and> ArithToUint256 (bu_sub (UintToArith256 x) (UintToArith256 y)) = x - y
   \<and> ArithToUint256 (bu_neg (UintToArith256 x)) = - x
   \<and> ArithToUint256 (bu_not (UintToArith256 x)) = NOT x
   \<and> ArithToUint256 (bu_mul (UintToArith256 x) (UintToArith256 y)) = x * y
   \<and> ArithToUint256 (bu_mul32 (UintToArith256 x) b32) = x * ucast b32
   \<and> ArithToUint256 (bu_shl (UintToArith256 x) s) = push_bit s x
   \<and> ArithToUint256 (bu_shr (UintToArith256 x) s) = drop_bit s x
   \<and> CompareTo (UintToArith256 x) (UintToArith256 y) = (if x < y then - 1 else if x > y then 1 else 0)
   \<and> (EqualTo (UintToArith256 x) b64 \<longleftrightarrow> x = ucast b64)
   \<and> map_sum id ArithToUint256 (bu_div (UintToArith256 x) (UintToArith256 y)) =
       (if y = 0 then Inl ''Division by zero'' else Inr (x div y))"
  by (intro conjI refine_add_sub refine_mul_shift refine_compare refine_div)

end
