(* ===== verification/Pow.thy ===== *)
theory Pow
  imports Arith256 Chain "HOL-Library.Signed_Division"
begin

text \<open>
  Proof of work (\<open>src/pow.cpp\<close>) and the work of a block (\<open>src/chain.cpp\<close>): the three difficulty algorithms, the
  choice between them, the check of a hash against its target, and the conversion of work into time. The model computes
  with the limbs of \<open>arith_uint256\<close>; conversions between machine integers are written out.
\<close>

unbundle bit_operations_syntax

section \<open>Parameters\<close>

text \<open>The members of \<open>Consensus::Params\<close> that the functions read.\<close>

record pow_params =
  powLimit :: uint256
  fPowAllowMinDifficultyBlocks :: bool
  fPowNoRetargeting :: bool
  nPowTargetSpacing :: int
  nPowTargetTimespan :: int
  nPowKGWHeight :: int
  nPowDGWHeight :: int
  nMinimumDifficultyBlocks :: int

definition DifficultyAdjustmentInterval :: "pow_params \<Rightarrow> int" where
  "DifficultyAdjustmentInterval params = nPowTargetTimespan params sdiv nPowTargetSpacing params"

text \<open>
  The floating-point parts of \<open>KimotoGravityWell\<close>, which call \<open>pow\<close> of the C library: the product of the timespan with
  0.025 as an unsigned number, and whether the rate is beyond the event horizon, for the number of blocks, the target
  seconds and the actual seconds.
\<close>

record kgw_floats =
  seconds_min :: "int \<Rightarrow> u64"
  beyond_horizon :: "u64 \<Rightarrow> int \<Rightarrow> int \<Rightarrow> bool"

section \<open>Work\<close>

definition GetBlockProof :: "block_index \<Rightarrow> base_uint res" where
  "GetBlockProof blk =
     (let (bnTarget, fNegative, fOverflow) = SetCompact (bi_nBits blk) in
      if fNegative \<or> fOverflow \<or> EqualTo bnTarget 0 then Inr (bu_of_u64 0)
      else res_bind (bu_div (bu_not bnTarget) (bu_add bnTarget (bu_of_u64 1))) (\<lambda>q. Inr (bu_add q (bu_of_u64 1))))"

definition GetBlockProofEquivalentTime :: "block_index \<Rightarrow> block_index \<Rightarrow> block_index \<Rightarrow> pow_params \<Rightarrow> int res" where
  "GetBlockProofEquivalentTime to from tip params =
     (let wto = UintToArith256 (nChainWork to); wfrom = UintToArith256 (nChainWork from);
          (r, sg) = (if CompareTo wto wfrom > 0 then (bu_sub wto wfrom, 1) else (bu_sub wfrom wto, - 1)) in
      res_bind (GetBlockProof tip) (\<lambda>proof.
      res_bind (bu_div (bu_mul r (bu_of_u64 (of_int (nPowTargetSpacing params)))) proof) (\<lambda>r'.
        if bu_bits r' > 63 then Inr (sg * (2 ^ 63 - 1))
        else Inr (sint (of_int sg * GetLow64 r')))))"

section \<open>Checking\<close>

definition CheckProofOfWork :: "uint256 \<Rightarrow> u32 \<Rightarrow> pow_params \<Rightarrow> bool" where
  "CheckProofOfWork h nBits params =
     (let (bnTarget, fNegative, fOverflow) = SetCompact nBits in
      if fNegative \<or> EqualTo bnTarget 0 \<or> fOverflow \<or> CompareTo bnTarget (UintToArith256 (powLimit params)) > 0 then False
      else if CompareTo (UintToArith256 h) bnTarget > 0 then False
      else True)"

section \<open>Kimoto gravity well\<close>

text \<open>The variables that the loop updates.\<close>

record kgw_state =
  PastBlocksMass :: u64
  PastDifficultyAverage :: base_uint
  PastDifficultyAveragePrev :: base_uint
  PastRateActualSeconds :: int
  PastRateTargetSeconds :: int

text \<open>One iteration up to the tests that leave the loop; \<open>i\<close> is the loop's counter.\<close>

definition kgw_average :: "nat \<Rightarrow> base_uint \<Rightarrow> base_uint \<Rightarrow> base_uint res" where
  "kgw_average i avg avgPrev =
     (let n = bu_of_u64 (ucast (of_nat i :: u32)) in
      if i > 1 then
        if CompareTo avg avgPrev \<ge> 0
        then res_bind (bu_div (bu_sub avg avgPrev) n) (\<lambda>d. Inr (bu_add d avgPrev))
        else res_bind (bu_div (bu_sub avgPrev avg) n) (\<lambda>d. Inr (bu_sub avgPrev d))
      else Inr avg)"

definition kgw_body :: "heap \<Rightarrow> pow_params \<Rightarrow> ptr \<Rightarrow> nat \<Rightarrow> ptr \<Rightarrow> kgw_state \<Rightarrow> kgw_state res" where
  "kgw_body H params BlockLastSolved i BlockReading s =
     (let mass = PastBlocksMass s + 1 in
      res_bind (kgw_average i (fst (SetCompact (bi_nBits (H BlockReading)))) (PastDifficultyAveragePrev s)) (\<lambda>avg.
        let actual = GetBlockTime (H BlockLastSolved) - GetBlockTime (H BlockReading) in
        Inr \<lparr>PastBlocksMass = mass, PastDifficultyAverage = avg, PastDifficultyAveragePrev = avg,
             PastRateActualSeconds = (if actual < 0 then 0 else actual),
             PastRateTargetSeconds = sint (of_int (nPowTargetSpacing params) * mass)\<rparr>))"

text \<open>The loop ends at the genesis block at the latest; the fuel is the height of the block it starts from.\<close>

fun kgw_loop :: "kgw_floats \<Rightarrow> heap \<Rightarrow> pow_params \<Rightarrow> u64 \<Rightarrow> u64 \<Rightarrow> ptr \<Rightarrow> nat \<Rightarrow> nat \<Rightarrow> ptr \<Rightarrow> kgw_state \<Rightarrow> kgw_state res" where
  "kgw_loop fl H params PastBlocksMin PastBlocksMax solved 0 i b s =
     (if bi_height (H b) > 0 then Inl ''out of fuel'' else Inr s)"
| "kgw_loop fl H params PastBlocksMin PastBlocksMax solved (Suc fuel) i b s =
     (if bi_height (H b) > 0 then
        if PastBlocksMax > 0 \<and> ucast (of_nat i :: u32) > PastBlocksMax then Inr s
        else
          res_bind (kgw_body H params solved i b s) (\<lambda>s'.
            if PastBlocksMass s' \<ge> PastBlocksMin \<and> beyond_horizon fl (PastBlocksMass s') (PastRateTargetSeconds s') (PastRateActualSeconds s')
            then Inr s'
            else case pprev (H b) of None \<Rightarrow> Inr s'
                 | Some q \<Rightarrow> kgw_loop fl H params PastBlocksMin PastBlocksMax solved fuel (i + 1) q s')
      else Inr s)"

definition KimotoGravityWell :: "kgw_floats \<Rightarrow> heap \<Rightarrow> ptr option \<Rightarrow> pow_params \<Rightarrow> u32 res" where
  "KimotoGravityWell fl H pindexLast params =
     (let lim = UintToArith256 (powLimit params);
          spacing = of_int (nPowTargetSpacing params) :: u64;
          PastBlocksMin = seconds_min fl (nPowTargetTimespan params) div spacing;
          PastBlocksMax = of_int (nPowTargetTimespan params * 7) div spacing in
      case pindexLast of None \<Rightarrow> GetCompact False lim
      | Some p \<Rightarrow>
          if bi_height (H p) = 0 \<or> of_nat (bi_height (H p)) < PastBlocksMin then GetCompact False lim
          else
            res_bind (kgw_loop fl H params PastBlocksMin PastBlocksMax p (bi_height (H p)) 1 p
              \<lparr>PastBlocksMass = 0, PastDifficultyAverage = bu_of_u64 0, PastDifficultyAveragePrev = bu_of_u64 0,
               PastRateActualSeconds = 0, PastRateTargetSeconds = 0\<rparr>) (\<lambda>s.
            res_bind (if PastRateActualSeconds s \<noteq> 0 \<and> PastRateTargetSeconds s \<noteq> 0
                      then bu_div (bu_mul32 (PastDifficultyAverage s) (of_int (PastRateActualSeconds s)))
                             (bu_of_u64 (of_int (PastRateTargetSeconds s)))
                      else Inr (PastDifficultyAverage s)) (\<lambda>bnNew.
            GetCompact False (if CompareTo bnNew lim > 0 then lim else bnNew))))"

section \<open>Dark gravity wave\<close>

definition nPastBlocks :: nat where
  "nPastBlocks = 24"

definition dgw_average :: "nat \<Rightarrow> base_uint \<Rightarrow> base_uint \<Rightarrow> base_uint res" where
  "dgw_average nCountBlocks bnPastTargetAvg bnTarget =
     (if nCountBlocks = 1 then Inr bnTarget
      else bu_div (bu_add (bu_mul32 bnPastTargetAvg (of_nat nCountBlocks)) bnTarget)
             (bu_of_u64 (ucast (of_nat nCountBlocks + 1 :: u32))))"

text \<open>The loop over the last blocks, from iteration \<open>nCountBlocks\<close> on; it returns the block it stops at as well.\<close>

function dgw_loop :: "heap \<Rightarrow> nat \<Rightarrow> ptr \<Rightarrow> base_uint \<Rightarrow> (ptr \<times> base_uint) res" where
  "dgw_loop H nCountBlocks pindex bnPastTargetAvg =
     (if nCountBlocks \<le> nPastBlocks then
        res_bind (dgw_average nCountBlocks bnPastTargetAvg (fst (SetCompact (bi_nBits (H pindex))))) (\<lambda>avg.
        if nCountBlocks \<noteq> nPastBlocks then
          case pprev (H pindex) of None \<Rightarrow> Inl ''assert(pindex->pprev)''
          | Some q \<Rightarrow> dgw_loop H (nCountBlocks + 1) q avg
        else Inr (pindex, avg))
      else Inr (pindex, bnPastTargetAvg))"
  by pat_completeness auto
termination by (relation "measure (\<lambda>(H, n, p, a). Suc nPastBlocks - n)") auto

declare dgw_loop.simps [simp del]

definition DarkGravityWave :: "heap \<Rightarrow> ptr option \<Rightarrow> pow_params \<Rightarrow> u32 res" where
  "DarkGravityWave H pindexLast params =
     (let bnPowLimit = UintToArith256 (powLimit params) in
      case pindexLast of None \<Rightarrow> GetCompact False bnPowLimit
      | Some p \<Rightarrow>
          if bi_height (H p) < nPastBlocks then GetCompact False bnPowLimit
          else
            res_bind (dgw_loop H 1 p (bu_of_u64 0)) (\<lambda>(pindex, bnPastTargetAvg).
              let nActual = GetBlockTime (H p) - GetBlockTime (H pindex);
                  nTargetTimespan = int nPastBlocks * nPowTargetSpacing params;
                  nActual1 = (if nActual < nTargetTimespan sdiv 3 then nTargetTimespan sdiv 3 else nActual);
                  nActual2 = (if nActual1 > nTargetTimespan * 3 then nTargetTimespan * 3 else nActual1) in
              res_bind (bu_div (bu_mul32 bnPastTargetAvg (of_int nActual2)) (bu_of_u64 (of_int nTargetTimespan))) (\<lambda>bnNew.
              GetCompact False (if CompareTo bnNew bnPowLimit > 0 then bnPowLimit else bnNew))))"

section \<open>The original algorithm\<close>

definition CalculateNextWorkRequired :: "heap \<Rightarrow> ptr \<Rightarrow> int \<Rightarrow> pow_params \<Rightarrow> u32 res" where
  "CalculateNextWorkRequired H p nFirstBlockTime params =
     (if fPowNoRetargeting params then Inr (bi_nBits (H p))
      else
        let ts = nPowTargetTimespan params;
            nActual = GetBlockTime (H p) - nFirstBlockTime;
            nActual1 = (if nActual < ts sdiv 4 then ts sdiv 4 else nActual);
            nActual2 = (if nActual1 > ts * 4 then ts * 4 else nActual1);
            bnPowLimit = UintToArith256 (powLimit params) in
        res_bind (bu_div (bu_mul32 (fst (SetCompact (bi_nBits (H p)))) (of_int nActual2)) (bu_of_u64 (of_int ts))) (\<lambda>bnNew.
        GetCompact False (if CompareTo bnNew bnPowLimit > 0 then bnPowLimit else bnNew)))"

text \<open>The walk to the last block that was not mined with the special rule; it stops at the genesis block at the latest.\<close>

fun last_regular :: "heap \<Rightarrow> pow_params \<Rightarrow> u32 \<Rightarrow> nat \<Rightarrow> ptr \<Rightarrow> ptr res" where
  "last_regular H params plim fuel p =
     (case pprev (H p) of None \<Rightarrow> Inr p
      | Some q \<Rightarrow>
          if int (bi_height (H p)) smod DifficultyAdjustmentInterval params \<noteq> 0 \<and> bi_nBits (H p) = plim
          then (case fuel of 0 \<Rightarrow> Inl ''out of fuel'' | Suc fuel' \<Rightarrow> last_regular H params plim fuel' q)
          else Inr p)"

definition GetNextWorkRequiredBTC :: "heap \<Rightarrow> ptr \<Rightarrow> int \<Rightarrow> pow_params \<Rightarrow> u32 res" where
  "GetNextWorkRequiredBTC H p nTime params =
     (let h = int (bi_height (H p)); iv = DifficultyAdjustmentInterval params in
      res_bind (GetCompact False (UintToArith256 (powLimit params))) (\<lambda>nProofOfWorkLimit.
      if (h + 1) smod iv \<noteq> 0 then
        if fPowAllowMinDifficultyBlocks params then
          if nTime > GetBlockTime (H p) + nPowTargetSpacing params * 2 then Inr nProofOfWorkLimit
          else res_bind (last_regular H params nProofOfWorkLimit (bi_height (H p)) p) (\<lambda>q. Inr (bi_nBits (H q)))
        else Inr (bi_nBits (H p))
      else
        let nHeightFirst = h - (iv - 1) in
        res_bind (res_assert (nHeightFirst \<ge> 0) ''assert(nHeightFirst >= 0)'') (\<lambda>_.
        res_bind (GetAncestor H p nHeightFirst) (\<lambda>r.
          case r of None \<Rightarrow> Inl ''assert(pindexFirst)''
          | Some q \<Rightarrow> CalculateNextWorkRequired H p (GetBlockTime (H q)) params))))"

section \<open>The required work\<close>

text \<open>\<open>nTime\<close> is \<open>pblock->GetBlockTime()\<close>.\<close>

definition GetNextWorkRequired :: "kgw_floats \<Rightarrow> heap \<Rightarrow> ptr option \<Rightarrow> int \<Rightarrow> pow_params \<Rightarrow> u32 res" where
  "GetNextWorkRequired fl H pindexLast nTime params =
     (case pindexLast of None \<Rightarrow> Inl ''assert(pindexLast != nullptr)''
      | Some p \<Rightarrow>
          let bnPowLimit = UintToArith256 (powLimit params); h = int (bi_height (H p)) in
          if h < nMinimumDifficultyBlocks params then GetCompact False bnPowLimit
          else if h + 1 < nPowKGWHeight params then GetNextWorkRequiredBTC H p nTime params
          else if fPowNoRetargeting params then GetCompact False bnPowLimit
          else if fPowAllowMinDifficultyBlocks params \<and> nTime > GetBlockTime (H p) + 2 * 60 * 60 then GetCompact False bnPowLimit
          else if fPowAllowMinDifficultyBlocks params \<and> nTime > GetBlockTime (H p) + nPowTargetSpacing params * 4 then
            let bnNew = bu_mul32 (fst (SetCompact (bi_nBits (H p)))) 10 in
            GetCompact False (if CompareTo bnNew bnPowLimit > 0 then bnPowLimit else bnNew)
          else if h + 1 < nPowDGWHeight params then KimotoGravityWell fl H pindexLast params
          else DarkGravityWave H pindexLast params)"

section \<open>Work and checks\<close>

text \<open>A target that decodes without sign and overflow.\<close>

definition valid_target :: "u32 \<Rightarrow> bool" where
  "valid_target c \<longleftrightarrow> compact_num c \<noteq> 0 \<and> \<not> bit c 23 \<and> compact_num c < 2 ^ 256"

lemma compact_num_not_max: "compact_num c + 1 \<noteq> 2 ^ 256"
proof -
  define m e where d: "m = unat c mod 2 ^ 23" "e = unat c div 2 ^ 24"
  have c: "compact_num c = (if e \<le> 3 then m div 2 ^ (8 * (3 - e)) else m * 2 ^ (8 * (e - 3)))"
    by (simp only: compact_num_cases Let_def d)
  show ?thesis
  proof (cases "e \<le> 3")
    case True
    have "compact_num c \<le> m" using True c by simp
    also have "m < 2 ^ 23" by (simp add: d)
    finally show ?thesis by simp
  next
    case False
    then have "even (compact_num c)" using c by simp
    then show ?thesis by (metis even_plus_one_iff even_numeral even_power zero_less_numeral)
  qed
qed

lemma SetCompact_decode:
  obtains t neg ov where "SetCompact c = (t, neg, ov)" "length t = WIDTH"
    "valid_target c \<longleftrightarrow> \<not> neg \<and> \<not> ov \<and> \<not> EqualTo t 0" "valid_target c \<longrightarrow> val t = compact_num c"
proof (rule SetCompact_correct [of c])
  fix t
  assume t: "SetCompact c = (t, compact_num c \<noteq> 0 \<and> bit c 23, 2 ^ 256 \<le> compact_num c)" "length t = WIDTH"
    "val t = compact_num c mod 2 ^ 256"
  have flags: "N \<noteq> 0 \<and> \<not> b \<and> N < M \<longleftrightarrow> \<not> (N \<noteq> 0 \<and> b) \<and> \<not> M \<le> N \<and> N mod M \<noteq> 0" for N M :: nat and b
    by (cases "N < M") auto
  have z: "EqualTo t 0 \<longleftrightarrow> compact_num c mod 2 ^ 256 = 0" using EqualTo_val [of t 0] t(2,3) by (simp add: WIDTH_def)
  show thesis
  proof (rule that [OF t(1,2)])
    show "valid_target c \<longleftrightarrow> \<not> (compact_num c \<noteq> 0 \<and> bit c 23) \<and> \<not> 2 ^ 256 \<le> compact_num c \<and> \<not> EqualTo t 0"
      unfolding valid_target_def z by (rule flags)
    show "valid_target c \<longrightarrow> val t = compact_num c" using t(3) by (simp add: valid_target_def)
  qed
qed

text \<open>\<open>~t / (t + 1) + 1\<close> is \<open>2 ^ 256 / (t + 1)\<close>.\<close>

lemma proof_quotient:
  fixes n :: nat
  assumes "n + 1 < M" "0 < n"
  shows "(M - n - 1) div (n + 1) + 1 = M div (n + 1)" "M div (n + 1) < M"
proof -
  have "M = (M - n - 1) + (n + 1)" using assms by simp
  then have "M div (n + 1) = ((M - n - 1) + (n + 1)) div (n + 1)" by simp
  also have "\<dots> = (M - n - 1) div (n + 1) + 1" by (subst div_add_self2) simp_all
  finally show "(M - n - 1) div (n + 1) + 1 = M div (n + 1)" by simp
  show "M div (n + 1) < M" using assms by (intro div_less_dividend) simp_all
qed

lemma GetBlockProof_val:
  obtains w where "GetBlockProof blk = Inr w" "length w = WIDTH"
    "val w = (if valid_target (bi_nBits blk) then 2 ^ 256 div (compact_num (bi_nBits blk) + 1) else 0)"
proof -
  define c N where d: "c = bi_nBits blk" "N = compact_num c"
  obtain t neg ov where t: "SetCompact c = (t, neg, ov)" "length t = WIDTH"
    "valid_target c \<longleftrightarrow> \<not> neg \<and> \<not> ov \<and> \<not> EqualTo t 0" "valid_target c \<longrightarrow> val t = N" unfolding d(2) by (rule SetCompact_decode [of c]) blast
  show thesis
  proof (cases "valid_target c")
    case False
    then have "neg \<or> ov \<or> EqualTo t 0" using t(3) by blast
    then have "GetBlockProof blk = Inr (bu_of_u64 0)" by (simp add: GetBlockProof_def d(1) [symmetric] t(1))
    then show thesis by (rule that) (use False in \<open>simp_all add: d\<close>)
  next
    case True
    then have N: "0 < N" "N < 2 ^ 256" "\<not> bit c 23" by (simp_all add: valid_target_def d)
    have N1: "N + 1 < 2 ^ 256" using N(2) compact_num_not_max [of c] by (simp add: d)
    have vt: "val t = N" using t(4) True by simp
    have w8: "32 * WIDTH = 256" by (simp add: WIDTH_def)
    have dv: "length (bu_add t (bu_of_u64 1)) = WIDTH" "val (bu_add t (bu_of_u64 1)) = N + 1"
      using t(2) vt N1 by (simp add: bu_add_def) (simp only: val_add t(2) val_of_u64 w8 vt unsigned_1 mod_less N1)
    have nt: "val (bu_not t) = 2 ^ 256 - N - 1" using val_not [of t] t(2) vt by (simp add: w8)
    obtain q where q: "bu_div (bu_not t) (bu_add t (bu_of_u64 1)) = Inr q" "length q = WIDTH"
        "val q = (2 ^ 256 - N - 1) div (N + 1)"
      using bu_div_correct [of "bu_not t" "bu_add t (bu_of_u64 1)"] dv nt t(2) by auto
    have w: "length (bu_add q (bu_of_u64 1)) = WIDTH" using q(2) by (simp add: bu_add_def)
    have "val (bu_add q (bu_of_u64 1)) = (2 ^ 256 div (N + 1)) mod 2 ^ 256"
      using q(2) by (simp only: val_add val_of_u64 w8 q(3)) (simp only: proof_quotient(1) [OF N1 N(1)] unsigned_1)
    then have vw: "val (bu_add q (bu_of_u64 1)) = 2 ^ 256 div (N + 1)"
      by (simp only: mod_less [OF proof_quotient(2) [OF N1 N(1)]])
    have "GetBlockProof blk = Inr (bu_add q (bu_of_u64 1))"
      using True q(1) unfolding t(3) by (simp add: GetBlockProof_def d(1) [symmetric] t(1))
    then show thesis by (rule that) (simp_all only: w vw True if_True d [symmetric])
  qed
qed

text \<open>C13: the proof of a block is the expected number of hashes, \<open>2 ^ 256\<close> over the target plus one, although no
  intermediate result exceeds 256 bits; it is zero for a target that is negative, zero or too large.\<close>

theorem GetBlockProof_exact:
  "map_sum id (\<lambda>w. unat (ArithToUint256 w)) (GetBlockProof blk) =
     Inr (if valid_target (bi_nBits blk) then 2 ^ 256 div (compact_num (bi_nBits blk) + 1) else 0)"
  by (rule GetBlockProof_val [of blk]) (simp only: map_sum.simps unat_ArithToUint256)

text \<open>C12: a hash passes the check exactly when the compact target is positive, without overflow and at most the limit of the
  network, and the hash, as a number, is at most the target.\<close>

theorem CheckProofOfWork_correct:
  "CheckProofOfWork h nBits params \<longleftrightarrow>
     valid_target nBits \<and> compact_num nBits \<le> unat (powLimit params) \<and> unat h \<le> compact_num nBits"
proof -
  obtain t neg ov where t: "SetCompact nBits = (t, neg, ov)" "length t = WIDTH"
    "valid_target nBits \<longleftrightarrow> \<not> neg \<and> \<not> ov \<and> \<not> EqualTo t 0" "valid_target nBits \<longrightarrow> val t = compact_num nBits"
    by (rule SetCompact_decode [of nBits]) blast
  have "CheckProofOfWork h nBits params \<longleftrightarrow> valid_target nBits \<and> val t \<le> unat (powLimit params) \<and> unat h \<le> val t"
    using t(2) by (auto simp: CheckProofOfWork_def t(1,3) CompareTo_val)
  then show ?thesis using t(4) by auto
qed

lemma bits_gt: "bu_bits a > k \<longleftrightarrow> 2 ^ k \<le> val a"
proof
  assume k: "bu_bits a > k"
  then have "val a \<noteq> 0" using bu_bits_bound(3) [of a] by auto
  then have "2 ^ (bu_bits a - 1) \<le> val a" using bu_bits_bound(2) by blast
  moreover have "(2 :: nat) ^ k \<le> 2 ^ (bu_bits a - 1)" using k by (intro power_increasing) simp_all
  ultimately show "2 ^ k \<le> val a" by linarith
next
  assume "2 ^ k \<le> val a"
  then have "\<not> val a < 2 ^ k" by simp
  then have "(2 :: nat) ^ k < 2 ^ bu_bits a" using bu_bits_bound(1) [of a] by linarith
  then show "bu_bits a > k" by (auto dest: power_less_imp_less_exp [rotated])
qed

lemma sint_sign:
  assumes "unat (x :: u64) < 2 ^ 63"
  shows "sint x = int (unat x)" "sint (- x) = - int (unat x)"
proof -
  have "int (unat x) < int (2 ^ 63)" using assms by (simp only: of_nat_less_iff)
  then have u: "uint x = int (unat x)" "int (unat x) < 2 ^ 63" by simp_all
  have "sint x = signed_take_bit 63 (int (unat x))" by (simp add: sint_uint)
  also have "\<dots> = int (unat x)" by (rule signed_take_bit_int_eq_self [OF _ u(2)]) (rule order_trans [OF _ of_nat_0_le_iff], simp)
  finally show "sint x = int (unat x)" .
  have "(- x) = of_int (- int (unat x))" by simp
  then have "sint (- x) = signed_take_bit 63 (- int (unat x))" by (simp only: signed_of_int) simp
  also have "\<dots> = - int (unat x)" using u(2) of_nat_0_le_iff [of "unat x"] by (intro signed_take_bit_int_eq_self) linarith+
  finally show "sint (- x) = - int (unat x)" .
qed

text \<open>The work between two blocks in units of the tip's proof, before it is clamped.\<close>

definition equivalent_time :: "uint256 \<Rightarrow> uint256 \<Rightarrow> u64 \<Rightarrow> u32 \<Rightarrow> nat" where
  "equivalent_time w1 w2 spacing tip =
     (max (unat w1) (unat w2) - min (unat w1) (unat w2)) * unat spacing mod 2 ^ 256 div (2 ^ 256 div (compact_num tip + 1))"

lemma clamp_time:
  assumes "length r = WIDTH" "sg = 1 \<or> sg = - 1"
  shows "(if bu_bits r > 63 then Inr (sg * (2 ^ 63 - 1)) else Inr (sint (of_int sg * GetLow64 r))) =
    (Inr (sg * int (min (val r) (2 ^ 63 - 1))) :: int res)"
proof (cases "2 ^ 63 \<le> val r")
  case True
  then have "min (val r) (2 ^ 63 - 1) = 2 ^ 63 - 1" by simp
  then show ?thesis using True by (simp add: bits_gt)
next
  case False
  then have "unat (GetLow64 r) = val r" using unat_GetLow64 [of r] assms(1) by (simp add: WIDTH_def)
  then have "sint (of_int sg * GetLow64 r) = sg * int (val r)" using sint_sign [of "GetLow64 r"] False assms(2) by auto
  moreover have "min (val r) (2 ^ 63 - 1) = val r" using False by simp
  ultimately show ?thesis using False by (simp only: bits_gt if_False)
qed

lemma work_difference:
  defines "A \<equiv> UintToArith256"
  shows "val (if CompareTo (A x) (A y) > 0 then bu_sub (A x) (A y) else bu_sub (A y) (A x)) = max (unat x) (unat y) - min (unat x) (unat y)"
    and "length (if CompareTo (A x) (A y) > 0 then bu_sub (A x) (A y) else bu_sub (A y) (A x)) = WIDTH"
proof -
  show "val (if CompareTo (A x) (A y) > 0 then bu_sub (A x) (A y) else bu_sub (A y) (A x)) = max (unat x) (unat y) - min (unat x) (unat y)"
    by (cases "unat y < unat x") (simp_all add: A_def CompareTo_val val_sub_le)
qed (simp add: A_def)

text \<open>The time that a work difference is worth is the difference, as a 256-bit product with the block spacing, over
  the proof of the tip, negative when the first block has no more work than the second and clamped to 63 bits. The function fails
  exactly when the tip's target is not valid, since its proof is zero.\<close>

lemma GetBlockProofEquivalentTime_correct:
  "GetBlockProofEquivalentTime to from tip params =
     (if valid_target (bi_nBits tip)
      then Inr ((if nChainWork from < nChainWork to then 1 else - 1) *
             int (min (equivalent_time (nChainWork to) (nChainWork from) (of_int (nPowTargetSpacing params)) (bi_nBits tip)) (2 ^ 63 - 1)))
      else Inl ''Division by zero'')"
proof -
  define x y N sp where d: "x = nChainWork to" "y = nChainWork from" "N = compact_num (bi_nBits tip)"
    "sp = (of_int (nPowTargetSpacing params) :: u64)"
  define r sg where r: "r = (if CompareTo (UintToArith256 x) (UintToArith256 y) > 0 then bu_sub (UintToArith256 x) (UintToArith256 y)
      else bu_sub (UintToArith256 y) (UintToArith256 x))" "sg = (if CompareTo (UintToArith256 x) (UintToArith256 y) > 0 then 1 else - 1 :: int)"
  obtain w where w: "GetBlockProof tip = Inr w" "length w = WIDTH" "val w = (if valid_target (bi_nBits tip) then 2 ^ 256 div (N + 1) else 0)"
    unfolding d(3) by (rule GetBlockProof_val)
  have eq: "GetBlockProofEquivalentTime to from tip params = res_bind (bu_div (bu_mul r (bu_of_u64 sp)) w) (\<lambda>r'.
      if bu_bits r' > 63 then Inr (sg * (2 ^ 63 - 1)) else Inr (sint (of_int sg * GetLow64 r')))"
    unfolding GetBlockProofEquivalentTime_def w(1) r d by simp
  have len: "length r = WIDTH" "length (bu_mul r (bu_of_u64 sp)) = WIDTH" using work_difference(2) [of x y] by (simp_all add: r)
  have v: "val (bu_mul r (bu_of_u64 sp)) = (max (unat x) (unat y) - min (unat x) (unat y)) * unat sp mod 2 ^ 256"
  proof -
    have "32 * WIDTH = 256" by (simp add: WIDTH_def)
    then show ?thesis using len(1) by (simp only: val_mul val_of_u64 r(1) work_difference(1))
  qed
  show ?thesis
  proof (cases "valid_target (bi_nBits tip)")
    case True
    then have "N + 1 \<le> 2 ^ 256" by (simp add: valid_target_def d)
    then have "0 < val w" using True by (simp only: w(3) if_True div_greater_zero_iff) simp
    then obtain r' where q: "bu_div (bu_mul r (bu_of_u64 sp)) w = Inr r'" "length r' = WIDTH" "val r' = val (bu_mul r (bu_of_u64 sp)) div val w"
      using bu_div_correct [of "bu_mul r (bu_of_u64 sp)" w] len(2) w(2) by auto
    have "val r' = equivalent_time x y sp (bi_nBits tip)" unfolding q(3) v w(3) equivalent_time_def d(3) using True by simp
    moreover have "sg = (if y < x then 1 else - 1)" by (auto simp: r(2) refine_compare)
    moreover have "GetBlockProofEquivalentTime to from tip params = Inr (sg * int (min (val r') (2 ^ 63 - 1)))"
      unfolding eq q(1) res_bind_simps by (rule clamp_time [OF q(2)]) (simp add: r(2))
    ultimately show ?thesis using True by (simp only: if_True d)
  next
    case False
    then have "bu_div (bu_mul r (bu_of_u64 sp)) w = Inl ''Division by zero''"
      using bu_div_correct [of "bu_mul r (bu_of_u64 sp)" w] len(2) w(2,3) by simp
    then show ?thesis using False by (simp add: eq)
  qed
qed
section \<open>The algorithms never fail\<close>

text \<open>A compact target that decodes, without sign or overflow, to at most the limit of the network.\<close>

definition bounded_bits :: "pow_params \<Rightarrow> u32 \<Rightarrow> bool" where
  "bounded_bits params c = (case SetCompact c of (t, neg, ov) \<Rightarrow> \<not> neg \<and> \<not> ov \<and> ArithToUint256 t \<le> powLimit params)"

definition capped :: "pow_params \<Rightarrow> base_uint \<Rightarrow> base_uint" where
  "capped params bn = (if CompareTo bn (UintToArith256 (powLimit params)) > 0 then UintToArith256 (powLimit params) else bn)"

lemma GetCompact_bounded:
  assumes "length a = WIDTH" "val a \<le> unat (powLimit params)"
  obtains c where "GetCompact False a = Inr c" "bounded_bits params c" "compact_num c \<le> val a" "(val a - compact_num c) * 2 ^ 15 \<le> val a"
proof (rule GetCompact_SetCompact [OF assms(1), of False])
  fix c t
  assume c: "GetCompact False a = Inr c" "SetCompact c = (t, False \<and> val a \<noteq> 0, False)" "length t = WIDTH"
    "val t = compact_num c" "val t \<le> val a" "(val a - val t) * 2 ^ 15 \<le> val a"
  have "bounded_bits params c" using c(2,3,5) assms(2) by (simp add: bounded_bits_def word_le_nat_alt unat_ArithToUint256)
  then show thesis using that c by metis
qed

lemma GetCompact_capped:
  assumes "length bn = WIDTH"
  obtains c where "GetCompact False (capped params bn) = Inr c" "bounded_bits params c"
    "compact_num c \<le> min (val bn) (unat (powLimit params))"
    "(min (val bn) (unat (powLimit params)) - compact_num c) * 2 ^ 15 \<le> min (val bn) (unat (powLimit params))"
proof -
  have "val (capped params bn) = min (val bn) (unat (powLimit params))" "length (capped params bn) = WIDTH"
    using assms by (auto simp: capped_def CompareTo_val)
  then show thesis using GetCompact_bounded [of "capped params bn" params] that by (metis min.cobounded2)
qed

lemma GetCompact_limit: "\<exists>c. GetCompact False (UintToArith256 (powLimit params)) = Inr c \<and> bounded_bits params c"
  using GetCompact_bounded [of "UintToArith256 (powLimit params)" params] by (metis length_UintToArith256 val_UintToArith256 order_refl)

lemma length_SetCompact [simp]: "length (fst (SetCompact c)) = WIDTH"
  by (rule SetCompact_correct [of c]) simp

lemma val_SetCompact: "val (fst (SetCompact c)) = compact_num c mod 2 ^ 256"
  by (rule SetCompact_correct [of c]) simp

lemma bu_div_u64:
  assumes "length a = WIDTH" "n \<noteq> 0"
  obtains r where "bu_div a (bu_of_u64 n) = Inr r" "length r = WIDTH" "val r = val a div unat n"
  using bu_div_correct [of a "bu_of_u64 n"] assms by (auto simp: unat_eq_0)

lemma unat_count: "c < 2 ^ 31 \<Longrightarrow> unat (ucast (of_nat c :: u32) :: u64) = c" "c < 2 ^ 31 \<Longrightarrow> unat (ucast (of_nat c + 1 :: u32) :: u64) = c + 1"
proof -
  show u: "c < 2 ^ 31 \<Longrightarrow> unat (ucast (of_nat c :: u32) :: u64) = c" for c by (simp add: unat_of_nat)
  assume "c < 2 ^ 31"
  then have "unat (of_nat (c + 1) :: u32) = c + 1" by (simp only: unat_of_nat) (simp add: take_bit_eq_mod)
  then show "unat (ucast (of_nat c + 1 :: u32) :: u64) = c + 1" by (simp only: unat_ucast_u64 of_nat_add of_nat_1)
qed

lemma dgw_average_ok:
  assumes "c < 2 ^ 31" "length a = WIDTH" "length t = WIDTH"
  obtains r where "dgw_average c a t = Inr r" "length r = WIDTH"
    "val r = (if c = 1 then val t else (val a * c mod 2 ^ 256 + val t) mod 2 ^ 256 div (c + 1))"
proof (cases "c = 1")
  case False
  have n: "32 * WIDTH = 256" by (simp add: WIDTH_def)
  define w where "w = (ucast (of_nat c + 1 :: u32) :: u64)"
  have w: "unat w = c + 1" unfolding w_def by (rule unat_count(2) [OF assms(1)])
  have c: "unat (of_nat c :: u32) = c" using unat_count(1) [OF assms(1)] by (simp only: unat_ucast_u64)
  define b where "b = bu_add (bu_mul32 a (of_nat c)) t"
  have b: "length b = WIDTH" "val b = (val a * c mod 2 ^ 256 + val t) mod 2 ^ 256"
    using assms(2,3) by (simp_all only: b_def length_add length_mul val_add val_mul32 n c)
  have "w \<noteq> 0" using w by (metis Suc_eq_plus1 nat.simps(3) unsigned_0)
  then obtain r where "bu_div b (bu_of_u64 w) = Inr r" "length r = WIDTH" "val r = val b div unat w" using bu_div_u64 [OF b(1)] by metis
  then show thesis using that [of r] False b(2) w by (simp only: dgw_average_def b_def [symmetric] w_def [symmetric] if_False)
qed (use that [of t] assms in \<open>simp add: dgw_average_def\<close>)

text \<open>The loop ends at the block 23 blocks back, and keeps what each average keeps.\<close>

lemma dgw_loop_inv:
  assumes "linked H" "nPastBlocks \<le> bi_height (H p0)"
    and keep: "\<And>c q a r. 1 \<le> c \<Longrightarrow> c \<le> nPastBlocks \<Longrightarrow> prevs H p0 (c - 1) = Some q \<Longrightarrow> length a = WIDTH \<Longrightarrow> c = 1 \<or> Q a \<Longrightarrow>
      dgw_average c a (fst (SetCompact (bi_nBits (H q)))) = Inr r \<Longrightarrow> Q r"
  shows "1 \<le> c \<Longrightarrow> c \<le> nPastBlocks \<Longrightarrow> prevs H p0 (c - 1) = Some p \<Longrightarrow> length a = WIDTH \<Longrightarrow> c = 1 \<or> Q a \<Longrightarrow>
    \<exists>q r. dgw_loop H c p a = Inr (q, r) \<and> prevs H p0 (nPastBlocks - 1) = Some q \<and> length r = WIDTH \<and> Q r"
proof (induction "nPastBlocks - c" arbitrary: c p a)
  case n: 0
  have c: "c = nPastBlocks" "c < 2 ^ 31" using n by (simp_all add: nPastBlocks_def)
  obtain r where r: "dgw_average c a (fst (SetCompact (bi_nBits (H p)))) = Inr r" "length r = WIDTH"
    using dgw_average_ok [OF c(2) n(5) length_SetCompact] by metis
  then have "Q r" using keep n(2-6) by blast
  moreover have "dgw_loop H c p a = Inr (p, r)" using r(1) unfolding c(1) by (simp add: dgw_loop.simps [of H nPastBlocks])
  ultimately show ?case using c(1) r(2) n(4) by simp
next
  case (Suc n)
  have c: "c < nPastBlocks" "c < 2 ^ 31" using Suc.hyps(2) Suc.prems(2) by (simp_all add: nPastBlocks_def)
  obtain r where r: "dgw_average c a (fst (SetCompact (bi_nBits (H p)))) = Inr r" "length r = WIDTH"
    using dgw_average_ok [OF c(2) Suc.prems(4) length_SetCompact] by metis
  then have Q: "Q r" using keep Suc.prems by blast
  obtain q where q: "prevs H p0 c = Some q" using prevs_height [OF assms(1), of c p0] assms(2) c(1) by auto
  moreover have "prevs H p0 (c - 1 + 1) = pprev (H p)" unfolding prevs_add Suc.prems(3) by (simp split: option.splits)
  ultimately have "pprev (H p) = Some q" using Suc.prems(1) by simp
  then have "dgw_loop H c p a = dgw_loop H (c + 1) q r" using c(1) r(1) by (simp add: dgw_loop.simps [of H c])
  then show ?case using Suc.hyps(1) [of "c + 1" q r] Suc.hyps(2) c(1) q r(2) Q by simp
qed

lemma dgw_loop_total:
  assumes "linked H" "nPastBlocks \<le> bi_height (H p)"
  shows "\<exists>q r. dgw_loop H 1 p (bu_of_u64 0) = Inr (q, r) \<and> length r = WIDTH"
  using dgw_loop_inv [OF assms, of "\<lambda>_. True" 1 p "bu_of_u64 0"] by (auto simp: nPastBlocks_def)

text \<open>The weighted mean stays between the smallest and the largest of the targets.\<close>

lemma mean_bounds:
  fixes c :: nat
  assumes "lo \<le> x" "x \<le> hi" "lo \<le> y" "y \<le> hi"
  shows "lo \<le> (x * c + y) div (c + 1)" "(x * c + y) div (c + 1) \<le> hi"
proof -
  have "lo * (c + 1) \<le> x * c + y" using add_mono [OF mult_le_mono1 [OF assms(1), of c] assms(3)] by (simp add: algebra_simps)
  then have "lo * (c + 1) div (c + 1) \<le> (x * c + y) div (c + 1)" by (rule div_le_mono)
  then show "lo \<le> (x * c + y) div (c + 1)" by (simp only: nonzero_mult_div_cancel_right add_is_0 one_neq_zero simp_thms)
  have "x * c + y \<le> hi * (c + 1)" using add_mono [OF mult_le_mono1 [OF assms(2), of c] assms(4)] by (simp add: algebra_simps)
  then have "(x * c + y) div (c + 1) \<le> hi * (c + 1) div (c + 1)" by (rule div_le_mono)
  then show "(x * c + y) div (c + 1) \<le> hi" by (simp only: nonzero_mult_div_cancel_right add_is_0 one_neq_zero simp_thms)
qed

lemma dgw_loop_bounds:
  assumes "linked H" "nPastBlocks \<le> bi_height (H p)" "hi * 25 < 2 ^ 256"
    and t: "\<And>k q. k < nPastBlocks \<Longrightarrow> prevs H p k = Some q \<Longrightarrow> lo \<le> compact_num (bi_nBits (H q)) \<and> compact_num (bi_nBits (H q)) \<le> hi"
  shows "\<exists>q r. dgw_loop H 1 p (bu_of_u64 0) = Inr (q, r) \<and> prevs H p (nPastBlocks - 1) = Some q \<and> length r = WIDTH \<and> lo \<le> val r \<and> val r \<le> hi"
proof (rule dgw_loop_inv [OF assms(1,2), of "\<lambda>r. lo \<le> val r \<and> val r \<le> hi" 1 p "bu_of_u64 0"])
  fix c q a r
  assume c: "1 \<le> c" "c \<le> nPastBlocks" and q: "prevs H p (c - 1) = Some q" and a: "length a = WIDTH" "c = 1 \<or> lo \<le> val a \<and> val a \<le> hi"
    and r: "dgw_average c a (fst (SetCompact (bi_nBits (H q)))) = Inr r"
  define T where "T = compact_num (bi_nBits (H q))"
  have T: "lo \<le> T" "T \<le> hi" using t [OF _ q] c by (simp_all add: T_def)
  then have vT: "val (fst (SetCompact (bi_nBits (H q)))) = T" using assms(3) by (simp add: val_SetCompact T_def)
  have c31: "c < 2 ^ 31" using c(2) by (simp add: nPastBlocks_def)
  have vr: "val r = (if c = 1 then T else (val a * c mod 2 ^ 256 + T) mod 2 ^ 256 div (c + 1))"
    using dgw_average_ok [OF c31 a(1) length_SetCompact, of "bi_nBits (H q)"] r vT by (metis Inr_inject)
  show "lo \<le> val r \<and> val r \<le> hi"
  proof (cases "c = 1")
    case False
    then have va: "lo \<le> val a" "val a \<le> hi" using a(2) by simp_all
    have "val a * c \<le> hi * 24" using va(2) c(2) by (intro mult_le_mono) (simp_all add: nPastBlocks_def)
    then have "val a * c + T < 2 ^ 256" using T(2) assms(3) by linarith
    then have "val r = (val a * c + T) div (c + 1)" using False vr by simp
    then show ?thesis using mean_bounds [OF va T] by simp
  qed (use vr T in simp)
qed (simp_all add: nPastBlocks_def)
text \<open>The target of the next block before rounding: between a third of the mean and three times the mean.\<close>

lemma third: "0 < s \<Longrightarrow> int nPastBlocks * s sdiv 3 = 8 * s"
  by (simp add: nPastBlocks_def signed_divide_int_def sgn_if abs_mult)

lemma clamp_unat:
  fixes s x :: int
  assumes "0 < s" "s < 2 ^ 25"
  defines "y \<equiv> (let z = (if x < 8 * s then 8 * s else x) in if z > 72 * s then 72 * s else z)"
  shows "8 * nat s \<le> unat (of_int y :: u32)" "unat (of_int y :: u32) \<le> 72 * nat s"
proof -
  have y: "8 * s \<le> y" "y \<le> 72 * s" using assms(1) by (simp_all add: y_def Let_def)
  then have "uint (of_int y :: u32) = y" using assms by (simp add: uint_word_of_int)
  then have "unat (of_int y :: u32) = nat y" by (simp add: unat_eq_nat_uint)
  then show "8 * nat s \<le> unat (of_int y :: u32)" "unat (of_int y :: u32) \<le> 72 * nat s" using y assms(1) by linarith+
qed

lemma retarget_bounds:
  fixes a :: nat
  assumes "lo \<le> a" "a \<le> hi" "8 * s \<le> t" "t \<le> 72 * s" "0 < s"
  shows "lo div 3 \<le> a * t div (24 * s)" "a * t div (24 * s) \<le> 3 * hi" "a * t \<le> hi * (72 * s)"
proof -
  show le: "a * t \<le> hi * (72 * s)" using assms(2,4) by (rule mult_le_mono)
  have "a * t div (24 * s) \<le> hi * (72 * s) div (24 * s)" using le by (rule div_le_mono)
  also have "hi * (72 * s) = (3 * hi) * (24 * s)" by simp
  also have "(3 * hi) * (24 * s) div (24 * s) = 3 * hi" using assms(5) by (intro nonzero_mult_div_cancel_right) simp
  finally show "a * t div (24 * s) \<le> 3 * hi" .
  have "lo div 3 = lo * (8 * s) div (3 * (8 * s))" using assms(5) by (intro div_mult_mult2 [symmetric]) simp
  also have "\<dots> \<le> a * t div (3 * (8 * s))" using assms(1,3) by (intro div_le_mono mult_le_mono)
  finally show "lo div 3 \<le> a * t div (24 * s)" by simp
qed

lemma unat_target: "0 < s \<Longrightarrow> s < 2 ^ 58 \<Longrightarrow> unat (of_int (int nPastBlocks * s) :: u64) = 24 * nat s"
proof -
  assume s: "0 < s" "s < 2 ^ 58"
  have eq: "uint (of_int z :: u64) = z" if "0 \<le> z" "z < 2 ^ 64" for z using that by (simp add: uint_word_of_int)
  have "uint (of_int (24 * s) :: u64) = 24 * s" by (rule eq) (use s in simp_all)
  moreover have "int nPastBlocks * s = 24 * s" by (simp add: nPastBlocks_def)
  ultimately have "uint (of_int (int nPastBlocks * s) :: u64) = 24 * s" by (simp only:)
  then show ?thesis using s by (simp only: unat_eq_nat_uint)
qed

lemma DarkGravityWave_steps:
  assumes "dgw_loop H 1 p (bu_of_u64 0) = Inr (q, r)" "length r = WIDTH" "nPastBlocks \<le> bi_height (H p)"
    and s: "0 < nPowTargetSpacing params" "nPowTargetSpacing params < 2 ^ 25"
  obtains bn t where "DarkGravityWave H (Some p) params = GetCompact False (capped params bn)" "length bn = WIDTH"
    "val bn = val r * t mod 2 ^ 256 div (24 * nat (nPowTargetSpacing params))"
    "8 * nat (nPowTargetSpacing params) \<le> t" "t \<le> 72 * nat (nPowTargetSpacing params)"
proof -
  define sp x where d: "sp = nPowTargetSpacing params" "x = GetBlockTime (H p) - GetBlockTime (H q)"
  define y where "y = (let z = (if x < 8 * sp then 8 * sp else x) in if z > 72 * sp then 72 * sp else z)"
  have y: "8 * nat sp \<le> unat (of_int y :: u32)" "unat (of_int y :: u32) \<le> 72 * nat sp"
    unfolding y_def using s clamp_unat [of sp x] by (simp_all add: d)
  define w where "w = (of_int (int nPastBlocks * sp) :: u64)"
  have w: "unat w = 24 * nat sp" using s unat_target [of sp] by (simp add: w_def d)
  then have "w \<noteq> 0" using s(1) by (auto simp: d)
  moreover have "length (bu_mul32 r (of_int y)) = WIDTH" using assms(2) by simp
  ultimately obtain bn where bn: "bu_div (bu_mul32 r (of_int y)) (bu_of_u64 w) = Inr bn" "length bn = WIDTH"
      "val bn = val (bu_mul32 r (of_int y)) div unat w" using bu_div_u64 by metis
  have "val (bu_mul32 r (of_int y)) = val r * unat (of_int y :: u32) mod 2 ^ 256"
  proof -
    have "32 * WIDTH = 256" by (simp add: WIDTH_def)
    then show ?thesis using assms(2) by (simp only: val_mul32)
  qed
  then have v: "val bn = val r * unat (of_int y :: u32) mod 2 ^ 256 div (24 * nat sp)" by (simp only: bn(3) w)
  have "int nPastBlocks * sp * 3 = 72 * sp" by (simp add: nPastBlocks_def)
  moreover have "int nPastBlocks * sp sdiv 3 = 8 * sp" using third [of sp] s(1) by (simp add: d)
  moreover have "\<not> bi_height (H p) < nPastBlocks" using assms(3) by simp
  ultimately have "DarkGravityWave H (Some p) params = GetCompact False (capped params bn)"
    by (simp only: DarkGravityWave_def Let_def option.case if_False assms(1) res_bind_simps split_conv d [symmetric]
      y_def [unfolded Let_def, symmetric] w_def [symmetric] bn(1) capped_def)
  then show thesis using that bn(2) v y by (simp only: d(1))
qed

text \<open>C14: if the targets of the last 24 blocks lie between \<open>lo\<close> and \<open>hi\<close>, dark gravity wave returns, without a
  failing assertion or division, a target between a third of \<open>lo\<close> and three times \<open>hi\<close>, and at most the limit of the network,
  up to the rounding of the compact encoding, provided that the products fit into 256 bits.\<close>

theorem DarkGravityWave_bounds:
  assumes "linked H" "nPastBlocks \<le> bi_height (H p)"
    and "0 < nPowTargetSpacing params" "nPowTargetSpacing params < 2 ^ 25" "hi * (72 * nat (nPowTargetSpacing params)) < 2 ^ 256"
    and "\<And>k q. k < nPastBlocks \<Longrightarrow> prevs H p k = Some q \<Longrightarrow> lo \<le> compact_num (bi_nBits (H q)) \<and> compact_num (bi_nBits (H q)) \<le> hi"
  shows "\<exists>c v. DarkGravityWave H (Some p) params = Inr c
    \<and> min (lo div 3) (unat (powLimit params)) \<le> v \<and> v \<le> min (3 * hi) (unat (powLimit params))
    \<and> compact_num c \<le> v \<and> (v - compact_num c) * 2 ^ 15 \<le> v"
proof -
  define s where "s = nat (nPowTargetSpacing params)"
  have s: "1 \<le> s" using assms(3) by (simp add: s_def)
  have "hi * 25 \<le> hi * (72 * s)" using s by (intro mult_le_mono2) simp
  then have hi: "hi * 25 < 2 ^ 256" using assms(5) by (simp only: s_def)
  obtain q r where r: "dgw_loop H 1 p (bu_of_u64 0) = Inr (q, r)" "length r = WIDTH" "lo \<le> val r" "val r \<le> hi"
    using dgw_loop_bounds [OF assms(1,2) hi, of lo] assms(6) by blast
  obtain bn t where bn: "DarkGravityWave H (Some p) params = GetCompact False (capped params bn)" "length bn = WIDTH"
    "val bn = val r * t mod 2 ^ 256 div (24 * s)" "8 * s \<le> t" "t \<le> 72 * s"
    using DarkGravityWave_steps [OF r(1,2) assms(2-4)] unfolding s_def by metis
  note b = retarget_bounds [OF r(3,4) bn(4,5)]
  have "val r * t < 2 ^ 256" using b(3) s assms(5) unfolding s_def [symmetric] by linarith
  then have v: "val bn = val r * t div (24 * s)" using bn(3) by (simp only: mod_less)
  obtain c where c: "GetCompact False (capped params bn) = Inr c" "compact_num c \<le> min (val bn) (unat (powLimit params))"
    "(min (val bn) (unat (powLimit params)) - compact_num c) * 2 ^ 15 \<le> min (val bn) (unat (powLimit params))"
    using GetCompact_capped [OF bn(2)] by metis
  have "min (lo div 3) (unat (powLimit params)) \<le> min (val bn) (unat (powLimit params))"
    "min (val bn) (unat (powLimit params)) \<le> min (3 * hi) (unat (powLimit params))"
    using b(1,2) s v by (auto intro: min.mono)
  then show ?thesis using bn(1) c by (intro exI [of _ c] exI [of _ "min (val bn) (unat (powLimit params))"]) simp
qed
lemma DarkGravityWave_total:
  assumes "linked H" "0 < nPowTargetSpacing params" "nPowTargetSpacing params < 2 ^ 25"
  shows "\<exists>c. DarkGravityWave H (Some p) params = Inr c \<and> bounded_bits params c"
proof (cases "nPastBlocks \<le> bi_height (H p)")
  case True
  obtain q r where r: "dgw_loop H 1 p (bu_of_u64 0) = Inr (q, r)" "length r = WIDTH" using dgw_loop_total [OF assms(1) True] by blast
  obtain bn where "DarkGravityWave H (Some p) params = GetCompact False (capped params bn)" "length bn = WIDTH"
    using DarkGravityWave_steps [OF r True assms(2,3)] by metis
  then show ?thesis using GetCompact_capped [of bn params] by metis
next
  case False
  then show ?thesis using GetCompact_limit [of params] by (simp add: DarkGravityWave_def Let_def)
qed

lemma kgw_average_total:
  assumes "1 \<le> i" "i < 2 ^ 31" "length a = WIDTH" "length b = WIDTH"
  shows "\<exists>r. kgw_average i a b = Inr r \<and> length r = WIDTH"
proof -
  define n where "n = (ucast (of_nat i :: u32) :: u64)"
  have "unat n = i" unfolding n_def by (rule unat_count(1) [OF assms(2)])
  then have "n \<noteq> 0" using assms(1) by auto
  then obtain x y where "bu_div (bu_sub a b) (bu_of_u64 n) = Inr x" "length x = WIDTH" "bu_div (bu_sub b a) (bu_of_u64 n) = Inr y" "length y = WIDTH"
    using bu_div_u64 [of "bu_sub a b" n] bu_div_u64 [of "bu_sub b a" n] assms(3,4) by (metis length_sub)
  then show ?thesis using assms(3,4) by (simp add: kgw_average_def Let_def n_def [symmetric])
qed

definition kgw_inv :: "kgw_state \<Rightarrow> bool" where
  "kgw_inv s \<longleftrightarrow> length (PastDifficultyAverage s) = WIDTH \<and> length (PastDifficultyAveragePrev s) = WIDTH \<and> (\<exists>w :: u64. PastRateTargetSeconds s = sint w)"

lemma kgw_body_inv: "kgw_inv s \<Longrightarrow> 1 \<le> i \<Longrightarrow> i < 2 ^ 31 \<Longrightarrow> \<exists>s'. kgw_body H params solved i b s = Inr s' \<and> kgw_inv s'"
  using kgw_average_total [of i "fst (SetCompact (bi_nBits (H b)))" "PastDifficultyAveragePrev s"]
  by (auto simp: kgw_body_def kgw_inv_def Let_def)

lemma kgw_loop_total:
  assumes "linked H"
  shows "fuel = bi_height (H b) \<Longrightarrow> 1 \<le> i \<Longrightarrow> i + fuel < 2 ^ 31 \<Longrightarrow> kgw_inv s \<Longrightarrow>
    \<exists>s'. kgw_loop fl H params mn mx solved fuel i b s = Inr s' \<and> kgw_inv s'"
proof (induction fuel arbitrary: i b s)
  case (Suc fuel)
  obtain s' where s': "kgw_body H params solved i b s = Inr s'" "kgw_inv s'" using kgw_body_inv [of s i] Suc.prems by fastforce
  obtain q where q: "pprev (H b) = Some q" "bi_height (H q) = fuel"
    using linked_prev [OF assms, of b] linkedD(1) [OF assms, of b] Suc.prems(1) by auto
  have "\<exists>s''. kgw_loop fl H params mn mx solved fuel (i + 1) q s' = Inr s'' \<and> kgw_inv s''" 
    by (rule Suc.IH) (use Suc.prems q(2) s'(2) in simp_all)
  with s' q(1) Suc.prems(4) show ?case by auto
qed simp

lemma KimotoGravityWell_total:
  assumes "linked H" "bi_height (H p) < 2 ^ 31 - 1"
  shows "\<exists>c. KimotoGravityWell fl H (Some p) params = Inr c \<and> bounded_bits params c"
proof -
  define mn mx where m: "mn = seconds_min fl (nPowTargetTimespan params) div of_int (nPowTargetSpacing params)"
    "mx = of_int (nPowTargetTimespan params * 7) div (of_int (nPowTargetSpacing params) :: u64)"
  define s0 where "s0 = \<lparr>PastBlocksMass = 0, PastDifficultyAverage = bu_of_u64 0, PastDifficultyAveragePrev = bu_of_u64 0,
               PastRateActualSeconds = 0, PastRateTargetSeconds = 0\<rparr>"
  have "kgw_inv s0" by (auto simp: kgw_inv_def s0_def intro: exI [of _ 0])
  then obtain s where s: "kgw_loop fl H params mn mx p (bi_height (H p)) 1 p s0 = Inr s" "kgw_inv s"
    using kgw_loop_total [OF assms(1), of "bi_height (H p)" p 1 s0 fl params mn mx p] assms(2) by auto
  define a where "a = PastDifficultyAverage s"
  have la: "length a = WIDTH" using s(2) by (simp add: kgw_inv_def a_def)
  have "\<exists>bn. (if PastRateActualSeconds s \<noteq> 0 \<and> PastRateTargetSeconds s \<noteq> 0
      then bu_div (bu_mul32 a (of_int (PastRateActualSeconds s))) (bu_of_u64 (of_int (PastRateTargetSeconds s)))
      else Inr a) = Inr bn \<and> length bn = WIDTH"
  proof (cases "PastRateActualSeconds s \<noteq> 0 \<and> PastRateTargetSeconds s \<noteq> 0")
    case True
    then have "(of_int (PastRateTargetSeconds s) :: u64) \<noteq> 0" using s(2) by (auto simp: kgw_inv_def)
    moreover have "length (bu_mul32 a (of_int (PastRateActualSeconds s))) = WIDTH" using la by simp
    ultimately obtain bn where "bu_div (bu_mul32 a (of_int (PastRateActualSeconds s))) (bu_of_u64 (of_int (PastRateTargetSeconds s))) = Inr bn"
      "length bn = WIDTH" using bu_div_u64 by metis
    then show ?thesis using True by simp
  qed (use la in auto)
  then obtain bn where bn: "(if PastRateActualSeconds s \<noteq> 0 \<and> PastRateTargetSeconds s \<noteq> 0
      then bu_div (bu_mul32 a (of_int (PastRateActualSeconds s))) (bu_of_u64 (of_int (PastRateTargetSeconds s)))
      else Inr a) = Inr bn" "length bn = WIDTH" by blast
  have "KimotoGravityWell fl H (Some p) params =
      (if bi_height (H p) = 0 \<or> of_nat (bi_height (H p)) < mn then GetCompact False (UintToArith256 (powLimit params))
       else GetCompact False (capped params bn))"
    by (simp only: KimotoGravityWell_def Let_def option.case m [symmetric] s0_def [symmetric] s(1) res_bind_simps a_def [symmetric] bn(1) capped_def)
  then show ?thesis using GetCompact_limit [of params] GetCompact_capped [OF bn(2)] by metis
qed

lemma smod_pos: "0 \<le> a \<Longrightarrow> 0 < b \<Longrightarrow> a smod b = a mod b" for a b :: int
  by (simp add: signed_modulo_int_def sgn_if)

lemma last_regular_total:
  assumes "linked H"
  shows "bi_height (H p) \<le> fuel \<Longrightarrow> \<exists>q n. last_regular H params plim fuel p = Inr q \<and> prevs H p n = Some q"
proof (induction fuel arbitrary: p)
  case 0
  then have "pprev (H p) = None" using linkedD(1) [OF assms, of p] by (cases "pprev (H p)") auto
  then show ?case by (auto intro: exI [of _ 0])
next
  case (Suc fuel)
  show ?case
  proof (cases "pprev (H p)")
    case None
    then show ?thesis by (auto intro: exI [of _ 0])
  next
    case (Some q)
    then have "bi_height (H q) \<le> fuel" using linkedD(1) [OF assms] Suc.prems by simp
    then obtain r n where r: "last_regular H params plim fuel q = Inr r" "prevs H q n = Some r" using Suc.IH by blast
    then have "prevs H p (Suc n) = Some r" using Some by simp
    moreover have "prevs H p 0 = Some p" by simp
    ultimately show ?thesis using Some r(1) by (subst last_regular.simps) (auto simp del: prevs.simps)
  qed
qed

lemma CalculateNextWorkRequired_total:
  assumes "0 < nPowTargetTimespan params" "nPowTargetTimespan params < 2 ^ 60" "bounded_bits params (bi_nBits (H p))"
  shows "\<exists>c. CalculateNextWorkRequired H p t params = Inr c \<and> bounded_bits params c"
proof (cases "fPowNoRetargeting params")
  case False
  define w where "w = (of_int (nPowTargetTimespan params) :: u64)"
  have "uint w = nPowTargetTimespan params" using assms by (simp add: w_def uint_word_of_int)
  then have "w \<noteq> 0" using assms(1) by auto
  then have "\<exists>c. res_bind (bu_div (bu_mul32 (fst (SetCompact (bi_nBits (H p)))) x) (bu_of_u64 w)) (\<lambda>bn. GetCompact False (capped params bn)) = Inr c
      \<and> bounded_bits params c" for x
    using bu_div_u64 [of "bu_mul32 (fst (SetCompact (bi_nBits (H p)))) x" w] GetCompact_capped [of _ params]
    by (metis length_SetCompact length_mul(2) res_bind_simps(2))
  then show ?thesis using False by (simp add: CalculateNextWorkRequired_def Let_def capped_def [symmetric] w_def)
qed (use assms in \<open>simp add: CalculateNextWorkRequired_def\<close>)
text \<open>The parameters that the chains use: the spacing is positive, at most the timespan, and both are far from overflowing.\<close>

definition good_params :: "pow_params \<Rightarrow> bool" where
  "good_params params \<longleftrightarrow> 0 < nPowTargetSpacing params \<and> nPowTargetSpacing params < 2 ^ 25
     \<and> nPowTargetSpacing params \<le> nPowTargetTimespan params \<and> nPowTargetTimespan params < 2 ^ 60"

lemma interval_pos: "good_params params \<Longrightarrow> 0 < DifficultyAdjustmentInterval params"
  by (auto simp: good_params_def DifficultyAdjustmentInterval_def signed_divide_int_def sgn_if pos_imp_zdiv_pos_iff)

lemma GetNextWorkRequiredBTC_total:
  assumes "wf_index H" "good_params params" "\<And>n q. prevs H p n = Some q \<Longrightarrow> bounded_bits params (bi_nBits (H q))"
  shows "\<exists>c. GetNextWorkRequiredBTC H p t params = Inr c \<and> bounded_bits params c"
proof -
  have H: "linked H" using assms(1) by (simp add: wf_index_def)
  define h iv where d: "h = int (bi_height (H p))" "iv = DifficultyAdjustmentInterval params"
  have iv: "0 < iv" using interval_pos [OF assms(2)] by (simp add: d)
  have p: "bounded_bits params (bi_nBits (H p))" using assms(3) [of 0] by simp
  obtain l where l: "GetCompact False (UintToArith256 (powLimit params)) = Inr l" "bounded_bits params l" using GetCompact_limit by blast
  show ?thesis
  proof (cases "(h + 1) smod iv = 0")
    case False
    obtain q n where q: "last_regular H params l (bi_height (H p)) p = Inr q" "prevs H p n = Some q" using last_regular_total [OF H] by blast
    then have "bounded_bits params (bi_nBits (H q))" using assms(3) by blast
    then show ?thesis using False l q(1) p by (auto simp: GetNextWorkRequiredBTC_def Let_def d)
  next
    case True
    then have "(h + 1) mod iv = 0" using iv by (simp add: smod_pos d(1))
    then have "iv \<le> h + 1" using zdvd_imp_le [of iv "h + 1"] by (auto simp: d(1))
    then have h: "0 \<le> h - (iv - 1)" "nat (h - (iv - 1)) \<le> bi_height (H p)" using iv by (simp_all add: d(1))
    then obtain q where "ancestor H p (nat (h - (iv - 1))) = Some q" using ancestor_Some [OF H] by blast
    then have "GetAncestor H p (h - (iv - 1)) = Inr (Some q)" using GetAncestor_correct [OF assms(1)] h(1) by simp
    moreover have "\<not> (h + 1) smod iv \<noteq> 0" using True by simp
    moreover have "\<exists>c. CalculateNextWorkRequired H p (GetBlockTime (H q)) params = Inr c \<and> bounded_bits params c"
      using assms(2) p by (intro CalculateNextWorkRequired_total) (simp_all add: good_params_def)
    ultimately show ?thesis using l(1) h(1) by (simp add: GetNextWorkRequiredBTC_def Let_def d [symmetric] res_assert_simps)
  qed
qed

text \<open>The parameters of the main network, and a chain at its easiest target.\<close>

definition main_pow :: pow_params where
  "main_pow = \<lparr>powLimit = 2 ^ 236 - 1, fPowAllowMinDifficultyBlocks = False, fPowNoRetargeting = False, nPowTargetSpacing = 150,
     nPowTargetTimespan = 86400, nPowKGWHeight = 15200, nPowDGWHeight = 34140, nMinimumDifficultyBlocks = 0\<rparr>"

definition pow_chain :: heap where
  "pow_chain n = \<lparr>phashBlock = 0, pprev = (if n = 0 then None else Some (n - 1)), pskip = None, bi_height = n,
     nChainWork = 0, bi_nVersion = 0, bi_nTime = of_nat (150 * n), bi_nBits = 0x1e0ffff0\<rparr>"

lemma pow_chain_wf: "wf_index pow_chain" "linked pow_chain"
  by (auto simp: wf_index_def linked_def pow_chain_def split: if_splits)

lemma pow_chain_num: "compact_num 0x1e0ffff0 = 0x0ffff0 * 2 ^ 216"
  by (simp add: compact_num_cases)

lemma bounded_bitsI:
  assumes "\<not> bit c 23" "compact_num c \<le> unat (powLimit params)"
  shows "bounded_bits params c"
proof -
  have "compact_num c < 2 ^ 256" using assms(2) unsigned_less [of "powLimit params", where 'a = nat] by simp
  moreover obtain t where "SetCompact c = (t, compact_num c \<noteq> 0 \<and> bit c 23, 2 ^ 256 \<le> compact_num c)" "length t = WIDTH"
    "val t = compact_num c mod 2 ^ 256" by (rule SetCompact_correct)
  ultimately show ?thesis using assms by (simp add: bounded_bits_def word_le_nat_alt unat_ArithToUint256)
qed

lemma pow_chain_bounded: "bounded_bits main_pow (bi_nBits (pow_chain q))"
proof (rule bounded_bitsI)
  show "\<not> bit (bi_nBits (pow_chain q)) 23" by (simp add: pow_chain_def)
  have "unat (2 ^ 236 - 1 :: uint256) = 2 ^ 236 - 1" by simp
  then show "compact_num (bi_nBits (pow_chain q)) \<le> unat (powLimit main_pow)"
    by (simp add: pow_chain_def main_pow_def pow_chain_num)
qed

text \<open>C11: while the targets of a chain decode to at most the limit of the network, so does the target required of its next
  block, whichever algorithm applies and whatever the floating-point formulas give; no assertion fails, no divisor is zero and
  every loop ends.\<close>

theorem GetNextWorkRequired_bounded:
  assumes "wf_index H" "good_params params" "bi_height (H p) < 2 ^ 31 - 1"
    and "\<And>n q. prevs H p n = Some q \<Longrightarrow> bounded_bits params (bi_nBits (H q))"
  shows "\<exists>c. GetNextWorkRequired fl H (Some p) t params = Inr c \<and> bounded_bits params c"
proof -
  have H: "linked H" using assms(1) by (simp add: wf_index_def)
  have btc: "\<exists>c. GetNextWorkRequiredBTC H p t params = Inr c \<and> bounded_bits params c"
    by (rule GetNextWorkRequiredBTC_total [OF assms(1,2)]) (rule assms(4))
  have s: "0 < nPowTargetSpacing params" "nPowTargetSpacing params < 2 ^ 25" using assms(2) by (simp_all add: good_params_def)
  have "\<exists>c. GetCompact False (capped params (bu_mul32 (fst (SetCompact (bi_nBits (H p)))) 10)) = Inr c \<and> bounded_bits params c"
    using GetCompact_capped [of "bu_mul32 (fst (SetCompact (bi_nBits (H p)))) 10" params] by (metis length_SetCompact length_mul(2))
  then show ?thesis
    using GetCompact_limit [of params] btc
      KimotoGravityWell_total [OF H assms(3), of fl params] DarkGravityWave_total [OF H s, of p]
    by (simp add: GetNextWorkRequired_def Let_def capped_def [symmetric])
qed

theorem GetNextWorkRequired_bounded_witness:
  "\<exists>c. GetNextWorkRequired \<lparr>seconds_min = \<lambda>t. 2160, beyond_horizon = \<lambda>n t a. t < a\<rparr> pow_chain (Some 20000) 3000150 main_pow = Inr c
     \<and> bounded_bits main_pow c"
proof (rule GetNextWorkRequired_bounded [OF pow_chain_wf(1)])
  show "good_params main_pow" by (simp add: good_params_def main_pow_def)
  show "bi_height (pow_chain 20000) < 2 ^ 31 - 1" by (simp add: pow_chain_def)
qed (rule pow_chain_bounded)

theorem DarkGravityWave_bounds_witness:
  "\<exists>c v. DarkGravityWave pow_chain (Some 40000) main_pow = Inr c \<and> 0x0ffff0 * 2 ^ 216 div 3 \<le> v \<and> v \<le> 2 ^ 236 - 1
    \<and> compact_num c \<le> v \<and> (v - compact_num c) * 2 ^ 15 \<le> v"
proof -
  have lim: "unat (powLimit main_pow) = 2 ^ 236 - 1" by (simp add: main_pow_def)
  have "\<exists>c v. DarkGravityWave pow_chain (Some 40000) main_pow = Inr c
    \<and> min (0x0ffff0 * 2 ^ 216 div 3) (unat (powLimit main_pow)) \<le> v \<and> v \<le> min (3 * (0x0ffff0 * 2 ^ 216)) (unat (powLimit main_pow))
    \<and> compact_num c \<le> v \<and> (v - compact_num c) * 2 ^ 15 \<le> v"
  proof (rule DarkGravityWave_bounds [OF pow_chain_wf(2)])
    show "nPastBlocks \<le> bi_height (pow_chain 40000)" by (simp add: pow_chain_def nPastBlocks_def)
    show "0x0ffff0 * 2 ^ 216 \<le> compact_num (bi_nBits (pow_chain q)) \<and> compact_num (bi_nBits (pow_chain q)) \<le> 0x0ffff0 * 2 ^ 216" for q
      unfolding pow_chain_num [symmetric] by (simp add: pow_chain_def)
  qed (simp_all add: main_pow_def)
  then show ?thesis unfolding lim by simp
qed

end
