(* ===== verification/Spec2Isabelle.thy ===== *)
theory Spec2Isabelle
  imports Prelude Streams Serialize BitSets Transaction TxCheck Script Hashing Interpreter
    ScriptFlags ScriptSafety Coins Compressor Chain SignatureHash RangesSet AssetLock
    Subsidy LruCache CreditPool MoneyStr TxVerify Sha256D64 Merkle VersionBits Arith256 Pow
begin

text \<open>
  A verification library for Dash Core.

  Dash Core is a full node: it receives serialized transactions and blocks, checks them without context, checks
  the scripts of the inputs against the outputs they spend, keeps the set of unspent outputs in a cache over a
  database, keeps the tree of block headers and the active chain through it, and enforces the consensus
  rules that are particular to Dash (special transactions, the credit pool, the shares of the block reward). The
  library models this consensus-critical path; file names below are relative to \<open>src/\<close> of the repository.

  \<^bold>\<open>Conventions.\<close> Machine integers whose width matters are words; amounts (\<open>CAmount\<close>) are integers within
  the 64-bit range. A class is a record and a method a function from the old state to the result and the new state.
  An exception, a failed \<open>assert\<close> or a rejection is a value: \<open>'a res\<close> is an error message or a result,
  \<open>eval_stop\<close> of the interpreter distinguishes script errors, exceptions and assertions, and
  \<open>validation_state\<close> is the state object of the checks. Pointers to block index entries are numbers into a heap.
  Third-party code (libsecp256k1, the BLS library), disk and network are parameters; what is assumed of
  them are named predicates such as \<open>bls_canonical\<close>.

  \<^bold>\<open>Bytes and formats.\<close>
  \<^item> \<open>Prelude\<close>: results, little-endian strings, generic lemmas.
  \<^item> \<open>Streams\<close> (\<open>streams.h\<close>): \<open>DataStream\<close>, \<open>SpanReader\<close>, \<open>CVectorWriter\<close>. The locale \<open>byte_source\<close> of
    \<open>Serialize\<close> is the contract of a stream that is read; both readers interpret it.
  \<^item> \<open>Serialize\<close>, \<open>BitSets\<close> (\<open>serialize.h\<close>): integers, CompactSize, VarInt, vectors, bit sets, with round trips
    and the converse, that only canonical encodings are accepted.
  \<^item> \<open>Compressor\<close> (\<open>compressor.h\<close>, \<open>compressor.cpp\<close>): the format of coins on disk, with its round trip.
  \<^item> \<open>Hashing\<close> (\<open>crypto/\<close>, \<open>hash.h\<close>): SHA-256, SHA-1, RIPEMD-160 with the buffering of \<open>Write\<close>; the locale
    \<open>block_hash\<close> proves for all three that the digest does not depend on how the data is split.

  \<^bold>\<open>Transactions and scripts.\<close>
  \<^item> \<open>Transaction\<close> (\<open>primitives/transaction.h\<close>), \<open>TxCheck\<close> (\<open>consensus/tx_check.cpp\<close>): data, wire format and
    \<open>CheckTransaction\<close>, which accepts exactly the transactions of a declarative specification. What unserializes is
    well formed and, unless its version is negative, was read from its own serialization.
  \<^item> \<open>Script\<close> (\<open>script/script.h\<close>): numbers, pushes, the decoder, signature operation counts.
  \<^item> \<open>Interpreter\<close> (\<open>script/interpreter.cpp\<close>): one definition per opcode, \<open>EvalScript\<close>, \<open>VerifyScript\<close>.
    A failed assertion of the signature checker is an error value that the interpreter passes on. \<open>ScriptSafety\<close>
    shows that no other assertion fails, that the checker of a transaction fails none for an input in range, and that
    the limits hold; \<open>ScriptFlags\<close> that flags only restrict.
  \<^item> \<open>SignatureHash\<close> (\<open>script/interpreter.cpp\<close>): \<open>SignatureHash\<close> and the signature checker, equal to the older
    formulation of \<open>test/sighash_tests.cpp\<close>, and what a signature with \<open>SIGHASH_ALL\<close> commits to.

  \<^item> \<open>TxVerify\<close> (\<open>consensus/tx_verify.cpp\<close>), \<open>MoneyStr\<close> (\<open>util/moneystr.cpp\<close>): lock times, signature operation
    counts and \<open>CheckTxInputs\<close> over the coins cache. No transaction but a coinbase or an asset unlock creates money; the two lock time opcodes
    together with \<open>IsFinalTx\<close> and \<open>SequenceLocks\<close> enforce the lock they name.

  \<^bold>\<open>State.\<close>
  \<^item> \<open>Coins\<close> (\<open>coins.h\<close>, \<open>coins.cpp\<close>): \<open>CCoinsViewCache\<close> over any view with the contract \<open>coins_view\<close>; every
    sequence of operations refines a map of unspent coins, and the cache meets the contract again.
  \<^item> \<open>Chain\<close> (\<open>chain.h\<close>, \<open>chain.cpp\<close>): the skip list, \<open>GetAncestor\<close>, forks, locators and \<open>CChain\<close>.
  \<^item> \<open>Sha256D64\<close> (\<open>crypto/sha256.cpp\<close>), \<open>Merkle\<close> (\<open>consensus/merkle.cpp\<close>, \<open>merkleblock.cpp\<close>): the specialised double
    hash, the Merkle root and partial Merkle trees. The root binds the transactions of a block unless mutation
    is reported, hashes collide or an id is an inner hash of the other tree; a partial tree survives its round trip and,
    for a block of the size it claims, proves only transactions of the block.

  \<^bold>\<open>Proof of work.\<close>
  \<^item> \<open>Arith256\<close> (\<open>arith_uint256.h\<close>, \<open>arith_uint256.cpp\<close>): numbers of 256 bits as eight limbs. Every operator is the
    arithmetic of 256-bit words; the compact encoding of a target rounds down and is stable.
  \<^item> \<open>Pow\<close> (\<open>pow.cpp\<close>, \<open>chain.cpp\<close>): \<open>CheckProofOfWork\<close>, \<open>GetBlockProof\<close> and \<open>GetNextWorkRequired\<close> with its three
    algorithms. The required target never exceeds the limit of the network, and no step fails; dark
    gravity wave changes the target by at most a factor of three. The results of the floating-point formulas of
    \<open>KimotoGravityWell\<close> are arguments (\<open>kgw_floats\<close>), and the theorems hold for all of them.

  \<^bold>\<open>Dash consensus rules.\<close>
  \<^item> \<open>Subsidy\<close> (\<open>validation.cpp\<close>, \<open>masternode/payments.cpp\<close>): the subsidy and its shares.
  \<^item> \<open>VersionBits\<close> (\<open>versionbits.cpp\<close>): the state of soft fork deployments. The cache does not change it, it only moves
    forward along a chain, a deployment past its start and masternode signal is decided after its timeout, and new blocks signal those in progress.
  \<^item> \<open>RangesSet\<close> (\<open>util/ranges_set.cpp\<close>), \<open>LruCache\<close> (\<open>unordered_lru_cache.h\<close>): containers, each with the
    contract its clients use (\<open>number_set\<close>, \<open>lossy_map\<close>).
  \<^item> \<open>AssetLock\<close> (\<open>evo/assetlocktx.cpp\<close>, \<open>evo/specialtx.h\<close>): payloads and checks of asset locks and unlocks.
  \<^item> \<open>CreditPool\<close> (\<open>evo/creditpool.cpp\<close>, \<open>evo/cbtx.h\<close>, \<open>evo/specialtxman.cpp\<close>): the pool after a block and its
    caches, the changes of a block. An accepted block keeps the pool solvent and respects the
    limits; the caches do not change what is returned. As long as no block has used the index 2^64 - 1, which
    \<open>CRangesSet\<close> cannot hold and no check excludes, no index is used twice and no assertion fails;
    \<open>largest_index_unlocks_again\<close> shows what happens otherwise.

  \<^bold>\<open>Bounds and fuel.\<close> Loops that consume their input are structural or have a measure. Walks over the block
  index take the height as fuel; the lemmas show that it suffices on every linked index (\<open>linked\<close>,
  \<open>wf_index\<close>): \<open>GetAncestor\<close>, \<open>FindFork\<close>, \<open>GetLocator\<close>, \<open>GetCreditPool\<close> and the difficulty algorithms return
  and never run out of it.

  \<^bold>\<open>Not modelled.\<close> The network, RPC, wallet and user interface, the databases, the memory pool, the masternode list
  and the quorum protocols, and the third-party cryptography; threads and locks are left out, the modelled
  methods run under the lock of their object. Log output is left out. The hash functions are the portable
  implementations, not the SIMD variants that are selected at run time.
\<close>

end
